(* ===== verification/OS_Prelude.thy ===== *)
theory OS_Prelude
  imports Main "HOL-Library.Word"
begin

text \<open>
  What every component of the kernel model shares: the machine integers of lib/stdint.h, the
  ways in which a C function of the kernel can fail to return (a failed ASSERT, a PANIC, a page
  fault, an endless loop, a switch to another thread), the sequencing of statements that may
  end so, and generic lemmas on words and lists.
\<close>

unbundle bit_operations_syntax

section \<open>Machine integers\<close>

type_synonym u8 = "8 word"
type_synonym u16 = "16 word"
type_synonym u32 = "32 word"

abbreviation (input) NULL :: u32 where "NULL \<equiv> 0"

section \<open>How a function may end\<close>

text \<open>
  \<open>Inr x\<close> is a normal return with result \<open>x\<close>. Everything else is a value of
  \<open>'s stop\<close>: ASSERT and PANIC of kernel/debug.h end in panic_spin, which never returns; a
  load or store through an unmapped virtual address ends in general_intr_handler, which never
  returns; \<open>Switched s\<close> says that switch_to has handed the processor to another thread, with
  the machine in state \<open>s\<close>, so that the call has not returned yet; \<open>Diverges\<close> is a loop that
  never ends.
\<close>

datatype 's stop =
    Assert_failed string
  | Panicked string
  | Page_fault u32
  | Divide_error
  | Overrun string
  | Diverges
  | Switched 's

type_synonym ('s, 'a) res = "'s stop + 'a"

fun bindR :: "('s, 'a) res \<Rightarrow> ('a \<Rightarrow> ('s, 'b) res) \<Rightarrow> ('s, 'b) res" where
  "bindR (Inl e) f = Inl e"
| "bindR (Inr x) f = f x"

definition assertR :: "bool \<Rightarrow> string \<Rightarrow> ('s, 'a) res \<Rightarrow> ('s, 'a) res" where
  "assertR c msg k = (if c then k else Inl (Assert_failed msg))"

text \<open>The result of a loop that is a \<^theory_text>\<open>partial_function\<close>: \<open>None\<close> is an endless loop.\<close>

fun loopR :: "'a option \<Rightarrow> ('s, 'a) res" where
  "loopR None = Inl Diverges"
| "loopR (Some x) = Inr x"

fun joinR :: "('s, 'a) res option \<Rightarrow> ('s, 'a) res" where
  "joinR None = Inl Diverges"
| "joinR (Some r) = r"

definition no_crash :: "('s, 'a) res \<Rightarrow> bool" where
  "no_crash r = (case r of Inr _ \<Rightarrow> True | Inl (Switched _) \<Rightarrow> True | Inl _ \<Rightarrow> False)"

lemma bindR_Inr_iff: "bindR r f = Inr y \<longleftrightarrow> (\<exists>x. r = Inr x \<and> f x = Inr y)"
  by (cases r) auto

lemma bindR_assoc: "bindR (bindR r f) g = bindR r (\<lambda>x. bindR (f x) g)"
  by (cases r) auto

lemma assertR_True [simp]: "assertR True msg k = k"
  by (simp add: assertR_def)

lemma assertR_False [simp]: "assertR False msg k = Inl (Assert_failed msg)"
  by (simp add: assertR_def)

lemma assertR_Inr_iff: "assertR c msg k = Inr y \<longleftrightarrow> c \<and> k = Inr y"
  by (simp add: assertR_def)

lemma bindR_assertR [simp]: "bindR (assertR c msg k) f = assertR c msg (bindR k f)"
  by (simp add: assertR_def)

lemma loopR_Inr_iff: "loopR r = Inr x \<longleftrightarrow> r = Some x"
  by (cases r) auto

lemma joinR_Inr_iff: "joinR r = Inr x \<longleftrightarrow> r = Some (Inr x)"
  by (cases r) auto

lemma no_crash_simps [simp]:
  "no_crash (Inr x)" "no_crash (Inl (Switched s))"
  "\<not> no_crash (Inl (Assert_failed m))" "\<not> no_crash (Inl (Panicked m))"
  "\<not> no_crash (Inl (Page_fault a))" "\<not> no_crash (Inl Divide_error)"
  "\<not> no_crash (Inl (Overrun m))" "\<not> no_crash (Inl Diverges)"
  by (simp_all add: no_crash_def)

section \<open>Words\<close>

named_theorems word_nat \<open>word comparisons read as comparisons of natural numbers\<close>

lemmas word_nat_basic [word_nat] = word_less_nat_alt word_le_nat_alt

lemma unat_u32_bound: "unat (x :: u32) < 4294967296"
  using unsigned_less [of x] by simp

lemma unat_u8_bound: "unat (b :: u8) < 256"
  using unsigned_less [of b] by simp

lemma u32_eqI: "unat (x :: u32) = unat y \<Longrightarrow> x = y"
  by (simp add: word_unat_eq_iff)

lemma unat_Suc_u32:
  assumes "(i :: u32) < n"
  shows "unat (i + 1) = Suc (unat i)"
proof -
  from assms have "unat i < unat n" by (simp add: word_less_nat_alt)
  with unat_u32_bound [of n] show ?thesis
    by (simp add: unat_plus_if')
qed

lemma unat_add_u32:
  "unat (a :: u32) + unat b < 4294967296 \<Longrightarrow> unat (a + b) = unat a + unat b"
  by (simp add: unat_plus_if')

lemma unat_add_of_nat_u32:
  assumes "unat (a :: u32) + n < 4294967296"
  shows "unat (a + of_nat n) = unat a + n"
proof -
  have "unat (of_nat n :: u32) = n" using assms by (simp add: unat_of_nat)
  with assms show ?thesis by (simp add: unat_add_u32)
qed

lemma unat_mult_u32:
  "unat (a :: u32) * unat b < 4294967296 \<Longrightarrow> unat (a * b) = unat a * unat b"
  by (simp add: unat_word_ariths)

lemma unat_diff_u32: "b \<le> a \<Longrightarrow> unat ((a :: u32) - b) = unat a - unat b"
  by (simp add: unat_sub)

section \<open>Lists\<close>

lemma split_list_hd_snoc: "ys \<noteq> [] \<Longrightarrow> \<exists>zs y. ys = zs @ [y]"
  by (metis append_butlast_last_id)

end
