(* ===== verification/DList.thy ===== *)
theory DList
  imports OS_Prelude
begin

text \<open>
  The intrusive doubly linked lists of lib/kernel/list.c and list.h, on the heap of list
  nodes. A struct list_elem is a node at an address; a struct list at address \<open>l\<close> is the node
  head at \<open>l\<close> and the node tail at \<open>l + 8\<close>. The abstraction \<open>dl_family h F\<close> says that the heap
  holds, for every list address of the map \<open>F\<close>, a well linked list with exactly the elements
  \<open>F\<close> names, and that no node lies in two lists. Each operation of list.c is shown to act on \<open>F\<close>
  as the list operation it is meant to be. The locale \<open>intrusive_lists\<close> is that contract, with
  the derived facts that the scheduler, the semaphores and the allocator use.
\<close>

section \<open>Nodes and raw operations\<close>

record list_elem =
  prev_ptr :: u32
  next_ptr :: u32

type_synonym lheap = "u32 \<Rightarrow> list_elem"

definition tail_of :: "u32 \<Rightarrow> u32" where
  "tail_of plist = plist + 8"

definition set_prev :: "lheap \<Rightarrow> u32 \<Rightarrow> u32 \<Rightarrow> lheap" where
  "set_prev h p v = h(p := (h p)\<lparr>prev_ptr := v\<rparr>)"

definition set_next :: "lheap \<Rightarrow> u32 \<Rightarrow> u32 \<Rightarrow> lheap" where
  "set_next h p v = h(p := (h p)\<lparr>next_ptr := v\<rparr>)"

lemma set_prev_sel [simp]:
  "prev_ptr (set_prev h p v a) = (if a = p then v else prev_ptr (h a))"
  "next_ptr (set_prev h p v a) = next_ptr (h a)"
  by (simp_all add: set_prev_def)

lemma set_next_sel [simp]:
  "next_ptr (set_next h p v a) = (if a = p then v else next_ptr (h a))"
  "prev_ptr (set_next h p v a) = prev_ptr (h a)"
  by (simp_all add: set_next_def)

definition dl_init :: "lheap \<Rightarrow> u32 \<Rightarrow> lheap" where
  "dl_init h l =
     (let h1 = set_prev h l NULL;
          h2 = set_next h1 l (tail_of l);
          h3 = set_prev h2 (tail_of l) l
      in set_next h3 (tail_of l) NULL)"

definition dl_insert_before :: "lheap \<Rightarrow> u32 \<Rightarrow> u32 \<Rightarrow> lheap" where
  "dl_insert_before h before elem =
     (let h1 = set_next h (prev_ptr (h before)) elem;
          h2 = set_next h1 elem before;
          h3 = set_prev h2 elem (prev_ptr (h2 before))
      in set_prev h3 before elem)"

definition dl_remove :: "lheap \<Rightarrow> u32 \<Rightarrow> lheap" where
  "dl_remove h pelem =
     (let h1 = set_next h (prev_ptr (h pelem)) (next_ptr (h pelem))
      in set_prev h1 (next_ptr (h1 pelem)) (prev_ptr (h1 pelem)))"

definition dl_push :: "lheap \<Rightarrow> u32 \<Rightarrow> u32 \<Rightarrow> lheap" where
  "dl_push h plist elem = dl_insert_before h (next_ptr (h plist)) elem"

definition dl_append :: "lheap \<Rightarrow> u32 \<Rightarrow> u32 \<Rightarrow> lheap" where
  "dl_append h plist elem = dl_insert_before h (tail_of plist) elem"

definition dl_first :: "lheap \<Rightarrow> u32 \<Rightarrow> u32" where
  "dl_first h plist = next_ptr (h plist)"

definition dl_empty :: "lheap \<Rightarrow> u32 \<Rightarrow> bool" where
  "dl_empty h plist \<longleftrightarrow> next_ptr (h plist) = tail_of plist"

text \<open>
  The three loops of list.c follow next pointers until they meet the tail. On a corrupted list
  they need not end, so they are partial functions; \<open>None\<close> is the endless loop.
\<close>

partial_function (option) elem_find_loop :: "lheap \<Rightarrow> u32 \<Rightarrow> u32 \<Rightarrow> u32 \<Rightarrow> bool option" where
  "elem_find_loop h t obj p =
     (if p \<noteq> t
      then if p = obj then Some True else elem_find_loop h t obj (next_ptr (h p))
      else Some False)"

partial_function (option) list_len_loop :: "lheap \<Rightarrow> u32 \<Rightarrow> u32 \<Rightarrow> u32 \<Rightarrow> u32 option" where
  "list_len_loop h t p n =
     (if p \<noteq> t then list_len_loop h t (next_ptr (h p)) (n + 1) else Some n)"

partial_function (option) list_traversal_loop ::
  "lheap \<Rightarrow> u32 \<Rightarrow> (u32 \<Rightarrow> u32 \<Rightarrow> bool) \<Rightarrow> u32 \<Rightarrow> u32 \<Rightarrow> u32 option" where
  "list_traversal_loop h t func arg p =
     (if p \<noteq> t
      then if func p arg then Some p else list_traversal_loop h t func arg (next_ptr (h p))
      else Some NULL)"

definition dl_find :: "lheap \<Rightarrow> u32 \<Rightarrow> u32 \<Rightarrow> bool option" where
  "dl_find h plist obj = elem_find_loop h (tail_of plist) obj (next_ptr (h plist))"

definition list_len :: "lheap \<Rightarrow> u32 \<Rightarrow> u32 option" where
  "list_len h plist = list_len_loop h (tail_of plist) (next_ptr (h plist)) 0"

definition list_traversal :: "lheap \<Rightarrow> u32 \<Rightarrow> (u32 \<Rightarrow> u32 \<Rightarrow> bool) \<Rightarrow> u32 \<Rightarrow> u32 option" where
  "list_traversal h plist func arg =
     (if dl_empty h plist then Some NULL
      else list_traversal_loop h (tail_of plist) func arg (next_ptr (h plist)))"

section \<open>Well linked segments\<close>

text \<open>
  \<open>dl_path h p xs t\<close>: from the node \<open>p\<close> the next pointers run through exactly \<open>xs\<close> and reach
  \<open>t\<close>, and every prev pointer on the way points back.
\<close>

fun dl_path :: "lheap \<Rightarrow> u32 \<Rightarrow> u32 list \<Rightarrow> u32 \<Rightarrow> bool" where
  "dl_path h p [] t \<longleftrightarrow> next_ptr (h p) = t \<and> prev_ptr (h t) = p"
| "dl_path h p (x # xs) t \<longleftrightarrow> next_ptr (h p) = x \<and> prev_ptr (h x) = p \<and> dl_path h x xs t"

lemma dl_path_append:
  "dl_path h p (xs @ y # ys) t \<longleftrightarrow> dl_path h p xs y \<and> dl_path h y ys t"
  by (induction xs arbitrary: p) auto

lemma dl_path_frame:
  assumes "\<And>a. a \<in> set (p # xs) \<Longrightarrow> next_ptr (h' a) = next_ptr (h a)"
    and "\<And>a. a \<in> set (xs @ [t]) \<Longrightarrow> prev_ptr (h' a) = prev_ptr (h a)"
  shows "dl_path h' p xs t = dl_path h p xs t"
  using assms by (induction xs arbitrary: p) auto

lemma dl_path_next: "dl_path h p xs t \<Longrightarrow> next_ptr (h p) = hd (xs @ [t])"
  by (cases xs) auto

lemma dl_path_prev: "dl_path h p xs t \<Longrightarrow> prev_ptr (h t) = last (p # xs)"
  by (induction xs arbitrary: p) auto

lemma dl_path_insert:
  assumes path: "dl_path h p xs t"
    and dist: "distinct (p # xs @ [t])" and new: "e \<notin> set (p # xs @ [t])"
  shows "dl_path (dl_insert_before h t e) p (xs @ [e]) t"
proof -
  let ?h = "dl_insert_before h t e"
  have prev: "prev_ptr (h t) = last (p # xs)" using path by (rule dl_path_prev)
  show ?thesis
  proof (cases xs rule: rev_cases)
    case Nil
    with assms prev show ?thesis by (auto simp: dl_insert_before_def Let_def)
  next
    case (snoc zs q)
    with path have pq: "dl_path h p zs q" by (simp add: dl_path_append)
    have "dl_path ?h p zs q = dl_path h p zs q"
      by (rule dl_path_frame)
        (use dist new prev snoc in \<open>auto simp: dl_insert_before_def Let_def\<close>)
    with pq have "dl_path ?h p zs q" by simp
    moreover have "dl_path ?h q [e] t"
      using dist new prev snoc by (auto simp: dl_insert_before_def Let_def)
    ultimately show ?thesis using snoc by (simp add: dl_path_append)
  qed
qed

lemma dl_insert_before_untouched:
  "a \<noteq> prev_ptr (h t) \<Longrightarrow> a \<noteq> t \<Longrightarrow> a \<noteq> e \<Longrightarrow> dl_insert_before h t e a = h a"
  by (simp add: dl_insert_before_def Let_def set_next_def set_prev_def)

lemma dl_remove_untouched:
  "a \<noteq> prev_ptr (h e) \<Longrightarrow> a \<noteq> next_ptr (h e) \<Longrightarrow> a \<noteq> e \<Longrightarrow> dl_remove h e a = h a"
  by (auto simp: dl_remove_def Let_def set_next_def set_prev_def)

lemma dl_path_remove:
  assumes before: "dl_path h p xs e" and after: "dl_path h e ys t"
    and dist: "distinct (p # xs @ e # ys @ [t])"
  shows "dl_path (dl_remove h e) p (xs @ ys) t"
proof -
  let ?h = "dl_remove h e"
  define q n where "q = last (p # xs)" and "n = hd (ys @ [t])"
  have q: "prev_ptr (h e) = q" using dl_path_prev [OF before] by (simp add: q_def)
  have n: "next_ptr (h e) = n" using dl_path_next [OF after] by (simp add: n_def)
  have q_in: "q \<in> set (p # xs)" unfolding q_def by (rule last_in_set) simp
  have n_in: "n \<in> set (ys @ [t])" unfolding n_def by (rule hd_in_set) simp
  have "e \<noteq> q" "e \<noteq> n" using dist q_in n_in by auto
  then have nx: "next_ptr (?h a) = (if a = q then n else next_ptr (h a))"
    and pv: "prev_ptr (?h a) = (if a = n then q else prev_ptr (h a))" for a
    using q n by (auto simp: dl_remove_def Let_def)
  have right: "dl_path ?h q ys t"
  proof (cases ys)
    case Nil
    then show ?thesis by (simp add: nx pv n_def)
  next
    case (Cons m ms)
    with after have "dl_path h m ms t" by simp
    moreover have "dl_path ?h m ms t = dl_path h m ms t"
      by (rule dl_path_frame) (use dist Cons q_in in \<open>auto simp: nx pv n_def\<close>)
    ultimately show ?thesis using Cons by (simp add: nx pv n_def)
  qed
  show ?thesis
  proof (cases xs rule: rev_cases)
    case Nil
    with right show ?thesis by (simp add: q_def)
  next
    case (snoc zs z)
    then have zq: "z = q" by (simp add: q_def)
    with before snoc have "dl_path h p zs q" by (simp add: dl_path_append)
    moreover have "dl_path ?h p zs q = dl_path h p zs q"
      by (rule dl_path_frame)
        (use dist snoc zq n_in in \<open>auto simp: nx pv\<close>)
    ultimately show ?thesis using right snoc zq by (simp add: dl_path_append)
  qed
qed

section \<open>One list, and a family of lists\<close>

definition dl_nodes :: "u32 \<Rightarrow> u32 list \<Rightarrow> u32 list" where
  "dl_nodes l xs = l # xs @ [tail_of l]"

definition dl_list :: "lheap \<Rightarrow> u32 \<Rightarrow> u32 list \<Rightarrow> bool" where
  "dl_list h l xs \<longleftrightarrow> dl_path h l xs (tail_of l) \<and> distinct (dl_nodes l xs)"

definition fam_nodes :: "(u32 \<Rightarrow> u32 list option) \<Rightarrow> u32 set" where
  "fam_nodes F = {a. \<exists>l xs. F l = Some xs \<and> a \<in> set (dl_nodes l xs)}"

definition dl_family :: "lheap \<Rightarrow> (u32 \<Rightarrow> u32 list option) \<Rightarrow> bool" where
  "dl_family h F \<longleftrightarrow>
     (\<forall>l xs. F l = Some xs \<longrightarrow> dl_list h l xs) \<and>
     (\<forall>l l' xs xs'. F l = Some xs \<longrightarrow> F l' = Some xs' \<longrightarrow> l \<noteq> l' \<longrightarrow>
        set (dl_nodes l xs) \<inter> set (dl_nodes l' xs') = {})"

lemma tail_of_neq [simp]: "tail_of l \<noteq> l" "l \<noteq> tail_of l"
  by (simp_all add: tail_of_def)

lemma fam_nodes_empty [simp]: "fam_nodes Map.empty = {}"
  by (simp add: fam_nodes_def)

lemma fam_nodes_upd:
  "fam_nodes (F(l \<mapsto> xs)) = set (dl_nodes l xs) \<union> fam_nodes (F(l := None))"
  by (auto simp: fam_nodes_def split: if_splits)

lemma fam_nodes_mono: "fam_nodes (F(l := None)) \<subseteq> fam_nodes F"
  by (auto simp: fam_nodes_def split: if_splits)

lemma dl_familyD:
  assumes "dl_family h F" "F l = Some xs"
  shows "dl_list h l xs"
  using assms by (simp add: dl_family_def)

lemma dl_family_disjoint:
  assumes "dl_family h F" "F l = Some xs" "F l' = Some xs'" "l \<noteq> l'"
    and "a \<in> set (dl_nodes l xs)"
  shows "a \<notin> set (dl_nodes l' xs')"
  using assms unfolding dl_family_def by blast

lemma dl_list_frame:
  assumes "\<And>a. a \<in> set (dl_nodes l xs) \<Longrightarrow> h' a = h a"
  shows "dl_list h' l xs = dl_list h l xs"
  unfolding dl_list_def
  by (subst dl_path_frame [of l xs h' h]) (use assms in \<open>auto simp: dl_nodes_def\<close>)

lemma dl_family_update:
  assumes fam: "dl_family h F"
    and new: "dl_list h' l xs"
    and fresh: "\<And>l' xs' a. l' \<noteq> l \<Longrightarrow> F l' = Some xs' \<Longrightarrow> a \<in> set (dl_nodes l' xs') \<Longrightarrow>
        a \<notin> set (dl_nodes l xs) \<and> h' a = h a"
  shows "dl_family h' (F(l \<mapsto> xs))"
proof -
  have keep: "dl_list h' l' xs'" if "l' \<noteq> l" "F l' = Some xs'" for l' xs'
    using dl_familyD [OF fam that(2)] dl_list_frame [of l' xs' h' h] fresh [OF that] by simp
  show ?thesis
    unfolding dl_family_def
  proof (intro conjI allI impI)
    fix l1 ys assume "(F(l \<mapsto> xs)) l1 = Some ys"
    then show "dl_list h' l1 ys" using new keep by (auto split: if_splits)
  next
    fix l1 l2 ys zs
    assume l1: "(F(l \<mapsto> xs)) l1 = Some ys" and l2: "(F(l \<mapsto> xs)) l2 = Some zs" and "l1 \<noteq> l2"
    consider "l1 = l" | "l2 = l" | "l1 \<noteq> l" "l2 \<noteq> l" by blast
    then show "set (dl_nodes l1 ys) \<inter> set (dl_nodes l2 zs) = {}"
    proof cases
      case 1
      with l1 l2 \<open>l1 \<noteq> l2\<close> fresh [of l2 zs] show ?thesis by auto
    next
      case 2
      with l1 l2 \<open>l1 \<noteq> l2\<close> fresh [of l1 ys] show ?thesis by auto
    next
      case 3
      with l1 l2 \<open>l1 \<noteq> l2\<close> fam show ?thesis by (simp add: dl_family_def)
    qed
  qed
qed

lemma dl_family_insert:
  assumes fam: "dl_family h F" and l: "F l = Some (xs @ ys)"
    and b: "b = hd (ys @ [tail_of l])" and e: "e \<notin> fam_nodes F"
  shows "dl_family (dl_insert_before h b e) (F(l \<mapsto> xs @ e # ys))"
proof (rule dl_family_update [OF fam])
  let ?h = "dl_insert_before h b e"
  have list: "dl_list h l (xs @ ys)" using fam l by (rule dl_familyD)
  then have dist: "distinct (l # xs @ ys @ [tail_of l])"
    by (simp add: dl_list_def dl_nodes_def)
  have "e \<notin> set (dl_nodes l (xs @ ys))" using e l unfolding fam_nodes_def by blast
  then have e_new: "e \<notin> set (l # xs @ ys @ [tail_of l])" by (simp add: dl_nodes_def)
  have split: "dl_path h l xs b \<and> (ys = [] \<or> (\<exists>zs. ys = b # zs \<and> dl_path h b zs (tail_of l)))"
    using list b by (cases ys) (auto simp: dl_list_def dl_path_append)
  have bq: "prev_ptr (h b) = last (l # xs)" using split dl_path_prev by blast
  have q_in: "last (l # xs) \<in> set (l # xs)" by (rule last_in_set) simp
  have b_in: "b \<in> set (ys @ [tail_of l])" unfolding b by (rule hd_in_set) simp
  have left: "dl_path ?h l (xs @ [e]) b"
    by (rule dl_path_insert) (use split dist e_new b_in in auto)
  have "dl_path ?h l (xs @ e # ys) (tail_of l)"
  proof (cases ys)
    case Nil
    with left b show ?thesis by simp
  next
    case (Cons y zs)
    with b split have path: "dl_path h b zs (tail_of l)" and yb: "y = b" by auto
    have "dl_path ?h b zs (tail_of l) = dl_path h b zs (tail_of l)"
      by (rule dl_path_frame)
        (use dist e_new Cons yb bq q_in in \<open>auto simp: dl_insert_before_def Let_def\<close>)
    with path have "dl_path ?h b zs (tail_of l)" by simp
    with left Cons yb show ?thesis using dl_path_append [of ?h l "xs @ [e]" b zs] by simp
  qed
  then show "dl_list ?h l (xs @ e # ys)"
    using dist e_new by (auto simp: dl_list_def dl_nodes_def)
  fix l' xs' a
  assume other: "l' \<noteq> l" "F l' = Some xs'" "a \<in> set (dl_nodes l' xs')"
  then have "a \<notin> set (dl_nodes l (xs @ ys))"
    using dl_family_disjoint [OF fam other(2) l other(1,3)] by simp
  moreover have "a \<noteq> e" using e other by (auto simp: fam_nodes_def)
  ultimately show "a \<notin> set (dl_nodes l (xs @ e # ys)) \<and> ?h a = h a"
    using bq q_in b_in by (auto simp: dl_nodes_def intro!: dl_insert_before_untouched)
qed

lemma dl_family_remove:
  assumes fam: "dl_family h F" and l: "F l = Some (xs @ e # ys)"
  shows "dl_family (dl_remove h e) (F(l \<mapsto> xs @ ys))"
proof (rule dl_family_update [OF fam])
  have list: "dl_list h l (xs @ e # ys)" using fam l by (rule dl_familyD)
  then have dist: "distinct (l # xs @ e # ys @ [tail_of l])"
    and before: "dl_path h l xs e" and after: "dl_path h e ys (tail_of l)"
    by (simp_all add: dl_list_def dl_nodes_def dl_path_append)
  show "dl_list (dl_remove h e) l (xs @ ys)"
    using dl_path_remove [OF before after dist] dist by (simp add: dl_list_def dl_nodes_def)
  have "prev_ptr (h e) \<in> set (l # xs)"
    unfolding dl_path_prev [OF before] by (rule last_in_set) simp
  moreover have "next_ptr (h e) \<in> set (ys @ [tail_of l])"
    unfolding dl_path_next [OF after] by (rule hd_in_set) simp
  ultimately have touched: "{prev_ptr (h e), next_ptr (h e), e} \<subseteq> set (dl_nodes l (xs @ e # ys))"
    by (auto simp: dl_nodes_def)
  fix l' xs' a
  assume other: "l' \<noteq> l" "F l' = Some xs'" "a \<in> set (dl_nodes l' xs')"
  then have "a \<notin> set (dl_nodes l (xs @ e # ys))"
    using dl_family_disjoint [OF fam other(2) l other(1,3)] by simp
  with touched show "a \<notin> set (dl_nodes l (xs @ ys)) \<and> dl_remove h e a = h a"
    by (auto simp: dl_nodes_def intro!: dl_remove_untouched)
qed

lemma dl_family_init:
  assumes fam: "dl_family h (F(l := None))"
    and new: "l \<notin> fam_nodes (F(l := None))" "tail_of l \<notin> fam_nodes (F(l := None))"
  shows "dl_family (dl_init h l) (F(l \<mapsto> []))"
proof -
  have "dl_family (dl_init h l) ((F(l := None))(l \<mapsto> []))"
  proof (rule dl_family_update [OF fam])
    show "dl_list (dl_init h l) l []"
      by (simp add: dl_list_def dl_nodes_def dl_init_def Let_def)
    fix l' xs' a
    assume "l' \<noteq> l" "(F(l := None)) l' = Some xs'" "a \<in> set (dl_nodes l' xs')"
    then have "a \<in> fam_nodes (F(l := None))" by (auto simp: fam_nodes_def)
    with new have "a \<noteq> l" "a \<noteq> tail_of l" by auto
    then show "a \<notin> set (dl_nodes l []) \<and> dl_init h l a = h a"
      by (simp add: dl_nodes_def dl_init_def Let_def set_next_def set_prev_def)
  qed
  then show ?thesis by simp
qed

text \<open>A finite family, written out, is a family when its nodes are distinct and its paths are.\<close>

definition nodes_of :: "(u32 \<times> u32 list) list \<Rightarrow> u32 list" where
  "nodes_of ls = concat (map (\<lambda>(l, xs). dl_nodes l xs) ls)"

lemma dl_nodes_head [simp]: "l \<in> set (dl_nodes l xs)"
  by (simp add: dl_nodes_def)

lemma nodes_of_keys: "distinct (nodes_of ls) \<Longrightarrow> distinct (map fst ls)"
proof (induction ls)
  case (Cons p ls)
  obtain l xs where p: "p = (l, xs)" by (cases p)
  have "l \<notin> fst ` set ls"
  proof
    assume "l \<in> fst ` set ls"
    then obtain ys where "(l, ys) \<in> set ls" by auto
    then have "l \<in> set (nodes_of ls)" by (auto simp: nodes_of_def intro!: bexI [of _ "(l, ys)"])
    moreover have "set (dl_nodes l xs) \<inter> set (nodes_of ls) = {}"
      using Cons.prems p by (simp add: nodes_of_def)
    moreover have "l \<in> set (dl_nodes l xs)" by simp
    ultimately show False by blast
  qed
  with Cons p show ?case by (simp add: nodes_of_def)
qed simp

lemma nodes_of_disjoint:
  assumes "distinct (nodes_of ls)" "(l, xs) \<in> set ls" "(l', xs') \<in> set ls" "l \<noteq> l'"
  shows "set (dl_nodes l xs) \<inter> set (dl_nodes l' xs') = {}"
  using assms
proof (induction ls)
  case (Cons p ls)
  have sub: "set (dl_nodes k ys) \<subseteq> set (nodes_of ls)" if "(k, ys) \<in> set ls" for k ys
    using that by (force simp: nodes_of_def)
  obtain k ys where p: "p = (k, ys)" by (cases p)
  with Cons.prems(1) have "set (dl_nodes k ys) \<inter> set (nodes_of ls) = {}" "distinct (nodes_of ls)"
    by (simp_all add: nodes_of_def)
  with Cons.IH Cons.prems(2,3,4) p sub show ?case by (simp, blast)
qed simp

lemma dl_family_map_of:
  assumes dist: "distinct (nodes_of ls)"
    and paths: "list_all (\<lambda>(l, xs). dl_path h l xs (tail_of l)) ls"
  shows "dl_family h (map_of ls)"
proof -
  have key: "map_of ls l = Some xs \<longleftrightarrow> (l, xs) \<in> set ls" for l xs
    using nodes_of_keys [OF dist] by (rule map_of_eq_Some_iff)
  have "distinct (dl_nodes l xs)" if "(l, xs) \<in> set ls" for l xs
    using dist that by (auto simp: nodes_of_def distinct_concat_iff)
  with paths show ?thesis
    unfolding dl_family_def key
    by (auto simp: dl_list_def list_all_iff dest: nodes_of_disjoint [OF dist])
qed

lemma fam_nodes_map_of:
  assumes "distinct (nodes_of ls)"
  shows "fam_nodes (map_of ls) = set (nodes_of ls)"
proof -
  have "map_of ls l = Some xs \<longleftrightarrow> (l, xs) \<in> set ls" for l xs
    using nodes_of_keys [OF assms] by (rule map_of_eq_Some_iff)
  then show ?thesis by (force simp: fam_nodes_def nodes_of_def)
qed

section \<open>What the operations do to the lists\<close>

lemma dl_family_append:
  assumes "dl_family h F" "F l = Some xs" "e \<notin> fam_nodes F"
  shows "dl_family (dl_append h l e) (F(l \<mapsto> xs @ [e]))"
  using dl_family_insert [of h F l xs "[]" "tail_of l" e] assms by (simp add: dl_append_def)

lemma dl_family_push:
  assumes fam: "dl_family h F" and l: "F l = Some xs" and e: "e \<notin> fam_nodes F"
  shows "dl_family (dl_push h l e) (F(l \<mapsto> e # xs))"
proof -
  have "next_ptr (h l) = hd (xs @ [tail_of l])"
    using dl_familyD [OF fam l] by (auto simp: dl_list_def dl_path_next)
  then show ?thesis
    using dl_family_insert [of h F l "[]" xs _ e] assms by (simp add: dl_push_def)
qed

lemma dl_family_first:
  "dl_family h F \<Longrightarrow> F l = Some (x # xs) \<Longrightarrow> dl_first h l = x"
  by (drule (1) dl_familyD) (simp add: dl_list_def dl_first_def)

lemma dl_family_empty:
  assumes "dl_family h F" "F l = Some xs"
  shows "dl_empty h l \<longleftrightarrow> xs = []"
proof -
  have "next_ptr (h l) = hd (xs @ [tail_of l])" "tail_of l \<notin> set xs"
    using dl_familyD [OF assms] by (auto simp: dl_list_def dl_nodes_def dl_path_next)
  then show ?thesis by (cases xs) (auto simp: dl_empty_def)
qed

lemma elem_find_loop_path:
  "dl_path h p xs t \<Longrightarrow> t \<notin> set xs \<Longrightarrow>
    elem_find_loop h t obj (next_ptr (h p)) = Some (obj \<in> set xs)"
  by (induction xs arbitrary: p) (auto simp: elem_find_loop.simps)

lemma list_len_loop_path:
  "dl_path h p xs t \<Longrightarrow> t \<notin> set xs \<Longrightarrow>
    list_len_loop h t (next_ptr (h p)) n = Some (n + of_nat (length xs))"
  by (induction xs arbitrary: p n) (auto simp: list_len_loop.simps algebra_simps)

lemma list_traversal_loop_path:
  "dl_path h p xs t \<Longrightarrow> t \<notin> set xs \<Longrightarrow>
    list_traversal_loop h t func arg (next_ptr (h p)) =
      Some (case filter (\<lambda>x. func x arg) xs of [] \<Rightarrow> NULL | x # _ \<Rightarrow> x)"
  by (induction xs arbitrary: p) (auto simp: list_traversal_loop.simps)

lemma dl_list_tail_notin: "dl_list h l xs \<Longrightarrow> tail_of l \<notin> set xs"
  by (auto simp: dl_list_def dl_nodes_def)

lemma dl_family_find:
  assumes "dl_family h F" "F l = Some xs"
  shows "dl_find h l obj = Some (obj \<in> set xs)"
  using dl_familyD [OF assms] dl_list_tail_notin [OF dl_familyD [OF assms]]
  by (simp add: dl_find_def dl_list_def elem_find_loop_path)

lemma dl_family_len:
  assumes "dl_family h F" "F l = Some xs"
  shows "list_len h l = Some (of_nat (length xs))"
  using dl_familyD [OF assms] dl_list_tail_notin [OF dl_familyD [OF assms]]
    list_len_loop_path [of h l xs "tail_of l" 0]
  by (simp add: list_len_def dl_list_def)

lemma dl_family_traversal:
  assumes fam: "dl_family h F" and l: "F l = Some xs"
  shows "list_traversal h l func arg =
    Some (case filter (\<lambda>x. func x arg) xs of [] \<Rightarrow> NULL | x # _ \<Rightarrow> x)"
  using dl_familyD [OF fam l] dl_list_tail_notin [OF dl_familyD [OF fam l]]
    dl_family_empty [OF fam l]
  by (simp add: list_traversal_def dl_list_def list_traversal_loop_path)

section \<open>The list interface\<close>

text \<open>
  The contract the rest of the kernel relies on. The parameters are the operations of list.c
  on a state that holds lists, the laws say how each acts on the family of lists.
\<close>

locale intrusive_lists =
  fixes fam :: "'h \<Rightarrow> (u32 \<Rightarrow> u32 list option) \<Rightarrow> bool"
    and append_op :: "'h \<Rightarrow> u32 \<Rightarrow> u32 \<Rightarrow> 'h"
    and push_op :: "'h \<Rightarrow> u32 \<Rightarrow> u32 \<Rightarrow> 'h"
    and remove_op :: "'h \<Rightarrow> u32 \<Rightarrow> 'h"
    and first_op :: "'h \<Rightarrow> u32 \<Rightarrow> u32"
    and empty_op :: "'h \<Rightarrow> u32 \<Rightarrow> bool"
    and find_op :: "'h \<Rightarrow> u32 \<Rightarrow> u32 \<Rightarrow> bool option"
  assumes append_law: "fam h F \<Longrightarrow> F l = Some xs \<Longrightarrow> e \<notin> fam_nodes F \<Longrightarrow>
      fam (append_op h l e) (F(l \<mapsto> xs @ [e]))"
    and push_law: "fam h F \<Longrightarrow> F l = Some xs \<Longrightarrow> e \<notin> fam_nodes F \<Longrightarrow>
      fam (push_op h l e) (F(l \<mapsto> e # xs))"
    and remove_law: "fam h F \<Longrightarrow> F l = Some (xs @ e # ys) \<Longrightarrow>
      fam (remove_op h e) (F(l \<mapsto> xs @ ys))"
    and first_law: "fam h F \<Longrightarrow> F l = Some (x # xs) \<Longrightarrow> first_op h l = x"
    and empty_law: "fam h F \<Longrightarrow> F l = Some xs \<Longrightarrow> empty_op h l \<longleftrightarrow> xs = []"
    and find_law: "fam h F \<Longrightarrow> F l = Some xs \<Longrightarrow> find_op h l e = Some (e \<in> set xs)"
    and distinct_law: "fam h F \<Longrightarrow> F l = Some xs \<Longrightarrow> distinct (dl_nodes l xs)"
    and disjoint_law: "fam h F \<Longrightarrow> F l = Some xs \<Longrightarrow> F l' = Some xs' \<Longrightarrow> l \<noteq> l' \<Longrightarrow>
      set (dl_nodes l xs) \<inter> set (dl_nodes l' xs') = {}"
begin

lemma distinct_elems: "fam h F \<Longrightarrow> F l = Some xs \<Longrightarrow> distinct xs"
  by (drule (1) distinct_law) (simp add: dl_nodes_def)

lemma pop_law:
  assumes "fam h F" "F l = Some (x # xs)"
  shows "fam (remove_op h (first_op h l)) (F(l \<mapsto> xs))"
  using remove_law [of h F l "[]" x xs] first_law [of h F l x xs] assms by simp

lemma elem_in_one_list:
  assumes "fam h F" "F l = Some xs" "F l' = Some xs'" "e \<in> set xs" "e \<in> set xs'"
  shows "l = l'"
  using disjoint_law [OF assms(1,2,3)] assms(4,5) by (auto simp: dl_nodes_def)

lemma removed_fresh:
  assumes fam: "fam h F" and l: "F l = Some (xs @ e # ys)"
  shows "e \<notin> fam_nodes (F(l \<mapsto> xs @ ys))"
proof
  assume "e \<in> fam_nodes (F(l \<mapsto> xs @ ys))"
  then obtain l' zs where l': "(F(l \<mapsto> xs @ ys)) l' = Some zs" and e: "e \<in> set (dl_nodes l' zs)"
    by (auto simp: fam_nodes_def)
  show False
  proof (cases "l' = l")
    case True
    with l' e distinct_law [OF fam l] show False by (auto simp: dl_nodes_def)
  next
    case False
    with l' disjoint_law [OF fam l, of l' zs] e show False by (auto simp: dl_nodes_def)
  qed
qed

text \<open>Taking the first element of one list to the front of another, as sema_up does.\<close>

lemma pop_push_law:
  assumes fam: "fam h F" and l: "F l = Some (x # xs)" and l': "F l' = Some ys" and "l \<noteq> l'"
  shows "fam (push_op (remove_op h (first_op h l)) l' x) (F(l \<mapsto> xs, l' \<mapsto> x # ys))"
proof (rule push_law)
  show "fam (remove_op h (first_op h l)) (F(l \<mapsto> xs))" using fam l by (rule pop_law)
  show "(F(l \<mapsto> xs)) l' = Some ys" using l' \<open>l \<noteq> l'\<close> by simp
  show "x \<notin> fam_nodes (F(l \<mapsto> xs))" using removed_fresh [of h F l "[]" x xs] fam l by simp
qed

text \<open>Appending many fresh elements in turn, as sys_malloc does with a new arena's blocks.\<close>

lemma fam_nodes_append:
  assumes l: "F l = Some xs"
  shows "fam_nodes (F(l \<mapsto> xs @ ys)) = fam_nodes F \<union> set ys"
proof (rule set_eqI)
  fix a
  have other: "(\<exists>l'. P l') \<longleftrightarrow> P l \<or> (\<exists>l'. l' \<noteq> l \<and> P l')" for P :: "u32 \<Rightarrow> bool"
    by metis
  show "a \<in> fam_nodes (F(l \<mapsto> xs @ ys)) \<longleftrightarrow> a \<in> fam_nodes F \<union> set ys"
    unfolding fam_nodes_def mem_Collect_eq Un_iff
    by (subst (1 2) other) (use l in \<open>auto simp: dl_nodes_def\<close>)
qed

lemma append_all:
  assumes "fam h F" "F l = Some xs" "distinct es" "set es \<inter> fam_nodes F = {}"
  shows "fam (fold (\<lambda>e h. append_op h l e) es h) (F(l \<mapsto> xs @ es))"
  using assms
proof (induction es arbitrary: h F xs)
  case Nil
  then show ?case by (simp add: fun_upd_idem)
next
  case (Cons e es)
  have step: "fam (append_op h l e) (F(l \<mapsto> xs @ [e]))"
    using Cons.prems by (intro append_law) simp_all
  have fresh: "set es \<inter> fam_nodes (F(l \<mapsto> xs @ [e])) = {}"
    using Cons.prems by (auto simp: fam_nodes_append)
  have "fam (fold (\<lambda>e h. append_op h l e) es (append_op h l e))
      ((F(l \<mapsto> xs @ [e]))(l \<mapsto> (xs @ [e]) @ es))"
    by (rule Cons.IH [OF step _ _ fresh]) (use Cons.prems(3) in simp_all)
  then show ?case by (simp del: fun_upd_apply)
qed

text \<open>Removing many elements in turn, as sys_free does with a free arena's blocks.\<close>

lemma remove_all:
  assumes "fam h F" "F l = Some xs" "distinct es" "set es \<subseteq> set xs"
  shows "fam (fold (\<lambda>e h. remove_op h e) es h) (F(l \<mapsto> filter (\<lambda>x. x \<notin> set es) xs))"
  using assms
proof (induction es arbitrary: h F xs)
  case Nil
  then show ?case by (simp add: fun_upd_idem)
next
  case (Cons e es)
  then obtain as bs where xs: "xs = as @ e # bs" by (auto dest: split_list)
  have dist: "distinct xs" using Cons.prems(1,2) by (rule distinct_elems)
  have fl: "filter (\<lambda>x. x \<notin> set es) (as @ bs) = filter (\<lambda>x. x \<notin> set (e # es)) xs"
    using dist xs by (auto intro!: arg_cong2 [of _ _ _ _ "(@)"] filter_cong)
  have step: "fam (remove_op h e) (F(l \<mapsto> as @ bs))"
    by (rule remove_law) (use Cons.prems xs in auto)
  have sub: "set es \<subseteq> set (as @ bs)" using Cons.prems(3,4) xs by auto
  have "fam (fold (\<lambda>e h. remove_op h e) es (remove_op h e))
      ((F(l \<mapsto> as @ bs))(l \<mapsto> filter (\<lambda>x. x \<notin> set es) (as @ bs)))"
    by (rule Cons.IH [OF step _ _ sub]) (use Cons.prems(3) in simp_all)
  then show ?case unfolding fl by (simp del: fun_upd_apply)
qed

end

interpretation dl: intrusive_lists dl_family dl_append dl_push dl_remove dl_first dl_empty dl_find
proof unfold_locales
  fix h F l xs ys e
  assume "dl_family h F" "F l = Some (xs @ e # ys)"
  then show "dl_family (dl_remove h e) (F(l \<mapsto> xs @ ys))" by (rule dl_family_remove)
next
  fix h F l xs
  assume "dl_family h F" "F l = Some xs"
  then show "distinct (dl_nodes l xs)" using dl_familyD by (auto simp: dl_list_def)
next
  fix h F l l' xs xs'
  assume "dl_family h F" "F l = Some xs" "F l' = Some xs'" "l \<noteq> l'"
  then show "set (dl_nodes l xs) \<inter> set (dl_nodes l' xs') = {}"
    by (simp add: dl_family_def)
qed (simp_all add: dl_family_append dl_family_push dl_family_first dl_family_empty dl_family_find)

end
