(* ===== verification/Kernel_State.thy ===== *)
theory Kernel_State
  imports DList
begin

text \<open>
  The data of the kernel. Structures are records on typed heaps indexed by their kernel virtual
  address: one heap each for list nodes, PCBs, semaphore values, lock fields, arenas and block
  descriptors. Bitmaps and strings live in the byte memory \<open>mem\<close>; page directories and page
  tables in the physical memory \<open>phys\<close>, which the processor reads through \<open>cr3\<close>. The addresses
  of global variables are those of the link map build/kernel.map, and a member of a structure
  that has its own address (a list inside a semaphore, a semaphore inside a lock) is at the
  offset the C layout gives it.
\<close>

section \<open>Structures\<close>

datatype intr_status = INTR_OFF | INTR_ON

datatype task_status =
    TASK_RUNNING | TASK_READY | TASK_BLOCKED | TASK_WAITING | TASK_HANGING | TASK_DIED

datatype pool_flags = PF_KERNEL | PF_USER

record bitmap =
  btmp_bytes_len :: u32
  bits :: u32

record virtual_addr =
  vaddr_bitmap :: bitmap
  vaddr_start :: u32

record pool =
  pool_bitmap :: bitmap
  phy_addr_start :: u32
  pool_size :: u32

record mem_block_desc =
  block_size :: u32
  blocks_per_arena :: u32

record arena =
  arena_desc :: u32
  arena_cnt :: u32
  arena_large :: bool

record task_struct =
  self_kstack :: u32
  pid :: u16
  status :: task_status
  task_name :: string
  priority :: u8
  task_ticks :: u8
  elapsed_ticks :: u32
  pgdir :: u32
  userprog_vaddr :: virtual_addr
  stack_magic :: u32

record ioqueue =
  buf :: "u8 list"
  head :: u32
  tail :: u32

text \<open>
  The structures of the processor: interrupt gates, segment descriptors, the task state segment,
  and the two frames a new thread finds on its kernel stack. A function pointer is the name of the
  function; the null pointer is the empty name.
\<close>

type_synonym fptr = string

record gate_desc =
  func_offset_low_word :: u16
  selector :: u16
  dcount :: u8
  attribute :: u8
  func_offset_high_word :: u16

record gdt_desc =
  limit_low_word :: u16
  base_low_word :: u16
  base_mid_byte :: u8
  attr_low_byte :: u8
  limit_high_attr_high :: u8
  base_high_byte :: u8

record tss =
  tss_backlink :: u32
  tss_esp0 :: u32
  tss_ss0 :: u32
  tss_esp1 :: u32
  tss_ss1 :: u32
  tss_esp2 :: u32
  tss_ss2 :: u32
  tss_cr3 :: u32
  tss_eip :: u32
  tss_eflags :: u32
  tss_eax :: u32
  tss_ecx :: u32
  tss_edx :: u32
  tss_ebx :: u32
  tss_esp :: u32
  tss_ebp :: u32
  tss_esi :: u32
  tss_edi :: u32
  tss_es :: u32
  tss_cs :: u32
  tss_ss :: u32
  tss_ds :: u32
  tss_fs :: u32
  tss_gs :: u32
  tss_ldt :: u32
  tss_trace :: u32
  tss_io_base :: u32

record intr_stack =
  is_vec_no :: u32
  is_edi :: u32
  is_esi :: u32
  is_ebp :: u32
  is_esp_dummy :: u32
  is_ebx :: u32
  is_edx :: u32
  is_ecx :: u32
  is_eax :: u32
  is_gs :: u32
  is_fs :: u32
  is_es :: u32
  is_ds :: u32
  is_err_code :: u32
  is_eip :: u32
  is_cs :: u32
  is_eflags :: u32
  is_esp :: u32
  is_ss :: u32

record thread_stack =
  ts_ebp :: u32
  ts_ebx :: u32
  ts_edi :: u32
  ts_esi :: u32
  ts_eip :: fptr
  ts_unused_retaddr :: u32
  ts_function :: fptr
  ts_func_arg :: u32

text \<open>The key flags of device/keyboard.c.\<close>

record kbd_flags =
  ctrl_status :: bool
  shift_status :: bool
  alt_status :: bool
  caps_lock_status :: bool
  ext_scancode :: bool

text \<open>The disk structures of device/ide.h, without the partitions.\<close>

record disk =
  disk_name :: string
  my_channel :: u32
  dev_no :: u8

record ide_channel =
  chan_name :: string
  port_base :: u16
  irq_no :: u8
  expecting_intr :: bool

text \<open>What a write to a port carries: outb a byte, outsw words.\<close>

datatype port_data = Byte u8 | Word u16

record kstate =
  eflags :: u32
  cr3 :: u32
  mem :: "u32 \<Rightarrow> u8"
  phys :: "u32 \<Rightarrow> u32"
  lheap :: lheap
  tasks :: "u32 \<Rightarrow> task_struct"
  sema_value :: "u32 \<Rightarrow> u8"
  lock_holder :: "u32 \<Rightarrow> u32"
  holder_repeat_nr :: "u32 \<Rightarrow> u32"
  arenas :: "u32 \<Rightarrow> arena"
  descs :: "u32 \<Rightarrow> mem_block_desc"
  kernel_pool :: pool
  user_pool :: pool
  kernel_vaddr :: virtual_addr
  cur :: u32
  main_thread :: u32
  next_pid :: u16
  ticks :: u32
  tss :: tss
  ptrs :: "u32 \<Rightarrow> u32"
  ioqs :: "u32 \<Rightarrow> ioqueue"
  screen :: "u8 list"
  idt :: "u8 \<Rightarrow> gate_desc"
  idt_table :: "u8 \<Rightarrow> fptr"
  intr_name :: "u8 \<Rightarrow> string"
  idtr :: "64 word"
  gdt :: "u32 \<Rightarrow> gdt_desc"
  gdtr :: "64 word"
  task_reg :: u16
  intr_stacks :: "u32 \<Rightarrow> intr_stack"
  thread_stacks :: "u32 \<Rightarrow> thread_stack"
  syscall_table :: "u32 \<Rightarrow> fptr"
  kbd :: kbd_flags
  outports :: "(u16 \<times> port_data) list"
  disks :: "u32 \<Rightarrow> disk"
  ide_channels :: "u32 \<Rightarrow> ide_channel"
  channel_cnt :: u8

text \<open>The values memset and the BSS section leave.\<close>

definition zero_gate :: gate_desc where
  "zero_gate = \<lparr>func_offset_low_word = 0, selector = 0, dcount = 0, attribute = 0, func_offset_high_word = 0\<rparr>"

definition zero_gdt_desc :: gdt_desc where
  "zero_gdt_desc = \<lparr>limit_low_word = 0, base_low_word = 0, base_mid_byte = 0, attr_low_byte = 0,
     limit_high_attr_high = 0, base_high_byte = 0\<rparr>"

definition zero_tss :: tss where
  "zero_tss = \<lparr>tss_backlink = 0, tss_esp0 = 0, tss_ss0 = 0, tss_esp1 = 0, tss_ss1 = 0, tss_esp2 = 0,
     tss_ss2 = 0, tss_cr3 = 0, tss_eip = 0, tss_eflags = 0, tss_eax = 0, tss_ecx = 0, tss_edx = 0,
     tss_ebx = 0, tss_esp = 0, tss_ebp = 0, tss_esi = 0, tss_edi = 0, tss_es = 0, tss_cs = 0, tss_ss = 0,
     tss_ds = 0, tss_fs = 0, tss_gs = 0, tss_ldt = 0, tss_trace = 0, tss_io_base = 0\<rparr>"

definition zero_intr_stack :: intr_stack where
  "zero_intr_stack = \<lparr>is_vec_no = 0, is_edi = 0, is_esi = 0, is_ebp = 0, is_esp_dummy = 0, is_ebx = 0,
     is_edx = 0, is_ecx = 0, is_eax = 0, is_gs = 0, is_fs = 0, is_es = 0, is_ds = 0, is_err_code = 0,
     is_eip = 0, is_cs = 0, is_eflags = 0, is_esp = 0, is_ss = 0\<rparr>"

definition zero_thread_stack :: thread_stack where
  "zero_thread_stack = \<lparr>ts_ebp = 0, ts_ebx = 0, ts_edi = 0, ts_esi = 0, ts_eip = [],
     ts_unused_retaddr = 0, ts_function = [], ts_func_arg = 0\<rparr>"

type_synonym 'a kres = "(kstate, 'a) res"

section \<open>Addresses\<close>

definition THREAD_READY_LIST :: u32 where "THREAD_READY_LIST = 0xc000ac4c"
definition THREAD_ALL_LIST :: u32 where "THREAD_ALL_LIST = 0xc000ac5c"
definition PID_LOCK :: u32 where "PID_LOCK = 0xc000ac70"
definition CONSOLE_LOCK :: u32 where "CONSOLE_LOCK = 0xc000ac8c"
definition KERNEL_POOL_LOCK :: u32 where "KERNEL_POOL_LOCK = 0xc000ac30"
definition USER_POOL_LOCK :: u32 where "USER_POOL_LOCK = 0xc000ab30"
definition K_BLOCK_DESC :: u32 where "K_BLOCK_DESC = 0xc000ab60"
definition IOQUEUE :: u32 where "IOQUEUE = 0xc000acc0"

text \<open>Members of struct task_struct, struct semaphore, struct lock and struct mem_block_desc.\<close>

definition general_tag :: "u32 \<Rightarrow> u32" where "general_tag pthread = pthread + 36"
definition all_list_tag :: "u32 \<Rightarrow> u32" where "all_list_tag pthread = pthread + 44"
definition u_block_desc :: "u32 \<Rightarrow> u32" where "u_block_desc pthread = pthread + 68"
definition tag2task :: "u32 \<Rightarrow> u32" where "tag2task tag = tag - 36"
definition sema_waiters :: "u32 \<Rightarrow> u32" where "sema_waiters psema = psema + 4"
definition lock_semaphore :: "u32 \<Rightarrow> u32" where "lock_semaphore plock = plock + 4"
definition free_list :: "u32 \<Rightarrow> u32" where "free_list desc = desc + 8"
definition SIZEOF_MEM_BLOCK_DESC :: u32 where "SIZEOF_MEM_BLOCK_DESC = 24"

lemma tag2task_general_tag [simp]: "tag2task (general_tag p) = p"
  by (simp add: tag2task_def general_tag_def)

lemma general_tag_inject [simp]: "general_tag p = general_tag q \<longleftrightarrow> p = q"
  by (simp add: general_tag_def)

definition update_task :: "u32 \<Rightarrow> (task_struct \<Rightarrow> task_struct) \<Rightarrow> kstate \<Rightarrow> kstate" where
  "update_task p f s = s\<lparr>tasks := (tasks s)(p := f (tasks s p))\<rparr>"

definition running_thread :: "kstate \<Rightarrow> u32" where
  "running_thread s = cur s"

end
