(* ===== verification/Interrupts.thy ===== *)
theory Interrupts
  imports Kernel_State
begin

text \<open>
  The interrupt flag of kernel/interrupt.c (intr_enable, intr_disable, intr_get_status and
  intr_set_status act on bit 9 of EFLAGS), and the kernel's use of it in lib/kernel/list.c,
  whose operations run with interrupts off and restore the old status.
\<close>

section \<open>The interrupt flag\<close>

definition EFLAGS_IF :: u32 where "EFLAGS_IF = 0x200"

definition sti :: "kstate \<Rightarrow> kstate" where
  "sti s = s\<lparr>eflags := eflags s OR EFLAGS_IF\<rparr>"

definition cli :: "kstate \<Rightarrow> kstate" where
  "cli s = s\<lparr>eflags := eflags s AND NOT EFLAGS_IF\<rparr>"

definition intr_get_status :: "kstate \<Rightarrow> intr_status" where
  "intr_get_status s = (if eflags s AND EFLAGS_IF \<noteq> 0 then INTR_ON else INTR_OFF)"

definition intr_enable :: "kstate \<Rightarrow> kstate \<times> intr_status" where
  "intr_enable s = (if intr_get_status s = INTR_OFF then (sti s, INTR_OFF) else (s, INTR_ON))"

definition intr_disable :: "kstate \<Rightarrow> kstate \<times> intr_status" where
  "intr_disable s = (if intr_get_status s = INTR_OFF then (s, INTR_OFF) else (cli s, INTR_ON))"

definition intr_set_status :: "kstate \<Rightarrow> intr_status \<Rightarrow> kstate \<times> intr_status" where
  "intr_set_status s st = (if st = INTR_ON then intr_enable s else intr_disable s)"

definition if_off :: "kstate \<Rightarrow> bool" where
  "if_off s \<longleftrightarrow> intr_get_status s = INTR_OFF"

lemma bit_EFLAGS_IF: "bit EFLAGS_IF n \<longleftrightarrow> n = 9"
proof -
  have "EFLAGS_IF = 2 ^ 9" by (simp add: EFLAGS_IF_def)
  then have "bit EFLAGS_IF n = bit (2 ^ 9 :: u32) n" by (rule arg_cong)
  also have "\<dots> \<longleftrightarrow> n = 9" unfolding bit_exp_iff by (auto simp: possible_bit_word)
  finally show ?thesis .
qed

lemma EFLAGS_IF_bit: "x AND EFLAGS_IF \<noteq> 0 \<longleftrightarrow> bit x 9"
proof -
  have "x AND EFLAGS_IF = (if bit x 9 then EFLAGS_IF else 0)"
    by (rule bit_word_eqI) (auto simp: bit_and_iff bit_EFLAGS_IF)
  then show ?thesis by (simp add: EFLAGS_IF_def)
qed

lemma intr_get_status_bit: "intr_get_status s = (if bit (eflags s) 9 then INTR_ON else INTR_OFF)"
  by (simp add: intr_get_status_def EFLAGS_IF_bit)

lemma intr_get_status_sti [simp]: "intr_get_status (sti s) = INTR_ON"
  by (simp add: intr_get_status_bit sti_def bit_or_iff bit_EFLAGS_IF)

lemma intr_get_status_cli [simp]: "intr_get_status (cli s) = INTR_OFF"
  by (simp add: intr_get_status_bit cli_def bit_and_iff bit_not_iff bit_EFLAGS_IF)

lemma eflags_or_if: "bit x 9 \<Longrightarrow> (x AND NOT EFLAGS_IF) OR EFLAGS_IF = x"
  by (rule bit_word_eqI) (auto simp: bit_or_iff bit_and_iff bit_not_iff bit_EFLAGS_IF)

lemma eflags_or_if_id: "bit x 9 \<Longrightarrow> x OR EFLAGS_IF = x"
  by (rule bit_word_eqI) (auto simp: bit_or_iff bit_EFLAGS_IF)

lemma eflags_and_if: "\<not> bit x 9 \<Longrightarrow> x AND NOT EFLAGS_IF = x"
  by (rule bit_word_eqI) (auto simp: bit_and_iff bit_not_iff bit_EFLAGS_IF)

lemma cli_off: "if_off s \<Longrightarrow> cli s = s"
  by (simp add: if_off_def intr_get_status_bit cli_def eflags_and_if split: if_splits)

lemma fst_intr_disable: "fst (intr_disable s) = cli s"
  using cli_off [of s] by (simp add: intr_disable_def if_off_def)

lemma snd_intr_disable [simp]: "snd (intr_disable s) = intr_get_status s"
  by (cases "intr_get_status s") (simp_all add: intr_disable_def)

lemma fst_intr_enable: "fst (intr_enable s) = sti s"
  by (simp add: intr_enable_def intr_get_status_bit sti_def eflags_or_if_id)

lemma fst_intr_set_status:
  "fst (intr_set_status s st) = (if st = INTR_ON then sti s else cli s)"
  by (simp add: intr_set_status_def fst_intr_enable fst_intr_disable)

text \<open>Disabling and restoring the flag around work that does not touch it changes nothing.\<close>

lemma intr_restore:
  assumes "eflags s' = eflags (cli s)"
  shows "fst (intr_set_status s' (intr_get_status s)) = s'\<lparr>eflags := eflags s\<rparr>"
  using assms
  by (simp add: fst_intr_set_status sti_def cli_def intr_get_status_bit eflags_or_if eflags_and_if)

section \<open>The operations of list.c\<close>

definition list_init :: "kstate \<Rightarrow> u32 \<Rightarrow> kstate" where
  "list_init s plist = s\<lparr>lheap := dl_init (lheap s) plist\<rparr>"

definition list_insert_before :: "kstate \<Rightarrow> u32 \<Rightarrow> u32 \<Rightarrow> kstate" where
  "list_insert_before s before elem =
     (let (s1, old_status) = intr_disable s;
          s2 = s1\<lparr>lheap := dl_insert_before (lheap s1) before elem\<rparr>
      in fst (intr_set_status s2 old_status))"

definition list_push :: "kstate \<Rightarrow> u32 \<Rightarrow> u32 \<Rightarrow> kstate" where
  "list_push s plist elem = list_insert_before s (next_ptr (lheap s plist)) elem"

definition list_append :: "kstate \<Rightarrow> u32 \<Rightarrow> u32 \<Rightarrow> kstate" where
  "list_append s plist elem = list_insert_before s (tail_of plist) elem"

definition list_remove :: "kstate \<Rightarrow> u32 \<Rightarrow> kstate" where
  "list_remove s pelem =
     (let (s1, old_status) = intr_disable s;
          s2 = s1\<lparr>lheap := dl_remove (lheap s1) pelem\<rparr>
      in fst (intr_set_status s2 old_status))"

definition list_pop :: "kstate \<Rightarrow> u32 \<Rightarrow> (u32 \<times> kstate) kres" where
  "list_pop s plist =
     assertR (next_ptr (lheap s plist) \<noteq> tail_of plist) ''plist->head.next != &plist->tail''
       (let ret = next_ptr (lheap s plist)
        in Inr (ret, list_remove s (next_ptr (lheap s plist))))"

definition list_empty :: "kstate \<Rightarrow> u32 \<Rightarrow> bool" where
  "list_empty s plist = dl_empty (lheap s) plist"

definition elem_find :: "kstate \<Rightarrow> u32 \<Rightarrow> u32 \<Rightarrow> bool kres" where
  "elem_find s plist obj_elem = loopR (dl_find (lheap s) plist obj_elem)"

lemma cli_sel [simp]: "lheap (cli s) = lheap s"
  by (simp add: cli_def)

lemma list_insert_before_eq:
  "list_insert_before s b e = s\<lparr>lheap := dl_insert_before (lheap s) b e\<rparr>"
proof -
  have "list_insert_before s b e =
      fst (intr_set_status ((cli s)\<lparr>lheap := dl_insert_before (lheap s) b e\<rparr>) (intr_get_status s))"
    using fst_intr_disable [of s] snd_intr_disable [of s]
    by (simp add: list_insert_before_def split_beta del: snd_intr_disable)
  then show ?thesis by (simp add: intr_restore) (simp add: cli_def)
qed

lemma list_remove_eq: "list_remove s e = s\<lparr>lheap := dl_remove (lheap s) e\<rparr>"
proof -
  have "list_remove s e =
      fst (intr_set_status ((cli s)\<lparr>lheap := dl_remove (lheap s) e\<rparr>) (intr_get_status s))"
    using fst_intr_disable [of s] snd_intr_disable [of s]
    by (simp add: list_remove_def split_beta del: snd_intr_disable)
  then show ?thesis by (simp add: intr_restore) (simp add: cli_def)
qed

lemma list_append_eq: "list_append s l e = s\<lparr>lheap := dl_append (lheap s) l e\<rparr>"
  by (simp add: list_append_def list_insert_before_eq dl_append_def)

lemma list_push_eq: "list_push s l e = s\<lparr>lheap := dl_push (lheap s) l e\<rparr>"
  by (simp add: list_push_def list_insert_before_eq dl_push_def)

lemma list_pop_eq:
  "list_pop s l =
     (if dl_empty (lheap s) l then Inl (Assert_failed ''plist->head.next != &plist->tail'')
      else Inr (dl_first (lheap s) l, s\<lparr>lheap := dl_remove (lheap s) (dl_first (lheap s) l)\<rparr>))"
  by (simp add: list_pop_def dl_empty_def dl_first_def list_remove_eq assertR_def)

text \<open>The laws of the list interface, for the operations on the kernel state.\<close>

definition k_family :: "kstate \<Rightarrow> (u32 \<Rightarrow> u32 list option) \<Rightarrow> bool" where
  "k_family s F = dl_family (lheap s) F"

lemma k_family_ops:
  "k_family (list_append s l e) F = dl_family (dl_append (lheap s) l e) F"
  "k_family (list_push s l e) F = dl_family (dl_push (lheap s) l e) F"
  "k_family (list_remove s e) F = dl_family (dl_remove (lheap s) e) F"
  by (simp_all add: k_family_def list_append_eq list_push_eq list_remove_eq)

interpretation kl: intrusive_lists k_family list_append list_push list_remove
  "\<lambda>s l. next_ptr (lheap s l)" list_empty "\<lambda>s l e. dl_find (lheap s) l e"
  unfolding intrusive_lists_def k_family_ops unfolding k_family_def list_empty_def
proof (intro conjI allI impI)
  fix s :: kstate and F l x xs
  assume "dl_family (lheap s) F" "F l = Some (x # xs)"
  then show "next_ptr (lheap s l) = x" by (metis dl.first_law dl_first_def)
qed (fact dl.append_law dl.push_law dl.remove_law dl.empty_law dl.find_law dl.distinct_law
    dl.disjoint_law)+

lemma elem_find_family:
  "k_family s F \<Longrightarrow> F l = Some xs \<Longrightarrow> elem_find s l e = Inr (e \<in> set xs)"
  by (simp add: elem_find_def kl.find_law)

lemma list_pop_family:
  assumes "k_family s F" "F l = Some (x # xs)"
  shows "list_pop s l = Inr (x, list_remove s x)" "k_family (list_remove s x) (F(l \<mapsto> xs))"
  using assms dl.empty_law [of "lheap s" F l "x # xs"] dl.first_law [of "lheap s" F l x xs]
    kl.remove_law [of s F l "[]" x xs]
  by (simp_all add: list_pop_eq k_family_def list_remove_eq)

end
