(* ===== verification/Paging.thy ===== *)
theory Paging
  imports Kernel_State
begin

text \<open>
  Address translation. \<open>mmu_walk\<close> is the two level page walk of the processor from cr3, over the
  physical memory; every load and store of a page directory or page table entry in
  kernel/memory.c goes through it, at the virtual addresses pte_ptr and pde_ptr compute. They
  rely on the last directory entry pointing at the directory itself (boot/loader.S and
  create_page_dir set it up); under that condition, \<open>rec_slot\<close>, the lemmas show that the two
  pointers name exactly the entries that translate the given address, and that addr_v2p is the
  page walk.
\<close>

section \<open>Indices and pointers\<close>

definition PDE_IDX :: "u32 \<Rightarrow> u32" where
  "PDE_IDX addr = drop_bit 22 (addr AND 0xffc00000)"

definition PTE_IDX :: "u32 \<Rightarrow> u32" where
  "PTE_IDX addr = drop_bit 12 (addr AND 0x003ff000)"

definition pte_ptr :: "u32 \<Rightarrow> u32" where
  "pte_ptr vaddr = 0xffc00000 + drop_bit 10 (vaddr AND 0xffc00000) + PTE_IDX vaddr * 4"

definition pde_ptr :: "u32 \<Rightarrow> u32" where
  "pde_ptr vaddr = 0xfffff000 + PDE_IDX vaddr * 4"

definition page_frame :: "u32 \<Rightarrow> u32" where
  "page_frame x = x AND 0xfffff000"

definition page_offset :: "u32 \<Rightarrow> u32" where
  "page_offset x = x AND 0xfff"

definition present :: "u32 \<Rightarrow> bool" where
  "present entry \<longleftrightarrow> entry AND 1 \<noteq> 0"

section \<open>The page walk\<close>

definition pde_addr :: "u32 \<Rightarrow> u32 \<Rightarrow> u32" where
  "pde_addr dir va = page_frame dir + PDE_IDX va * 4"

definition pte_addr :: "u32 \<Rightarrow> u32 \<Rightarrow> u32" where
  "pte_addr pde va = page_frame pde + PTE_IDX va * 4"

definition mmu_walk :: "(u32 \<Rightarrow> u32) \<Rightarrow> u32 \<Rightarrow> u32 \<Rightarrow> u32 option" where
  "mmu_walk m dir va =
     (let pde = m (pde_addr dir va)
      in if \<not> present pde then None
         else let pte = m (pte_addr pde va)
              in if \<not> present pte then None else Some (page_frame pte + page_offset va))"

definition load32 :: "kstate \<Rightarrow> u32 \<Rightarrow> u32 kres" where
  "load32 s va =
     (case mmu_walk (phys s) (cr3 s) va of
        None \<Rightarrow> Inl (Page_fault va)
      | Some pa \<Rightarrow> Inr (phys s pa))"

definition store32 :: "kstate \<Rightarrow> u32 \<Rightarrow> u32 \<Rightarrow> kstate kres" where
  "store32 s va v =
     (case mmu_walk (phys s) (cr3 s) va of
        None \<Rightarrow> Inl (Page_fault va)
      | Some pa \<Rightarrow> Inr (s\<lparr>phys := (phys s)(pa := v)\<rparr>))"

definition addr_v2p :: "kstate \<Rightarrow> u32 \<Rightarrow> u32 kres" where
  "addr_v2p s vaddr =
     bindR (load32 s (pte_ptr vaddr)) (\<lambda>pte. Inr ((pte AND 0xfffff000) + (vaddr AND 0x00000fff)))"

section \<open>Arithmetic of the indices\<close>

lemma mask_high10: "(0xffc00000 :: u32) = push_bit 22 (mask 10)"
  by (simp add: mask_eq_exp_minus_1)

lemma mask_mid10: "(0x003ff000 :: u32) = push_bit 12 (mask 10)"
  by (simp add: mask_eq_exp_minus_1)

lemma mask_low12: "(0xfff :: u32) = mask 12"
  by (simp add: mask_eq_exp_minus_1)

lemma mask_high20: "(0xfffff000 :: u32) = push_bit 12 (mask 20)"
  by (simp add: mask_eq_exp_minus_1)

lemma PDE_IDX_eq: "PDE_IDX v = drop_bit 22 v"
  unfolding PDE_IDX_def mask_high10
  by (rule bit_word_eqI) (auto simp: bit_simps dest: bit_imp_le_length)

lemma PTE_IDX_eq: "PTE_IDX v = take_bit 10 (drop_bit 12 v)"
  unfolding PTE_IDX_def mask_mid10
  by (rule bit_word_eqI) (auto simp: bit_simps)

lemma unat_PDE_IDX: "unat (PDE_IDX v) = unat v div 4194304"
  by (simp add: PDE_IDX_eq drop_bit_eq_div unat_div)

lemma unat_PTE_IDX: "unat (PTE_IDX v) = unat v div 4096 mod 1024"
  by (simp add: PTE_IDX_eq drop_bit_eq_div take_bit_eq_mod unat_div unat_mod)

lemma unat_page_offset: "unat (page_offset v) = unat v mod 4096"
  unfolding page_offset_def mask_low12
  by (simp add: take_bit_eq_mask [symmetric] take_bit_eq_mod unat_mod)

lemma page_frame_eq: "page_frame v = (v div 4096) * 4096"
proof -
  have "v AND 0xfffff000 = push_bit 12 (drop_bit 12 v)"
    unfolding mask_high20 by (rule bit_word_eqI) (auto simp: bit_simps dest: bit_imp_le_length)
  then show ?thesis by (simp add: page_frame_def push_bit_eq_mult drop_bit_eq_div)
qed

lemma unat_page_frame: "unat (page_frame v) = unat v div 4096 * 4096"
  using unat_u32_bound [of v] unfolding page_frame_eq by (simp add: unat_mult_u32 unat_div)

lemma unat_high10: "unat (drop_bit 10 (v AND 0xffc00000 :: u32)) = unat v div 4194304 * 4096"
proof -
  have "drop_bit 10 (v AND 0xffc00000) = push_bit 12 (drop_bit 22 v)"
    unfolding mask_high10
    by (rule bit_word_eqI) (auto simp: bit_simps dest: bit_imp_le_length)
  then have e: "drop_bit 10 (v AND 0xffc00000) = (v div 4194304) * 4096"
    by (simp add: push_bit_eq_mult drop_bit_eq_div)
  show ?thesis
    using unat_u32_bound [of v] unfolding e by (simp add: unat_mult_u32 unat_div)
qed

lemma idx_bounds: "unat (v :: u32) div 4194304 < 1024" "unat v div 4096 mod 1024 < 1024"
  using unat_u32_bound [of v] by simp_all

lemma unat_idx4:
  "unat (PDE_IDX v * 4) = unat v div 4194304 * 4"
  "unat (PTE_IDX v * 4) = unat v div 4096 mod 1024 * 4"
  using idx_bounds [of v]
  by (simp_all add: unat_mult_u32 unat_PDE_IDX unat_PTE_IDX)

lemma unat_pte_ptr:
  "unat (pte_ptr v) = 0xffc00000 + unat v div 4194304 * 4096 + unat v div 4096 mod 1024 * 4"
  unfolding pte_ptr_def using idx_bounds [of v] unat_high10 [of v]
  by (simp add: unat_plus_if' unat_idx4)

lemma unat_pde_ptr: "unat (pde_ptr v) = 0xffc00000 + 1023 * 4096 + unat v div 4194304 * 4"
  unfolding pde_ptr_def using idx_bounds [of v]
  by (simp add: unat_plus_if' unat_idx4)

text \<open>An address of the window at 0xffc00000, cut into its two indices and its offset.\<close>

lemma window_arith:
  assumes "(a :: nat) < 1024" "b < 1024"
  shows "(0xffc00000 + a * 4096 + b * 4) div 4194304 = 1023"
    and "(0xffc00000 + a * 4096 + b * 4) div 4096 mod 1024 = a"
    and "(0xffc00000 + a * 4096 + b * 4) mod 4096 = b * 4"
proof -
  have split: "0xffc00000 + a * 4096 + b * 4 = b * 4 + 4096 * (a + 1024 * 1023)" by simp
  have small: "b * 4 < 4096" using assms by simp
  have page: "(b * 4 + 4096 * (a + 1024 * 1023)) div 4096 = a + 1024 * 1023"
    using small by (subst div_mult_self2) simp_all
  have dir: "(a + 1024 * 1023) div 1024 = 1023"
    using assms by (subst div_mult_self2) simp_all
  show "(0xffc00000 + a * 4096 + b * 4) mod 4096 = b * 4"
    unfolding split mod_mult_self2 by (rule mod_less [OF small])
  show "(0xffc00000 + a * 4096 + b * 4) div 4096 mod 1024 = a"
    unfolding split page mod_mult_self2 by (rule mod_less [OF assms(1)])
  have "(b * 4 + 4096 * (a + 1024 * 1023)) div (4096 * 1024) =
      (b * 4 + 4096 * (a + 1024 * 1023)) div 4096 div 1024"
    by (rule div_mult2_eq)
  then show "(0xffc00000 + a * 4096 + b * 4) div 4194304 = 1023"
    unfolding split page dir by simp
qed

lemma pte_ptr_fields:
  "PDE_IDX (pte_ptr v) = 1023" "PTE_IDX (pte_ptr v) = PDE_IDX v"
  "page_offset (pte_ptr v) = PTE_IDX v * 4"
  by (rule u32_eqI; simp only: unat_PDE_IDX unat_PTE_IDX unat_page_offset unat_idx4 unat_pte_ptr
      window_arith [OF idx_bounds]; simp)+

lemma pde_ptr_fields:
  "PDE_IDX (pde_ptr v) = 1023" "PTE_IDX (pde_ptr v) = 1023"
  "page_offset (pde_ptr v) = PDE_IDX v * 4"
  by (rule u32_eqI; simp only: unat_PDE_IDX unat_PTE_IDX unat_page_offset unat_idx4 unat_pde_ptr
      window_arith [of 1023, OF _ idx_bounds(1)]; simp)+

lemma page_frame_idem [simp]: "page_frame (page_frame v) = page_frame v"
  by (simp add: page_frame_def and.assoc)

section \<open>The recursive slot\<close>

definition rec_slot :: "(u32 \<Rightarrow> u32) \<Rightarrow> u32 \<Rightarrow> bool" where
  "rec_slot m dir \<longleftrightarrow>
     (let e = m (page_frame dir + 4092) in present e \<and> page_frame e = page_frame dir)"

lemma mmu_walk_pde_ptr:
  assumes "rec_slot m dir"
  shows "mmu_walk m dir (pde_ptr v) = Some (pde_addr dir v)"
  using assms
  by (simp add: mmu_walk_def pde_addr_def pte_addr_def pde_ptr_fields rec_slot_def Let_def)

lemma mmu_walk_pte_ptr:
  assumes "rec_slot m dir"
  shows "mmu_walk m dir (pte_ptr v) =
    (if present (m (pde_addr dir v)) then Some (pte_addr (m (pde_addr dir v)) v) else None)"
  using assms
  by (simp add: mmu_walk_def pde_addr_def pte_addr_def pte_ptr_fields rec_slot_def Let_def)

lemma load32_pde_ptr:
  "rec_slot (phys s) (cr3 s) \<Longrightarrow> load32 s (pde_ptr v) = Inr (phys s (pde_addr (cr3 s) v))"
  by (simp add: load32_def mmu_walk_pde_ptr)

lemma load32_pte_ptr:
  "rec_slot (phys s) (cr3 s) \<Longrightarrow> present (phys s (pde_addr (cr3 s) v)) \<Longrightarrow>
    load32 s (pte_ptr v) = Inr (phys s (pte_addr (phys s (pde_addr (cr3 s) v)) v))"
  by (simp add: load32_def mmu_walk_pte_ptr)

lemma store32_pde_ptr:
  "rec_slot (phys s) (cr3 s) \<Longrightarrow>
    store32 s (pde_ptr v) x = Inr (s\<lparr>phys := (phys s)(pde_addr (cr3 s) v := x)\<rparr>)"
  by (simp add: store32_def mmu_walk_pde_ptr)

lemma store32_pte_ptr:
  "rec_slot (phys s) (cr3 s) \<Longrightarrow> present (phys s (pde_addr (cr3 s) v)) \<Longrightarrow>
    store32 s (pte_ptr v) x =
      Inr (s\<lparr>phys := (phys s)(pte_addr (phys s (pde_addr (cr3 s) v)) v := x)\<rparr>)"
  by (simp add: store32_def mmu_walk_pte_ptr)

text \<open>addr_v2p agrees with the page walk wherever the walk succeeds.\<close>

lemma addr_v2p_walk:
  assumes "rec_slot (phys s) (cr3 s)" "mmu_walk (phys s) (cr3 s) v = Some pa"
  shows "addr_v2p s v = Inr pa"
  using assms
  by (auto simp: addr_v2p_def load32_pte_ptr mmu_walk_def Let_def page_frame_def page_offset_def
      split: if_splits)

end
