(* ===== verification/Sched.thy ===== *)
theory Sched
  imports Interrupts Paging
begin

text \<open>
  The scheduler of thread/thread.c (schedule, thread_block, thread_unblock) with the part of
  userprog/process.c and userprog/tss.c it calls (process_activate, page_dir_activate,
  update_tss_esp). switch_to, the assembly routine of thread/switch.S, returns at once when it is
  told to switch to the caller; otherwise another thread goes on and the call ends in \<open>Switched\<close>.
  \<open>sched_inv\<close> is the invariant the lists, the status fields and the page directories satisfy, and
  the lemmas show that every operation keeps it and meets none of its assertions.
\<close>

section \<open>Activation of the next thread\<close>

definition update_tss_esp :: "kstate \<Rightarrow> u32 \<Rightarrow> kstate" where
  "update_tss_esp s pthread = s\<lparr>tss := (tss s)\<lparr>tss_esp0 := pthread + 4096\<rparr>\<rparr>"

definition page_dir_activate :: "kstate \<Rightarrow> u32 \<Rightarrow> kstate kres" where
  "page_dir_activate s p_thread =
     bindR (if pgdir (tasks s p_thread) \<noteq> NULL then addr_v2p s (pgdir (tasks s p_thread))
            else Inr 0x100000)
       (\<lambda>pagedir_phy_addr. Inr (s\<lparr>cr3 := pagedir_phy_addr\<rparr>))"

definition process_activate :: "kstate \<Rightarrow> u32 \<Rightarrow> kstate kres" where
  "process_activate s p_thread =
     assertR (p_thread \<noteq> NULL) ''p_thread!=NULL''
       (bindR (page_dir_activate s p_thread) (\<lambda>s1.
          Inr (if pgdir (tasks s1 p_thread) \<noteq> NULL then update_tss_esp s1 p_thread else s1)))"

definition switch_to :: "kstate \<Rightarrow> u32 \<Rightarrow> u32 \<Rightarrow> kstate kres" where
  "switch_to s from_thread next_thread =
     (if next_thread = from_thread then Inr s else Inl (Switched (s\<lparr>cur := next_thread\<rparr>)))"

section \<open>schedule, thread_block and thread_unblock\<close>

definition ready_current :: "kstate \<Rightarrow> kstate kres" where
  "ready_current s =
     (let c = running_thread s in
      if status (tasks s c) = TASK_RUNNING
      then bindR (elem_find s THREAD_READY_LIST (general_tag c)) (\<lambda>found.
             assertR (\<not> found) ''!elem_find(&thread_ready_list,&cur->general_tag)''
               (let s1 = list_append s THREAD_READY_LIST (general_tag c);
                    s2 = update_task c (\<lambda>t. t\<lparr>task_ticks := priority t\<rparr>) s1
                in Inr (update_task c (\<lambda>t. t\<lparr>status := TASK_READY\<rparr>) s2)))
      else Inr s)"

definition schedule :: "kstate \<Rightarrow> kstate kres" where
  "schedule s =
     assertR (intr_get_status s = INTR_OFF) ''intr_get_status()==INTR_OFF''
       (let c = running_thread s in
        bindR (ready_current s) (\<lambda>s1.
          assertR (\<not> list_empty s1 THREAD_READY_LIST) ''!list_empty(&thread_ready_list)''
            (bindR (list_pop s1 THREAD_READY_LIST) (\<lambda>(thread_tag, s2).
               let nxt = tag2task thread_tag;
                   s3 = update_task nxt (\<lambda>t. t\<lparr>status := TASK_RUNNING\<rparr>) s2
               in bindR (process_activate s3 nxt) (\<lambda>s4. switch_to s4 c nxt)))))"

definition block_status :: "task_status \<Rightarrow> bool" where
  "block_status stat \<longleftrightarrow> stat = TASK_BLOCKED \<or> stat = TASK_WAITING \<or> stat = TASK_HANGING"

definition thread_block :: "kstate \<Rightarrow> task_status \<Rightarrow> kstate kres" where
  "thread_block s stat =
     assertR (block_status stat)
       ''((stat == TASK_BLOCKED) || (stat == TASK_WAITING) || stat == TASK_HANGING)''
       (let (s1, old_status) = intr_disable s;
            s2 = update_task (running_thread s1) (\<lambda>t. t\<lparr>status := stat\<rparr>) s1
        in bindR (schedule s2) (\<lambda>s3. Inr (fst (intr_set_status s3 old_status))))"

definition thread_unblock :: "kstate \<Rightarrow> u32 \<Rightarrow> kstate kres" where
  "thread_unblock s pthread =
     (let (s1, old_status) = intr_disable s in
      assertR (block_status (status (tasks s1 pthread)))
        ''((pthread->status == TASK_BLOCKED) || (pthread->status == TASK_WAITING) || (pthread->status == TASK_HANGING))''
        (bindR
          (if status (tasks s1 pthread) \<noteq> TASK_READY
           then bindR (elem_find s1 THREAD_READY_LIST (general_tag pthread)) (\<lambda>found.
                  assertR (\<not> found) ''!elem_find(&thread_ready_list,&pthread->general_tag)''
                    (bindR (elem_find s1 THREAD_READY_LIST (general_tag pthread)) (\<lambda>again.
                       if again then Inl (Panicked ''thread_unblock: blocked thread in ready_list'')
                       else let s2 = list_push s1 THREAD_READY_LIST (general_tag pthread)
                            in Inr (update_task pthread (\<lambda>t. t\<lparr>status := TASK_READY\<rparr>) s2))))
           else Inr s1)
          (\<lambda>s3. Inr (fst (intr_set_status s3 old_status)))))"

section \<open>The invariant of the scheduler\<close>

text \<open>
  \<open>D t\<close> is the physical page directory of thread \<open>t\<close>. A thread with a page directory of its own has
  it mapped at the same frame in the address space of every thread, because the kernel part of
  all directories is the same.
\<close>

definition dirs_ok :: "kstate \<Rightarrow> u32 set \<Rightarrow> (u32 \<Rightarrow> u32) \<Rightarrow> bool" where
  "dirs_ok s Ts D \<longleftrightarrow> cr3 s = D (cur s) \<and>
     (\<forall>t \<in> Ts. if pgdir (tasks s t) = NULL then D t = 0x100000
               else \<forall>u \<in> Ts. addr_v2p (s\<lparr>cr3 := D u\<rparr>) (pgdir (tasks s t)) = Inr (D t))"

text \<open>
  \<open>F\<close> is the family of all lists, \<open>rs\<close> the ready threads in order, \<open>Ts\<close> the existing threads: the
  ready list holds exactly the READY threads, at most the current thread is RUNNING, and its
  tag is in no list.
\<close>

definition sched_core ::
  "kstate \<Rightarrow> (u32 \<Rightarrow> u32 list option) \<Rightarrow> u32 list \<Rightarrow> u32 set \<Rightarrow> (u32 \<Rightarrow> u32) \<Rightarrow> bool" where
  "sched_core s F rs Ts D \<longleftrightarrow>
     k_family s F \<and> F THREAD_READY_LIST = Some (map general_tag rs) \<and>
     dirs_ok s Ts D \<and> cur s \<in> Ts \<and> NULL \<notin> Ts \<and> set rs \<subseteq> Ts \<and>
     (\<forall>t \<in> Ts. t \<in> set rs \<longleftrightarrow> status (tasks s t) = TASK_READY) \<and>
     (\<forall>t \<in> Ts. status (tasks s t) = TASK_RUNNING \<longrightarrow> t = cur s)"

definition sched_inv ::
  "kstate \<Rightarrow> (u32 \<Rightarrow> u32 list option) \<Rightarrow> u32 list \<Rightarrow> u32 set \<Rightarrow> (u32 \<Rightarrow> u32) \<Rightarrow> bool" where
  "sched_inv s F rs Ts D \<longleftrightarrow> sched_core s F rs Ts D \<and>
     status (tasks s (cur s)) = TASK_RUNNING \<and> general_tag (cur s) \<notin> fam_nodes F"

lemma sched_core_ready:
  "sched_core s F rs Ts D \<Longrightarrow> t \<in> set rs \<Longrightarrow> t \<in> Ts \<and> status (tasks s t) = TASK_READY"
  unfolding sched_core_def by blast

lemma addr_v2p_cong: "phys s = phys s' \<Longrightarrow> cr3 s = cr3 s' \<Longrightarrow> addr_v2p s v = addr_v2p s' v"
  by (simp add: addr_v2p_def load32_def split: option.split)

lemma dirs_ok_cong:
  assumes "phys s' = phys s" "\<And>t. pgdir (tasks s' t) = pgdir (tasks s t)"
    "cr3 s' = D (cur s')" "dirs_ok s Ts D"
  shows "dirs_ok s' Ts D"
proof -
  have "addr_v2p (s'\<lparr>cr3 := c\<rparr>) v = addr_v2p (s\<lparr>cr3 := c\<rparr>) v" for c v
    by (rule addr_v2p_cong) (simp_all add: assms(1))
  with assms show ?thesis by (simp add: dirs_ok_def)
qed

lemma dirs_okD: "dirs_ok s Ts D \<Longrightarrow> cur s \<in> Ts \<Longrightarrow> t \<in> Ts \<Longrightarrow>
    (if pgdir (tasks s t) \<noteq> NULL then addr_v2p s (pgdir (tasks s t)) else Inr 0x100000) = Inr (D t)"
  by (auto simp: dirs_ok_def split: if_splits) (metis kstate.surjective kstate.update_convs(2))

lemma update_task_sel [simp]:
  "eflags (update_task p f s) = eflags s" "cr3 (update_task p f s) = cr3 s"
  "phys (update_task p f s) = phys s" "lheap (update_task p f s) = lheap s"
  "cur (update_task p f s) = cur s" "mem (update_task p f s) = mem s"
  "sema_value (update_task p f s) = sema_value s" "lock_holder (update_task p f s) = lock_holder s"
  "holder_repeat_nr (update_task p f s) = holder_repeat_nr s"
  "tasks (update_task p f s) = (tasks s)(p := f (tasks s p))"
  "kernel_pool (update_task p f s) = kernel_pool s" "user_pool (update_task p f s) = user_pool s"
  "tss (update_task p f s) = tss s"
  "ioqs (update_task p f s) = ioqs s" "ptrs (update_task p f s) = ptrs s"
  "outports (update_task p f s) = outports s" "disks (update_task p f s) = disks s"
  "ide_channels (update_task p f s) = ide_channels s"
  "ticks (update_task p f s) = ticks s" "screen (update_task p f s) = screen s"
  "main_thread (update_task p f s) = main_thread s" "next_pid (update_task p f s) = next_pid s"
  by (simp_all add: update_task_def)

lemma running_thread_eq [simp]: "running_thread s = cur s"
  by (simp add: running_thread_def)

text \<open>The state in which \<open>p\<close> has been activated: its page directory and its stack for the TSS.\<close>

definition activated :: "u32 \<Rightarrow> (u32 \<Rightarrow> u32) \<Rightarrow> kstate \<Rightarrow> kstate" where
  "activated p D s = s\<lparr>cr3 := D p, tss := (if pgdir (tasks s p) = NULL then tss s else (tss s)\<lparr>tss_esp0 := p + 4096\<rparr>)\<rparr>"

lemma process_activate_eq:
  assumes "dirs_ok s Ts D" "cur s \<in> Ts" "p \<in> Ts" "p \<noteq> NULL"
  shows "process_activate s p = Inr (activated p D s)"
  using dirs_okD [OF assms(1,2,3)] assms(4)
  by (simp add: process_activate_def page_dir_activate_def activated_def update_tss_esp_def)

text \<open>What the scheduler leaves alone: the flag, the locks, the memory, the devices and the other threads. Of every
  thread it keeps the magic number and the priority, and its ticks unless it sets them to the priority.\<close>

definition same_slice :: "task_struct \<Rightarrow> task_struct \<Rightarrow> bool" where
  "same_slice t t' \<longleftrightarrow> stack_magic t' = stack_magic t \<and> priority t' = priority t \<and>
     (task_ticks t' = task_ticks t \<or> task_ticks t' = priority t)"

lemma same_slice_simps [simp]:
  "same_slice t t" "same_slice t (t\<lparr>status := st\<rparr>)" "same_slice t (t\<lparr>task_ticks := priority t\<rparr>)"
  "same_slice t (t\<lparr>status := st, task_ticks := priority t\<rparr>)" "same_slice t (t\<lparr>task_ticks := priority t, status := st\<rparr>)"
  by (simp_all add: same_slice_def)

lemma same_slice_trans: "same_slice t t1 \<Longrightarrow> same_slice t1 t2 \<Longrightarrow> same_slice t t2"
  by (auto simp: same_slice_def)

definition sched_frame :: "kstate \<Rightarrow> kstate \<Rightarrow> u32 set \<Rightarrow> bool" where
  "sched_frame s s' ps \<longleftrightarrow> eflags s' = eflags s \<and> sema_value s' = sema_value s \<and>
     lock_holder s' = lock_holder s \<and> holder_repeat_nr s' = holder_repeat_nr s \<and>
     mem s' = mem s \<and> phys s' = phys s \<and> kernel_pool s' = kernel_pool s \<and>
     user_pool s' = user_pool s \<and> ioqs s' = ioqs s \<and> ptrs s' = ptrs s \<and>
     outports s' = outports s \<and> disks s' = disks s \<and> ide_channels s' = ide_channels s \<and> (\<forall>t. t \<notin> ps \<longrightarrow> tasks s' t = tasks s t) \<and>
     (\<forall>t. pgdir (tasks s' t) = pgdir (tasks s t)) \<and> (\<forall>t. same_slice (tasks s t) (tasks s' t))"

lemma sched_frame_refl [simp]: "sched_frame s s ps"
  by (simp add: sched_frame_def)

lemma sched_frame_trans:
  "sched_frame s s1 ps \<Longrightarrow> sched_frame s1 s2 qs \<Longrightarrow> sched_frame s s2 (ps \<union> qs)"
  by (simp add: sched_frame_def) (blast intro: same_slice_trans)

lemma sched_frame_update_task:
  "(\<And>t. pgdir (f t) = pgdir t) \<Longrightarrow> (\<And>t. same_slice t (f t)) \<Longrightarrow> sched_frame s (update_task p f s) {p}"
  by (simp add: sched_frame_def)

text \<open>The second half of schedule: the first of the ready list becomes the running thread.\<close>

lemma schedule_pop:
  assumes off: "intr_get_status s = INTR_OFF" and rc: "ready_current s = Inr s1"
    and core: "sched_core s1 F (p # rs) Ts D" and cur: "cur s1 = cur s"
    and st: "status (tasks s1 (cur s)) \<noteq> TASK_RUNNING"
  shows "\<exists>s'. schedule s = (if p = cur s then Inr s' else Inl (Switched s')) \<and> cur s' = p \<and>
    sched_inv s' (F(THREAD_READY_LIST \<mapsto> map general_tag rs)) rs Ts D \<and> sched_frame s1 s' {p}"
proof -
  let ?R = THREAD_READY_LIST and ?s2 = "list_remove s1 (general_tag p)"
  let ?s3 = "update_task p (\<lambda>t. t\<lparr>status := TASK_RUNNING\<rparr>) ?s2"
  let ?F = "F(THREAD_READY_LIST \<mapsto> map general_tag rs)"
  define s' where "s' = (activated p D ?s3)\<lparr>cur := p\<rparr>"
  from core have fam: "k_family s1 F" and R: "F ?R = Some (general_tag p # map general_tag rs)"
    and dirs: "dirs_ok s1 Ts D" and cT: "cur s1 \<in> Ts" and pT: "p \<in> Ts" and p0: "p \<noteq> NULL"
    by (auto simp: sched_core_def)
  have ne: "\<not> list_empty s1 ?R" using kl.empty_law [OF fam R] by simp
  have pop: "list_pop s1 ?R = Inr (general_tag p, ?s2)" and fam2: "k_family ?s2 ?F"
    using list_pop_family [OF fam R] by simp_all
  have dirs3: "dirs_ok ?s3 Ts D"
    by (rule dirs_ok_cong [OF _ _ _ dirs])
      (use dirs in \<open>simp_all add: list_remove_eq dirs_ok_def\<close>)
  have act: "process_activate ?s3 p = Inr (activated p D ?s3)"
    by (rule process_activate_eq [OF dirs3 _ pT p0]) (use cT in \<open>simp add: list_remove_eq\<close>)
  have cur3: "cur (activated p D ?s3) = cur s" by (simp add: activated_def list_remove_eq cur)
  then have same: "p = cur s \<Longrightarrow> s' = activated p D ?s3" by (simp add: s'_def)
  have eq: "schedule s = (if p = cur s then Inr s' else Inl (Switched s'))"
    by (simp add: schedule_def off rc ne pop act switch_to_def same) (simp add: s'_def)
  have dist: "distinct (general_tag p # map general_tag rs)"
    by (rule kl.distinct_elems [OF fam R])
  then have notin: "p \<notin> set rs" by auto
  have fresh: "general_tag p \<notin> fam_nodes ?F"
    using kl.removed_fresh [OF fam, of ?R "[]" "general_tag p" "map general_tag rs"] R by simp
  have dirs': "dirs_ok s' Ts D"
    by (rule dirs_ok_cong [OF _ _ _ dirs])
      (simp_all add: s'_def activated_def list_remove_eq update_task_def)
  have "sched_inv s' ?F rs Ts D"
    unfolding sched_inv_def sched_core_def
  proof (intro conjI ballI impI)
    show "k_family s' ?F"
      using fam2 by (simp add: s'_def activated_def k_family_def)
    show "t \<in> set rs \<longleftrightarrow> status (tasks s' t) = TASK_READY" if "t \<in> Ts" for t
      using core that notin by (auto simp: s'_def activated_def sched_core_def list_remove_eq)
    show "t = cur s'" if "t \<in> Ts" "status (tasks s' t) = TASK_RUNNING" for t
      using core that st cur
      by (auto simp: s'_def activated_def sched_core_def list_remove_eq split: if_splits)
  qed (use core fresh dirs' in \<open>auto simp: s'_def activated_def sched_core_def list_remove_eq\<close>)
  moreover have "sched_frame s1 s' {p}" "cur s' = p"
    by (auto simp: sched_frame_def s'_def activated_def list_remove_eq)
  ultimately show ?thesis using eq by blast
qed

text \<open>The first half: a RUNNING caller goes to the end of the ready list.\<close>

lemma ready_current_running:
  assumes inv: "sched_inv s F rs Ts D"
  shows "\<exists>s1. ready_current s = Inr s1 \<and>
    sched_core s1 (F(THREAD_READY_LIST \<mapsto> map general_tag (rs @ [cur s]))) (rs @ [cur s]) Ts D \<and>
    cur s1 = cur s \<and> sched_frame s s1 {cur s} \<and>
    tasks s1 (cur s) = (tasks s (cur s))
      \<lparr>status := TASK_READY, task_ticks := priority (tasks s (cur s))\<rparr>"
proof -
  let ?R = THREAD_READY_LIST and ?c = "cur s"
  let ?s1 = "update_task ?c (\<lambda>t. t\<lparr>status := TASK_READY\<rparr>)
    (update_task ?c (\<lambda>t. t\<lparr>task_ticks := priority t\<rparr>) (list_append s ?R (general_tag ?c)))"
  from inv have core: "sched_core s F rs Ts D" and run: "status (tasks s ?c) = TASK_RUNNING"
    and fresh: "general_tag ?c \<notin> fam_nodes F" by (auto simp: sched_inv_def)
  then have fam: "k_family s F" and R: "F ?R = Some (map general_tag rs)"
    and dirs: "dirs_ok s Ts D" by (auto simp: sched_core_def)
  have notin: "?c \<notin> set rs" using core run by (auto simp: sched_core_def)
  have find: "elem_find s ?R (general_tag ?c) = Inr False"
    using elem_find_family [OF fam R] notin by auto
  have rc: "ready_current s = Inr ?s1" by (simp add: ready_current_def run find Let_def)
  have fam1: "k_family ?s1 (F(?R \<mapsto> map general_tag (rs @ [?c])))"
    using kl.append_law [OF fam R fresh] by (simp add: k_family_def)
  have dirs1: "dirs_ok ?s1 Ts D"
    by (rule dirs_ok_cong [OF _ _ _ dirs])
      (use dirs in \<open>simp_all add: list_append_eq update_task_def dirs_ok_def\<close>)
  have core1: "sched_core ?s1 (F(?R \<mapsto> map general_tag (rs @ [?c]))) (rs @ [?c]) Ts D"
    unfolding sched_core_def
  proof (intro conjI ballI impI)
    show "t \<in> set (rs @ [?c]) \<longleftrightarrow> status (tasks ?s1 t) = TASK_READY" if "t \<in> Ts" for t
      using core that by (cases "t = ?c") (simp_all add: sched_core_def list_append_eq)
    show "t = cur ?s1" if "t \<in> Ts" "status (tasks ?s1 t) = TASK_RUNNING" for t
      using core that by (cases "t = ?c") (simp_all add: sched_core_def list_append_eq)
    show "set (rs @ [?c]) \<subseteq> Ts" using core by (simp add: sched_core_def)
    show "cur ?s1 \<in> Ts" "NULL \<notin> Ts" using core by (simp_all add: sched_core_def list_append_eq)
  qed (use fam1 dirs1 in simp_all)
  have frame: "sched_frame s ?s1 {?c}" by (auto simp: sched_frame_def list_append_eq)
  have cur1: "cur ?s1 = cur s" by (simp add: list_append_eq)
  have task1: "tasks ?s1 ?c = (tasks s ?c)\<lparr>status := TASK_READY, task_ticks := priority (tasks s ?c)\<rparr>"
    by (simp add: list_append_eq)
  show ?thesis using rc core1 cur1 frame task1 by blast
qed

lemma schedule_running:
  assumes inv: "sched_inv s F rs Ts D" and off: "intr_get_status s = INTR_OFF"
    and q: "rs @ [cur s] = p # rs'"
  shows "\<exists>s'. schedule s = (if p = cur s then Inr s' else Inl (Switched s')) \<and> cur s' = p \<and>
    sched_inv s' (F(THREAD_READY_LIST \<mapsto> map general_tag rs')) rs' Ts D \<and>
    sched_frame s s' {cur s, p}"
proof -
  obtain s1 where rc: "ready_current s = Inr s1"
    and core: "sched_core s1 (F(THREAD_READY_LIST \<mapsto> map general_tag (p # rs'))) (p # rs') Ts D"
    and cur: "cur s1 = cur s" and fr: "sched_frame s s1 {cur s}"
    and st: "status (tasks s1 (cur s)) \<noteq> TASK_RUNNING"
    using ready_current_running [OF inv, unfolded q] by auto
  obtain s' where s': "schedule s = (if p = cur s then Inr s' else Inl (Switched s'))" "cur s' = p"
    "sched_inv s' (F(THREAD_READY_LIST \<mapsto> map general_tag rs')) rs' Ts D" "sched_frame s1 s' {p}"
    using schedule_pop [OF off rc core cur st] unfolding fun_upd_upd by blast
  have "sched_frame s s' {cur s, p}" using sched_frame_trans [OF fr s'(4)] by (simp add: insert_commute)
  with s' show ?thesis by blast
qed

lemma schedule_blocked:
  assumes core: "sched_core s F (p # rs) Ts D" and off: "intr_get_status s = INTR_OFF"
    and st: "status (tasks s (cur s)) \<noteq> TASK_RUNNING" "status (tasks s (cur s)) \<noteq> TASK_READY"
  shows "\<exists>s'. schedule s = Inl (Switched s') \<and> cur s' = p \<and>
    sched_inv s' (F(THREAD_READY_LIST \<mapsto> map general_tag rs)) rs Ts D \<and> sched_frame s s' {p}"
proof -
  have rc: "ready_current s = Inr s" using st by (simp add: ready_current_def)
  have "p \<noteq> cur s" using core st by (auto simp: sched_core_def)
  with schedule_pop [OF off rc core refl st(1)] show ?thesis by auto
qed

lemma sched_core_cong:
  assumes "lheap s' = lheap s" "phys s' = phys s" "cr3 s' = cr3 s" "cur s' = cur s" "tasks s' = tasks s"
  shows "sched_core s' F rs Ts D = sched_core s F rs Ts D"
proof -
  have "addr_v2p (s'\<lparr>cr3 := c\<rparr>) v = addr_v2p (s\<lparr>cr3 := c\<rparr>) v" for c v
    by (rule addr_v2p_cong) (simp_all add: assms(2))
  with assms show ?thesis by (simp add: sched_core_def dirs_ok_def k_family_def)
qed

lemma sched_inv_cong:
  assumes "lheap s' = lheap s" "phys s' = phys s" "cr3 s' = cr3 s" "cur s' = cur s" "tasks s' = tasks s"
  shows "sched_inv s' F rs Ts D = sched_inv s F rs Ts D"
  using sched_core_cong [OF assms] assms by (simp add: sched_inv_def)

lemma cli_more [simp]:
  "cur (cli s) = cur s" "tasks (cli s) = tasks s" "sema_value (cli s) = sema_value s"
  "ioqs (cli s) = ioqs s" "ptrs (cli s) = ptrs s"
  "outports (cli s) = outports s" "disks (cli s) = disks s" "ide_channels (cli s) = ide_channels s"
  "lock_holder (cli s) = lock_holder s" "holder_repeat_nr (cli s) = holder_repeat_nr s"
  "phys (cli s) = phys s" "cr3 (cli s) = cr3 s" "mem (cli s) = mem s"
  "kernel_pool (cli s) = kernel_pool s" "user_pool (cli s) = user_pool s"
  by (simp_all add: cli_def)

lemma sched_inv_cli [simp]: "sched_inv (cli s) F rs Ts D = sched_inv s F rs Ts D"
  by (rule sched_inv_cong) simp_all

lemma intr_disable_eq: "intr_disable s = (cli s, intr_get_status s)"
  using fst_intr_disable [of s] snd_intr_disable [of s] by (metis prod.collapse)

text \<open>Blocking the running thread hands the processor to the first ready thread.\<close>

lemma thread_block_core:
  assumes core: "sched_core s F (p # rs) Ts D" and run: "status (tasks s (cur s)) = TASK_RUNNING"
    and st: "block_status stat"
  shows "\<exists>s'. thread_block s stat = Inl (Switched s') \<and> cur s' = p \<and>
    sched_inv s' (F(THREAD_READY_LIST \<mapsto> map general_tag rs)) rs Ts D \<and>
    sched_frame (cli s) s' {cur s, p} \<and> status (tasks s' (cur s)) = stat"
proof -
  define s2 where "s2 = update_task (cur s) (\<lambda>t. t\<lparr>status := stat\<rparr>) (cli s)"
  have sel: "tasks s2 = (tasks s)(cur s := (tasks s (cur s))\<lparr>status := stat\<rparr>)" "cur s2 = cur s"
    "phys s2 = phys s" "cr3 s2 = cr3 s" "lheap s2 = lheap s" "eflags s2 = eflags (cli s)"
    by (simp_all add: s2_def)
  have dirs: "dirs_ok s2 Ts D"
    by (rule dirs_ok_cong [of _ s]) (use core in \<open>simp_all add: sched_core_def dirs_ok_def sel\<close>)
  have core2: "sched_core s2 F (p # rs) Ts D"
    unfolding sched_core_def
  proof (intro conjI ballI impI)
    show "t \<in> set (p # rs) \<longleftrightarrow> status (tasks s2 t) = TASK_READY" if "t \<in> Ts" for t
      using core that run st by (cases "t = cur s") (auto simp: sched_core_def block_status_def sel)
    show "t = cur s2" if "t \<in> Ts" "status (tasks s2 t) = TASK_RUNNING" for t
      using core that by (cases "t = cur s") (simp_all add: sched_core_def sel)
    show "k_family s2 F" using core by (simp add: sched_core_def k_family_def sel)
  qed (use core dirs in \<open>simp_all add: sched_core_def sel\<close>)
  have off2: "intr_get_status s2 = INTR_OFF"
    using intr_get_status_cli [of s] by (simp add: intr_get_status_def sel)
  have st2: "status (tasks s2 (cur s2)) \<noteq> TASK_RUNNING" "status (tasks s2 (cur s2)) \<noteq> TASK_READY"
    using st by (auto simp: block_status_def sel)
  obtain s' where s': "schedule s2 = Inl (Switched s')" "cur s' = p"
    "sched_inv s' (F(THREAD_READY_LIST \<mapsto> map general_tag rs)) rs Ts D" "sched_frame s2 s' {p}"
    using schedule_blocked [OF core2 off2 st2] by blast
  have "status (tasks s p) = TASK_READY" using sched_core_ready [OF core, of p] by simp
  with run have "cur s \<noteq> p" by auto
  with s'(4) have "status (tasks s' (cur s)) = stat" by (simp add: sched_frame_def sel)
  moreover have "sched_frame (cli s) s' {cur s, p}"
  proof -
    have "sched_frame (cli s) s2 {cur s}" unfolding s2_def by (rule sched_frame_update_task) simp_all
    from sched_frame_trans [OF this s'(4)] show ?thesis by (simp add: insert_commute)
  qed
  moreover have "thread_block s stat = Inl (Switched s')"
    using st s'(1) by (simp add: thread_block_def intr_disable_eq s2_def)
  ultimately show ?thesis using s' by blast
qed

lemma thread_block_switches:
  assumes "sched_inv s F (p # rs) Ts D" "block_status stat"
  shows "\<exists>s'. thread_block s stat = Inl (Switched s') \<and> cur s' = p \<and>
    sched_inv s' (F(THREAD_READY_LIST \<mapsto> map general_tag rs)) rs Ts D \<and>
    sched_frame (cli s) s' {cur s, p} \<and> status (tasks s' (cur s)) = stat"
  using assms unfolding sched_inv_def [of s] by (intro thread_block_core) blast+

text \<open>Unblocking puts the thread at the front of the ready list.\<close>

lemma thread_unblock_readies:
  assumes inv: "sched_inv s F rs Ts D" and p: "p \<in> Ts" "block_status (status (tasks s p))"
    and fresh: "general_tag p \<notin> fam_nodes F"
  shows "\<exists>s'. thread_unblock s p = Inr s' \<and> cur s' = cur s \<and>
    sched_inv s' (F(THREAD_READY_LIST \<mapsto> map general_tag (p # rs))) (p # rs) Ts D \<and>
    sched_frame s s' {p} \<and> status (tasks s' p) = TASK_READY"
proof -
  let ?R = THREAD_READY_LIST
  let ?s2 = "update_task p (\<lambda>t. t\<lparr>status := TASK_READY\<rparr>) (list_push (cli s) ?R (general_tag p))"
  let ?s' = "?s2\<lparr>eflags := eflags s\<rparr>" and ?F = "F(?R \<mapsto> map general_tag (p # rs))"
  from inv have core: "sched_core s F rs Ts D" and run: "status (tasks s (cur s)) = TASK_RUNNING"
    and cfresh: "general_tag (cur s) \<notin> fam_nodes F" by (simp_all add: sched_inv_def)
  then have fam: "k_family (cli s) F" and R: "F ?R = Some (map general_tag rs)"
    by (simp_all add: sched_core_def k_family_def)
  have notin: "p \<notin> set rs" using core p by (auto simp: sched_core_def block_status_def)
  have find: "elem_find (cli s) ?R (general_tag p) = Inr False"
    using elem_find_family [OF fam R] notin by auto
  have nready: "status (tasks s p) \<noteq> TASK_READY" using p(2) by (auto simp: block_status_def)
  have eq: "thread_unblock s p = Inr ?s'"
    using p(2) find nready intr_restore [of ?s2 s]
    by (simp add: thread_unblock_def intr_disable_eq list_push_eq)
  have neq: "p \<noteq> cur s" using p(2) run by (auto simp: block_status_def)
  have nodes: "fam_nodes ?F = insert (general_tag p) (fam_nodes F)"
  proof -
    have other: "(\<exists>l'. P l') \<longleftrightarrow> P ?R \<or> (\<exists>l'. l' \<noteq> ?R \<and> P l')" for P :: "u32 \<Rightarrow> bool"
      by metis
    show ?thesis
      unfolding set_eq_iff fam_nodes_def mem_Collect_eq insert_iff
      by (subst (1 2) other) (use R in \<open>auto simp: dl_nodes_def\<close>)
  qed
  have "sched_inv ?s' ?F (p # rs) Ts D"
    unfolding sched_inv_def sched_core_def
  proof (intro conjI ballI impI)
    show "k_family ?s' ?F" using kl.push_law [OF fam R fresh] by (simp add: k_family_def)
    show "dirs_ok ?s' Ts D"
      by (rule dirs_ok_cong [of _ s])
        (use core in \<open>simp_all add: sched_core_def dirs_ok_def list_push_eq\<close>)
    show "t \<in> set (p # rs) \<longleftrightarrow> status (tasks ?s' t) = TASK_READY" if "t \<in> Ts" for t
      using core that by (cases "t = p") (simp_all add: sched_core_def list_push_eq)
    show "t = cur ?s'" if "t \<in> Ts" "status (tasks ?s' t) = TASK_RUNNING" for t
      using core that by (cases "t = p") (simp_all add: sched_core_def list_push_eq)
    show "general_tag (cur ?s') \<notin> fam_nodes ?F"
      using cfresh neq unfolding nodes by (simp add: list_push_eq)
  qed (use core run neq p in \<open>simp_all add: sched_core_def list_push_eq\<close>)
  moreover have "sched_frame s ?s' {p}" by (auto simp: sched_frame_def list_push_eq)
  moreover have "cur ?s' = cur s" "status (tasks ?s' p) = TASK_READY" by (simp_all add: list_push_eq)
  ultimately show ?thesis using eq by blast
qed

section \<open>Properties\<close>

text \<open>
  A machine with two kernel threads: the first runs, the second is ready, interrupts are off and
  the memory is zero. It serves the examples of this and the later theories.
\<close>

definition T1 :: u32 where "T1 = 0xc0100000"
definition T2 :: u32 where "T2 = 0xc0101000"

definition demo_task :: "task_status \<Rightarrow> task_struct" where
  "demo_task st = \<lparr>self_kstack = 0, pid = 1, status = st, task_name = [], priority = 31,
     task_ticks = 31, elapsed_ticks = 0, pgdir = 0,
     userprog_vaddr = \<lparr>vaddr_bitmap = \<lparr>btmp_bytes_len = 0, bits = 0\<rparr>, vaddr_start = 0\<rparr>,
     stack_magic = 0x19980906\<rparr>"

definition demo_pool :: pool where
  "demo_pool = \<lparr>pool_bitmap = \<lparr>btmp_bytes_len = 8, bits = 0xc009a000\<rparr>, phy_addr_start = 0x200000,
     pool_size = 0x40000\<rparr>"

definition demo_state :: kstate where
  "demo_state = \<lparr>eflags = 0, cr3 = 0x100000, mem = (\<lambda>_. 0), phys = (\<lambda>_. 0),
     lheap = dl_append (dl_init (\<lambda>_. \<lparr>prev_ptr = 0, next_ptr = 0\<rparr>) THREAD_READY_LIST)
       THREAD_READY_LIST (general_tag T2),
     tasks = (\<lambda>t. demo_task (if t = T1 then TASK_RUNNING else TASK_READY)),
     sema_value = (\<lambda>_. 1), lock_holder = (\<lambda>_. 0), holder_repeat_nr = (\<lambda>_. 0),
     arenas = (\<lambda>_. \<lparr>arena_desc = 0, arena_cnt = 0, arena_large = False\<rparr>),
     descs = (\<lambda>_. \<lparr>block_size = 0, blocks_per_arena = 0\<rparr>),
     kernel_pool = demo_pool, user_pool = demo_pool,
     kernel_vaddr = \<lparr>vaddr_bitmap = \<lparr>btmp_bytes_len = 8, bits = 0xc009a008\<rparr>,
       vaddr_start = 0xc0100000\<rparr>,
     cur = T1, main_thread = T1, next_pid = 2, ticks = 0, tss = zero_tss, ptrs = (\<lambda>_. 0),
     ioqs = (\<lambda>_. \<lparr>buf = replicate 64 0, head = 0, tail = 0\<rparr>), screen = [],
     idt = (\<lambda>_. zero_gate), idt_table = (\<lambda>_. []), intr_name = (\<lambda>_. []), idtr = 0,
     gdt = (\<lambda>_. zero_gdt_desc), gdtr = 0, task_reg = 0, intr_stacks = (\<lambda>_. zero_intr_stack),
     thread_stacks = (\<lambda>_. zero_thread_stack), syscall_table = (\<lambda>_. []),
     kbd = \<lparr>ctrl_status = False, shift_status = False, alt_status = False, caps_lock_status = False,
       ext_scancode = False\<rparr>,
     outports = [], disks = (\<lambda>_. \<lparr>disk_name = [], my_channel = 0, dev_no = 0\<rparr>),
     ide_channels = (\<lambda>_. \<lparr>chan_name = [], port_base = 0, irq_no = 0, expecting_intr = False\<rparr>),
     channel_cnt = 0\<rparr>"

definition demo_lists :: "u32 \<Rightarrow> u32 list option" where
  "demo_lists = [THREAD_READY_LIST \<mapsto> map general_tag [T2]]"

lemma demo_lists_map_of: "demo_lists = map_of [(THREAD_READY_LIST, [general_tag T2])]"
  by (simp add: demo_lists_def)

lemma demo_nodes: "distinct (nodes_of [(THREAD_READY_LIST, [general_tag T2])])"
  by (simp add: nodes_of_def dl_nodes_def tail_of_def general_tag_def T2_def THREAD_READY_LIST_def)

lemma demo_family: "k_family demo_state demo_lists"
  unfolding k_family_def demo_lists_map_of
  by (rule dl_family_map_of [OF demo_nodes])
    (simp add: demo_state_def dl_append_def dl_insert_before_def dl_init_def tail_of_def Let_def
      general_tag_def T2_def THREAD_READY_LIST_def set_prev_def set_next_def)

lemma demo_sched_inv: "sched_inv demo_state demo_lists [T2] {T1, T2} (\<lambda>_. 0x100000)"
proof -
  have "fam_nodes demo_lists = set (nodes_of [(THREAD_READY_LIST, [general_tag T2])])"
    unfolding demo_lists_map_of by (rule fam_nodes_map_of [OF demo_nodes])
  then have "general_tag (cur demo_state) \<notin> fam_nodes demo_lists"
    by (simp add: nodes_of_def dl_nodes_def tail_of_def general_tag_def T1_def T2_def
        THREAD_READY_LIST_def demo_state_def)
  moreover have "dirs_ok demo_state {T1, T2} (\<lambda>_. 0x100000)"
    by (simp add: dirs_ok_def demo_state_def demo_task_def)
  ultimately show ?thesis
    using demo_family
    by (simp add: sched_inv_def sched_core_def demo_lists_def)
      (simp add: demo_state_def demo_task_def T1_def T2_def)
qed

lemma demo_off: "intr_get_status demo_state = INTR_OFF"
  by (simp add: intr_get_status_def demo_state_def)

text \<open>
  C17. Under the scheduler's invariant, schedule called by the running thread with interrupts off
  meets no assertion and rotates the ready list: the caller goes to its end, the first thread of
  the list becomes the running one and the processor switches to it (or the call returns when that
  is the caller itself), and the invariant holds again.
\<close>

theorem schedule_round_robin:
  assumes "sched_inv s F rs Ts D" "intr_get_status s = INTR_OFF" "rs @ [cur s] = p # rs'"
  shows "\<exists>s'. schedule s = (if p = cur s then Inr s' else Inl (Switched s')) \<and> cur s' = p \<and>
    sched_inv s' (F(THREAD_READY_LIST \<mapsto> map general_tag rs')) rs' Ts D \<and>
    sched_frame s s' {cur s, p}"
  using assms by (rule schedule_running)

lemma schedule_round_robin_witness:
  "\<exists>s'. schedule demo_state = (if T2 = cur demo_state then Inr s' else Inl (Switched s')) \<and>
    cur s' = T2 \<and>
    sched_inv s' (demo_lists(THREAD_READY_LIST \<mapsto> map general_tag [T1])) [T1] {T1, T2} (\<lambda>_. 0x100000) \<and>
    sched_frame demo_state s' {cur demo_state, T2}"
  by (rule schedule_round_robin [OF demo_sched_inv demo_off]) (simp add: demo_state_def)

text \<open>The machine after a call of schedule, whichever thread goes on.\<close>

definition machine_after :: "kstate \<Rightarrow> kstate kres \<Rightarrow> kstate" where
  "machine_after s r = (case r of Inr s' \<Rightarrow> s' | Inl (Switched s') \<Rightarrow> s' | Inl _ \<Rightarrow> s)"

lemma schedule_machine_after:
  assumes inv: "sched_inv s F rs Ts D" and off: "intr_get_status s = INTR_OFF"
    and q: "rs @ [cur s] = p # rs'"
  defines "s' \<equiv> machine_after s (schedule s)"
  shows "cur s' = p" "intr_get_status s' = INTR_OFF" "\<exists>F'. sched_inv s' F' rs' Ts D"
proof -
  obtain s1 where s1: "schedule s = (if p = cur s then Inr s1 else Inl (Switched s1))" "cur s1 = p"
    "sched_inv s1 (F(THREAD_READY_LIST \<mapsto> map general_tag rs')) rs' Ts D" "sched_frame s s1 {cur s, p}"
    using schedule_running [OF inv off q] by blast
  then have "s' = s1" by (simp add: s'_def machine_after_def)
  with s1 off show "cur s' = p" "intr_get_status s' = INTR_OFF" "\<exists>F'. sched_inv s' F' rs' Ts D"
    by (auto simp: sched_frame_def intr_get_status_def)
qed

lemma schedule_iterated:
  assumes "sched_inv s F rs Ts D" "intr_get_status s = INTR_OFF" "k \<le> length rs"
  defines "s' \<equiv> ((\<lambda>s. machine_after s (schedule s)) ^^ k) s"
  shows "intr_get_status s' = INTR_OFF \<and> (\<exists>F'. sched_inv s' F' (tl (drop k (cur s # rs) @ take k (cur s # rs))) Ts D) \<and>
    cur s' = hd (drop k (cur s # rs))"
  using assms(3) unfolding s'_def
proof (induction k)
  case 0
  with assms(1,2) show ?case by auto
next
  case (Suc k)
  let ?q = "cur s # rs" and ?s1 = "((\<lambda>s. machine_after s (schedule s)) ^^ k) s"
  have k: "k < length rs" using Suc.prems by simp
  then have drop_k: "drop k ?q = ?q ! k # rs ! k # drop (Suc k) rs"
    by (metis Cons_nth_drop_Suc Suc_less_eq drop_Suc_Cons le_imp_less_Suc length_Cons less_imp_le_nat)
  from Suc k obtain F' where off1: "intr_get_status ?s1 = INTR_OFF" and cur1: "cur ?s1 = ?q ! k"
    and inv1: "sched_inv ?s1 F' (rs ! k # drop (Suc k) rs @ take k ?q) Ts D"
    by (auto simp: drop_k)
  have take_k: "take (Suc k) ?q = take k ?q @ [?q ! k]"
    using k by (intro take_Suc_conv_app_nth) simp
  have "(rs ! k # drop (Suc k) rs @ take k ?q) @ [cur ?s1] =
      rs ! k # (drop (Suc k) rs @ take (Suc k) ?q)"
    unfolding take_k cur1 by simp
  from schedule_machine_after [OF inv1 off1 this] show ?case
    using k by (simp add: Cons_nth_drop_Suc [symmetric])
qed

text \<open>
  C18. Round robin: when only the timer interrupt calls schedule, the k-th call hands the processor
  to the k-th thread that was ready at the start, so every ready thread runs within as many ticks
  of its time slice as there are threads before it.
\<close>

theorem schedule_fair:
  assumes "sched_inv s F rs Ts D" "intr_get_status s = INTR_OFF" "k < length rs"
  shows "cur (((\<lambda>s. machine_after s (schedule s)) ^^ Suc k) s) = rs ! k"
proof -
  have "Suc k \<le> length rs" using assms(3) by simp
  from schedule_iterated [OF assms(1,2) this] assms(3) show ?thesis
    by (simp add: hd_drop_conv_nth)
qed

lemma schedule_fair_witness:
  "cur (((\<lambda>s. machine_after s (schedule s)) ^^ Suc 0) demo_state) = [T2] ! 0"
  by (rule schedule_fair [OF demo_sched_inv demo_off]) simp

text \<open>
  C32. thread_block gives the processor to the first ready thread, leaves the caller out of every
  list with the status asked for, and keeps the invariant.
\<close>

theorem thread_block_runs_next:
  assumes "sched_inv s F (p # rs) Ts D" "block_status stat"
  shows "\<exists>s'. thread_block s stat = Inl (Switched s') \<and> cur s' = p \<and>
    status (tasks s' (cur s)) = stat \<and> general_tag (cur s) \<notin> fam_nodes F \<and>
    sched_inv s' (F(THREAD_READY_LIST \<mapsto> map general_tag rs)) rs Ts D"
  using thread_block_switches [OF assms] assms(1) by (auto simp: sched_inv_def)

lemma thread_block_runs_next_witness:
  "\<exists>s'. thread_block demo_state TASK_BLOCKED = Inl (Switched s') \<and> cur s' = T2 \<and>
    status (tasks s' (cur demo_state)) = TASK_BLOCKED \<and>
    general_tag (cur demo_state) \<notin> fam_nodes demo_lists \<and>
    sched_inv s' (demo_lists(THREAD_READY_LIST \<mapsto> map general_tag [])) [] {T1, T2} (\<lambda>_. 0x100000)"
  by (rule thread_block_runs_next [OF demo_sched_inv]) (simp add: block_status_def)

text \<open>
  There is no idle thread: when the running thread blocks and no other thread is ready,
  schedule fails its assertion that the ready list is not empty.
\<close>

theorem thread_block_last_thread:
  assumes "sched_inv s F [] Ts D" "block_status stat"
  shows "thread_block s stat = Inl (Assert_failed ''!list_empty(&thread_ready_list)'')"
proof -
  let ?s2 = "update_task (cur s) (\<lambda>t. t\<lparr>status := stat\<rparr>) (cli s)"
  have "k_family s F" "F THREAD_READY_LIST = Some []"
    using assms(1) by (simp_all add: sched_inv_def sched_core_def)
  then have "list_empty s THREAD_READY_LIST" using kl.empty_law by blast
  then have "list_empty ?s2 THREAD_READY_LIST" by (simp add: list_empty_def)
  moreover have "ready_current ?s2 = Inr ?s2"
    using assms(2) by (auto simp: ready_current_def block_status_def)
  moreover have "intr_get_status ?s2 = INTR_OFF"
    using intr_get_status_cli [of s] by (simp add: intr_get_status_def)
  ultimately show ?thesis
    using assms(2) by (simp add: thread_block_def intr_disable_eq schedule_def)
qed

lemma thread_block_last_thread_witness:
  "\<exists>s'. thread_block demo_state TASK_BLOCKED = Inl (Switched s') \<and>
    thread_block s' TASK_WAITING = Inl (Assert_failed ''!list_empty(&thread_ready_list)'')"
proof -
  obtain s' where "thread_block demo_state TASK_BLOCKED = Inl (Switched s')"
    and inv: "sched_inv s' (demo_lists(THREAD_READY_LIST \<mapsto> map general_tag [])) [] {T1, T2} (\<lambda>_. 0x100000)"
    using thread_block_switches [OF demo_sched_inv, of TASK_BLOCKED] by (auto simp: block_status_def)
  then show ?thesis
    using thread_block_last_thread [OF inv, of TASK_WAITING] by (simp add: block_status_def)
qed

text \<open>
  thread_unblock accepts exactly the blocked states: a thread in one of them goes to the front
  of the ready list as READY and the caller goes on with its interrupt flag unchanged; any other
  status fails the assertion.
\<close>

theorem thread_unblock_spec:
  assumes "sched_inv s F rs Ts D" "p \<in> Ts" "general_tag p \<notin> fam_nodes F"
  shows "if block_status (status (tasks s p))
    then \<exists>s'. thread_unblock s p = Inr s' \<and> cur s' = cur s \<and> status (tasks s' p) = TASK_READY \<and>
      sched_inv s' (F(THREAD_READY_LIST \<mapsto> map general_tag (p # rs))) (p # rs) Ts D \<and>
      sched_frame s s' {p}
    else \<exists>msg. thread_unblock s p = Inl (Assert_failed msg)"
proof (cases "block_status (status (tasks s p))")
  case True
  with thread_unblock_readies [OF assms(1,2) True assms(3)] show ?thesis by auto
next
  case False
  then show ?thesis by (simp add: thread_unblock_def intr_disable_eq)
qed

lemma thread_unblock_spec_witness:
  "\<exists>s' s''. thread_block demo_state TASK_BLOCKED = Inl (Switched s') \<and> thread_unblock s' T1 = Inr s'' \<and>
    cur s'' = T2 \<and> status (tasks s'' T1) = TASK_READY"
proof -
  obtain s' where s': "thread_block demo_state TASK_BLOCKED = Inl (Switched s')" "cur s' = T2"
    and inv: "sched_inv s' (demo_lists(THREAD_READY_LIST \<mapsto> map general_tag [])) [] {T1, T2} (\<lambda>_. 0x100000)"
    and st: "status (tasks s' T1) = TASK_BLOCKED"
    using thread_block_switches [OF demo_sched_inv, of TASK_BLOCKED]
    by (auto simp: block_status_def demo_state_def)
  have "fam_nodes (demo_lists(THREAD_READY_LIST \<mapsto> map general_tag [])) =
      {THREAD_READY_LIST, tail_of THREAD_READY_LIST}"
    by (simp add: demo_lists_def fam_nodes_upd fun_upd_idem dl_nodes_def)
  then have "general_tag T1 \<notin> fam_nodes (demo_lists(THREAD_READY_LIST \<mapsto> map general_tag []))"
    by (simp add: general_tag_def T1_def THREAD_READY_LIST_def tail_of_def)
  from thread_unblock_spec [OF inv _ this] st s' show ?thesis by (auto simp: block_status_def)
qed

end
