(* ===== verification/Sync.thy ===== *)
theory Sync
  imports Sched
begin

text \<open>
  Semaphores and locks of thread/sync.c. A semaphore is its address: the value is a byte of
  \<open>sema_value\<close>, the list of waiters is four bytes further. sema_down runs with interrupts off; its
  loop blocks the caller until the value is not 0, so it may end in \<open>Switched\<close>, and
  \<open>sema_down_resume\<close> is what the thread does when it is switched back to: the rest of
  thread_block, then the loop again. The lemmas give the effect of each operation under the
  invariant of the scheduler.
\<close>

section \<open>Operations\<close>

definition set_sema_value :: "u32 \<Rightarrow> u8 \<Rightarrow> kstate \<Rightarrow> kstate" where
  "set_sema_value psema v s = s\<lparr>sema_value := (sema_value s)(psema := v)\<rparr>"

definition set_holder :: "u32 \<Rightarrow> u32 \<Rightarrow> kstate \<Rightarrow> kstate" where
  "set_holder plock t s = s\<lparr>lock_holder := (lock_holder s)(plock := t)\<rparr>"

definition set_repeat :: "u32 \<Rightarrow> u32 \<Rightarrow> kstate \<Rightarrow> kstate" where
  "set_repeat plock n s = s\<lparr>holder_repeat_nr := (holder_repeat_nr s)(plock := n)\<rparr>"

definition sema_init :: "kstate \<Rightarrow> u32 \<Rightarrow> u8 \<Rightarrow> kstate" where
  "sema_init s psema v = list_init (set_sema_value psema v s) (sema_waiters psema)"

definition lock_init :: "kstate \<Rightarrow> u32 \<Rightarrow> kstate" where
  "lock_init s plock = sema_init (set_repeat plock 0 (set_holder plock NULL s)) (lock_semaphore plock) 1"

text \<open>The body of sema_down's loop.\<close>

definition sema_wait :: "kstate \<Rightarrow> u32 \<Rightarrow> kstate kres" where
  "sema_wait s psema =
     bindR (elem_find s (sema_waiters psema) (general_tag (running_thread s))) (\<lambda>found.
       assertR (\<not> found) ''!elem_find(&psema->waiters,&running_thread()->general_tag)''
         (bindR (elem_find s (sema_waiters psema) (general_tag (running_thread s))) (\<lambda>again.
            if again then Inl (Panicked ''sema_down: seme_down thread already in ready_list'')
            else thread_block (list_append s (sema_waiters psema) (general_tag (running_thread s)))
                   TASK_BLOCKED)))"

partial_function (option) sema_down_loop :: "u32 \<Rightarrow> kstate \<Rightarrow> kstate kres option" where
  "sema_down_loop psema s =
     (if sema_value s psema = 0
      then (case sema_wait s psema of
              Inl e \<Rightarrow> Some (Inl e)
            | Inr s1 \<Rightarrow> sema_down_loop psema s1)
      else Some (Inr s))"

definition sema_down_from :: "kstate \<Rightarrow> u32 \<Rightarrow> intr_status \<Rightarrow> kstate kres" where
  "sema_down_from s psema old_status =
     bindR (joinR (sema_down_loop psema s)) (\<lambda>s1.
       let s2 = set_sema_value psema (sema_value s1 psema - 1) s1
       in assertR (sema_value s2 psema = 0) ''psema->value==0''
            (Inr (fst (intr_set_status s2 old_status))))"

definition sema_down :: "kstate \<Rightarrow> u32 \<Rightarrow> kstate kres" where
  "sema_down s psema =
     (let (s1, old_status) = intr_disable s in sema_down_from s1 psema old_status)"

definition sema_down_resume :: "kstate \<Rightarrow> u32 \<Rightarrow> intr_status \<Rightarrow> kstate kres" where
  "sema_down_resume s psema old_status =
     sema_down_from (fst (intr_set_status s INTR_OFF)) psema old_status"

definition sema_up :: "kstate \<Rightarrow> u32 \<Rightarrow> kstate kres" where
  "sema_up s psema =
     (let (s1, old_status) = intr_disable s in
      assertR (sema_value s1 psema = 0) ''psema->value==0''
        (bindR
          (if \<not> list_empty s1 (sema_waiters psema)
           then bindR (list_pop s1 (sema_waiters psema)) (\<lambda>(tag, s2). thread_unblock s2 (tag2task tag))
           else Inr s1)
          (\<lambda>s3. let s4 = set_sema_value psema (sema_value s3 psema + 1) s3
                in assertR (sema_value s4 psema = 1) ''psema->value==1''
                     (Inr (fst (intr_set_status s4 old_status))))))"

definition lock_acquire :: "kstate \<Rightarrow> u32 \<Rightarrow> kstate kres" where
  "lock_acquire s plock =
     (if lock_holder s plock \<noteq> running_thread s
      then bindR (sema_down s (lock_semaphore plock)) (\<lambda>s1.
             let s2 = set_holder plock (running_thread s1) s1
             in assertR (holder_repeat_nr s2 plock = 0) ''!plock->holder_repeat_nr''
                  (Inr (set_repeat plock 1 s2)))
      else Inr (set_repeat plock (holder_repeat_nr s plock + 1) s))"

definition lock_release :: "kstate \<Rightarrow> u32 \<Rightarrow> kstate kres" where
  "lock_release s plock =
     assertR (lock_holder s plock = running_thread s) ''plock->holder == running_thread()''
       (if 1 < holder_repeat_nr s plock
        then Inr (set_repeat plock (holder_repeat_nr s plock - 1) s)
        else assertR (holder_repeat_nr s plock = 1) ''plock->holder_repeat_nr == 1''
               (sema_up (set_repeat plock 0 (set_holder plock NULL s)) (lock_semaphore plock)))"

section \<open>Effect under the invariant of the scheduler\<close>

lemma set_sync_sel [simp]:
  "lheap (set_sema_value p v s) = lheap s" "phys (set_sema_value p v s) = phys s"
  "cr3 (set_sema_value p v s) = cr3 s" "cur (set_sema_value p v s) = cur s"
  "tasks (set_sema_value p v s) = tasks s" "eflags (set_sema_value p v s) = eflags s"
  "lock_holder (set_sema_value p v s) = lock_holder s"
  "holder_repeat_nr (set_sema_value p v s) = holder_repeat_nr s"
  "sema_value (set_sema_value p v s) = (sema_value s)(p := v)"
  "lheap (set_holder l t s) = lheap s" "phys (set_holder l t s) = phys s"
  "cr3 (set_holder l t s) = cr3 s" "cur (set_holder l t s) = cur s"
  "tasks (set_holder l t s) = tasks s" "eflags (set_holder l t s) = eflags s"
  "lock_holder (set_holder l t s) = (lock_holder s)(l := t)"
  "holder_repeat_nr (set_holder l t s) = holder_repeat_nr s"
  "sema_value (set_holder l t s) = sema_value s"
  "lheap (set_repeat l n s) = lheap s" "phys (set_repeat l n s) = phys s"
  "cr3 (set_repeat l n s) = cr3 s" "cur (set_repeat l n s) = cur s"
  "tasks (set_repeat l n s) = tasks s" "eflags (set_repeat l n s) = eflags s"
  "lock_holder (set_repeat l n s) = lock_holder s"
  "holder_repeat_nr (set_repeat l n s) = (holder_repeat_nr s)(l := n)"
  "outports (set_sema_value p v s) = outports s" "disks (set_sema_value p v s) = disks s"
  "ide_channels (set_sema_value p v s) = ide_channels s"
  "outports (set_holder l t s) = outports s" "disks (set_holder l t s) = disks s"
  "ide_channels (set_holder l t s) = ide_channels s"
  "outports (set_repeat l n s) = outports s" "disks (set_repeat l n s) = disks s"
  "ide_channels (set_repeat l n s) = ide_channels s"
  "sema_value (set_repeat l n s) = sema_value s"
  by (simp_all add: set_sema_value_def set_holder_def set_repeat_def)

lemma sched_inv_set [simp]:
  "sched_inv (set_sema_value p v s) F rs Ts D = sched_inv s F rs Ts D"
  "sched_inv (set_holder l t s) F rs Ts D = sched_inv s F rs Ts D"
  "sched_inv (set_repeat l n s) F rs Ts D = sched_inv s F rs Ts D"
  "sched_inv (s\<lparr>eflags := x\<rparr>) F rs Ts D = sched_inv s F rs Ts D"
  by (rule sched_inv_cong; simp)+

text \<open>A free semaphore is taken at once.\<close>

lemma sema_down_from_free:
  assumes "sema_value s psema = 1"
  shows "sema_down_from s psema old = Inr (fst (intr_set_status (set_sema_value psema 0 s) old))"
  using assms by (simp add: sema_down_from_def sema_down_loop.simps Let_def)

lemma sema_down_free:
  assumes "sema_value s psema = 1"
  shows "sema_down s psema = Inr (set_sema_value psema 0 s)"
proof -
  have "sema_down s psema = Inr (fst (intr_set_status (set_sema_value psema 0 (cli s)) (intr_get_status s)))"
    using assms by (simp add: sema_down_def intr_disable_eq sema_down_from_free)
  then show ?thesis by (simp add: intr_restore) (simp add: set_sema_value_def cli_def)
qed

text \<open>A taken semaphore blocks the caller at the end of the list of waiters.\<close>

lemma sema_down_from_taken:
  assumes inv: "sched_inv s F (p # rs) Ts D" and W: "F (sema_waiters psema) = Some (map general_tag ws)"
    and neq: "sema_waiters psema \<noteq> THREAD_READY_LIST" and v: "sema_value s psema = 0"
  shows "\<exists>s'. sema_down_from s psema old = Inl (Switched s') \<and> cur s' = p \<and>
    sched_inv s' (F(sema_waiters psema \<mapsto> map general_tag (ws @ [cur s]),
        THREAD_READY_LIST \<mapsto> map general_tag rs)) rs Ts D \<and>
    sched_frame (cli s) s' {cur s, p} \<and> status (tasks s' (cur s)) = TASK_BLOCKED"
proof -
  let ?W = "sema_waiters psema" and ?t = "general_tag (cur s)"
  let ?F = "F(?W \<mapsto> map general_tag (ws @ [cur s]))" and ?s1 = "list_append s ?W ?t"
  from inv have core: "sched_core s F (p # rs) Ts D" and run: "status (tasks s (cur s)) = TASK_RUNNING"
    and fresh: "?t \<notin> fam_nodes F" by (simp_all add: sched_inv_def)
  then have fam: "k_family s F" by (simp add: sched_core_def)
  have "?t \<notin> set (map general_tag ws)"
    using fresh W unfolding fam_nodes_def dl_nodes_def by force
  then have find: "elem_find s ?W ?t = Inr False" using elem_find_family [OF fam W] by simp
  have fam1: "k_family ?s1 ?F" using kl.append_law [OF fam W fresh] by simp
  have dirs: "dirs_ok ?s1 Ts D"
    by (rule dirs_ok_cong [of _ s]) (use core in \<open>simp_all add: sched_core_def dirs_ok_def list_append_eq\<close>)
  have core1: "sched_core ?s1 ?F (p # rs) Ts D"
    using core fam1 dirs neq by (simp add: sched_core_def list_append_eq)
  have run1: "status (tasks ?s1 (cur ?s1)) = TASK_RUNNING" by (simp add: list_append_eq run)
  obtain s' where s': "thread_block ?s1 TASK_BLOCKED = Inl (Switched s')" "cur s' = p"
    "sched_inv s' (?F(THREAD_READY_LIST \<mapsto> map general_tag rs)) rs Ts D"
    "sched_frame (cli ?s1) s' {cur ?s1, p}" "status (tasks s' (cur ?s1)) = TASK_BLOCKED"
    using thread_block_core [OF core1 run1, of TASK_BLOCKED] by (auto simp: block_status_def)
  have cur1: "cur ?s1 = cur s" by (simp add: list_append_eq)
  have "sched_frame (cli s) s' {cur s, p}"
    using s'(4) by (simp add: sched_frame_def list_append_eq) (simp add: cli_def)
  moreover have "sema_down_from s psema old = Inl (Switched s')"
    using v s'(1) by (simp add: sema_down_from_def sema_down_loop.simps sema_wait_def find)
  ultimately show ?thesis using s' cur1 by auto
qed

lemma sema_down_taken:
  assumes "sched_inv s F (p # rs) Ts D" "F (sema_waiters psema) = Some (map general_tag ws)"
    "sema_waiters psema \<noteq> THREAD_READY_LIST" "sema_value s psema = 0"
  shows "\<exists>s'. sema_down s psema = Inl (Switched s') \<and> cur s' = p \<and>
    sched_inv s' (F(sema_waiters psema \<mapsto> map general_tag (ws @ [cur s]),
        THREAD_READY_LIST \<mapsto> map general_tag rs)) rs Ts D \<and>
    sched_frame (cli s) s' {cur s, p} \<and> status (tasks s' (cur s)) = TASK_BLOCKED"
  using sema_down_from_taken [of "cli s" F p rs Ts D psema ws "intr_get_status s"] assms cli_off [of "cli s"]
  by (simp add: sema_down_def intr_disable_eq if_off_def)

text \<open>sema_up frees the semaphore and makes the first waiter ready.\<close>

lemma sema_up_no_waiter:
  assumes "k_family s F" "F (sema_waiters psema) = Some []" "sema_value s psema = 0"
  shows "sema_up s psema = Inr (set_sema_value psema 1 s)"
proof -
  have "list_empty s (sema_waiters psema)" using kl.empty_law [OF assms(1,2)] by simp
  then have "list_empty (cli s) (sema_waiters psema)" by (simp add: list_empty_def)
  with assms(3) have "sema_up s psema =
      Inr (fst (intr_set_status (set_sema_value psema 1 (cli s)) (intr_get_status s)))"
    by (simp add: sema_up_def intr_disable_eq)
  then show ?thesis by (simp add: intr_restore) (simp add: set_sema_value_def cli_def)
qed

lemma fam_nodes_pop: "F l = Some (x # xs) \<Longrightarrow> fam_nodes (F(l \<mapsto> xs)) \<subseteq> fam_nodes F"
proof
  fix a assume l: "F l = Some (x # xs)" and a: "a \<in> fam_nodes (F(l \<mapsto> xs))"
  show "a \<in> fam_nodes F"
  proof (cases "a \<in> set (dl_nodes l xs)")
    case True
    then have "a \<in> set (dl_nodes l (x # xs))" by (auto simp: dl_nodes_def)
    with l show ?thesis unfolding fam_nodes_def by blast
  next
    case False
    with a fam_nodes_mono [of F l] show ?thesis by (auto simp: fam_nodes_upd)
  qed
qed

lemma sema_up_waiter:
  assumes inv: "sched_inv s F rs Ts D" and W: "F (sema_waiters psema) = Some (map general_tag (w # ws))"
    and neq: "sema_waiters psema \<noteq> THREAD_READY_LIST" and v: "sema_value s psema = 0"
    and w: "w \<in> Ts" "status (tasks s w) = TASK_BLOCKED"
  shows "\<exists>s'. sema_up s psema = Inr s' \<and> cur s' = cur s \<and>
    sched_inv s' (F(sema_waiters psema \<mapsto> map general_tag ws,
        THREAD_READY_LIST \<mapsto> map general_tag (w # rs))) (w # rs) Ts D \<and>
    sched_frame s (set_sema_value psema 0 s') {w} \<and> sema_value s' psema = 1 \<and>
    status (tasks s' w) = TASK_READY"
proof -
  let ?W = "sema_waiters psema" and ?t = "general_tag w"
  let ?F = "F(?W \<mapsto> map general_tag ws)" and ?s1 = "list_remove (cli s) ?t"
  have W': "F ?W = Some (?t # map general_tag ws)" using W by simp
  from inv have core: "sched_core s F rs Ts D" and run: "status (tasks s (cur s)) = TASK_RUNNING"
    and fresh: "general_tag (cur s) \<notin> fam_nodes F" by (simp_all add: sched_inv_def)
  then have fam: "k_family (cli s) F" by (simp add: sched_core_def k_family_def)
  have ne: "\<not> list_empty (cli s) ?W" using kl.empty_law [OF fam W'] by simp
  have pop: "list_pop (cli s) ?W = Inr (?t, ?s1)" and fam1: "k_family ?s1 ?F"
    using list_pop_family [OF fam W'] by simp_all
  have free: "?t \<notin> fam_nodes ?F"
    using kl.removed_fresh [OF fam, of ?W "[]" ?t "map general_tag ws"] W' by simp
  have sel: "tasks ?s1 = tasks s" "cur ?s1 = cur s" "phys ?s1 = phys s" "cr3 ?s1 = cr3 s"
    by (simp_all add: list_remove_eq)
  have dirs1: "dirs_ok ?s1 Ts D"
    by (rule dirs_ok_cong [of _ s]) (use core in \<open>simp_all add: sel sched_core_def dirs_ok_def\<close>)
  have "sched_core ?s1 ?F rs Ts D"
    using core fam1 dirs1 neq by (simp add: sched_core_def sel)
  moreover have "general_tag (cur s) \<notin> fam_nodes ?F" using fresh fam_nodes_pop [of F ?W, OF W'] by blast
  ultimately have inv1: "sched_inv ?s1 ?F rs Ts D" using run by (simp add: sched_inv_def sel)
  obtain s2 where s2: "thread_unblock ?s1 w = Inr s2" "cur s2 = cur ?s1"
    "sched_inv s2 (?F(THREAD_READY_LIST \<mapsto> map general_tag (w # rs))) (w # rs) Ts D"
    "sched_frame ?s1 s2 {w}" "status (tasks s2 w) = TASK_READY"
    using thread_unblock_readies [OF inv1 w(1) _ free] w(2) by (auto simp: sel block_status_def)
  let ?s' = "fst (intr_set_status (set_sema_value psema 1 s2) (intr_get_status s))"
  have v2: "sema_value s2 psema = 0" using s2(4) v by (simp add: sched_frame_def list_remove_eq)
  have up: "sema_up s psema = Inr ?s'"
    using v v2 ne pop s2(1) by (simp add: sema_up_def intr_disable_eq)
  have e2: "eflags s2 = eflags (cli s)" using s2(4) by (simp add: sched_frame_def list_remove_eq)
  have s': "?s' = (set_sema_value psema 1 s2)\<lparr>eflags := eflags s\<rparr>"
    by (rule intr_restore) (simp add: e2)
  have "sched_frame s (set_sema_value psema 0 ?s') {w}"
    using s2(4) v unfolding s'
    by (simp add: sched_frame_def list_remove_eq fun_upd_idem) (simp add: set_sema_value_def fun_upd_idem)
  with up s2 show ?thesis unfolding s' by (intro exI [of _ "(set_sema_value psema 1 s2)\<lparr>eflags := eflags s\<rparr>"])
      (simp add: sel)
qed

text \<open>
  The two halves that memory.c and thread.c use around their critical sections: an unlocked lock
  is taken and given back at once, and only the lock's fields change.
\<close>

lemma lock_acquire_free:
  assumes "lock_holder s l = 0" "cur s \<noteq> 0" "sema_value s (lock_semaphore l) = 1"
    "holder_repeat_nr s l = 0"
  shows "lock_acquire s l =
    Inr (set_repeat l 1 (set_holder l (cur s) (set_sema_value (lock_semaphore l) 0 s)))"
  using assms by (simp add: lock_acquire_def sema_down_free Let_def)

lemma lock_release_uncontended:
  assumes "lock_holder s l = cur s" "holder_repeat_nr s l = 1" "sema_value s (lock_semaphore l) = 0"
    and "k_family s F" "F (sema_waiters (lock_semaphore l)) = Some []"
  shows "lock_release s l =
    Inr (set_sema_value (lock_semaphore l) 1 (set_repeat l 0 (set_holder l NULL s)))"
proof -
  have "k_family (set_repeat l 0 (set_holder l NULL s)) F"
    using assms(4) by (simp add: k_family_def)
  from sema_up_no_waiter [OF this assms(5)] assms show ?thesis by (simp add: lock_release_def)
qed

text \<open>A new lock adds its empty list of waiters to the family and keeps the scheduler's invariant.\<close>

lemma lock_init_sel:
  "lheap (lock_init s l) = dl_init (lheap s) (sema_waiters (lock_semaphore l))" "phys (lock_init s l) = phys s"
  "cr3 (lock_init s l) = cr3 s" "cur (lock_init s l) = cur s" "tasks (lock_init s l) = tasks s"
  "sema_value (lock_init s l) (lock_semaphore l) = 1" "lock_holder (lock_init s l) l = 0"
  "holder_repeat_nr (lock_init s l) l = 0" "eflags (lock_init s l) = eflags s"
  "ioqs (lock_init s l) = ioqs s" "ptrs (lock_init s l) = ptrs s"
  by (simp_all add: lock_init_def sema_init_def list_init_def set_sema_value_def set_repeat_def set_holder_def)

lemma lock_init_sched_inv:
  fixes l
  defines "W \<equiv> sema_waiters (lock_semaphore l)"
  assumes inv: "sched_inv s F rs Ts D" and fresh: "{W, tail_of W} \<inter> insert (general_tag (cur s)) (fam_nodes F) = {}"
  shows "sched_inv (lock_init s l) (F(W \<mapsto> [])) rs Ts D" "W \<noteq> THREAD_READY_LIST"
proof -
  have core: "sched_core s F rs Ts D" and run: "status (tasks s (cur s)) = TASK_RUNNING"
    and cfresh: "general_tag (cur s) \<notin> fam_nodes F" using inv by (simp_all add: sched_inv_def)
  have R: "F THREAD_READY_LIST = Some (map general_tag rs)" and fam: "k_family s F"
    and dirs: "dirs_ok s Ts D" using core by (simp_all add: sched_core_def)
  have key: "k \<in> fam_nodes F" if "F k = Some xs" for k xs
    unfolding fam_nodes_def mem_Collect_eq by (intro exI conjI, rule that) (simp add: dl_nodes_def)
  show neq: "W \<noteq> THREAD_READY_LIST" using fresh key [OF R] by auto
  have "F W = None" using fresh key [of W] by (cases "F W") auto
  then have F0: "F(W := None) = F" by (simp add: fun_upd_idem)
  have "dl_family (dl_init (lheap s) W) (F(W \<mapsto> []))"
    by (rule dl_family_init) (use fam fresh in \<open>simp_all add: F0 k_family_def\<close>)
  then have fam': "k_family (lock_init s l) (F(W \<mapsto> []))" by (simp add: k_family_def lock_init_sel W_def)
  have dirs': "dirs_ok (lock_init s l) Ts D"
    by (rule dirs_ok_cong [OF _ _ _ dirs]) (use dirs in \<open>simp_all add: lock_init_sel dirs_ok_def\<close>)
  have "sched_core (lock_init s l) (F(W \<mapsto> [])) rs Ts D"
    using core fam' dirs' neq by (simp add: sched_core_def lock_init_sel)
  moreover have "general_tag (cur s) \<notin> fam_nodes (F(W \<mapsto> []))"
    using cfresh fresh by (simp add: fam_nodes_upd F0 dl_nodes_def)
  ultimately show "sched_inv (lock_init s l) (F(W \<mapsto> [])) rs Ts D"
    using run by (simp add: sched_inv_def lock_init_sel)
qed

end
