(* ===== verification/Lock_Protocol.thy ===== *)
theory Lock_Protocol
  imports Sync
begin

text \<open>
  Many threads using one lock, under preemption. lock_acquire and lock_release of thread/sync.c are
  cut into their statements, because the timer may switch threads between any two of them; only
  sema_down and sema_up, which run with interrupts off, are single steps. The step relation
  interleaves the statements of the running thread, timer interrupts that call schedule, and the
  return from an interrupt. The invariant gives mutual exclusion, that no assertion of sync.c,
  thread.c or list.c fails, and that no waiting thread is forgotten.
\<close>

section \<open>The statements of lock_acquire and lock_release\<close>

text \<open>
  \<open>Out\<close> is client code; \<open>A0\<close> is about to test the holder, \<open>A1\<close> about to call sema_down, \<open>Waiting\<close> has
  been switched away inside sema_down, \<open>A2\<close> to \<open>A4\<close> are the statements after it, \<open>AR\<close> the increment
  of a lock already held; \<open>R0\<close> to \<open>R5\<close> are the statements of lock_release.
\<close>

datatype pc = Out | A0 | A1 | Waiting | A2 | A3 | A4 | AR | R0 | R1 | R2 | R3 | R4 | R5

fun lock_stmt :: "u32 \<Rightarrow> pc \<Rightarrow> kstate \<Rightarrow> (pc \<times> kstate) kres" where
  "lock_stmt L Out s = Inr (Out, s)"
| "lock_stmt L A0 s = Inr (if lock_holder s L \<noteq> running_thread s then A1 else AR, s)"
| "lock_stmt L A1 s = bindR (sema_down s (lock_semaphore L)) (\<lambda>s1. Inr (A2, s1))"
| "lock_stmt L Waiting s =
     bindR (sema_down_resume s (lock_semaphore L) INTR_ON) (\<lambda>s1. Inr (A2, s1))"
| "lock_stmt L A2 s = Inr (A3, set_holder L (running_thread s) s)"
| "lock_stmt L A3 s =
     assertR (holder_repeat_nr s L = 0) ''!plock->holder_repeat_nr'' (Inr (A4, s))"
| "lock_stmt L A4 s = Inr (Out, set_repeat L 1 s)"
| "lock_stmt L AR s = Inr (Out, set_repeat L (holder_repeat_nr s L + 1) s)"
| "lock_stmt L R0 s =
     assertR (lock_holder s L = running_thread s) ''plock->holder == running_thread()'' (Inr (R1, s))"
| "lock_stmt L R1 s =
     Inr (if 1 < holder_repeat_nr s L then (Out, set_repeat L (holder_repeat_nr s L - 1) s) else (R2, s))"
| "lock_stmt L R2 s =
     assertR (holder_repeat_nr s L = 1) ''plock->holder_repeat_nr == 1'' (Inr (R3, s))"
| "lock_stmt L R3 s = Inr (R4, set_holder L NULL s)"
| "lock_stmt L R4 s = Inr (R5, set_repeat L 0 s)"
| "lock_stmt L R5 s = bindR (sema_up s (lock_semaphore L)) (\<lambda>s1. Inr (Out, s1))"

text \<open>Running the statements of a call without interruption.\<close>

fun lock_run :: "nat \<Rightarrow> u32 \<Rightarrow> pc \<Rightarrow> kstate \<Rightarrow> (pc \<times> kstate) kres" where
  "lock_run 0 L p s = Inr (p, s)"
| "lock_run (Suc n) L p s = bindR (lock_stmt L p s) (\<lambda>(p1, s1). lock_run n L p1 s1)"

lemma bindR_out: "bindR (bindR r f) g = bindR r (\<lambda>x. bindR (f x) g)"
  by (rule bindR_assoc)

lemma lock_run_acquire: "bindR (lock_acquire s L) (\<lambda>s1. Inr (Out, s1)) = lock_run 5 L A0 s"
  by (simp add: lock_acquire_def numeral_eq_Suc bindR_assoc Let_def)

lemma lock_run_release: "bindR (lock_release s L) (\<lambda>s1. Inr (Out, s1)) = lock_run 6 L R0 s"
  by (simp add: lock_release_def numeral_eq_Suc bindR_assoc assertR_def)

section \<open>Interleaving\<close>

record conf =
  kst :: kstate
  pcs :: "u32 \<Rightarrow> pc"
  depth :: "u32 \<Rightarrow> nat"

definition if_on :: "kstate \<Rightarrow> bool" where
  "if_on s \<longleftrightarrow> intr_get_status s = INTR_ON"

text \<open>The depth of a thread is the number of its calls of lock_acquire not yet released.\<close>

definition new_depth :: "pc \<Rightarrow> pc \<Rightarrow> nat \<Rightarrow> nat" where
  "new_depth p p' d = (if p' \<noteq> Out then d else if p = A4 \<or> p = AR then d + 1 else d - 1)"

inductive lock_step :: "u32 \<Rightarrow> conf \<Rightarrow> conf \<Rightarrow> bool" for L where
  call_acquire: "pcs c (cur (kst c)) = Out \<Longrightarrow> if_on (kst c) \<Longrightarrow>
    Suc (depth c (cur (kst c))) < 2 ^ 32 \<Longrightarrow>
    lock_step L c (c\<lparr>pcs := (pcs c)(cur (kst c) := A0)\<rparr>)"
| call_release: "pcs c (cur (kst c)) = Out \<Longrightarrow> if_on (kst c) \<Longrightarrow> 0 < depth c (cur (kst c)) \<Longrightarrow>
    lock_step L c (c\<lparr>pcs := (pcs c)(cur (kst c) := R0)\<rparr>)"
| stmt: "t = cur (kst c) \<Longrightarrow> p = pcs c t \<Longrightarrow> p \<noteq> Out \<Longrightarrow> p = Waiting \<or> if_on (kst c) \<Longrightarrow>
    lock_stmt L p (kst c) = Inr (p', s') \<Longrightarrow>
    lock_step L c \<lparr>kst = s', pcs = (pcs c)(t := p'), depth = (depth c)(t := new_depth p p' (depth c t))\<rparr>"
| blocks: "t = cur (kst c) \<Longrightarrow> p = pcs c t \<Longrightarrow> p \<noteq> Out \<Longrightarrow> p = Waiting \<or> if_on (kst c) \<Longrightarrow>
    lock_stmt L p (kst c) = Inl (Switched s') \<Longrightarrow>
    lock_step L c (c\<lparr>kst := s', pcs := (pcs c)(t := Waiting)\<rparr>)"
| tick_returns: "if_on (kst c) \<Longrightarrow> schedule (cli (kst c)) = Inr s' \<Longrightarrow>
    lock_step L c (c\<lparr>kst := sti s'\<rparr>)"
| tick_switches: "if_on (kst c) \<Longrightarrow> schedule (cli (kst c)) = Inl (Switched s') \<Longrightarrow>
    lock_step L c (c\<lparr>kst := s'\<rparr>)"
| iret: "\<not> if_on (kst c) \<Longrightarrow> pcs c (cur (kst c)) \<noteq> Waiting \<Longrightarrow>
    lock_step L c (c\<lparr>kst := sti (kst c)\<rparr>)"

section \<open>The invariant\<close>

text \<open>A thread that has no part in the lock, and the lock's fields for the thread that owns it.\<close>

definition outsider :: "pc \<Rightarrow> nat \<Rightarrow> bool" where
  "outsider p d \<longleftrightarrow> d = 0 \<and> (p = Out \<or> p = A0 \<or> p = A1 \<or> p = Waiting)"

fun owner_fields :: "u32 \<Rightarrow> pc \<Rightarrow> nat \<Rightarrow> u32 \<Rightarrow> u32 \<Rightarrow> bool" where
  "owner_fields t Out d h r \<longleftrightarrow> h = t \<and> unat r = d \<and> 0 < d"
| "owner_fields t A0 d h r \<longleftrightarrow> h = t \<and> unat r = d \<and> 0 < d \<and> Suc d < 2 ^ 32"
| "owner_fields t AR d h r \<longleftrightarrow> h = t \<and> unat r = d \<and> 0 < d \<and> Suc d < 2 ^ 32"
| "owner_fields t A2 d h r \<longleftrightarrow> h = 0 \<and> r = 0 \<and> d = 0"
| "owner_fields t A3 d h r \<longleftrightarrow> h = t \<and> r = 0 \<and> d = 0"
| "owner_fields t A4 d h r \<longleftrightarrow> h = t \<and> r = 0 \<and> d = 0"
| "owner_fields t R0 d h r \<longleftrightarrow> h = t \<and> unat r = d \<and> 0 < d"
| "owner_fields t R1 d h r \<longleftrightarrow> h = t \<and> unat r = d \<and> 0 < d"
| "owner_fields t R2 d h r \<longleftrightarrow> h = t \<and> r = 1 \<and> d = 1"
| "owner_fields t R3 d h r \<longleftrightarrow> h = t \<and> r = 1 \<and> d = 1"
| "owner_fields t R4 d h r \<longleftrightarrow> h = 0 \<and> r = 1 \<and> d = 1"
| "owner_fields t R5 d h r \<longleftrightarrow> h = 0 \<and> r = 0 \<and> d = 1"
| "owner_fields t A1 d h r \<longleftrightarrow> False"
| "owner_fields t Waiting d h r \<longleftrightarrow> False"

definition waiters_of :: "u32 \<Rightarrow> u32" where
  "waiters_of L = sema_waiters (lock_semaphore L)"

definition queue_inv ::
  "u32 \<Rightarrow> u32 set \<Rightarrow> (u32 \<Rightarrow> u32) \<Rightarrow> (u32 \<Rightarrow> u32 list option) \<Rightarrow> u32 list \<Rightarrow> u32 list \<Rightarrow>
    kstate \<Rightarrow> (u32 \<Rightarrow> pc) \<Rightarrow> bool" where
  "queue_inv L Ts D F rs ws s P \<longleftrightarrow>
     sched_inv s F rs Ts D \<and> waiters_of L \<noteq> THREAD_READY_LIST \<and>
     F (waiters_of L) = Some (map general_tag ws) \<and> set ws \<subseteq> Ts \<and>
     (\<forall>t \<in> Ts. t \<in> set ws \<longleftrightarrow> status (tasks s t) = TASK_BLOCKED) \<and>
     (\<forall>t \<in> Ts. status (tasks s t) \<in> {TASK_RUNNING, TASK_READY, TASK_BLOCKED}) \<and>
     (\<forall>t \<in> set ws. P t = Waiting) \<and>
     (P (cur s) = Waiting \<longrightarrow> \<not> if_on s)"

definition free_inv :: "u32 \<Rightarrow> u32 set \<Rightarrow> u32 list \<Rightarrow> kstate \<Rightarrow> (u32 \<Rightarrow> pc) \<Rightarrow> (u32 \<Rightarrow> nat) \<Rightarrow> bool" where
  "free_inv L Ts ws s P d \<longleftrightarrow>
     sema_value s (lock_semaphore L) = 1 \<and> lock_holder s L = 0 \<and> holder_repeat_nr s L = 0 \<and>
     (\<forall>t \<in> Ts. outsider (P t) (d t)) \<and>
     (ws \<noteq> [] \<longrightarrow> (\<exists>t \<in> Ts. P t = Waiting \<and> t \<notin> set ws))"

definition owned_inv :: "u32 \<Rightarrow> u32 set \<Rightarrow> u32 \<Rightarrow> kstate \<Rightarrow> (u32 \<Rightarrow> pc) \<Rightarrow> (u32 \<Rightarrow> nat) \<Rightarrow> bool" where
  "owned_inv L Ts w s P d \<longleftrightarrow>
     sema_value s (lock_semaphore L) = 0 \<and> w \<in> Ts \<and>
     owner_fields w (P w) (d w) (lock_holder s L) (holder_repeat_nr s L) \<and>
     (\<forall>t \<in> Ts. t \<noteq> w \<longrightarrow> outsider (P t) (d t))"

definition lock_inv :: "u32 \<Rightarrow> u32 set \<Rightarrow> (u32 \<Rightarrow> u32) \<Rightarrow> conf \<Rightarrow> bool" where
  "lock_inv L Ts D c \<longleftrightarrow>
     (\<exists>F rs ws. queue_inv L Ts D F rs ws (kst c) (pcs c) \<and>
        (free_inv L Ts ws (kst c) (pcs c) (depth c) \<or>
         (\<exists>w. owned_inv L Ts w (kst c) (pcs c) (depth c))))"

section \<open>Steps of the running thread\<close>

lemma queue_inv_run:
  assumes "queue_inv L Ts D F rs ws s P"
  shows "cur s \<in> Ts" "cur s \<noteq> 0" "status (tasks s (cur s)) = TASK_RUNNING" "cur s \<notin> set ws"
    "sched_inv s F rs Ts D"
proof -
  from assms show inv: "sched_inv s F rs Ts D" by (simp add: queue_inv_def)
  then show cT: "cur s \<in> Ts" and run: "status (tasks s (cur s)) = TASK_RUNNING"
    by (simp_all add: sched_inv_def sched_core_def)
  from inv have "NULL \<notin> Ts" by (simp add: sched_inv_def sched_core_def)
  with cT show "cur s \<noteq> 0" by auto
  have "cur s \<in> set ws \<longleftrightarrow> status (tasks s (cur s)) = TASK_BLOCKED"
    using assms cT unfolding queue_inv_def by blast
  with run show "cur s \<notin> set ws" by simp
qed

lemma queue_inv_local:
  assumes q: "queue_inv L Ts D F rs ws s P"
    and same: "lheap s' = lheap s" "phys s' = phys s" "cr3 s' = cr3 s" "cur s' = cur s" "tasks s' = tasks s"
    and p': "p' \<noteq> Waiting"
  shows "queue_inv L Ts D F rs ws s' (P(cur s := p'))"
  using q p' queue_inv_run(4) [OF q] unfolding queue_inv_def sched_inv_cong [OF same] same by auto

lemma lock_inv_local:
  assumes q: "queue_inv L Ts D F rs ws s P"
    and same: "lheap s' = lheap s" "phys s' = phys s" "cr3 s' = cr3 s" "cur s' = cur s" "tasks s' = tasks s"
    and p': "p' \<noteq> Waiting"
    and own: "free_inv L Ts ws s' (P(cur s := p')) d \<or> (\<exists>w. owned_inv L Ts w s' (P(cur s := p')) d)"
  shows "lock_inv L Ts D \<lparr>kst = s', pcs = P(cur s := p'), depth = d\<rparr>"
  using queue_inv_local [OF q same p'] own unfolding lock_inv_def by auto

lemmas lock_inv_free = lock_inv_local [OF _ _ _ _ _ _ _ disjI1]
lemmas lock_inv_owned = lock_inv_local [OF _ _ _ _ _ _ _ disjI2, OF _ _ _ _ _ _ _ exI]

lemma free_inv_upd:
  assumes "free_inv L Ts ws s P d" "P t \<noteq> Waiting" "outsider p' (d t)"
  shows "free_inv L Ts ws s (P(t := p')) d"
proof -
  have "\<exists>u \<in> Ts. (P(t := p')) u = Waiting \<and> u \<notin> set ws" if ne: "ws \<noteq> []"
  proof -
    obtain u where "u \<in> Ts" "P u = Waiting" "u \<notin> set ws" using assms(1) ne unfolding free_inv_def by blast
    moreover have "u \<noteq> t" using assms(2) \<open>P u = Waiting\<close> by auto
    ultimately show ?thesis by auto
  qed
  then show ?thesis using assms by (simp add: free_inv_def)
qed

text \<open>sema_down on a free semaphore, entered or resumed.\<close>

lemma lock_stmt_takes:
  assumes "p = A1 \<or> p = Waiting" "sema_value s (lock_semaphore L) = 1"
  shows "\<exists>x. lock_stmt L p s = Inr (A2, (set_sema_value (lock_semaphore L) 0 s)\<lparr>eflags := x\<rparr>)"
proof -
  have cli: "fst (intr_set_status s INTR_OFF) = cli s" by (simp add: fst_intr_set_status)
  have "lock_stmt L Waiting s =
      Inr (A2, fst (intr_set_status (set_sema_value (lock_semaphore L) 0 (cli s)) INTR_ON))"
    using assms(2) by (simp add: sema_down_resume_def cli sema_down_from_free)
  also have "\<dots> = Inr (A2, (set_sema_value (lock_semaphore L) 0 s)
      \<lparr>eflags := eflags (sti (cli s))\<rparr>)"
    by (simp add: fst_intr_set_status sti_def cli_def set_sema_value_def)
  finally have w: "lock_stmt L Waiting s = \<dots>" .
  have "lock_stmt L A1 s = Inr (A2, (set_sema_value (lock_semaphore L) 0 s)\<lparr>eflags := eflags s\<rparr>)"
    using assms(2) by (simp add: sema_down_free set_sema_value_def)
  with w assms(1) show ?thesis by blast
qed

text \<open>sema_down on a taken semaphore, entered or resumed.\<close>

lemma lock_stmt_waits:
  assumes q: "queue_inv L Ts D F (n # rs) ws s P" and p: "p = A1 \<or> p = Waiting"
    and v: "sema_value s (lock_semaphore L) = 0"
  shows "\<exists>s'. lock_stmt L p s = Inl (Switched s') \<and>
    queue_inv L Ts D (F(waiters_of L \<mapsto> map general_tag (ws @ [cur s]),
      THREAD_READY_LIST \<mapsto> map general_tag rs)) rs (ws @ [cur s]) s' (P(cur s := Waiting)) \<and>
    sema_value s' = sema_value s \<and> lock_holder s' = lock_holder s \<and>
    holder_repeat_nr s' = holder_repeat_nr s"
proof -
  let ?c = "cur s" and ?sem = "lock_semaphore L"
  let ?F = "F(waiters_of L \<mapsto> map general_tag (ws @ [?c]), THREAD_READY_LIST \<mapsto> map general_tag rs)"
  note run = queue_inv_run [OF q]
  from q have W: "F (sema_waiters ?sem) = Some (map general_tag ws)"
    and neq: "sema_waiters ?sem \<noteq> THREAD_READY_LIST"
    by (simp_all add: queue_inv_def waiters_of_def)
  have invc: "sched_inv (cli s) F (n # rs) Ts D" using run(5) by simp
  have resume: "fst (intr_set_status s INTR_OFF) = cli s" by (simp add: fst_intr_set_status)
  have "\<exists>s'. lock_stmt L p s = Inl (Switched s') \<and> cur s' = n \<and> sched_inv s' ?F rs Ts D \<and>
    sched_frame (cli s) s' {?c, n} \<and> status (tasks s' ?c) = TASK_BLOCKED"
    using p
  proof
    assume "p = A1"
    then show ?thesis using sema_down_taken [OF run(5) W neq v] unfolding waiters_of_def by auto
  next
    assume "p = Waiting"
    moreover have "cli (cli s) = cli s" using cli_off [of "cli s"] by (simp add: if_off_def)
    ultimately show ?thesis
      using sema_down_from_taken [OF invc W neq, of INTR_ON] v
      unfolding waiters_of_def by (auto simp: sema_down_resume_def resume)
  qed
  then obtain s' where s': "lock_stmt L p s = Inl (Switched s')" "cur s' = n"
    "sched_inv s' ?F rs Ts D" "sched_frame (cli s) s' {?c, n}" "status (tasks s' ?c) = TASK_BLOCKED"
    by blast
  have off: "\<not> if_on s'"
    using s'(4) intr_get_status_cli [of s] by (simp add: sched_frame_def if_on_def intr_get_status_def)
  have nrun: "status (tasks s' n) = TASK_RUNNING" using s'(2,3) by (simp add: sched_inv_def)
  have nT: "n \<in> Ts" "status (tasks s n) = TASK_READY"
    using sched_core_ready [of s F "n # rs" Ts D n] run(5) by (simp_all add: sched_inv_def)
  then have nws: "n \<notin> set ws" using q unfolding queue_inv_def by force
  have other: "tasks s' t = tasks s t" if "t \<noteq> ?c" "t \<noteq> n" for t
    using s'(4) that by (simp add: sched_frame_def)
  have "queue_inv L Ts D ?F rs (ws @ [?c]) s' (P(?c := Waiting))"
    unfolding queue_inv_def
  proof (intro conjI ballI impI)
    show "t \<in> set (ws @ [?c]) \<longleftrightarrow> status (tasks s' t) = TASK_BLOCKED" if "t \<in> Ts" for t
    proof (cases "t = ?c \<or> t = n")
      case True
      then show ?thesis using s'(5) nrun nws run(3) nT(2) by auto
    next
      case False
      then have "tasks s' t = tasks s t" by (simp add: other)
      moreover have "t \<in> set ws \<longleftrightarrow> status (tasks s t) = TASK_BLOCKED"
        using q that unfolding queue_inv_def by blast
      ultimately show ?thesis using False by simp
    qed
    show "status (tasks s' t) \<in> {TASK_RUNNING, TASK_READY, TASK_BLOCKED}" if "t \<in> Ts" for t
      using s'(5) nrun other [of t] q that unfolding queue_inv_def by (cases "t = ?c \<or> t = n") auto
    show "set (ws @ [?c]) \<subseteq> Ts" using q run(1) by (simp add: queue_inv_def)
    show "(P(?c := Waiting)) t = Waiting" if "t \<in> set (ws @ [?c])" for t
      using q that unfolding queue_inv_def by auto
    show "?F (waiters_of L) = Some (map general_tag (ws @ [?c]))"
      using q by (simp add: queue_inv_def)
  qed (use s'(3) off q in \<open>simp_all add: queue_inv_def\<close>)
  moreover have "sema_value s' = sema_value s \<and> lock_holder s' = lock_holder s \<and>
      holder_repeat_nr s' = holder_repeat_nr s"
    using s'(4) by (simp add: sched_frame_def)
  ultimately show ?thesis using s'(1) by blast
qed

text \<open>The last statement of lock_release, with and without a waiter.\<close>

lemma lock_stmt_frees:
  assumes q: "queue_inv L Ts D F rs ws s P" and v: "sema_value s (lock_semaphore L) = 0"
  shows "\<exists>s' F' rs'. lock_stmt L R5 s = Inr (Out, s') \<and>
    queue_inv L Ts D F' rs' (tl ws) s' (P(cur s := Out)) \<and>
    sema_value s' (lock_semaphore L) = 1 \<and> lock_holder s' = lock_holder s \<and>
    holder_repeat_nr s' = holder_repeat_nr s \<and> cur s' = cur s"
proof (cases ws)
  case Nil
  let ?s' = "set_sema_value (lock_semaphore L) 1 s"
  have "k_family s F" "F (sema_waiters (lock_semaphore L)) = Some []"
    using q Nil by (simp_all add: queue_inv_def waiters_of_def sched_inv_def sched_core_def)
  then have "lock_stmt L R5 s = Inr (Out, ?s')" using v by (simp add: sema_up_no_waiter)
  moreover have "queue_inv L Ts D F rs (tl ws) ?s' (P(cur s := Out))"
    using queue_inv_local [OF q, of ?s' Out] Nil by simp
  ultimately show ?thesis by (intro exI [of _ ?s'] exI [of _ F] exI [of _ rs]) simp
next
  case (Cons w ws')
  let ?c = "cur s" and ?sem = "lock_semaphore L"
  let ?F = "F(waiters_of L \<mapsto> map general_tag ws', THREAD_READY_LIST \<mapsto> map general_tag (w # rs))"
  note run = queue_inv_run [OF q]
  from q Cons have W: "F (sema_waiters ?sem) = Some (map general_tag (w # ws'))"
    and neq: "sema_waiters ?sem \<noteq> THREAD_READY_LIST" and wT: "w \<in> Ts"
    by (simp_all add: queue_inv_def waiters_of_def)
  have wst: "status (tasks s w) = TASK_BLOCKED" using q Cons wT unfolding queue_inv_def by auto
  obtain s' where s': "sema_up s ?sem = Inr s'" "cur s' = ?c" "sched_inv s' ?F (w # rs) Ts D"
    "sched_frame s (set_sema_value ?sem 0 s') {w}" "sema_value s' ?sem = 1" "status (tasks s' w) = TASK_READY"
    using sema_up_waiter [OF run(5) W neq v wT wst] unfolding waiters_of_def by blast
  have other: "tasks s' t = tasks s t" if "t \<noteq> w" for t
    using s'(4) that by (simp add: sched_frame_def)
  have "distinct (map general_tag (w # ws'))"
    using kl.distinct_elems [of s F "sema_waiters ?sem"] W run(5) by (simp add: sched_inv_def sched_core_def)
  then have wnot: "w \<notin> set ws'" by auto
  have "queue_inv L Ts D ?F (w # rs) ws' s' (P(?c := Out))"
    unfolding queue_inv_def
  proof (intro conjI ballI impI)
    show "t \<in> set ws' \<longleftrightarrow> status (tasks s' t) = TASK_BLOCKED" if "t \<in> Ts" for t
    proof (cases "t = w")
      case True
      with wnot s'(6) show ?thesis by simp
    next
      case False
      have "t \<in> set ws \<longleftrightarrow> status (tasks s t) = TASK_BLOCKED"
        using q that unfolding queue_inv_def by blast
      with False Cons other show ?thesis by simp
    qed
    show "status (tasks s' t) \<in> {TASK_RUNNING, TASK_READY, TASK_BLOCKED}" if "t \<in> Ts" for t
      using s'(6) other [of t] q that unfolding queue_inv_def by (cases "t = w") auto
    show "(P(?c := Out)) t = Waiting" if "t \<in> set ws'" for t
      using q that Cons run(4) unfolding queue_inv_def by auto
    show "\<not> if_on s'" if "(P(?c := Out)) (cur s') = Waiting" using that s'(2) by simp
    show "set ws' \<subseteq> Ts" using q Cons by (simp add: queue_inv_def)
    show "?F (waiters_of L) = Some (map general_tag ws')"
      using q by (simp add: queue_inv_def)
  qed (use s'(3) q in \<open>simp_all add: queue_inv_def\<close>)
  moreover have "lock_holder s' = lock_holder s" "holder_repeat_nr s' = holder_repeat_nr s"
    using s'(4) by (simp_all add: sched_frame_def)
  moreover have "lock_stmt L R5 s = Inr (Out, s')" using s'(1) by simp
  ultimately show ?thesis using s'(2,5) Cons by auto
qed

section \<open>Every statement keeps the invariant\<close>

definition stmt_ok :: "u32 \<Rightarrow> u32 set \<Rightarrow> (u32 \<Rightarrow> u32) \<Rightarrow> conf \<Rightarrow> pc \<Rightarrow> bool" where
  "stmt_ok L Ts D c p \<longleftrightarrow> (let t = cur (kst c) in
     case lock_stmt L p (kst c) of
       Inr (p', s') \<Rightarrow> lock_inv L Ts D \<lparr>kst = s', pcs = (pcs c)(t := p'),
          depth = (depth c)(t := new_depth p p' (depth c t))\<rparr>
     | Inl (Switched s') \<Rightarrow> lock_inv L Ts D (c\<lparr>kst := s', pcs := (pcs c)(t := Waiting)\<rparr>)
     | Inl _ \<Rightarrow> False)"

lemma owner_not_cur_ready:
  assumes q: "queue_inv L Ts D F rs ws s P" and w: "w \<in> Ts" "P w \<noteq> Waiting" "w \<noteq> cur s"
  shows "w \<in> set rs"
proof -
  have nws: "w \<notin> set ws" using q w(2) unfolding queue_inv_def by blast
  then have "status (tasks s w) \<noteq> TASK_BLOCKED" using q w(1) unfolding queue_inv_def by blast
  moreover have "status (tasks s w) \<noteq> TASK_RUNNING"
    using queue_inv_run(5) [OF q] w(1,3) by (auto simp: sched_inv_def sched_core_def)
  moreover have "status (tasks s w) \<in> {TASK_RUNNING, TASK_READY, TASK_BLOCKED}"
    using q w(1) by (simp add: queue_inv_def)
  ultimately show ?thesis
    using queue_inv_run(5) [OF q] w(1) by (auto simp: sched_inv_def sched_core_def)
qed

text \<open>The three kinds of state in which a statement runs: free lock, owner elsewhere, own lock.\<close>

lemma stmt_ok_free:
  assumes q: "queue_inv L Ts D F rs ws (kst c) (pcs c)"
    and free: "free_inv L Ts ws (kst c) (pcs c) (depth c)" and p: "pcs c (cur (kst c)) = p" "p \<noteq> Out"
  shows "stmt_ok L Ts D c p"
proof -
  let ?s = "kst c" and ?t = "cur (kst c)" and ?P = "pcs c" and ?d = "depth c"
  note run = queue_inv_run [OF q]
  have d: "?d ?t = 0" and ps: "p = A0 \<or> p = A1 \<or> p = Waiting"
    using free run(1) p by (auto simp: free_inv_def outsider_def)
  have rest: "outsider (?P u) (?d u)" if "u \<in> Ts" for u using free that by (simp add: free_inv_def)
  show ?thesis
  proof (cases "p = A0")
    case True
    then have step: "lock_stmt L p ?s = Inr (A1, ?s)"
      using run(2) free by (simp add: free_inv_def)
    have "free_inv L Ts ws ?s (?P(?t := A1)) (?d(?t := ?d ?t))"
    proof -
      have o: "outsider A1 (?d ?t)" using d by (simp add: outsider_def)
      have "?P ?t \<noteq> Waiting" using True p(1) by simp
      from free_inv_upd [OF free this o] show ?thesis by simp
    qed
    then have "lock_inv L Ts D \<lparr>kst = ?s, pcs = ?P(?t := A1), depth = ?d(?t := ?d ?t)\<rparr>"
      by (intro lock_inv_free [OF q]) simp_all
    then show ?thesis using step by (simp add: stmt_ok_def Let_def new_depth_def)
  next
    case False
    then have "p = A1 \<or> p = Waiting" using ps by simp
    then obtain x where step: "lock_stmt L p ?s =
        Inr (A2, (set_sema_value (lock_semaphore L) 0 ?s)\<lparr>eflags := x\<rparr>)"
      using lock_stmt_takes free unfolding free_inv_def by blast
    have "owned_inv L Ts ?t ((set_sema_value (lock_semaphore L) 0 ?s)\<lparr>eflags := x\<rparr>)
        (?P(?t := A2)) (?d(?t := ?d ?t))"
      using free run(1) rest d by (simp add: owned_inv_def free_inv_def)
    then have "lock_inv L Ts D \<lparr>kst = (set_sema_value (lock_semaphore L) 0 ?s)\<lparr>eflags := x\<rparr>,
        pcs = ?P(?t := A2), depth = ?d(?t := ?d ?t)\<rparr>"
      by (intro lock_inv_owned [OF q]) simp_all
    then show ?thesis using step by (simp add: stmt_ok_def Let_def new_depth_def)
  qed
qed

lemma stmt_ok_other:
  assumes q: "queue_inv L Ts D F rs ws (kst c) (pcs c)"
    and own: "owned_inv L Ts w (kst c) (pcs c) (depth c)" and w: "w \<noteq> cur (kst c)"
    and p: "pcs c (cur (kst c)) = p" "p \<noteq> Out"
  shows "stmt_ok L Ts D c p"
proof -
  let ?s = "kst c" and ?t = "cur (kst c)" and ?P = "pcs c" and ?d = "depth c"
  note run = queue_inv_run [OF q]
  have ps: "p = A0 \<or> p = A1 \<or> p = Waiting"
    using own run(1) w p by (auto simp: owned_inv_def outsider_def)
  have fields: "owner_fields w (?P w) (?d w) (lock_holder ?s L) (holder_repeat_nr ?s L)" and wT: "w \<in> Ts"
    and v: "sema_value ?s (lock_semaphore L) = 0"
    using own by (simp_all add: owned_inv_def)
  then have h: "lock_holder ?s L = w \<or> lock_holder ?s L = 0" and pw: "?P w \<noteq> Waiting"
    by (cases "?P w"; simp)+
  show ?thesis
  proof (cases "p = A0")
    case True
    then have step: "lock_stmt L p ?s = Inr (A1, ?s)" using run(2) h w by auto
    have "owned_inv L Ts w ?s (?P(?t := A1)) (?d(?t := ?d ?t))"
      using own True p(1) w by (auto simp: owned_inv_def outsider_def)
    then have "lock_inv L Ts D \<lparr>kst = ?s, pcs = ?P(?t := A1), depth = ?d(?t := ?d ?t)\<rparr>"
      by (intro lock_inv_owned [OF q]) simp_all
    then show ?thesis using step by (simp add: stmt_ok_def Let_def new_depth_def)
  next
    case False
    then have pp: "p = A1 \<or> p = Waiting" using ps by simp
    have "w \<in> set rs" using owner_not_cur_ready [OF q wT pw w] .
    then obtain n rs' where rs: "rs = n # rs'" by (cases rs) auto
    obtain s' F' ws' where s': "lock_stmt L p ?s = Inl (Switched s')"
      "queue_inv L Ts D F' rs' ws' s' (?P(?t := Waiting))" "sema_value s' = sema_value ?s"
      "lock_holder s' = lock_holder ?s" "holder_repeat_nr s' = holder_repeat_nr ?s"
      using lock_stmt_waits [OF q [unfolded rs] pp v] by blast
    have "owned_inv L Ts w s' (?P(?t := Waiting)) ?d"
      using own w s'(3,4,5) pp p(1) by (auto simp: owned_inv_def outsider_def)
    with s'(2) have "lock_inv L Ts D (c\<lparr>kst := s', pcs := ?P(?t := Waiting)\<rparr>)"
      unfolding lock_inv_def by auto
    then show ?thesis using s'(1) by (simp add: stmt_ok_def Let_def)
  qed
qed

lemma unat_one_less_u32: "1 < r \<longleftrightarrow> 1 < unat (r :: u32)"
  by (simp add: word_less_nat_alt)

lemma stmt_ok_own_step:
  assumes q: "queue_inv L Ts D F rs ws (kst c) (pcs c)" and p: "pcs c (cur (kst c)) = p"
    and own: "owned_inv L Ts (cur (kst c)) (kst c) (pcs c) (depth c)"
    and step: "lock_stmt L p (kst c) = Inr (p', s')" and p': "p' \<noteq> Waiting"
    and same: "lheap s' = lheap (kst c)" "phys s' = phys (kst c)" "cr3 s' = cr3 (kst c)"
      "cur s' = cur (kst c)" "tasks s' = tasks (kst c)" "sema_value s' = sema_value (kst c)"
    and fields: "owner_fields (cur (kst c)) p' (new_depth p p' (depth c (cur (kst c))))
      (lock_holder s' L) (holder_repeat_nr s' L)"
  shows "stmt_ok L Ts D c p"
proof -
  let ?t = "cur (kst c)"
  have "owned_inv L Ts ?t s' ((pcs c)(?t := p')) ((depth c)(?t := new_depth p p' (depth c ?t)))"
    using own fields same(6) by (simp add: owned_inv_def)
  then have "lock_inv L Ts D \<lparr>kst = s', pcs = (pcs c)(?t := p'),
      depth = (depth c)(?t := new_depth p p' (depth c ?t))\<rparr>"
    by (intro lock_inv_owned [OF q same(1-5) p'])
  then show ?thesis using step by (simp add: stmt_ok_def Let_def)
qed

lemma stmt_ok_own_up:
  assumes q: "queue_inv L Ts D F rs ws (kst c) (pcs c)" and p: "pcs c (cur (kst c)) = R5"
    and own: "owned_inv L Ts (cur (kst c)) (kst c) (pcs c) (depth c)"
  shows "stmt_ok L Ts D c R5"
proof -
  let ?s = "kst c" and ?t = "cur (kst c)" and ?P = "pcs c" and ?d = "depth c"
  have v: "sema_value ?s (lock_semaphore L) = 0" and h: "lock_holder ?s L = 0"
    and r: "holder_repeat_nr ?s L = 0" and d: "?d ?t = 1"
    using own p by (simp_all add: owned_inv_def)
  have rest: "outsider (?P u) (?d u)" if "u \<in> Ts" "u \<noteq> ?t" for u
    using own that by (simp add: owned_inv_def)
  obtain s' F' rs' where s': "lock_stmt L R5 ?s = Inr (Out, s')"
    "queue_inv L Ts D F' rs' (tl ws) s' (?P(?t := Out))" "sema_value s' (lock_semaphore L) = 1"
    "lock_holder s' = lock_holder ?s" "holder_repeat_nr s' = holder_repeat_nr ?s"
    using lock_stmt_frees [OF q v] by blast
  have "\<exists>u \<in> Ts. (?P(?t := Out)) u = Waiting \<and> u \<notin> set (tl ws)" if ne: "tl ws \<noteq> []"
  proof -
    obtain w ws' where ws: "ws = w # ws'" using ne by (cases ws) auto
    have "k_family ?s F" "F (waiters_of L) = Some (map general_tag ws)"
      using q by (simp_all add: queue_inv_def sched_inv_def sched_core_def)
    then have "distinct (map general_tag ws)" by (rule kl.distinct_elems)
    then have "w \<notin> set ws'" using ws by auto
    moreover have "w \<in> Ts" "?P w = Waiting" using q ws by (simp_all add: queue_inv_def)
    moreover have "w \<noteq> ?t" using queue_inv_run(4) [OF q] ws by auto
    ultimately show ?thesis using ws by auto
  qed
  then have "free_inv L Ts (tl ws) s' (?P(?t := Out)) (?d(?t := 0))"
    using s'(3,4,5) h r rest by (simp add: free_inv_def outsider_def)
  with s'(2) have "lock_inv L Ts D \<lparr>kst = s', pcs = ?P(?t := Out), depth = ?d(?t := 0)\<rparr>"
    unfolding lock_inv_def by auto
  then show ?thesis using s'(1) d by (simp add: stmt_ok_def Let_def new_depth_def del: lock_stmt.simps)
qed

lemma stmt_ok_own:
  assumes q: "queue_inv L Ts D F rs ws (kst c) (pcs c)" and p: "pcs c (cur (kst c)) = p" "p \<noteq> Out"
    and own: "owned_inv L Ts (cur (kst c)) (kst c) (pcs c) (depth c)"
  shows "stmt_ok L Ts D c p"
proof -
  let ?s = "kst c"
  have f: "owner_fields (cur ?s) p (depth c (cur ?s)) (lock_holder ?s L) (holder_repeat_nr ?s L)"
    using own p by (simp add: owned_inv_def)
  note step = stmt_ok_own_step [OF q p(1) own]
  show ?thesis
  proof (cases p)
    case A0
    with f show ?thesis by (intro step [of AR "?s"]) (simp_all add: new_depth_def)
  next
    case A2
    with f show ?thesis by (intro step [of A3 "set_holder L (cur ?s) ?s"]) (simp_all add: new_depth_def)
  next
    case A3
    with f show ?thesis by (intro step [of A4 "?s"]) (simp_all add: new_depth_def)
  next
    case A4
    with f show ?thesis by (intro step [of Out "set_repeat L 1 ?s"]) (simp_all add: new_depth_def)
  next
    case AR
    with f show ?thesis by (intro step [of Out "set_repeat L (holder_repeat_nr ?s L + 1) ?s"]) (simp_all add: new_depth_def unat_plus_if')
  next
    case R0
    with f show ?thesis by (intro step [of R1 "?s"]) (simp_all add: new_depth_def)
  next
    case R1
    show ?thesis
    proof (cases "1 < holder_repeat_nr ?s L")
      case True
      then have "unat (holder_repeat_nr ?s L - 1) = unat (holder_repeat_nr ?s L) - 1"
        by (subst unat_diff_u32) (simp_all add: word_less_nat_alt word_le_nat_alt)
      with True R1 f show ?thesis
        by (intro step [of Out "set_repeat L (holder_repeat_nr ?s L - 1) ?s"]) (simp_all add: new_depth_def unat_one_less_u32)
    next
      case False
      then have "unat (holder_repeat_nr ?s L) \<le> 1" by (simp add: unat_one_less_u32)
      moreover have "0 < unat (holder_repeat_nr ?s L)" using R1 f by simp
      ultimately have "unat (holder_repeat_nr ?s L) = unat (1 :: u32)" by simp
      then have "holder_repeat_nr ?s L = 1" by (rule u32_eqI)
      with R1 f show ?thesis by (intro step [of R2 ?s]) (simp_all add: new_depth_def)
    qed
  next
    case R2
    with f show ?thesis by (intro step [of R3 "?s"]) (simp_all add: new_depth_def)
  next
    case R3
    with f show ?thesis by (intro step [of R4 "set_holder L 0 ?s"]) (simp_all add: new_depth_def)
  next
    case R4
    with f show ?thesis by (intro step [of R5 "set_repeat L 0 ?s"]) (simp_all add: new_depth_def)
  next
    case R5
    with stmt_ok_own_up [OF q _ own] p show ?thesis by simp
  qed (use f p in simp_all)
qed

lemma stmt_ok:
  assumes inv: "lock_inv L Ts D c" and p: "pcs c (cur (kst c)) = p" "p \<noteq> Out"
  shows "stmt_ok L Ts D c p"
proof -
  obtain F rs ws where q: "queue_inv L Ts D F rs ws (kst c) (pcs c)"
    and own: "free_inv L Ts ws (kst c) (pcs c) (depth c) \<or>
      (\<exists>w. owned_inv L Ts w (kst c) (pcs c) (depth c))"
    using inv unfolding lock_inv_def by blast
  then show ?thesis
    using stmt_ok_free [OF q _ p] stmt_ok_other [OF q _ _ p] stmt_ok_own [OF q p] by blast
qed

section \<open>Interrupts and calls keep the invariant\<close>

lemma if_on_cli [simp]: "\<not> if_on (cli s)"
  by (simp add: if_on_def)

lemma lock_inv_same_lock:
  assumes "queue_inv L Ts D F rs ws s' P"
    and "free_inv L Ts ws s P d \<or> (\<exists>w. owned_inv L Ts w s P d)"
    and "sema_value s' = sema_value s" "lock_holder s' = lock_holder s"
      "holder_repeat_nr s' = holder_repeat_nr s"
  shows "lock_inv L Ts D \<lparr>kst = s', pcs = P, depth = d\<rparr>"
proof -
  have "free_inv L Ts ws s' P d = free_inv L Ts ws s P d"
    "owned_inv L Ts w s' P d = owned_inv L Ts w s P d" for w
    using assms(3-5) by (simp_all add: free_inv_def owned_inv_def)
  with assms(1,2) show ?thesis unfolding lock_inv_def by auto
qed

lemma lock_inv_sti:
  assumes "lock_inv L Ts D c" "pcs c (cur (kst c)) \<noteq> Waiting"
  shows "lock_inv L Ts D (c\<lparr>kst := sti (kst c)\<rparr>)"
proof -
  obtain F rs ws where q: "queue_inv L Ts D F rs ws (kst c) (pcs c)"
    and own: "free_inv L Ts ws (kst c) (pcs c) (depth c) \<or>
      (\<exists>w. owned_inv L Ts w (kst c) (pcs c) (depth c))"
    using assms(1) unfolding lock_inv_def by blast
  have "queue_inv L Ts D F rs ws (sti (kst c)) ((pcs c)(cur (kst c) := pcs c (cur (kst c))))"
    by (rule queue_inv_local [OF q]) (simp_all add: sti_def assms(2))
  then have "lock_inv L Ts D \<lparr>kst = sti (kst c), pcs = pcs c, depth = depth c\<rparr>"
    using own by (intro lock_inv_same_lock) (simp_all add: sti_def)
  then show ?thesis by (cases c) simp
qed

definition tick_ok :: "u32 \<Rightarrow> u32 set \<Rightarrow> (u32 \<Rightarrow> u32) \<Rightarrow> conf \<Rightarrow> bool" where
  "tick_ok L Ts D c \<longleftrightarrow>
     (case schedule (cli (kst c)) of
        Inr s' \<Rightarrow> lock_inv L Ts D (c\<lparr>kst := sti s'\<rparr>)
      | Inl (Switched s') \<Rightarrow> lock_inv L Ts D (c\<lparr>kst := s'\<rparr>)
      | Inl _ \<Rightarrow> False)"

lemma tick_ok:
  assumes inv: "lock_inv L Ts D c" and on: "if_on (kst c)"
  shows "tick_ok L Ts D c"
proof -
  let ?s = "kst c" and ?t = "cur (kst c)" and ?P = "pcs c"
  obtain F rs ws where q: "queue_inv L Ts D F rs ws ?s ?P"
    and own: "free_inv L Ts ws ?s ?P (depth c) \<or> (\<exists>w. owned_inv L Ts w ?s ?P (depth c))"
    using inv unfolding lock_inv_def by blast
  note run = queue_inv_run [OF q]
  have pt: "?P ?t \<noteq> Waiting" using q on by (auto simp: queue_inv_def)
  obtain p rs' where rs: "rs @ [cur (cli ?s)] = p # rs'" by (cases "rs @ [cur (cli ?s)]") auto
  have invc: "sched_inv (cli ?s) F rs Ts D" using run(5) by simp
  let ?F = "F(THREAD_READY_LIST \<mapsto> map general_tag rs')"
  obtain s' where s': "schedule (cli ?s) = (if p = ?t then Inr s' else Inl (Switched s'))" "cur s' = p"
    "sched_inv s' ?F rs' Ts D" "sched_frame (cli ?s) s' {?t, p}"
    using schedule_running [OF invc intr_get_status_cli rs] by auto
  have off: "\<not> if_on s'"
    using s'(4) intr_get_status_cli [of ?s] by (simp add: sched_frame_def if_on_def intr_get_status_def)
  have q': "queue_inv L Ts D ?F rs' ws s' ?P"
    unfolding queue_inv_def
  proof (intro conjI ballI impI)
    have st: "status (tasks s' u) = TASK_RUNNING \<or> status (tasks s' u) = TASK_READY" "u \<notin> set ws"
      if "u \<in> {?t, p}" for u
    proof -
      have "p \<in> set (rs @ [?t])" using rs by simp
      then have "p = ?t \<or> status (tasks ?s p) = TASK_READY \<and> p \<in> Ts"
        using sched_core_ready [of ?s F rs Ts D p] run(5) by (auto simp: sched_inv_def)
      then show "u \<notin> set ws" using that run(4) q unfolding queue_inv_def by force
      have "?t \<in> set (p # rs')" using rs [symmetric] by simp
      then show "status (tasks s' u) = TASK_RUNNING \<or> status (tasks s' u) = TASK_READY"
        using that s'(2,3) sched_core_ready [of s' ?F rs' Ts D u] by (auto simp: sched_inv_def)
    qed
    have other: "tasks s' u = tasks ?s u" if "u \<notin> {?t, p}" for u
      using s'(4) that by (simp add: sched_frame_def)
    show "u \<in> set ws \<longleftrightarrow> status (tasks s' u) = TASK_BLOCKED" if "u \<in> Ts" for u
      using st [of u] other [of u] q that unfolding queue_inv_def by (cases "u \<in> {?t, p}") auto
    show "status (tasks s' u) \<in> {TASK_RUNNING, TASK_READY, TASK_BLOCKED}" if "u \<in> Ts" for u
      using st [of u] other [of u] q that unfolding queue_inv_def by (cases "u \<in> {?t, p}") auto
    show "?P u = Waiting" if "u \<in> set ws" for u using q that by (simp add: queue_inv_def)
    show "?F (waiters_of L) = Some (map general_tag ws)" using q by (simp add: queue_inv_def)
  qed (use s'(3) off q in \<open>simp_all add: queue_inv_def\<close>)
  have "lock_inv L Ts D \<lparr>kst = s', pcs = ?P, depth = depth c\<rparr>"
    by (rule lock_inv_same_lock [OF q' own]) (use s'(4) in \<open>simp_all add: sched_frame_def\<close>)
  then have inv': "lock_inv L Ts D (c\<lparr>kst := s'\<rparr>)" by (cases c) simp
  show ?thesis
  proof (cases "p = ?t")
    case True
    then have "lock_inv L Ts D ((c\<lparr>kst := s'\<rparr>)\<lparr>kst := sti s'\<rparr>)"
      using lock_inv_sti [OF inv'] pt s'(2) by simp
    then show ?thesis using True s'(1) by (simp add: tick_ok_def)
  next
    case False
    then show ?thesis using inv' s'(1) by (simp add: tick_ok_def)
  qed
qed

lemma lock_inv_call:
  assumes inv: "lock_inv L Ts D c" and out: "pcs c (cur (kst c)) = Out"
    and p: "p = A0 \<and> Suc (depth c (cur (kst c))) < 2 ^ 32 \<or> p = R0 \<and> 0 < depth c (cur (kst c))"
  shows "lock_inv L Ts D (c\<lparr>pcs := (pcs c)(cur (kst c) := p)\<rparr>)"
proof -
  let ?s = "kst c" and ?t = "cur (kst c)" and ?P = "pcs c" and ?d = "depth c"
  obtain F rs ws where q: "queue_inv L Ts D F rs ws ?s ?P"
    and own: "free_inv L Ts ws ?s ?P ?d \<or> (\<exists>w. owned_inv L Ts w ?s ?P ?d)"
    using inv unfolding lock_inv_def by blast
  note run = queue_inv_run [OF q]
  have "free_inv L Ts ws ?s (?P(?t := p)) ?d \<or> (\<exists>w. owned_inv L Ts w ?s (?P(?t := p)) ?d)"
    using own
  proof
    assume free: "free_inv L Ts ws ?s ?P ?d"
    then have "?d ?t = 0" using run(1) by (simp add: free_inv_def outsider_def)
    then have "outsider p (?d ?t)" using p by (auto simp: outsider_def)
    then show ?thesis using free_inv_upd [OF free, of ?t p] out by simp
  next
    assume "\<exists>w. owned_inv L Ts w ?s ?P ?d"
    then obtain w where w: "owned_inv L Ts w ?s ?P ?d" by blast
    have "owned_inv L Ts w ?s (?P(?t := p)) ?d"
      using w p out run(1) by (cases "w = ?t") (auto simp: owned_inv_def outsider_def)
    then show ?thesis by blast
  qed
  then have "lock_inv L Ts D \<lparr>kst = ?s, pcs = ?P(?t := p), depth = ?d\<rparr>"
    using p by (intro lock_inv_local [OF q]) auto
  then show ?thesis by (cases c) simp
qed

lemma lock_step_inv:
  assumes "lock_step L c c'" "lock_inv L Ts D c"
  shows "lock_inv L Ts D c'"
  using assms
proof (cases rule: lock_step.cases)
  case call_acquire
  then show ?thesis using lock_inv_call [OF assms(2)] by simp
next
  case call_release
  then show ?thesis using lock_inv_call [OF assms(2)] by simp
next
  case (stmt t p p' s')
  then show ?thesis using stmt_ok [OF assms(2), of p] by (simp add: stmt_ok_def Let_def)
next
  case (blocks t p s')
  then show ?thesis using stmt_ok [OF assms(2), of p] by (simp add: stmt_ok_def Let_def)
next
  case (tick_returns s')
  then show ?thesis using tick_ok [OF assms(2)] by (simp add: tick_ok_def)
next
  case (tick_switches s')
  then show ?thesis using tick_ok [OF assms(2)] by (simp add: tick_ok_def)
next
  case iret
  then show ?thesis using lock_inv_sti [OF assms(2)] by simp
qed

section \<open>Reachable configurations\<close>

text \<open>
  The start: the lock has just been initialised, on addresses no list uses, and no thread is
  blocked or inside a call.
\<close>

definition lock_start :: "u32 \<Rightarrow> u32 set \<Rightarrow> (u32 \<Rightarrow> u32) \<Rightarrow> conf \<Rightarrow> bool" where
  "lock_start L Ts D c \<longleftrightarrow>
     (\<exists>s F rs. c = \<lparr>kst = lock_init s L, pcs = \<lambda>_. Out, depth = \<lambda>_. 0\<rparr> \<and> sched_inv s F rs Ts D \<and>
        (\<forall>t \<in> Ts. status (tasks s t) \<in> {TASK_RUNNING, TASK_READY}) \<and>
        {waiters_of L, tail_of (waiters_of L)} \<inter> insert (general_tag (cur s)) (fam_nodes F) = {})"

lemma lock_start_inv:
  assumes "lock_start L Ts D c"
  shows "lock_inv L Ts D c"
proof -
  obtain s F rs where c: "c = \<lparr>kst = lock_init s L, pcs = \<lambda>_. Out, depth = \<lambda>_. 0\<rparr>"
    and inv: "sched_inv s F rs Ts D" and st: "\<forall>t \<in> Ts. status (tasks s t) \<in> {TASK_RUNNING, TASK_READY}"
    and fresh: "{waiters_of L, tail_of (waiters_of L)} \<inter> insert (general_tag (cur s)) (fam_nodes F) = {}"
    using assms unfolding lock_start_def by blast
  let ?W = "waiters_of L" and ?F = "F(waiters_of L \<mapsto> [])" and ?s' = "lock_init s L"
  have fresh': "{sema_waiters (lock_semaphore L), tail_of (sema_waiters (lock_semaphore L))} \<inter>
      insert (general_tag (cur s)) (fam_nodes F) = {}" using fresh by (simp add: waiters_of_def)
  have neq: "?W \<noteq> THREAD_READY_LIST" and inv': "sched_inv ?s' ?F rs Ts D"
    using lock_init_sched_inv [OF inv fresh'] by (simp_all add: waiters_of_def)
  note sel = lock_init_sel [of s L]
  have "queue_inv L Ts D ?F rs [] ?s' (\<lambda>_. Out)"
    using inv' neq st by (auto simp: queue_inv_def sel)
  moreover have "free_inv L Ts [] ?s' (\<lambda>_. Out) (\<lambda>_. 0)"
    by (simp add: free_inv_def sel outsider_def)
  ultimately show ?thesis unfolding lock_inv_def c conf.simps by blast
qed

lemma lock_reachable_inv:
  assumes "lock_start L Ts D c0" "(lock_step L)\<^sup>*\<^sup>* c0 c"
  shows "lock_inv L Ts D c"
  using assms(2)
proof (induction rule: rtranclp_induct)
  case base
  show ?case by (rule lock_start_inv [OF assms(1)])
next
  case (step c c')
  show ?case by (rule lock_step_inv [OF step.hyps(2) step.IH])
qed

lemma stmt_ok_no_crash: "stmt_ok L Ts D c p \<Longrightarrow> no_crash (lock_stmt L p (kst c))"
  by (auto simp: stmt_ok_def no_crash_def Let_def split: sum.splits stop.splits)

lemma tick_ok_no_crash: "tick_ok L Ts D c \<Longrightarrow> no_crash (schedule (cli (kst c)))"
  by (auto simp: tick_ok_def no_crash_def split: sum.splits stop.splits)

section \<open>Properties\<close>

text \<open>The machine of the scheduler's example with the lock pid_lock initialised.\<close>

definition demo_conf :: conf where
  "demo_conf = \<lparr>kst = lock_init demo_state PID_LOCK, pcs = \<lambda>_. Out, depth = \<lambda>_. 0\<rparr>"

lemma demo_fam_nodes:
  "fam_nodes demo_lists = {THREAD_READY_LIST, general_tag T2, tail_of THREAD_READY_LIST}"
  by (simp add: demo_lists_def fam_nodes_upd fun_upd_idem dl_nodes_def)

lemma demo_lock_start: "lock_start PID_LOCK {T1, T2} (\<lambda>_. 0x100000) demo_conf"
proof -
  have "{waiters_of PID_LOCK, tail_of (waiters_of PID_LOCK)} \<inter>
      insert (general_tag (cur demo_state)) (fam_nodes demo_lists) = {}"
    by (simp add: demo_fam_nodes waiters_of_def sema_waiters_def lock_semaphore_def PID_LOCK_def
        tail_of_def general_tag_def T1_def T2_def THREAD_READY_LIST_def demo_state_def)
  moreover have "status (tasks demo_state t) \<in> {TASK_RUNNING, TASK_READY}" for t
    by (simp add: demo_state_def demo_task_def)
  ultimately show ?thesis
    unfolding lock_start_def demo_conf_def using demo_sched_inv by blast
qed

text \<open>An uncontended lock_acquire, statement by statement.\<close>

lemma stmt_step:
  assumes "pcs c (cur (kst c)) = p" "p \<noteq> Out" "if_on (kst c)" "lock_stmt L p (kst c) = Inr (p', s')"
  shows "lock_step L c \<lparr>kst = s', pcs = (pcs c)(cur (kst c) := p'),
    depth = (depth c)(cur (kst c) := new_depth p p' (depth c (cur (kst c))))\<rparr>"
  using lock_step.stmt [OF refl refl, of c L p' s'] assms by simp

lemma if_on_eflags: "eflags s' = eflags s \<Longrightarrow> if_on s' = if_on s"
  by (simp add: if_on_def intr_get_status_def)

lemma acquire_run:
  fixes L c
  defines "s0 \<equiv> kst c" and "t \<equiv> cur (kst c)"
  assumes out: "pcs c t = Out" and on: "if_on s0" and d: "depth c t = 0" and t: "t \<noteq> 0"
    and free: "lock_holder s0 L = 0" "sema_value s0 (lock_semaphore L) = 1" "holder_repeat_nr s0 L = 0"
  shows "(lock_step L)\<^sup>*\<^sup>* c \<lparr>kst = set_repeat L 1 (set_holder L t (set_sema_value (lock_semaphore L) 0 s0)),
    pcs = (pcs c)(t := Out), depth = (depth c)(t := 1)\<rparr>"
proof -
  let ?s1 = "set_sema_value (lock_semaphore L) 0 s0" and ?s2 = "set_holder L t (set_sema_value (lock_semaphore L) 0 s0)"
  let ?c = "\<lambda>p s. \<lparr>kst = s, pcs = (pcs c)(t := p), depth = depth c\<rparr>"
  have on': "if_on ?s1" "if_on ?s2" using on by (simp_all add: if_on_def intr_get_status_def)
  have cur: "cur s0 = t" "kst c = s0" by (simp_all add: s0_def t_def)
  have s1: "lock_step L c (?c A0 s0)"
    using lock_step.call_acquire [of c L] out on d by (cases c) (simp add: s0_def t_def)
  have s2: "lock_step L (?c A0 s0) (?c A1 s0)"
    using stmt_step [of "?c A0 s0" A0 L A1 s0] on t free cur by (simp add: new_depth_def fun_upd_idem)
  have s3: "lock_step L (?c A1 s0) (?c A2 ?s1)"
    using stmt_step [of "?c A1 s0" A1 L A2 ?s1] on free cur
    by (simp add: new_depth_def fun_upd_idem sema_down_free)
  have s4: "lock_step L (?c A2 ?s1) (?c A3 ?s2)"
    using stmt_step [of "?c A2 ?s1" A2 L A3 ?s2] on' cur by (simp add: new_depth_def fun_upd_idem)
  have s5: "lock_step L (?c A3 ?s2) (?c A4 ?s2)"
    using stmt_step [of "?c A3 ?s2" A3 L A4 ?s2] on' free cur by (simp add: new_depth_def fun_upd_idem)
  have s6: "lock_step L (?c A4 ?s2) \<lparr>kst = set_repeat L 1 ?s2, pcs = (pcs c)(t := Out), depth = (depth c)(t := 1)\<rparr>"
    using stmt_step [of "?c A4 ?s2" A4 L Out "set_repeat L 1 ?s2"] on' cur d by (simp add: new_depth_def)
  note chain = converse_rtranclp_into_rtranclp [of "lock_step L"]
  show ?thesis
    by (rule chain [OF s1 chain [OF s2 chain [OF s3 chain [OF s4 chain [OF s5 r_into_rtranclp [of "lock_step L", OF s6]]]]]])
qed

lemma owner_of:
  assumes own: "free_inv L Ts ws s P d \<or> (\<exists>w. owned_inv L Ts w s P d)"
    and t: "t \<in> Ts" "\<not> outsider (P t) (d t)"
  shows "owned_inv L Ts t s P d"
  using own
proof
  assume "free_inv L Ts ws s P d"
  then show ?thesis using t by (simp add: free_inv_def)
next
  assume "\<exists>w. owned_inv L Ts w s P d"
  then obtain w where w: "owned_inv L Ts w s P d" by blast
  then have "t = w" using t by (cases "t = w") (simp_all add: owned_inv_def)
  with w show ?thesis by simp
qed

text \<open>A lock_acquire on a lock another thread owns ends with the caller blocked.\<close>

lemma contended_run:
  fixes L c
  defines "t \<equiv> cur (kst c)"
  assumes q: "queue_inv L Ts D F rs ws (kst c) (pcs c)" and own: "owned_inv L Ts w (kst c) (pcs c) (depth c)"
    and w: "w \<noteq> t" and out: "pcs c t = Out" and on: "if_on (kst c)"
  shows "\<exists>c'. (lock_step L)\<^sup>*\<^sup>* c c' \<and> status (tasks (kst c') t) = TASK_BLOCKED"
proof -
  let ?s = "kst c" and ?c = "\<lambda>p. \<lparr>kst = kst c, pcs = (pcs c)(t := p), depth = depth c\<rparr>"
  note run = queue_inv_run [OF q, folded t_def]
  have f: "owner_fields w (pcs c w) (depth c w) (lock_holder ?s L) (holder_repeat_nr ?s L)"
    and wT: "w \<in> Ts" and v: "sema_value ?s (lock_semaphore L) = 0"
    using own by (simp_all add: owned_inv_def)
  have h: "lock_holder ?s L \<noteq> t" and pw: "pcs c w \<noteq> Waiting"
    using f w run(2) by (cases "pcs c w"; auto)+
  have d: "depth c t = 0" using own run(1) w by (simp add: owned_inv_def outsider_def)
  have s1: "lock_step L c (?c A0)"
    using lock_step.call_acquire [of c L] out on d by (cases c) (simp add: t_def)
  have s2: "lock_step L (?c A0) (?c A1)"
    using stmt_step [of "?c A0" A0 L A1 ?s] on h by (simp add: new_depth_def fun_upd_idem t_def)
  have "w \<in> set rs" using owner_not_cur_ready [OF q wT pw] w by (simp add: t_def)
  then obtain n rs' where rs: "rs = n # rs'" by (cases rs) auto
  have q1: "queue_inv L Ts D F (n # rs') ws ?s ((pcs c)(t := A1))"
    using queue_inv_local [OF q, of ?s A1] rs by (simp add: t_def)
  obtain s' F' where s': "lock_stmt L A1 ?s = Inl (Switched s')"
    "queue_inv L Ts D F' rs' (ws @ [t]) s' ((pcs c)(t := Waiting))"
    using lock_stmt_waits [OF q1 _ v, of A1] by (auto simp: t_def)
  have s3: "lock_step L (?c A1) ((?c A1)\<lparr>kst := s', pcs := (pcs (?c A1))(t := Waiting)\<rparr>)"
    by (rule lock_step.blocks [where p = A1]) (use s' on in \<open>simp_all add: t_def\<close>)
  have "t \<in> set (ws @ [t]) \<longleftrightarrow> status (tasks s' t) = TASK_BLOCKED"
    using s'(2) run(1) unfolding queue_inv_def by blast
  moreover note chain = converse_rtranclp_into_rtranclp [of "lock_step L"]
  ultimately show ?thesis
    using chain [OF s1 chain [OF s2 r_into_rtranclp [of "lock_step L", OF s3]]] by fastforce
qed

text \<open>In the example the first thread takes the lock; after a tick the second one blocks on it.\<close>

lemma demo_acquired:
  "\<exists>c. (lock_step PID_LOCK)\<^sup>*\<^sup>* demo_conf c \<and> depth c T1 = 1 \<and> depth c T2 = 0 \<and>
    pcs c = (\<lambda>_. Out) \<and> cur (kst c) = T1 \<and> if_on (kst c) \<and> status (tasks (kst c) T2) = TASK_READY"
proof -
  let ?c = "demo_conf\<lparr>kst := sti (kst demo_conf)\<rparr>"
  have k: "kst demo_conf = lock_init demo_state PID_LOCK" by (simp add: demo_conf_def)
  have off: "\<not> if_on (kst demo_conf)"
    unfolding k using demo_off
    by (simp add: if_on_def intr_get_status_def lock_init_def sema_init_def list_init_def)
  have "lock_step PID_LOCK demo_conf ?c"
    by (rule lock_step.iret) (use off in \<open>simp_all add: demo_conf_def\<close>)
  moreover have cur: "cur (kst ?c) = T1"
    by (simp add: k sti_def lock_init_def sema_init_def list_init_def demo_state_def)
  let ?c' = "\<lparr>kst = set_repeat PID_LOCK 1 (set_holder PID_LOCK (cur (kst ?c))
      (set_sema_value (lock_semaphore PID_LOCK) 0 (kst ?c))),
    pcs = (pcs ?c)(cur (kst ?c) := Out), depth = (depth ?c)(cur (kst ?c) := 1)\<rparr>"
  have "(lock_step PID_LOCK)\<^sup>*\<^sup>* ?c ?c'"
  proof (rule acquire_run)
    show "if_on (kst ?c)" by (simp add: if_on_def)
    show "cur (kst ?c) \<noteq> 0" unfolding cur by (simp add: T1_def)
  qed (simp_all add: k sti_def lock_init_def sema_init_def list_init_def, simp_all add: demo_conf_def)
  ultimately have reach: "(lock_step PID_LOCK)\<^sup>*\<^sup>* demo_conf ?c'" by simp
  have f1: "depth ?c' T1 = 1" "depth ?c' T2 = 0" "pcs ?c' = (\<lambda>_. Out)" "cur (kst ?c') = T1"
    using cur by (simp_all add: demo_conf_def T1_def T2_def fun_eq_iff)
  have f2: "status (tasks (kst ?c') T2) = TASK_READY"
    by (simp add: k sti_def lock_init_def sema_init_def list_init_def demo_state_def demo_task_def T1_def T2_def)
  have f3: "if_on (kst ?c')" 
  proof -
    have "eflags (kst ?c') = eflags (kst ?c)" by simp
    then show ?thesis by (simp add: if_on_def intr_get_status_def sti_def EFLAGS_IF_bit bit_or_iff bit_EFLAGS_IF EFLAGS_IF_def)
  qed
  show ?thesis by (intro exI [of _ ?c'] conjI reach f1 f2 f3)
qed

lemma demo_contended:
  "\<exists>c. (lock_step PID_LOCK)\<^sup>*\<^sup>* demo_conf c \<and> status (tasks (kst c) T2) = TASK_BLOCKED"
proof -
  obtain c where c: "(lock_step PID_LOCK)\<^sup>*\<^sup>* demo_conf c" "depth c T1 = 1" "depth c T2 = 0"
    "pcs c = (\<lambda>_. Out)" "cur (kst c) = T1" "if_on (kst c)" "status (tasks (kst c) T2) = TASK_READY"
    using demo_acquired by blast
  let ?Ts = "{T1, T2}" and ?D = "\<lambda>_. 0x100000 :: u32"
  have inv: "lock_inv PID_LOCK ?Ts ?D c" by (rule lock_reachable_inv [OF demo_lock_start c(1)])
  then obtain F rs ws where q: "queue_inv PID_LOCK ?Ts ?D F rs ws (kst c) (pcs c)"
    unfolding lock_inv_def by blast
  have neq: "T1 \<noteq> T2" by (simp add: T1_def T2_def)
  have sc: "sched_core (kst c) F rs ?Ts ?D" and run: "status (tasks (kst c) T1) = TASK_RUNNING"
    using queue_inv_run(3,5) [OF q] c(5) by (simp_all add: sched_inv_def)
  have "T2 \<in> set rs" using sc c(7) unfolding sched_core_def by blast
  moreover have "T1 \<notin> set rs" using sc run sched_core_ready [OF sc, of T1] by auto
  moreover have "set rs \<subseteq> ?Ts" using sc by (simp add: sched_core_def)
  ultimately have "set rs = {T2}" by auto
  then obtain rs' where rs: "rs = T2 # rs'" by (cases rs) auto
  have invc: "sched_inv (cli (kst c)) F rs ?Ts ?D" using queue_inv_run(5) [OF q] by simp
  have "rs @ [cur (cli (kst c))] = T2 # (rs' @ [T1])" using rs c(5) by simp
  from schedule_running [OF invc intr_get_status_cli this]
  obtain s' where s': "schedule (cli (kst c)) = Inl (Switched s')" "cur s' = T2"
    "sched_frame (cli (kst c)) s' {T1, T2}" using c(5) neq by auto
  have st1: "lock_step PID_LOCK c (c\<lparr>kst := s'\<rparr>)" using lock_step.tick_switches c(6) s'(1) by blast
  have off: "\<not> if_on s'" using s'(3) intr_get_status_cli [of "kst c"]
    by (simp add: sched_frame_def if_on_def intr_get_status_def)
  let ?c2 = "c\<lparr>kst := sti s'\<rparr>"
  have st2: "lock_step PID_LOCK (c\<lparr>kst := s'\<rparr>) ?c2"
    using lock_step.iret [of "c\<lparr>kst := s'\<rparr>" PID_LOCK] off c(4) by simp
  have reach: "(lock_step PID_LOCK)\<^sup>*\<^sup>* demo_conf ?c2" using c(1) st1 st2 by (meson rtranclp.rtrancl_into_rtrancl)
  have "lock_inv PID_LOCK ?Ts ?D ?c2" by (rule lock_reachable_inv [OF demo_lock_start reach])
  then obtain F2 rs2 ws2 where q2: "queue_inv PID_LOCK ?Ts ?D F2 rs2 ws2 (kst ?c2) (pcs ?c2)"
    and own: "free_inv PID_LOCK ?Ts ws2 (kst ?c2) (pcs ?c2) (depth ?c2) \<or>
      (\<exists>w. owned_inv PID_LOCK ?Ts w (kst ?c2) (pcs ?c2) (depth ?c2))"
    unfolding lock_inv_def by blast
  have "\<not> outsider (pcs ?c2 T1) (depth ?c2 T1)" using c(2) by (simp add: outsider_def)
  from owner_of [OF own _ this] have own2: "owned_inv PID_LOCK ?Ts T1 (kst ?c2) (pcs ?c2) (depth ?c2)"
    by simp
  have "T1 \<noteq> cur (kst ?c2)" "pcs ?c2 (cur (kst ?c2)) = Out" "if_on (kst ?c2)" "cur (kst ?c2) = T2"
    using s'(2) neq c(4) by (simp_all add: sti_def) (simp add: sti_def [symmetric] if_on_def)
  with contended_run [OF q2 own2] reach show ?thesis by (metis rtranclp_trans)
qed

text \<open>
  C1. Mutual exclusion: however the timer interleaves the statements of lock_acquire and
  lock_release of any number of threads, two threads never hold the lock at the same time.
\<close>

theorem lock_mutual_exclusion:
  assumes "lock_start L Ts D c0" "(lock_step L)\<^sup>*\<^sup>* c0 c"
    and "t \<in> Ts" "u \<in> Ts" "0 < depth c t" "0 < depth c u"
  shows "t = u"
proof -
  obtain ws where "free_inv L Ts ws (kst c) (pcs c) (depth c) \<or>
      (\<exists>w. owned_inv L Ts w (kst c) (pcs c) (depth c))"
    using lock_reachable_inv [OF assms(1,2)] unfolding lock_inv_def by blast
  then show ?thesis
  proof
    assume "free_inv L Ts ws (kst c) (pcs c) (depth c)"
    then show ?thesis using assms(3,5) by (simp add: free_inv_def outsider_def)
  next
    assume "\<exists>w. owned_inv L Ts w (kst c) (pcs c) (depth c)"
    then obtain w where "owned_inv L Ts w (kst c) (pcs c) (depth c)" by blast
    then have out: "outsider (pcs c v) (depth c v)" if "v \<in> Ts" "v \<noteq> w" for v
      using that by (simp add: owned_inv_def)
    have "v = w" if "v \<in> Ts" "0 < depth c v" for v
      using out [OF that(1)] that(2) by (cases "v = w") (simp_all add: outsider_def)
    then show ?thesis using assms(3-6) by metis
  qed
qed

lemma lock_mutual_exclusion_witness:
  "\<exists>c. (lock_step PID_LOCK)\<^sup>*\<^sup>* demo_conf c \<and> 0 < depth c T1 \<and>
    (\<forall>t \<in> {T1, T2}. 0 < depth c t \<longrightarrow> t = T1)"
proof -
  obtain c where c: "(lock_step PID_LOCK)\<^sup>*\<^sup>* demo_conf c" "depth c T1 = 1"
    using demo_acquired by blast
  have "t = T1" if "t \<in> {T1, T2}" "0 < depth c t" for t
    by (rule lock_mutual_exclusion [OF demo_lock_start c(1) that(1) _ that(2)]) (simp_all add: c(2))
  with c show ?thesis by (intro exI [of _ c]) simp
qed

text \<open>
  C3. No assertion of lock_acquire, lock_release, sema_down, sema_up, thread_block, thread_unblock
  or schedule fails in any reachable configuration, and none of them loops: the next statement of
  the running thread, and a timer interrupt when interrupts are on, return or switch.
\<close>

theorem lock_never_crashes:
  assumes "lock_start L Ts D c0" "(lock_step L)\<^sup>*\<^sup>* c0 c"
  shows "no_crash (lock_stmt L (pcs c (cur (kst c))) (kst c)) \<and>
    (if_on (kst c) \<longrightarrow> no_crash (schedule (cli (kst c))))"
proof -
  note inv = lock_reachable_inv [OF assms]
  have "no_crash (lock_stmt L (pcs c (cur (kst c))) (kst c))"
  proof (cases "pcs c (cur (kst c)) = Out")
    case True
    then show ?thesis by simp
  next
    case False
    then show ?thesis using stmt_ok_no_crash stmt_ok [OF inv refl] by blast
  qed
  then show ?thesis using tick_ok [OF inv] tick_ok_no_crash by blast
qed

lemma lock_never_crashes_witness:
  "\<exists>c. (lock_step PID_LOCK)\<^sup>*\<^sup>* demo_conf c \<and> 0 < depth c T1 \<and>
    no_crash (lock_stmt PID_LOCK (pcs c (cur (kst c))) (kst c)) \<and> no_crash (schedule (cli (kst c)))"
proof -
  obtain c where c: "(lock_step PID_LOCK)\<^sup>*\<^sup>* demo_conf c" "depth c T1 = 1" "if_on (kst c)"
    using demo_acquired by blast
  then show ?thesis using lock_never_crashes [OF demo_lock_start c(1)] by (intro exI [of _ c]) simp
qed

text \<open>
  C2. No lost wakeup: whenever a thread waits in the semaphore's list, either another thread has
  the lock and will release it, or a thread already woken is running or ready to take it.
\<close>

theorem lock_no_lost_wakeup:
  assumes "lock_start L Ts D c0" "(lock_step L)\<^sup>*\<^sup>* c0 c"
    and "w \<in> Ts" "status (tasks (kst c) w) = TASK_BLOCKED"
  shows "\<exists>u \<in> Ts. u \<noteq> w \<and> status (tasks (kst c) u) \<noteq> TASK_BLOCKED \<and>
    (sema_value (kst c) (lock_semaphore L) = 0 \<and> pcs c u \<noteq> Waiting \<and> \<not> outsider (pcs c u) (depth c u) \<or>
     sema_value (kst c) (lock_semaphore L) = 1 \<and> pcs c u = Waiting)"
proof -
  obtain F rs ws where q: "queue_inv L Ts D F rs ws (kst c) (pcs c)"
    and own: "free_inv L Ts ws (kst c) (pcs c) (depth c) \<or>
      (\<exists>u. owned_inv L Ts u (kst c) (pcs c) (depth c))"
    using lock_reachable_inv [OF assms(1,2)] unfolding lock_inv_def by blast
  have blocked: "u \<in> set ws \<longleftrightarrow> status (tasks (kst c) u) = TASK_BLOCKED" if "u \<in> Ts" for u
    using q that unfolding queue_inv_def by blast
  have ws: "w \<in> set ws" using blocked [OF assms(3)] assms(4) by simp
  from own show ?thesis
  proof
    assume free: "free_inv L Ts ws (kst c) (pcs c) (depth c)"
    then obtain u where u: "u \<in> Ts" "pcs c u = Waiting" "u \<notin> set ws"
      using ws unfolding free_inv_def by (cases ws) auto
    have "u \<noteq> w" using u(3) ws by auto
    moreover have "status (tasks (kst c) u) \<noteq> TASK_BLOCKED" using blocked u by blast
    moreover have "sema_value (kst c) (lock_semaphore L) = 1" using free by (simp add: free_inv_def)
    ultimately show ?thesis using u by blast
  next
    assume "\<exists>u. owned_inv L Ts u (kst c) (pcs c) (depth c)"
    then obtain u where u: "owned_inv L Ts u (kst c) (pcs c) (depth c)" by blast
    then have f: "owner_fields u (pcs c u) (depth c u) (lock_holder (kst c) L) (holder_repeat_nr (kst c) L)"
      and uT: "u \<in> Ts" and v: "sema_value (kst c) (lock_semaphore L) = 0"
      by (simp_all add: owned_inv_def)
    have p: "pcs c u \<noteq> Waiting" "\<not> outsider (pcs c u) (depth c u)"
      using f by (cases "pcs c u"; simp add: outsider_def)+
    then have "u \<notin> set ws" using q unfolding queue_inv_def by blast
    then show ?thesis using p uT v blocked [OF uT] ws by auto
  qed
qed

lemma lock_no_lost_wakeup_witness:
  "\<exists>c. (lock_step PID_LOCK)\<^sup>*\<^sup>* demo_conf c \<and> status (tasks (kst c) T2) = TASK_BLOCKED \<and>
    status (tasks (kst c) T1) \<noteq> TASK_BLOCKED"
proof -
  obtain c where c: "(lock_step PID_LOCK)\<^sup>*\<^sup>* demo_conf c" "status (tasks (kst c) T2) = TASK_BLOCKED"
    using demo_contended by blast
  have "T2 \<in> {T1, T2}" by simp
  from lock_no_lost_wakeup [OF demo_lock_start c(1) this c(2)]
  have "\<exists>u \<in> {T1, T2}. u \<noteq> T2 \<and> status (tasks (kst c) u) \<noteq> TASK_BLOCKED" by blast
  then have "status (tasks (kst c) T1) \<noteq> TASK_BLOCKED" by auto
  with c show ?thesis by blast
qed

text \<open>
  The kernel never gets stuck on a lock: in every reachable configuration some step is
  possible, whichever thread runs and whatever it is doing.
\<close>

theorem lock_never_stuck:
  assumes "lock_start L Ts D c0" "(lock_step L)\<^sup>*\<^sup>* c0 c"
  shows "\<exists>c'. lock_step L c c'"
proof -
  note inv = lock_reachable_inv [OF assms]
  let ?p = "pcs c (cur (kst c))"
  consider (on) "if_on (kst c)" | (iret) "\<not> if_on (kst c)" "?p \<noteq> Waiting" | (wait) "?p = Waiting"
    by blast
  then show ?thesis
  proof cases
    case on
    have "no_crash (schedule (cli (kst c)))" using tick_ok_no_crash tick_ok [OF inv on] by blast
    then show ?thesis
      using lock_step.tick_returns [OF on] lock_step.tick_switches [OF on]
      by (auto simp: no_crash_def split: sum.splits stop.splits)
  next
    case iret
    then show ?thesis using lock_step.iret by blast
  next
    case wait
    have "?p \<noteq> Out" using wait by simp
    then have "no_crash (lock_stmt L ?p (kst c))" by (rule stmt_ok_no_crash [OF stmt_ok [OF inv refl]])
    then consider (ret) p' s' where "lock_stmt L ?p (kst c) = Inr (p', s')"
      | (switch) s' where "lock_stmt L ?p (kst c) = Inl (Switched s')"
      by (auto simp: no_crash_def split: sum.splits stop.splits)
    then show ?thesis
    proof cases
      case ret
      then show ?thesis using lock_step.stmt [OF refl refl _ _ ret] wait by auto
    next
      case switch
      then show ?thesis using lock_step.blocks [OF refl refl _ _ switch] wait by auto
    qed
  qed
qed

lemma lock_never_stuck_witness: "\<exists>c'. lock_step PID_LOCK demo_conf c'"
  by (rule lock_never_stuck [OF demo_lock_start rtranclp.rtrancl_refl])

text \<open>
  The statements are those of the functions: lock_acquire and lock_release, run without a
  timer interrupt, are the runs of their statements, whatever the state, failures and switches
  included.
\<close>

theorem lock_calls_are_statements:
  "bindR (lock_acquire s L) (\<lambda>s1. Inr (Out, s1)) = lock_run 5 L A0 s \<and>
    bindR (lock_release s L) (\<lambda>s1. Inr (Out, s1)) = lock_run 6 L R0 s"
  using lock_run_acquire lock_run_release by blast

end
