(* ===== verification/List_Props.thy ===== *)
theory List_Props
  imports Sched
begin

text \<open>
  The lists of list.c as abstract lists: any sequence of operations, on any number of lists that
  share the heap of nodes, gives what the same operations give on a map from addresses to lists.
\<close>

section \<open>Sequences of operations\<close>

text \<open>A Remove names the list of its node, which the code does not need.\<close>

datatype list_op = Init u32 | Append u32 u32 | Push u32 u32 | Remove u32 u32 | Pop u32 | Is_empty u32 | Find u32 u32

datatype list_obs = Popped u32 | Answer bool

fun list_step :: "list_op \<Rightarrow> kstate \<Rightarrow> (list_obs list \<times> kstate) kres" where
  "list_step (Init l) s = Inr ([], list_init s l)"
| "list_step (Append l e) s = Inr ([], list_append s l e)"
| "list_step (Push l e) s = Inr ([], list_push s l e)"
| "list_step (Remove l e) s = Inr ([], list_remove s e)"
| "list_step (Pop l) s = bindR (list_pop s l) (\<lambda>(x, s1). Inr ([Popped x], s1))"
| "list_step (Is_empty l) s = Inr ([Answer (list_empty s l)], s)"
| "list_step (Find l e) s = bindR (elem_find s l e) (\<lambda>b. Inr ([Answer b], s))"

fun list_steps :: "list_op list \<Rightarrow> kstate \<Rightarrow> (list_obs list \<times> kstate) kres" where
  "list_steps [] s = Inr ([], s)"
| "list_steps (c # cs) s = bindR (list_step c s) (\<lambda>(os, s1). bindR (list_steps cs s1) (\<lambda>(os', s2). Inr (os @ os', s2)))"

text \<open>
  The same on lists. \<open>None\<close>: the caller breaks the contract, by adding a node that is in a list already,
  removing one that is in none, popping from an empty list or naming a list that does not exist.
\<close>

type_synonym lists = "u32 \<Rightarrow> u32 list option"

fun spec_step :: "list_op \<Rightarrow> lists \<Rightarrow> (list_obs list \<times> lists) option" where
  "spec_step (Init l) F = (if F l = None \<and> {l, tail_of l} \<inter> fam_nodes F = {} then Some ([], F(l \<mapsto> [])) else None)"
| "spec_step (Append l e) F = (case F l of None \<Rightarrow> None
     | Some xs \<Rightarrow> if e \<in> fam_nodes F then None else Some ([], F(l \<mapsto> xs @ [e])))"
| "spec_step (Push l e) F = (case F l of None \<Rightarrow> None
     | Some xs \<Rightarrow> if e \<in> fam_nodes F then None else Some ([], F(l \<mapsto> e # xs)))"
| "spec_step (Remove l e) F = (case F l of None \<Rightarrow> None
     | Some xs \<Rightarrow> if e \<in> set xs then Some ([], F(l \<mapsto> remove1 e xs)) else None)"
| "spec_step (Pop l) F = (case F l of Some (x # xs) \<Rightarrow> Some ([Popped x], F(l \<mapsto> xs)) | _ \<Rightarrow> None)"
| "spec_step (Is_empty l) F = map_option (\<lambda>xs. ([Answer (xs = [])], F)) (F l)"
| "spec_step (Find l e) F = map_option (\<lambda>xs. ([Answer (e \<in> set xs)], F)) (F l)"

fun spec_steps :: "list_op list \<Rightarrow> lists \<Rightarrow> (list_obs list \<times> lists) option" where
  "spec_steps [] F = Some ([], F)"
| "spec_steps (c # cs) F = (case spec_step c F of None \<Rightarrow> None
     | Some (os, F1) \<Rightarrow> map_option (\<lambda>(os', F2). (os @ os', F2)) (spec_steps cs F1))"

lemma list_step_refines:
  assumes fam: "k_family s F" and ok: "spec_step c F = Some (os, F')"
  shows "\<exists>h. list_step c s = Inr (os, s\<lparr>lheap := h\<rparr>) \<and> k_family (s\<lparr>lheap := h\<rparr>) F'"
proof (cases c)
  case (Init l)
  then have F: "F l = None" "l \<notin> fam_nodes F" "tail_of l \<notin> fam_nodes F" "os = []" "F' = F(l \<mapsto> [])"
    using ok by (auto split: if_splits)
  then have "F(l := None) = F" by (simp add: fun_upd_idem)
  then have "dl_family (dl_init (lheap s) l) F'"
    using dl_family_init [of "lheap s" F l] fam F by (simp add: k_family_def)
  then show ?thesis by (intro exI [of _ "dl_init (lheap s) l"]) (simp add: Init F(4) list_init_def k_family_def)
next
  case (Append l e)
  then obtain xs where "F l = Some xs" "e \<notin> fam_nodes F" "os = []" "F' = F(l \<mapsto> xs @ [e])"
    using ok by (auto split: option.splits if_splits)
  then show ?thesis using kl.append_law [OF fam, of l xs e]
    by (intro exI [of _ "dl_append (lheap s) l e"]) (simp add: Append list_append_eq)
next
  case (Push l e)
  then obtain xs where "F l = Some xs" "e \<notin> fam_nodes F" "os = []" "F' = F(l \<mapsto> e # xs)"
    using ok by (auto split: option.splits if_splits)
  then show ?thesis using kl.push_law [OF fam, of l xs e]
    by (intro exI [of _ "dl_push (lheap s) l e"]) (simp add: Push list_push_eq)
next
  case (Remove l e)
  then obtain xs where F: "F l = Some xs" "e \<in> set xs" "os = []" "F' = F(l \<mapsto> remove1 e xs)"
    using ok by (auto split: option.splits if_splits)
  from split_list_first [OF F(2)] obtain ys zs where xs: "xs = ys @ e # zs" "e \<notin> set ys" by blast
  then have "remove1 e xs = ys @ zs" by (simp add: remove1_append)
  then show ?thesis using kl.remove_law [OF fam, of l ys e zs] F xs
    by (intro exI [of _ "dl_remove (lheap s) e"]) (simp add: Remove list_remove_eq)
next
  case (Pop l)
  then obtain x xs where F: "F l = Some (x # xs)" "os = [Popped x]" "F' = F(l \<mapsto> xs)"
    using ok by (auto split: option.splits list.splits)
  then show ?thesis using list_pop_family [OF fam F(1)]
    by (intro exI [of _ "dl_remove (lheap s) x"]) (simp add: Pop list_remove_eq)
next
  case (Is_empty l)
  then show ?thesis using ok kl.empty_law [OF fam] fam by (intro exI [of _ "lheap s"]) auto
next
  case (Find l e)
  then show ?thesis using ok elem_find_family [OF fam] fam by (intro exI [of _ "lheap s"]) auto
qed

text \<open>
  C4. list.c implements lists. In a heap whose lists are well formed, that is doubly linked between head
  and tail and without a common node, every sequence of operations that keeps the callers' contract
  returns without a failed assertion or an endless loop, answers what the operations on lists
  answer, leaves all lists well formed with the contents the specification gives, and changes
  nothing but nodes: each operation gives the interrupt flag back as it was.
\<close>

theorem list_ops_refine:
  assumes "k_family s F" "spec_steps cs F = Some (os, F')"
  shows "\<exists>h. list_steps cs s = Inr (os, s\<lparr>lheap := h\<rparr>) \<and> k_family (s\<lparr>lheap := h\<rparr>) F'"
  using assms
proof (induction cs arbitrary: s F os)
  case Nil
  then show ?case by (intro exI [of _ "lheap s"]) simp
next
  case (Cons c cs)
  then obtain o1 F1 o2 where o: "spec_step c F = Some (o1, F1)" "spec_steps cs F1 = Some (o2, F')" "os = o1 @ o2"
    by (auto split: option.splits)
  obtain h1 where h1: "list_step c s = Inr (o1, s\<lparr>lheap := h1\<rparr>)" "k_family (s\<lparr>lheap := h1\<rparr>) F1"
    using list_step_refines [OF Cons.prems(1) o(1)] by blast
  obtain h where "list_steps cs (s\<lparr>lheap := h1\<rparr>) = Inr (o2, s\<lparr>lheap := h\<rparr>)" "k_family (s\<lparr>lheap := h\<rparr>) F'"
    using Cons.IH [OF h1(2) o(2)] by auto
  then show ?case using h1(1) o(3) by (intro exI [of _ h]) simp
qed

lemma list_ops_refine_witness:
  "\<exists>h. list_steps [Init 100, Append 100 300, Push 100 400, Find 100 300, Remove 100 300, Pop 100, Is_empty 100] demo_state =
     Inr ([Answer True, Popped 400, Answer True], demo_state\<lparr>lheap := h\<rparr>)"
proof -
  have "k_family demo_state Map.empty" by (simp add: k_family_def dl_family_def)
  moreover have "spec_steps [Init 100, Append 100 300, Push 100 400, Find 100 300, Remove 100 300, Pop 100, Is_empty 100] Map.empty =
      Some ([Answer True, Popped 400, Answer True], Map.empty(100 \<mapsto> []))"
  proof -
    have nodes: "fam_nodes [100 \<mapsto> xs] = {100, 108} \<union> set xs" for xs
      by (auto simp: fam_nodes_def dl_nodes_def tail_of_def)
    have "fam_nodes Map.empty = {}" by (simp add: fam_nodes_def)
    then show ?thesis by (simp add: nodes)
  qed
  ultimately show ?thesis using list_ops_refine by blast
qed

end
