(* ===== verification/CString.thy ===== *)
theory CString
  imports OS_Prelude
begin

text \<open>
  The byte and string routines of lib/string.c on a flat byte memory. A pointer is an address;
  char is signed on this target, so its comparisons are comparisons of \<open>sint\<close>, while a uint8_t
  is compared as an unsigned value. A loop over a string ends at the terminating zero byte; on a
  memory without one it need not end, so these loops are partial functions.
\<close>

type_synonym bytes = "u32 \<Rightarrow> u8"

section \<open>memset, memcpy, memcmp\<close>

function memset_loop :: "bytes \<Rightarrow> u32 \<Rightarrow> u8 \<Rightarrow> u32 \<Rightarrow> bytes" where
  "memset_loop m dst v sz =
     (if 0 < sz then memset_loop (m(dst := v)) (dst + 1) v (sz - 1) else m)"
  by pat_completeness auto
termination
  by (relation "measure (\<lambda>(m, dst, v, sz). unat sz)")
    (auto simp: unat_minus_one word_gt_0 unat_gt_0)

declare memset_loop.simps [simp del]

definition memset :: "bytes \<Rightarrow> u32 \<Rightarrow> u8 \<Rightarrow> u32 \<Rightarrow> ('s, bytes) res" where
  "memset m dst0 v sz = assertR (dst0 \<noteq> NULL) ''dst_ != NULL'' (Inr (memset_loop m dst0 v sz))"

function memcpy_loop :: "bytes \<Rightarrow> u32 \<Rightarrow> u32 \<Rightarrow> u32 \<Rightarrow> bytes" where
  "memcpy_loop m dst src sz =
     (if 0 < sz then memcpy_loop (m(dst := m src)) (dst + 1) (src + 1) (sz - 1) else m)"
  by pat_completeness auto
termination
  by (relation "measure (\<lambda>(m, dst, src, sz). unat sz)")
    (auto simp: unat_minus_one word_gt_0 unat_gt_0)

declare memcpy_loop.simps [simp del]

definition memcpy :: "bytes \<Rightarrow> u32 \<Rightarrow> u32 \<Rightarrow> u32 \<Rightarrow> ('s, bytes) res" where
  "memcpy m dst0 src0 sz =
     assertR (dst0 \<noteq> NULL \<and> src0 \<noteq> NULL) ''dst_ != NULL && src_ != NULL''
       (Inr (memcpy_loop m dst0 src0 sz))"

function memcmp_loop :: "bytes \<Rightarrow> u32 \<Rightarrow> u32 \<Rightarrow> u32 \<Rightarrow> int" where
  "memcmp_loop m a b sz =
     (if 0 < sz
      then if m a \<noteq> m b then if sint (m a) > sint (m b) then 1 else -1
           else memcmp_loop m (a + 1) (b + 1) (sz - 1)
      else 0)"
  by pat_completeness auto
termination
  by (relation "measure (\<lambda>(m, a, b, sz). unat sz)")
    (auto simp: unat_minus_one word_gt_0 unat_gt_0)

declare memcmp_loop.simps [simp del]

definition memcmp :: "bytes \<Rightarrow> u32 \<Rightarrow> u32 \<Rightarrow> u32 \<Rightarrow> ('s, int) res" where
  "memcmp m a0 b0 sz =
     assertR (a0 \<noteq> NULL \<or> b0 \<noteq> NULL) ''a != NULL || b != NULL'' (Inr (memcmp_loop m a0 b0 sz))"

section \<open>Strings\<close>

partial_function (option) strcpy_loop :: "bytes \<Rightarrow> u32 \<Rightarrow> u32 \<Rightarrow> bytes option" where
  "strcpy_loop m dsc0 src0 =
     (let c = m src0; m' = m(dsc0 := c)
      in if c \<noteq> 0 then strcpy_loop m' (dsc0 + 1) (src0 + 1) else Some m')"

definition strcpy :: "bytes \<Rightarrow> u32 \<Rightarrow> u32 \<Rightarrow> ('s, u32 \<times> bytes) res" where
  "strcpy m dsc0 src0 =
     assertR (dsc0 \<noteq> NULL \<and> src0 \<noteq> NULL) ''dsc_ != NULL && src_ != NULL''
       (bindR (loopR (strcpy_loop m dsc0 src0)) (\<lambda>m'. Inr (dsc0, m')))"

partial_function (option) strlen_loop :: "bytes \<Rightarrow> u32 \<Rightarrow> u32 option" where
  "strlen_loop m p = (if m p \<noteq> 0 then strlen_loop m (p + 1) else Some (p + 1))"

definition strlen :: "bytes \<Rightarrow> u32 \<Rightarrow> ('s, u32) res" where
  "strlen m str =
     assertR (str \<noteq> NULL) ''str != NULL''
       (bindR (loopR (strlen_loop m str)) (\<lambda>p. Inr (p - str - 1)))"

partial_function (option) strcmp_loop :: "bytes \<Rightarrow> u32 \<Rightarrow> u32 \<Rightarrow> int option" where
  "strcmp_loop m a b =
     (if m a \<noteq> 0 \<and> m a = m b then strcmp_loop m (a + 1) (b + 1)
      else Some (if sint (m a) < sint (m b) then -1 else if sint (m a) > sint (m b) then 1 else 0))"

definition strcmp :: "bytes \<Rightarrow> u32 \<Rightarrow> u32 \<Rightarrow> ('s, int) res" where
  "strcmp m a b =
     assertR (a \<noteq> NULL \<and> b \<noteq> NULL) ''a != NULL && b != NULL'' (loopR (strcmp_loop m a b))"

partial_function (option) strchr_loop :: "bytes \<Rightarrow> u32 \<Rightarrow> u8 \<Rightarrow> u32 option" where
  "strchr_loop m str ch =
     (if m str \<noteq> 0 then if m str = ch then Some str else strchr_loop m (str + 1) ch
      else Some NULL)"

definition strchr :: "bytes \<Rightarrow> u32 \<Rightarrow> u8 \<Rightarrow> ('s, u32) res" where
  "strchr m str ch = assertR (str \<noteq> NULL) ''str != NULL'' (loopR (strchr_loop m str ch))"

text \<open>
  strrchr and strchrs compare a uint8_t with a char: the first is promoted to 0..255, the second
  to -128..127.
\<close>

partial_function (option) strrchr_loop :: "bytes \<Rightarrow> u32 \<Rightarrow> u8 \<Rightarrow> u32 \<Rightarrow> u32 option" where
  "strrchr_loop m str ch last_chrptr =
     (if m str \<noteq> 0
      then strrchr_loop m (str + 1) ch (if uint ch = sint (m str) then str else last_chrptr)
      else Some last_chrptr)"

definition strrchr :: "bytes \<Rightarrow> u32 \<Rightarrow> u8 \<Rightarrow> ('s, u32) res" where
  "strrchr m str ch = assertR (str \<noteq> NULL) ''str != NULL'' (loopR (strrchr_loop m str ch NULL))"

definition strcat :: "bytes \<Rightarrow> u32 \<Rightarrow> u32 \<Rightarrow> ('s, u32 \<times> bytes) res" where
  "strcat m dsc0 src0 =
     assertR (dsc0 \<noteq> NULL \<and> src0 \<noteq> NULL) ''dsc_ != NULL && src_ != NULL''
       (bindR (loopR (strlen_loop m dsc0)) (\<lambda>p.
        bindR (loopR (strcpy_loop m (p - 1) src0)) (\<lambda>m'. Inr (dsc0, m'))))"

partial_function (option) strchrs_loop :: "bytes \<Rightarrow> u32 \<Rightarrow> u8 \<Rightarrow> u32 \<Rightarrow> u32 option" where
  "strchrs_loop m str ch ch_cnt =
     (if m str \<noteq> 0
      then strchrs_loop m (str + 1) ch (if sint (m str) = uint ch then ch_cnt + 1 else ch_cnt)
      else Some ch_cnt)"

definition strchrs :: "bytes \<Rightarrow> u32 \<Rightarrow> u8 \<Rightarrow> ('s, u32) res" where
  "strchrs m str ch = assertR (str \<noteq> NULL) ''str != NULL'' (loopR (strchrs_loop m str ch 0))"

section \<open>What memset and memcpy write\<close>

text \<open>\<open>a - p < n\<close>: the address \<open>a\<close> is one of the \<open>n\<close> addresses from \<open>p\<close> on.\<close>

lemma minus_one_less_iff:
  "0 < (n :: u32) \<Longrightarrow> x \<noteq> 0 \<Longrightarrow> x - 1 < n - 1 \<longleftrightarrow> x < n"
  by (simp add: word_less_nat_alt unat_minus_one word_gt_0 unat_gt_0)
    (metis One_nat_def Suc_less_eq Suc_pred unat_gt_0)

lemma not_minus_one_less: "\<not> (- 1 :: u32) < n - 1"
  by (simp add: not_less)

lemma memset_loop_eq:
  "memset_loop m dst v sz a = (if a - dst < sz then v else m a)"
proof (induction m dst v sz rule: memset_loop.induct)
  case (1 m dst v sz)
  show ?case
  proof (cases "0 < sz")
    case True
    have "memset_loop m dst v sz a = memset_loop (m(dst := v)) (dst + 1) v (sz - 1) a"
      using True by (subst memset_loop.simps) simp
    also have "\<dots> = (if a - (dst + 1) < sz - 1 then v else (m(dst := v)) a)"
      by (rule 1 [OF True])
    also have "a - (dst + 1) = (a - dst) - 1" by (simp add: diff_diff_eq)
    finally show ?thesis
      using True minus_one_less_iff [OF True, of "a - dst"] by (cases "a = dst") auto
  next
    case False
    then show ?thesis by (subst memset_loop.simps) (auto simp: word_gt_0)
  qed
qed

lemma memcpy_loop_eq:
  assumes "dst = src \<or> sz \<le> dst - src"
  shows "memcpy_loop m dst src sz a = (if a - dst < sz then m (src + (a - dst)) else m a)"
  using assms
proof (induction m dst src sz rule: memcpy_loop.induct)
  case (1 m dst src sz)
  show ?case
  proof (cases "0 < sz")
    case True
    have shorter: "dst + 1 = src + 1 \<or> sz - 1 \<le> (dst + 1) - (src + 1)"
      using "1.prems" True by (auto simp: word_le_nat_alt unat_minus_one word_gt_0)
    have "memcpy_loop m dst src sz a = memcpy_loop (m(dst := m src)) (dst + 1) (src + 1) (sz - 1) a"
      using True by (subst memcpy_loop.simps) simp
    also have "\<dots> = (if a - (dst + 1) < sz - 1
        then (m(dst := m src)) (src + 1 + (a - (dst + 1))) else (m(dst := m src)) a)"
      by (rule "1.IH" [OF True shorter])
    also have "a - (dst + 1) = (a - dst) - 1" by (simp add: diff_diff_eq)
    also have "src + 1 + ((a - dst) - 1) = src + (a - dst)" by simp
    finally have step: "memcpy_loop m dst src sz a =
        (if (a - dst) - 1 < sz - 1 then (m(dst := m src)) (src + (a - dst))
         else (m(dst := m src)) a)" .
    have keep: "(m(dst := m src)) (src + (a - dst)) = m (src + (a - dst))" if "a - dst < sz"
    proof (cases "src + (a - dst) = dst")
      case at_dst: True
      then have "a - dst = dst - src" by (metis add_diff_cancel_left')
      with "1.prems" that show ?thesis using at_dst by auto
    qed simp
    show ?thesis
      using step keep True minus_one_less_iff [OF True, of "a - dst"] not_minus_one_less [of sz]
      by (cases "a = dst") auto
  next
    case False
    then show ?thesis by (subst memcpy_loop.simps) (auto simp: word_gt_0)
  qed
qed

lemma memset_NULL: "memset m NULL v sz = Inl (Assert_failed ''dst_ != NULL'')"
  by (simp add: memset_def)

section \<open>Strings in memory\<close>

text \<open>\<open>cstr m p cs\<close>: the characters \<open>cs\<close> and a zero byte stand in memory from \<open>p\<close> on.\<close>

fun cstr :: "bytes \<Rightarrow> u32 \<Rightarrow> u8 list \<Rightarrow> bool" where
  "cstr m p [] \<longleftrightarrow> m p = 0"
| "cstr m p (c # cs) \<longleftrightarrow> c \<noteq> 0 \<and> m p = c \<and> cstr m (p + 1) cs"

definition span :: "u32 \<Rightarrow> nat \<Rightarrow> u32 set" where
  "span p n = {p + of_nat i | i. i < n}"

lemma span_0 [simp]: "span p 0 = {}"
  by (simp add: span_def)

lemma span_Suc: "span p (Suc n) = insert p (span (p + 1) n)"
proof -
  have "{p + of_nat i | i. i < Suc n} = (\<lambda>i. p + of_nat i) ` {..<Suc n}" by auto
  also have "\<dots> = insert p ((\<lambda>i. p + 1 + of_nat i) ` {..<n})"
    by (simp add: lessThan_Suc_eq_insert_0 image_image add.assoc)
  also have "(\<lambda>i. p + 1 + of_nat i) ` {..<n} = span (p + 1) n"
    by (auto simp: span_def)
  finally show ?thesis by (simp only: span_def)
qed

lemma cstr_frame:
  "\<forall>a \<in> span p (Suc (length cs)). m' a = m a \<Longrightarrow> cstr m' p cs = cstr m p cs"
proof (induction cs arbitrary: p)
  case Nil
  then show ?case by (simp add: span_Suc)
next
  case (Cons c cs)
  then have "cstr m' (p + 1) cs = cstr m (p + 1) cs" by (auto simp: span_Suc)
  moreover have "m' p = m p" using Cons.prems by (simp add: span_Suc)
  ultimately show ?case by simp
qed

lemma strlen_loop_cstr: "cstr m p cs \<Longrightarrow> strlen_loop m p = Some (p + of_nat (length cs) + 1)"
  by (induction cs arbitrary: p) (auto simp: strlen_loop.simps algebra_simps)

lemma strlen_cstr:
  "cstr m p cs \<Longrightarrow> p \<noteq> NULL \<Longrightarrow> strlen m p = Inr (of_nat (length cs))"
  by (simp add: strlen_def strlen_loop_cstr)

lemma strchr_loop_cstr:
  "cstr m p cs \<Longrightarrow> strchr_loop m p ch =
    Some (if ch \<in> set cs then p + of_nat (length (takeWhile (\<lambda>c. c \<noteq> ch) cs)) else NULL)"
  by (induction cs arbitrary: p) (auto simp: strchr_loop.simps algebra_simps)

text \<open>What strchrs counts, and what strrchr can find, among characters below 128 only.\<close>

lemma uint_eq_sint_u8: "uint (ch :: u8) = sint (c :: u8) \<longleftrightarrow> ch = c \<and> uint ch < 128"
proof -
  have b: "0 \<le> uint ch" "uint ch < 256" "0 \<le> uint c" "uint c < 256"
    using unsigned_less [of ch, where ?'a = int] unsigned_less [of c, where ?'a = int] by auto
  have "sint c = take_bit 8 (uint c) - 256 * of_bool (bit (uint c) 7)"
    by (simp add: sint_uint signed_take_bit_eq_take_bit_minus)
  moreover have "take_bit 8 (uint c) = uint c" using b by (simp add: take_bit_eq_mod)
  moreover have "bit (uint c) 7 \<longleftrightarrow> \<not> uint c < 128"
  proof -
    have "x div 128 = (if x < 128 then 0 else 1)" if "0 \<le> x" "x < 256" for x :: int
      using that by auto
    from this [OF b(3,4)] show ?thesis by (simp add: bit_iff_odd)
  qed
  ultimately have s: "sint c = (if uint c < 128 then uint c else uint c - 256)" by simp
  have "uint ch = uint c \<longleftrightarrow> ch = c" by (simp add: word_uint_eq_iff)
  show ?thesis
  proof (cases "uint c < 128")
    case True
    with s \<open>uint ch = uint c \<longleftrightarrow> ch = c\<close> show ?thesis by auto
  next
    case False
    with s b(4) have "sint c < 0" by simp
    with b(1) have "uint ch \<noteq> sint c" by linarith
    with False show ?thesis by auto
  qed
qed

lemma strchrs_loop_cstr:
  "cstr m p cs \<Longrightarrow> strchrs_loop m p ch n =
    Some (n + of_nat (if uint ch < 128 then count_list cs ch else 0))"
proof (induction cs arbitrary: p n)
  case Nil
  then show ?case by (simp add: strchrs_loop.simps)
next
  case (Cons c cs)
  have "sint c = uint ch \<longleftrightarrow> ch = c \<and> uint ch < 128" using uint_eq_sint_u8 [of ch c] by metis
  with Cons show ?case by (auto simp: strchrs_loop.simps [of m p] algebra_simps)
qed

text \<open>strrchr: the last place of the character, or the value it started with.\<close>

fun last_pos :: "u8 list \<Rightarrow> u8 \<Rightarrow> u32 \<Rightarrow> u32 \<Rightarrow> u32" where
  "last_pos [] ch p r = r"
| "last_pos (c # cs) ch p r = last_pos cs ch (p + 1) (if c = ch \<and> uint ch < 128 then p else r)"

lemma strrchr_loop_cstr: "cstr m p cs \<Longrightarrow> strrchr_loop m p ch r = Some (last_pos cs ch p r)"
proof (induction cs arbitrary: p r)
  case Nil
  then show ?case by (simp add: strrchr_loop.simps)
next
  case (Cons c cs)
  then show ?case using uint_eq_sint_u8 [of ch c] by (auto simp: strrchr_loop.simps [of m p])
qed

lemma last_pos_none: "ch \<notin> set cs \<or> 128 \<le> uint ch \<Longrightarrow> last_pos cs ch p r = r"
  by (induction cs arbitrary: p) auto

lemma last_pos_append:
  "uint ch < 128 \<Longrightarrow> ch \<notin> set ds \<Longrightarrow> last_pos (cs @ ch # ds) ch p r = p + of_nat (length cs)"
  by (induction cs arbitrary: p r) (auto simp: last_pos_none algebra_simps)

text \<open>strcmp: lexicographic in the signed order of char, the terminating zero included.\<close>

fun cstr_cmp :: "u8 list \<Rightarrow> u8 list \<Rightarrow> int" where
  "cstr_cmp [] [] = 0"
| "cstr_cmp [] (b # bs) = - sgn (sint b)"
| "cstr_cmp (a # as) [] = sgn (sint a)"
| "cstr_cmp (a # as) (b # bs) = (if a = b then cstr_cmp as bs else sgn (sint a - sint b))"

lemma sint_u8_eq_0: "sint (c :: u8) = 0 \<longleftrightarrow> c = 0"
  by (metis sint_0 signed_word_eqI)

lemma sint_u8_inj: "sint (a :: u8) = sint b \<longleftrightarrow> a = b"
  by (metis signed_word_eqI)

lemma strcmp_loop_cstr:
  "cstr m p as \<Longrightarrow> cstr m q bs \<Longrightarrow> strcmp_loop m p q = Some (cstr_cmp as bs)"
proof (induction as bs arbitrary: p q rule: cstr_cmp.induct)
  case 1
  then show ?case by (simp add: strcmp_loop.simps)
next
  case (2 b bs)
  then show ?case using sint_u8_eq_0 [of b] by (auto simp: strcmp_loop.simps sgn_if)
next
  case (3 a as)
  then show ?case using sint_u8_eq_0 [of a] by (auto simp: strcmp_loop.simps [of m p] sgn_if)
next
  case (4 a as b bs)
  then show ?case
    using sint_u8_inj [of a b] by (auto simp: strcmp_loop.simps [of m p] sgn_if)
qed

lemma cstr_nonzero: "cstr m p cs \<Longrightarrow> 0 \<notin> set cs"
  by (induction cs arbitrary: p) auto

lemma cstr_cmp_0:
  "0 \<notin> set as \<Longrightarrow> 0 \<notin> set bs \<Longrightarrow> cstr_cmp as bs = 0 \<longleftrightarrow> as = bs"
  by (induction as bs rule: cstr_cmp.induct)
    (auto simp: sgn_if sint_u8_eq_0 sint_u8_inj split: if_splits)

lemma cstr_cmp_swap: "cstr_cmp bs as = - cstr_cmp as bs"
  by (induction as bs rule: cstr_cmp.induct) (auto simp: sgn_if)

text \<open>memcmp.\<close>

lemma memcmp_loop_0:
  "memcmp_loop m a b n = 0 \<longleftrightarrow> (\<forall>i < unat n. m (a + of_nat i) = m (b + of_nat i))"
proof (induction m a b n rule: memcmp_loop.induct)
  case (1 m a b n)
  show ?case
  proof (cases "0 < n")
    case True
    then have n: "unat n = Suc (unat (n - 1))"
      by (simp add: unat_minus_one word_gt_0 unat_gt_0)
    have all: "(\<forall>i < Suc k. P i) \<longleftrightarrow> P 0 \<and> (\<forall>i < k. P (Suc i))" for k :: nat and P
      by (auto simp: less_Suc_eq_0_disj)
    show ?thesis
      using 1 [OF True] True unfolding n all
      by (subst memcmp_loop.simps) (auto simp: algebra_simps)
  next
    case False
    then show ?thesis by (subst memcmp_loop.simps) (auto simp: word_gt_0)
  qed
qed

text \<open>strcpy into a disjoint destination, and strcat behind the string already there.\<close>

lemma not_in_span_Suc: "Suc n < 2 ^ 32 \<Longrightarrow> p \<notin> span (p + 1) n"
proof
  assume n: "Suc n < 2 ^ 32" and "p \<in> span (p + 1) n"
  then obtain i where i: "i < n" "(0 :: u32) = of_nat (Suc i)" by (auto simp: span_def)
  then have "unat (of_nat (Suc i) :: u32) = 0" by simp
  moreover have "unat (of_nat (Suc i) :: u32) = Suc i"
    using i(1) n by (simp only: unat_of_nat) simp
  ultimately show False by simp
qed

lemma strcpy_loop_cstr:
  assumes "cstr m s cs" "span d (Suc (length cs)) \<inter> span s (Suc (length cs)) = {}"
    and "Suc (length cs) < 2 ^ 32"
  shows "\<exists>m'. strcpy_loop m d s = Some m' \<and> cstr m' d cs \<and>
    (\<forall>a. a \<notin> span d (Suc (length cs)) \<longrightarrow> m' a = m a)"
  using assms
proof (induction cs arbitrary: m d s)
  case Nil
  then show ?case by (auto simp: strcpy_loop.simps span_Suc)
next
  case (Cons c cs)
  let ?m = "m(d := c)"
  have c: "m s = c" "c \<noteq> 0" "cstr m (s + 1) cs" using Cons.prems(1) by auto
  have disj: "span (d + 1) (Suc (length cs)) \<inter> span (s + 1) (Suc (length cs)) = {}"
    and d: "d \<notin> span (s + 1) (Suc (length cs))"
    using Cons.prems(2) by (auto simp: span_Suc [of _ "Suc (length cs)"])
  have "cstr ?m (s + 1) cs" using c(3) cstr_frame [of "s + 1" cs ?m m] d by auto
  moreover have "Suc (length cs) < 2 ^ 32" using Cons.prems(3) by simp
  ultimately obtain m' where m': "strcpy_loop ?m (d + 1) (s + 1) = Some m'" "cstr m' (d + 1) cs"
    "\<forall>a. a \<notin> span (d + 1) (Suc (length cs)) \<longrightarrow> m' a = ?m a"
    using Cons.IH [of ?m "s + 1" "d + 1"] disj by blast
  have "d \<notin> span (d + 1) (Suc (length cs))" using Cons.prems(3) by (intro not_in_span_Suc) simp
  with m' c show ?case
    by (intro exI [of _ m'])
      (auto simp: strcpy_loop.simps [of m] Let_def span_Suc [of _ "Suc (length cs)"])
qed

fun chars :: "bytes \<Rightarrow> u32 \<Rightarrow> u8 list \<Rightarrow> bool" where
  "chars m p [] \<longleftrightarrow> True"
| "chars m p (c # cs) \<longleftrightarrow> c \<noteq> 0 \<and> m p = c \<and> chars m (p + 1) cs"

lemma cstr_append: "cstr m p (xs @ ys) \<longleftrightarrow> chars m p xs \<and> cstr m (p + of_nat (length xs)) ys"
  by (induction xs arbitrary: p) (auto simp: algebra_simps)

lemma chars_frame: "\<forall>a \<in> span p (length cs). m' a = m a \<Longrightarrow> chars m' p cs = chars m p cs"
  by (induction cs arbitrary: p) (auto simp: span_Suc)

lemma span_shift:
  assumes "a \<in> span (p + of_nat k) n"
  shows "a \<in> span p (k + n)"
proof -
  from assms obtain i where "i < n" "a = p + of_nat (k + i)" by (auto simp: span_def add.assoc)
  then show ?thesis unfolding span_def by (intro CollectI exI [of _ "k + i"]) simp
qed

lemma span_shift_disjoint:
  assumes "k + n < 2 ^ 32" "a \<in> span p k"
  shows "a \<notin> span (p + of_nat k) n"
proof
  assume "a \<in> span (p + of_nat k) n"
  with assms(2) obtain i j where ij: "i < k" "j < n" "(of_nat i :: u32) = of_nat (k + j)"
    by (auto simp: span_def)
  have "unat (of_nat i :: u32) = i" "unat (of_nat (k + j) :: u32) = k + j"
    unfolding unat_of_nat using ij(1,2) assms(1) by simp_all
  with ij show False by simp
qed

lemma strcat_cstr:
  assumes ds: "cstr m d ds" and cs: "cstr m s cs" and "d \<noteq> NULL" "s \<noteq> NULL"
    and disj: "span d (length ds + Suc (length cs)) \<inter> span s (Suc (length cs)) = {}"
    and len: "length ds + Suc (length cs) < 2 ^ 32"
  shows "\<exists>m'. strcat m d s = Inr (d, m') \<and> cstr m' d (ds @ cs) \<and>
    (\<forall>a. a \<notin> span d (length ds + Suc (length cs)) \<longrightarrow> m' a = m a)"
proof -
  let ?e = "d + of_nat (length ds)"
  have "span ?e (Suc (length cs)) \<inter> span s (Suc (length cs)) = {}"
    using disj span_shift by blast
  moreover have "Suc (length cs) < 2 ^ 32" using len by simp
  ultimately obtain m' where m': "strcpy_loop m ?e s = Some m'" "cstr m' ?e cs"
    and frame: "\<forall>a. a \<notin> span ?e (Suc (length cs)) \<longrightarrow> m' a = m a"
    using strcpy_loop_cstr [OF cs] by blast
  have "chars m d ds" using ds cstr_append [of m d ds "[]"] by simp
  moreover have "chars m' d ds = chars m d ds"
    by (rule chars_frame) (use frame span_shift_disjoint [OF len] in blast)
  ultimately have "cstr m' d (ds @ cs)" using m'(2) by (simp add: cstr_append)
  moreover have "m' a = m a" if "a \<notin> span d (length ds + Suc (length cs))" for a
    using that frame span_shift by blast
  moreover have "strcat m d s = Inr (d, m')"
    using m'(1) assms(3,4) strlen_loop_cstr [OF ds] by (simp add: strcat_def)
  ultimately show ?thesis by blast
qed

section \<open>Properties\<close>

text \<open>
  strcat appends: when the strings do not overlap and neither pointer is NULL, it returns the
  destination, which then holds the two strings one after the other, and no other byte of memory
  changes.
\<close>

theorem strcat_appends:
  assumes "cstr m d ds" "cstr m s cs" "d \<noteq> NULL" "s \<noteq> NULL"
    and "span d (length ds + Suc (length cs)) \<inter> span s (Suc (length cs)) = {}"
    and "length ds + Suc (length cs) < 2 ^ 32"
  shows "\<exists>m'. strcat m d s = Inr (d, m') \<and> cstr m' d (ds @ cs) \<and>
    (\<forall>a. a \<notin> span d (length ds + Suc (length cs)) \<longrightarrow> m' a = m a)"
  using assms by (rule strcat_cstr)

lemma strcat_appends_witness:
  "\<exists>m'. strcat ((\<lambda>_. 0)(100 := 65, 200 := 66)) 100 200 = Inr (100, m') \<and> cstr m' 100 [65, 66]"
  using strcat_appends [of "(\<lambda>_. 0)(100 := 65, 200 := 66)" 100 "[65]" 200 "[66]"]
  by (auto simp: span_Suc)

text \<open>
  strcmp is a comparison: it returns the sign of the lexicographic order of the two strings by
  signed characters; 0 exactly for equal strings, and exchanging the arguments changes the sign.
\<close>

theorem strcmp_compares:
  assumes "cstr m p xs" "cstr m q ys" "p \<noteq> NULL" "q \<noteq> NULL"
  shows "strcmp m p q = Inr (cstr_cmp xs ys) \<and> strcmp m q p = Inr (- cstr_cmp xs ys) \<and>
    (cstr_cmp xs ys = 0 \<longleftrightarrow> xs = ys)"
  using strcmp_loop_cstr [OF assms(1,2)] strcmp_loop_cstr [OF assms(2,1)] assms(3,4)
    cstr_cmp_0 [OF cstr_nonzero [OF assms(1)] cstr_nonzero [OF assms(2)]] cstr_cmp_swap [of ys xs]
  by (simp add: strcmp_def)

lemma strcmp_compares_witness:
  "strcmp ((\<lambda>_. 0)(100 := 65, 200 := 66)) 100 200 = Inr (- 1)"
  by (rule conjunct1 [OF strcmp_compares [of "(\<lambda>_. 0)(100 := 65, 200 := 66)" 100 "[65]" 200 "[66]", simplified]])

text \<open>
  C40. strrchr and strchrs never find a character from 128 on, even when the string holds it: they
  compare the unsigned argument with signed characters. Below 128 strchrs counts the occurrences.
\<close>

theorem strrchr_misses_high:
  assumes "cstr m p cs" "p \<noteq> NULL"
  shows "if uint ch < 128 then strchrs m p ch = Inr (of_nat (count_list cs ch))
    else strrchr m p ch = Inr NULL \<and> strchrs m p ch = Inr 0"
  using assms(2) strrchr_loop_cstr [OF assms(1), of ch NULL] strchrs_loop_cstr [OF assms(1), of ch 0]
    last_pos_none [of ch cs p NULL]
  by (simp add: strrchr_def strchrs_def)

lemma strrchr_misses_high_witness:
  "strrchr ((\<lambda>_. 0)(100 := 200)) 100 200 = Inr NULL"
  by (rule conjunct1 [OF strrchr_misses_high [of "(\<lambda>_. 0)(100 := 200)" 100 "[200]" 200, simplified]])

end
