(* ===== verification/Bitmap.thy ===== *)
theory Bitmap
  imports Kernel_State CString
begin

text \<open>
  The bitmaps of lib/kernel/bitmap.c on the byte memory: a bitmap is its length in bytes and the
  address of its bytes. Nothing in the code bounds an index by the length, so neither do the
  definitions: an index past the end reads or writes the bytes that follow. bitmap_scan slides a
  window of cnt bits over the map; the lemmas say exactly which windows it considers. The locale
  \<open>bit_allocator\<close> is the contract memory.c relies on.
\<close>

section \<open>Operations\<close>

definition BITMAP_MASK :: u8 where "BITMAP_MASK = 1"

definition bitmap_init :: "bytes \<Rightarrow> bitmap \<Rightarrow> ('s, bytes) res" where
  "bitmap_init m btmp = memset m (bits btmp) 0 (btmp_bytes_len btmp)"

definition bitmap_scan_test :: "bytes \<Rightarrow> bitmap \<Rightarrow> u32 \<Rightarrow> bool" where
  "bitmap_scan_test m btmp bit_idx =
     (let index = bit_idx div 8; pos = unat (bit_idx mod 8)
      in m (bits btmp + index) AND push_bit pos BITMAP_MASK \<noteq> 0)"

definition bitmap_put :: "bytes \<Rightarrow> bitmap \<Rightarrow> u32 \<Rightarrow> u8 \<Rightarrow> bytes" where
  "bitmap_put m btmp bit_idx v =
     (let index = bit_idx div 8; pos = unat (bit_idx mod 8); a = bits btmp + index
      in if v \<noteq> 0 then m(a := m a OR push_bit pos BITMAP_MASK)
         else m(a := m a AND NOT (push_bit pos BITMAP_MASK)))"

definition bitmap_set :: "bytes \<Rightarrow> bitmap \<Rightarrow> u32 \<Rightarrow> u8 \<Rightarrow> ('s, bytes) res" where
  "bitmap_set m btmp bit_idx v =
     assertR (v = 0 \<or> v = 1) ''(value==0)||(value==1)'' (Inr (bitmap_put m btmp bit_idx v))"

text \<open>
  The two loops of bitmap_scan: the count of zero bits in the first window, and the window that
  slides while its right end is below the number of bytes.
\<close>

function scan_count :: "bytes \<Rightarrow> bitmap \<Rightarrow> u32 \<Rightarrow> u32 \<Rightarrow> u32 \<Rightarrow> u32" where
  "scan_count m btmp cnt r zeronum =
     (if r < cnt
      then scan_count m btmp cnt (r + 1)
        (if \<not> bitmap_scan_test m btmp r then zeronum + 1 else zeronum)
      else zeronum)"
  by pat_completeness auto
termination
  by (relation "measure (\<lambda>(m, btmp, cnt, r, zeronum). unat cnt - unat r)")
    (auto simp: unat_Suc_u32 word_less_nat_alt)

declare scan_count.simps [simp del]

function scan_slide :: "bytes \<Rightarrow> bitmap \<Rightarrow> u32 \<Rightarrow> u32 \<Rightarrow> u32 \<Rightarrow> u32 \<Rightarrow> u32" where
  "scan_slide m btmp cnt l r zeronum =
     (if r < btmp_bytes_len btmp
      then if zeronum = cnt then l
           else let z1 = (if \<not> bitmap_scan_test m btmp l then zeronum - 1 else zeronum);
                    z2 = (if \<not> bitmap_scan_test m btmp r then z1 + 1 else z1)
                in scan_slide m btmp cnt (l + 1) (r + 1) z2
      else - 1)"
  by pat_completeness auto
termination
  by (relation "measure (\<lambda>(m, btmp, cnt, l, r, zeronum). unat (btmp_bytes_len btmp) - unat r)")
    (auto simp: unat_Suc_u32 word_less_nat_alt)

declare scan_slide.simps [simp del]

definition bitmap_scan :: "bytes \<Rightarrow> bitmap \<Rightarrow> u32 \<Rightarrow> u32" where
  "bitmap_scan m btmp cnt = scan_slide m btmp cnt 0 cnt (scan_count m btmp cnt 0 0)"

section \<open>Bits\<close>

lemma bitmap_scan_test_bit:
  "bitmap_scan_test m btmp i \<longleftrightarrow> bit (m (bits btmp + i div 8)) (unat (i mod 8))"
proof -
  have "x AND push_bit n 1 \<noteq> 0 \<longleftrightarrow> bit x n" if "n < 8" for x :: u8 and n
    using that by (simp add: bit_iff_and_push_bit_not_eq_0)
  moreover have "unat (i mod 8) < 8" by (simp add: unat_mod)
  ultimately show ?thesis by (simp add: bitmap_scan_test_def BITMAP_MASK_def Let_def)
qed

lemma u32_div_mod_8: "(i :: u32) div 8 = j div 8 \<Longrightarrow> i mod 8 = j mod 8 \<Longrightarrow> i = j"
  by (metis div_mult_mod_eq)

lemma bitmap_put_test:
  "bitmap_scan_test (bitmap_put m btmp i v) btmp j =
    (if j = i then v \<noteq> 0 else bitmap_scan_test m btmp j)"
proof -
  have lt: "unat (i mod 8) < 8" "unat (j mod 8) < 8" by (simp_all add: unat_mod)
  have push: "bit (2 ^ n :: u8) k \<longleftrightarrow> k = n \<and> n < 8" for n k
    by (auto simp: bit_exp_iff possible_bit_word)
  show ?thesis
  proof (cases "j div 8 = i div 8")
    case True
    then have "j = i \<longleftrightarrow> unat (j mod 8) = unat (i mod 8)"
      using u32_div_mod_8 [of j i] u32_eqI [of "j mod 8" "i mod 8"] by auto
    with True lt show ?thesis
      by (auto simp: bitmap_scan_test_bit bitmap_put_def Let_def BITMAP_MASK_def push
          bit_or_iff bit_and_iff bit_not_iff)
  next
    case False
    then show ?thesis by (auto simp: bitmap_scan_test_bit bitmap_put_def Let_def)
  qed
qed

lemma bitmap_put_frame: "a \<noteq> bits btmp + i div 8 \<Longrightarrow> bitmap_put m btmp i v a = m a"
  by (simp add: bitmap_put_def Let_def)

lemma bitmap_init_clear:
  assumes "bitmap_init m btmp = Inr m'" "unat i < 8 * unat (btmp_bytes_len btmp)"
  shows "\<not> bitmap_scan_test m' btmp i"
proof -
  have m': "m' = memset_loop m (bits btmp) 0 (btmp_bytes_len btmp)"
    using assms(1) by (simp add: bitmap_init_def memset_def assertR_Inr_iff)
  have "i div 8 < btmp_bytes_len btmp"
    using assms(2) by (simp add: word_less_nat_alt unat_div)
  then show ?thesis by (simp add: bitmap_scan_test_bit m' memset_loop_eq)
qed

section \<open>The window scan\<close>

definition bit_free :: "bytes \<Rightarrow> bitmap \<Rightarrow> nat \<Rightarrow> bool" where
  "bit_free m btmp i \<longleftrightarrow> \<not> bitmap_scan_test m btmp (of_nat i)"

definition zeros :: "bytes \<Rightarrow> bitmap \<Rightarrow> nat \<Rightarrow> nat \<Rightarrow> nat" where
  "zeros m btmp l n = length (filter (bit_free m btmp) [l..<l + n])"

definition window_free :: "bytes \<Rightarrow> bitmap \<Rightarrow> nat \<Rightarrow> nat \<Rightarrow> bool" where
  "window_free m btmp l n \<longleftrightarrow> (\<forall>i. l \<le> i \<and> i < l + n \<longrightarrow> bit_free m btmp i)"

lemma zeros_le: "zeros m btmp l n \<le> n"
  using length_filter_le [of "bit_free m btmp" "[l..<l + n]"] by (simp add: zeros_def)

lemma zeros_full: "zeros m btmp l n = n \<longleftrightarrow> window_free m btmp l n"
proof -
  have "zeros m btmp l n = n \<longleftrightarrow> (\<forall>i \<in> set [l..<l + n]. bit_free m btmp i)"
    unfolding zeros_def by (metis add_diff_cancel_left' filter_True length_filter_less
        length_upt less_irrefl)
  then show ?thesis by (auto simp: window_free_def)
qed

lemma zeros_snoc: "zeros m btmp l (Suc n) = zeros m btmp l n + (if bit_free m btmp (l + n) then 1 else 0)"
  by (simp add: zeros_def)

lemma zeros_cons: "zeros m btmp l (Suc n) = (if bit_free m btmp l then 1 else 0) + zeros m btmp (Suc l) n"
  by (simp add: zeros_def upt_conv_Cons del: upt_Suc)

lemma scan_count_zeros:
  "r \<le> cnt \<Longrightarrow> scan_count m btmp cnt r z = z + of_nat (zeros m btmp (unat r) (unat cnt - unat r))"
proof (induction m btmp cnt r z rule: scan_count.induct)
  case (1 m btmp cnt r z)
  show ?case
  proof (cases "r < cnt")
    case True
    then have r1: "unat (r + 1) = Suc (unat r)" by (rule unat_Suc_u32)
    have le: "r + 1 \<le> cnt" using True by (rule inc_le)
    have gap: "unat cnt - unat r = Suc (unat cnt - unat (r + 1))"
      using True r1 by (simp add: word_less_nat_alt)
    show ?thesis
      using "1.IH" [OF True le] True unfolding gap zeros_cons
      by (subst scan_count.simps) (simp add: r1 bit_free_def)
  next
    case False
    with "1.prems" have "r = cnt" by simp
    then show ?thesis by (subst scan_count.simps) (simp add: zeros_def)
  qed
qed

lemma scan_slide_spec:
  assumes "unat r = unat l + unat cnt" "z = of_nat (zeros m btmp (unat l) (unat cnt))"
  shows "(let res = scan_slide m btmp cnt l r z; L = unat (btmp_bytes_len btmp); C = unat cnt in
     (res = - 1 \<and> (\<forall>k. unat l \<le> k \<and> k + C < L \<longrightarrow> \<not> window_free m btmp k C)) \<or>
     (unat l \<le> unat res \<and> unat res + C < L \<and> window_free m btmp (unat res) C \<and>
       (\<forall>k. unat l \<le> k \<and> k < unat res \<longrightarrow> \<not> window_free m btmp k C)))"
  using assms
proof (induction m btmp cnt l r z rule: scan_slide.induct)
  case (1 m btmp cnt l r z)
  let ?L = "unat (btmp_bytes_len btmp)" and ?C = "unat cnt"
  have zc: "z = cnt \<longleftrightarrow> window_free m btmp (unat l) ?C"
  proof -
    have "unat (of_nat (zeros m btmp (unat l) ?C) :: u32) = zeros m btmp (unat l) ?C"
      using zeros_le [of m btmp "unat l" ?C] unat_u32_bound [of cnt] by (simp add: unat_of_nat)
    then show ?thesis using "1.prems"(2) by (simp add: word_unat_eq_iff zeros_full)
  qed
  show ?case
  proof (cases "r < btmp_bytes_len btmp")
    case False
    then have "\<not> k + ?C < ?L" if "unat l \<le> k" for k
      using that "1.prems"(1) by (simp add: word_less_nat_alt)
    with False show ?thesis by (subst scan_slide.simps) (auto simp: Let_def)
  next
    case r: True
    show ?thesis
    proof (cases "z = cnt")
      case True
      with r zc "1.prems"(1) show ?thesis
        by (subst scan_slide.simps) (auto simp: Let_def word_less_nat_alt)
    next
      case False
      let ?z1 = "if \<not> bitmap_scan_test m btmp l then z - 1 else z"
      let ?z2 = "if \<not> bitmap_scan_test m btmp r then ?z1 + 1 else ?z1"
      have r1: "unat (r + 1) = Suc (unat r)" using r by (rule unat_Suc_u32)
      have "unat l \<le> unat r" using "1.prems"(1) by simp
      then have l1: "unat (l + 1) = Suc (unat l)"
        using r unat_u32_bound [of "btmp_bytes_len btmp"]
        by (simp add: unat_plus_if' word_less_nat_alt)
      have "(if bit_free m btmp (unat l) then 1 else 0) + zeros m btmp (Suc (unat l)) ?C =
          zeros m btmp (unat l) ?C + (if bit_free m btmp (unat r) then 1 else 0)"
        using zeros_cons [of m btmp "unat l" ?C] zeros_snoc [of m btmp "unat l" ?C]
          "1.prems"(1) by simp
      then have "(of_nat ((if bit_free m btmp (unat l) then 1 else 0) +
            zeros m btmp (Suc (unat l)) ?C) :: u32) =
          of_nat (zeros m btmp (unat l) ?C + (if bit_free m btmp (unat r) then 1 else 0))"
        by (rule arg_cong)
      then have z2: "?z2 = of_nat (zeros m btmp (unat (l + 1)) ?C)"
        unfolding l1 "1.prems"(2)
        by (auto simp: bit_free_def algebra_simps split: if_splits)
      have step: "scan_slide m btmp cnt l r z = scan_slide m btmp cnt (l + 1) (r + 1) ?z2"
        using r False by (subst scan_slide.simps) (simp add: Let_def)
      have notl: "\<not> window_free m btmp (unat l) ?C" using zc False by simp
      have from_l: "unat l \<le> k \<longleftrightarrow> k = unat l \<or> unat (l + 1) \<le> k" for k
        unfolding l1 by auto
      have "unat (r + 1) = unat (l + 1) + unat cnt" using r1 l1 "1.prems"(1) by simp
      from "1.IH" [OF r False refl refl this z2] show ?thesis
        unfolding step Let_def from_l using notl by auto
    qed
  qed
qed

lemma bitmap_scan_cases:
  fixes m btmp cnt
  defines "res \<equiv> bitmap_scan m btmp cnt" and "L \<equiv> unat (btmp_bytes_len btmp)" and "C \<equiv> unat cnt"
  shows "(res = - 1 \<and> (\<forall>k. k + C < L \<longrightarrow> \<not> window_free m btmp k C)) \<or>
    (res \<noteq> - 1 \<and> unat res + C < L \<and> window_free m btmp (unat res) C \<and>
      (\<forall>k. k < unat res \<longrightarrow> \<not> window_free m btmp k C))"
proof -
  have count: "scan_count m btmp cnt 0 0 = of_nat (zeros m btmp (unat (0 :: u32)) C)"
    using scan_count_zeros [of 0 cnt m btmp 0] by (simp add: C_def)
  have "unat (- 1 :: u32) = 4294967295"
    by (simp add: unsigned_minus_1_eq_mask mask_eq_exp_minus_1)
  then have "res \<noteq> - 1" if "unat res + C < L"
    using that unat_u32_bound [of "btmp_bytes_len btmp"] unfolding L_def by (cases "res = - 1") auto
  moreover have "(res = - 1 \<and> (\<forall>k. k + C < L \<longrightarrow> \<not> window_free m btmp k C)) \<or>
    (unat res + C < L \<and> window_free m btmp (unat res) C \<and>
      (\<forall>k. k < unat res \<longrightarrow> \<not> window_free m btmp k C))"
    using scan_slide_spec [of cnt 0 cnt _ m btmp, OF _ count [unfolded C_def]]
    by (simp add: res_def bitmap_scan_def L_def C_def Let_def)
  ultimately show ?thesis by blast
qed

lemma bitmap_scan_none:
  "bitmap_scan m btmp cnt = - 1 \<longleftrightarrow>
    \<not> (\<exists>k. k + unat cnt < unat (btmp_bytes_len btmp) \<and> window_free m btmp k (unat cnt))"
proof
  show "\<not> (\<exists>k. k + unat cnt < unat (btmp_bytes_len btmp) \<and> window_free m btmp k (unat cnt))"
    if "bitmap_scan m btmp cnt = - 1"
    using that bitmap_scan_cases [of m btmp cnt] by blast
  show "bitmap_scan m btmp cnt = - 1"
    if "\<not> (\<exists>k. k + unat cnt < unat (btmp_bytes_len btmp) \<and> window_free m btmp k (unat cnt))"
    using that bitmap_scan_cases [of m btmp cnt] by blast
qed

lemma window_free_span:
  assumes "window_free m btmp (unat i) n" "unat i + n < 2 ^ 32" "a \<in> span i n"
  shows "\<not> bitmap_scan_test m btmp a"
proof -
  obtain k where k: "k < n" "a = i + of_nat k" using assms(3) by (auto simp: span_def)
  have "bit_free m btmp (unat i + k)" using assms(1) k(1) by (simp add: window_free_def)
  then show ?thesis using k(2) by (simp add: bit_free_def)
qed

section \<open>The allocation interface\<close>

text \<open>
  What memory.c needs of a bitmap: testing a bit, writing one bit changes that bit only, and a
  scan answers -1 or the start of a run of clear bits below the limit.
\<close>

locale bit_allocator =
  fixes used :: "'m \<Rightarrow> u32 \<Rightarrow> bool"
    and put_op :: "'m \<Rightarrow> u32 \<Rightarrow> bool \<Rightarrow> 'm"
    and scan_op :: "'m \<Rightarrow> u32 \<Rightarrow> u32"
    and limit :: nat
  assumes put_law: "used (put_op m i v) j = (if j = i then v else used m j)"
    and scan_law: "scan_op m cnt = i \<Longrightarrow> i \<noteq> - 1 \<Longrightarrow>
      unat i + unat cnt < limit \<and> (\<forall>a \<in> span i (unat cnt). \<not> used m a)"
    and limit_law: "limit < 2 ^ 32"
begin

text \<open>The loops of vaddr_get and vaddr_remove: writing a run of bits.\<close>

lemma put_range:
  "used (fold (\<lambda>k m. put_op m (i + of_nat k) v) [0..<n] m) j =
    (if j \<in> span i n then v else used m j)"
proof (induction n)
  case 0
  then show ?case by simp
next
  case (Suc n)
  have "span i (Suc n) = insert (i + of_nat n) (span i n)"
    by (auto simp: span_def less_Suc_eq)
  with Suc show ?case by (simp add: put_law)
qed

lemma taken_was_free:
  "scan_op m cnt = i \<Longrightarrow> i \<noteq> - 1 \<Longrightarrow> a \<in> span i (unat cnt) \<Longrightarrow> \<not> used m a"
  using scan_law by blast

text \<open>Two allocations in a row never overlap.\<close>

lemma two_scans_disjoint:
  assumes "scan_op m cnt = i" "i \<noteq> - 1"
    and "scan_op (fold (\<lambda>k m. put_op m (i + of_nat k) True) [0..<unat cnt] m) cnt' = i'" "i' \<noteq> - 1"
  shows "span i (unat cnt) \<inter> span i' (unat cnt') = {}"
proof -
  have "a \<notin> span i (unat cnt)" if "a \<in> span i' (unat cnt')" for a
    using taken_was_free [OF assms(3,4) that] by (simp add: put_range split: if_splits)
  then show ?thesis by blast
qed

text \<open>Clearing the run a scan found and the loop set gives back the old bits.\<close>

lemma release_restores:
  assumes "scan_op m cnt = i" "i \<noteq> - 1"
  shows "used (fold (\<lambda>k m. put_op m (i + of_nat k) False) [0..<unat cnt]
      (fold (\<lambda>k m. put_op m (i + of_nat k) True) [0..<unat cnt] m)) j = used m j"
  using taken_was_free [OF assms] by (auto simp: put_range)

end

definition put_flag :: "bytes \<Rightarrow> bitmap \<Rightarrow> u32 \<Rightarrow> bool \<Rightarrow> bytes" where
  "put_flag m btmp i v = bitmap_put m btmp i (if v then 1 else 0)"

interpretation bm: bit_allocator "\<lambda>m. bitmap_scan_test m btmp" "\<lambda>m. put_flag m btmp"
  "\<lambda>m. bitmap_scan m btmp" "unat (btmp_bytes_len btmp)" for btmp
proof
  show "bitmap_scan_test (put_flag m btmp i v) btmp j =
      (if j = i then v else bitmap_scan_test m btmp j)" for m i v j
    by (simp add: put_flag_def bitmap_put_test)
  show "unat i + unat cnt < unat (btmp_bytes_len btmp) \<and>
      (\<forall>a \<in> span i (unat cnt). \<not> bitmap_scan_test m btmp a)"
    if "bitmap_scan m btmp cnt = i" "i \<noteq> - 1" for m cnt i
    using bitmap_scan_cases [of m btmp cnt] that window_free_span [of m btmp i "unat cnt"]
      unat_u32_bound [of "btmp_bytes_len btmp"] by auto
  show "unat (btmp_bytes_len btmp) < 2 ^ 32"
    using unat_u32_bound [of "btmp_bytes_len btmp"] by simp
qed

section \<open>Properties\<close>

text \<open>
  C21. bitmap_scan is sound and takes the first fit: an answer other than -1 starts a run of cnt
  clear bits, the run ends below the length of the map, and no smaller index starts such a run.
\<close>

theorem bitmap_scan_first_fit:
  assumes "bitmap_scan m btmp cnt = idx" "idx \<noteq> - 1"
  shows "unat idx + unat cnt < unat (btmp_bytes_len btmp) \<and>
    window_free m btmp (unat idx) (unat cnt) \<and>
    (\<forall>k < unat idx. \<not> window_free m btmp k (unat cnt))"
  using bitmap_scan_cases [of m btmp cnt] assms by blast

text \<open>A map of eight bytes at address 100 whose bits 0 and 1 are taken.\<close>

definition demo_map :: bitmap where "demo_map = \<lparr>btmp_bytes_len = 8, bits = 100\<rparr>"

definition demo_bytes :: bytes where "demo_bytes a = (if a = 100 then 3 else 0)"

lemma demo_scan: "bitmap_scan demo_bytes demo_map 3 = 2"
  by (simp add: bitmap_scan_def scan_count.simps scan_slide.simps bitmap_scan_test_def
      demo_map_def demo_bytes_def BITMAP_MASK_def Let_def)

lemma bitmap_scan_first_fit_witness:
  "unat (2 :: u32) + unat (3 :: u32) < unat (btmp_bytes_len demo_map) \<and>
    window_free demo_bytes demo_map (unat (2 :: u32)) (unat (3 :: u32)) \<and>
    \<not> window_free demo_bytes demo_map 0 (unat (3 :: u32)) \<and>
    \<not> window_free demo_bytes demo_map 1 (unat (3 :: u32))"
proof -
  have "unat (2 :: u32) = 2" by simp
  then show ?thesis using bitmap_scan_first_fit [OF demo_scan] by simp
qed

text \<open>
  C22. bitmap_scan compares the bit index of the window's end with the number of bytes, so it fails
  exactly when no window of cnt clear bits ends below bit number btmp_bytes_len, whatever the
  other seven eighths of the map hold.
\<close>

theorem bitmap_scan_fails_iff:
  "bitmap_scan m btmp cnt = - 1 \<longleftrightarrow>
    \<not> (\<exists>k. k + unat cnt < unat (btmp_bytes_len btmp) \<and> window_free m btmp k (unat cnt))"
  by (rule bitmap_scan_none)

text \<open>
  bitmap_set either fails its assertion, when the value is not 0 or 1, or writes exactly the
  named bit: every other bit of the map keeps its value and only one byte of memory is written.
\<close>

theorem bitmap_set_writes_one_bit:
  "(if v = 0 \<or> v = 1
    then \<exists>m'. bitmap_set m btmp i v = Inr m' \<and>
      (\<forall>j. bitmap_scan_test m' btmp j = (if j = i then v = 1 else bitmap_scan_test m btmp j)) \<and>
      (\<forall>a. m' a = (if a = bits btmp + i div 8 then m' a else m a))
    else bitmap_set m btmp i v = Inl (Assert_failed ''(value==0)||(value==1)''))"
  by (auto simp: bitmap_set_def assertR_def bitmap_put_test bitmap_put_frame)

end
