(* ===== verification/Output.thy ===== *)
theory Output
  imports Sync
begin

text \<open>
  Output on the screen. put_char, put_str and put_int are assembly (lib/kernel/print.S); what they
  print is kept as a log of characters, without the cursor. device/console.c guards them with the
  console lock.
\<close>

definition put_char :: "kstate \<Rightarrow> u8 \<Rightarrow> kstate" where
  "put_char s c = s\<lparr>screen := screen s @ [c]\<rparr>"

definition chars_of :: "string \<Rightarrow> u8 list" where
  "chars_of str = map of_char str"

definition put_str :: "kstate \<Rightarrow> string \<Rightarrow> kstate" where
  "put_str s str = s\<lparr>screen := screen s @ chars_of str\<rparr>"

text \<open>put_int prints a number in hexadecimal, in capitals and without leading zeros.\<close>

definition hex_digit :: "nat \<Rightarrow> u8" where
  "hex_digit d = (if d < 10 then of_nat (48 + d) else of_nat (55 + d))"

fun hex_chars :: "nat \<Rightarrow> u8 list" where
  "hex_chars n = (if n < 16 then [hex_digit n] else hex_chars (n div 16) @ [hex_digit (n mod 16)])"

declare hex_chars.simps [simp del]

definition put_int :: "kstate \<Rightarrow> u32 \<Rightarrow> kstate" where
  "put_int s n = s\<lparr>screen := screen s @ hex_chars (unat n)\<rparr>"

lemma put_sel [simp]:
  "lheap (put_str s str) = lheap s" "lheap (put_int s n) = lheap s" "lheap (put_char s c) = lheap s"
  "mem (put_str s str) = mem s" "mem (put_int s n) = mem s" "mem (put_char s c) = mem s"
  "screen (put_str s str) = screen s @ chars_of str" "screen (put_int s n) = screen s @ hex_chars (unat n)"
  "screen (put_char s c) = screen s @ [c]"
  by (simp_all add: put_str_def put_int_def put_char_def)

section \<open>The console\<close>

definition console_init :: "kstate \<Rightarrow> kstate" where
  "console_init s = lock_init s CONSOLE_LOCK"

definition console_acquire :: "kstate \<Rightarrow> kstate kres" where
  "console_acquire s = lock_acquire s CONSOLE_LOCK"

definition console_release :: "kstate \<Rightarrow> kstate kres" where
  "console_release s = lock_release s CONSOLE_LOCK"

definition console_put_str :: "kstate \<Rightarrow> string \<Rightarrow> kstate kres" where
  "console_put_str s str = bindR (console_acquire s) (\<lambda>s1. console_release (put_str s1 str))"

definition console_put_int :: "kstate \<Rightarrow> u32 \<Rightarrow> kstate kres" where
  "console_put_int s num = bindR (console_acquire s) (\<lambda>s1. console_release (put_int s1 num))"

definition console_put_char :: "kstate \<Rightarrow> u8 \<Rightarrow> kstate kres" where
  "console_put_char s chr = bindR (console_acquire s) (\<lambda>s1. console_release (put_char s1 chr))"

text \<open>A free lock around work that leaves the lock and the lists alone is as it was.\<close>

definition lock_free :: "kstate \<Rightarrow> u32 \<Rightarrow> bool" where
  "lock_free s l \<longleftrightarrow> lock_holder s l = 0 \<and> holder_repeat_nr s l = 0 \<and>
     sema_value s (lock_semaphore l) = 1 \<and> cur s \<noteq> 0 \<and>
     (\<exists>F. k_family s F \<and> F (sema_waiters (lock_semaphore l)) = Some [])"

definition locked :: "u32 \<Rightarrow> kstate \<Rightarrow> kstate" where
  "locked l s = set_repeat l 1 (set_holder l (cur s) (set_sema_value (lock_semaphore l) 0 s))"

definition unlocked :: "u32 \<Rightarrow> kstate \<Rightarrow> kstate" where
  "unlocked l s = set_sema_value (lock_semaphore l) 1 (set_repeat l 0 (set_holder l NULL s))"

lemma lock_free_acquire: "lock_free s l \<Longrightarrow> lock_acquire s l = Inr (locked l s)"
  by (simp add: lock_free_def locked_def lock_acquire_free)

lemma lock_free_release:
  assumes "k_family s F" "F (sema_waiters (lock_semaphore l)) = Some []"
    and "lock_holder s l = cur s" "holder_repeat_nr s l = 1" "sema_value s (lock_semaphore l) = 0"
  shows "lock_release s l = Inr (unlocked l s)"
  using lock_release_uncontended [OF assms(3-5) assms(1,2)] by (simp add: unlocked_def)

lemma locked_sel [simp]:
  "lock_holder (locked l s) l = cur s" "holder_repeat_nr (locked l s) l = 1"
  "sema_value (locked l s) (lock_semaphore l) = 0" "cur (locked l s) = cur s"
  "lheap (locked l s) = lheap s" "k_family (locked l s) F = k_family s F"
  by (simp_all add: locked_def k_family_def)

lemma unlocked_locked:
  assumes "lock_free s l"
  shows "unlocked l (locked l s) = s"
  using assms
  by (simp add: lock_free_def unlocked_def locked_def set_sema_value_def set_repeat_def set_holder_def
      fun_upd_idem)

lemma console_put_str_free:
  assumes "lock_free s CONSOLE_LOCK"
  shows "console_put_str s str = Inr (put_str s str)"
proof -
  let ?l = CONSOLE_LOCK and ?s1 = "put_str (locked CONSOLE_LOCK s) str"
  obtain F where F: "k_family s F" "F (sema_waiters (lock_semaphore ?l)) = Some []"
    using assms by (auto simp: lock_free_def)
  have "k_family ?s1 F" using F(1) by (simp add: k_family_def)
  moreover have "lock_holder ?s1 ?l = cur ?s1" "holder_repeat_nr ?s1 ?l = 1"
    "sema_value ?s1 (lock_semaphore ?l) = 0" by (simp_all add: put_str_def)
  ultimately have "lock_release ?s1 ?l = Inr (unlocked ?l ?s1)" using F(2) by (intro lock_free_release)
  moreover have "unlocked ?l ?s1 = put_str (unlocked ?l (locked ?l s)) str"
    by (simp add: unlocked_def put_str_def set_sema_value_def set_repeat_def set_holder_def)
  ultimately show ?thesis
    using assms by (simp add: console_put_str_def console_acquire_def console_release_def
        lock_free_acquire unlocked_locked)
qed

section \<open>panic_spin\<close>

text \<open>
  The state in which panic_spin of kernel/debug.c, which ASSERT and PANIC call, enters its endless
  loop. In the other theories such a call is the value \<open>Assert_failed\<close> or \<open>Panicked\<close>.
\<close>

definition panic_spin :: "kstate \<Rightarrow> string \<Rightarrow> u32 \<Rightarrow> string \<Rightarrow> string \<Rightarrow> kstate" where
  "panic_spin s filename line func condition =
     (let nl = (\<lambda>s. put_char s 10); bslash = [CHR 0x5C];
          s1 = put_str (fst (intr_disable s))
                 (''\<newline>\<newline>\<newline>'' @ bslash @ ''**********ERROR'' @ bslash @ ''**********'' @ bslash @ ''\<newline>'');
          s2 = nl (put_str (put_str s1 ''Filename: '') filename);
          s3 = nl (put_int (put_str s2 ''Line: '') line);
          s4 = nl (put_str (put_str s3 ''Func: '') func);
          s5 = nl (put_str (put_str s4 ''Condition: '') condition)
      in put_str s5 (bslash @ ''**********ERROR'' @ bslash @ ''**********'' @ bslash @ ''\<newline>''))"

end
