(* ===== verification/Mem_Pool.thy ===== *)
theory Mem_Pool
  imports Bitmap Output
begin

text \<open>
  The pools of kernel/memory.c: physical pages of the kernel and of user programs (palloc, pfree)
  and virtual pages (vaddr_get, vaddr_remove). A pool is a bitmap in the byte memory with the
  address of its first page; the lemmas are the laws of \<open>bit_allocator\<close> read on these states.
\<close>

section \<open>Operations\<close>

definition PG_SIZE :: u32 where "PG_SIZE = 4096"
definition K_HEAP_START :: u32 where "K_HEAP_START = 0xc0100000"
definition MEM_BITMAP_BASE :: u32 where "MEM_BITMAP_BASE = 0xc009a000"

definition pool_of :: "pool_flags \<Rightarrow> kstate \<Rightarrow> pool" where
  "pool_of pf s = (if pf = PF_KERNEL then kernel_pool s else user_pool s)"

definition pool_lock :: "pool_flags \<Rightarrow> u32" where
  "pool_lock pf = (if pf = PF_KERNEL then KERNEL_POOL_LOCK else USER_POOL_LOCK)"

text \<open>The loops that write pg_cnt bits from a start index.\<close>

function bitmap_set_loop ::
  "bytes \<Rightarrow> bitmap \<Rightarrow> u32 \<Rightarrow> u32 \<Rightarrow> u8 \<Rightarrow> u32 \<Rightarrow> ('s, bytes) res" where
  "bitmap_set_loop m btmp start pg_cnt v cnt =
     (if cnt < pg_cnt
      then bindR (bitmap_set m btmp (start + cnt) v) (\<lambda>m1. bitmap_set_loop m1 btmp start pg_cnt v (cnt + 1))
      else Inr m)"
  by pat_completeness auto
termination
  by (relation "measure (\<lambda>(m, btmp, start, pg_cnt, v, cnt). unat pg_cnt - unat cnt)")
    (auto simp: unat_Suc_u32 word_less_nat_alt)

declare bitmap_set_loop.simps [simp del]

definition palloc :: "kstate \<Rightarrow> pool_flags \<Rightarrow> (u32 \<times> kstate) kres" where
  "palloc s pf =
     (let mem_pool = pool_of pf s; idx = bitmap_scan (mem s) (pool_bitmap mem_pool) 1 in
      assertR (idx \<noteq> - 1) ''idx!=-1''
        (if idx = - 1 then Inr (NULL, s)
         else bindR (bitmap_set (mem s) (pool_bitmap mem_pool) idx 1) (\<lambda>m1.
                let page_phyaddr = phy_addr_start mem_pool + idx * PG_SIZE
                in Inr (page_phyaddr, s\<lparr>mem := m1\<rparr>))))"

definition pfree :: "kstate \<Rightarrow> u32 \<Rightarrow> kstate kres" where
  "pfree s pg_phy_addr =
     (let pf = (if phy_addr_start (user_pool s) \<le> pg_phy_addr then PF_USER else PF_KERNEL);
          mem_pool = pool_of pf s;
          bit_idx = (pg_phy_addr - phy_addr_start mem_pool) div PG_SIZE
      in bindR (bitmap_set (mem s) (pool_bitmap mem_pool) bit_idx 0) (\<lambda>m1. Inr (s\<lparr>mem := m1\<rparr>)))"

definition vaddr_pool :: "pool_flags \<Rightarrow> kstate \<Rightarrow> virtual_addr" where
  "vaddr_pool pf s =
     (if pf = PF_KERNEL then kernel_vaddr s else userprog_vaddr (tasks s (running_thread s)))"

definition vaddr_get :: "kstate \<Rightarrow> pool_flags \<Rightarrow> u32 \<Rightarrow> (u32 \<times> kstate) kres" where
  "vaddr_get s pf pg_cnt =
     (if pf = PF_KERNEL
      then let bits_idx_start = bitmap_scan (mem s) (vaddr_bitmap (kernel_vaddr s)) pg_cnt in
           assertR (bits_idx_start \<noteq> - 1) ''bits_idx_start!=-1''
             (if bits_idx_start = - 1 then Inr (NULL, s)
              else bindR (bitmap_set_loop (mem s) (vaddr_bitmap (kernel_vaddr s)) bits_idx_start pg_cnt 1 0)
                (\<lambda>m1. Inr (Kernel_State.vaddr_start (kernel_vaddr s) + bits_idx_start * PG_SIZE, s\<lparr>mem := m1\<rparr>)))
      else let va = userprog_vaddr (tasks s (running_thread s));
               bits_idx_start = bitmap_scan (mem s) (vaddr_bitmap va) pg_cnt in
           if bits_idx_start = - 1 then Inr (NULL, s)
           else bindR (bitmap_set_loop (mem s) (vaddr_bitmap va) bits_idx_start pg_cnt 1 0) (\<lambda>m1.
                  let vaddr_start = Kernel_State.vaddr_start va + bits_idx_start * PG_SIZE in
                  assertR (vaddr_start < 0xc0000000 - PG_SIZE) ''(uint32_t)vaddr_start<(0xc0000000-PG_SIZE)''
                    (Inr (vaddr_start, s\<lparr>mem := m1\<rparr>))))"

definition vaddr_remove :: "kstate \<Rightarrow> pool_flags \<Rightarrow> u32 \<Rightarrow> u32 \<Rightarrow> kstate kres" where
  "vaddr_remove s pf vaddr pg_cnt =
     (let va = vaddr_pool pf s;
          bit_idx_start = (vaddr - Kernel_State.vaddr_start va) div PG_SIZE
      in bindR (bitmap_set_loop (mem s) (vaddr_bitmap va) bit_idx_start pg_cnt 0 0)
           (\<lambda>m1. Inr (s\<lparr>mem := m1\<rparr>)))"

section \<open>Their effect on the bits\<close>

lemma bitmap_set_flag: "v = 0 \<or> v = 1 \<Longrightarrow> bitmap_set m btmp i v = Inr (put_flag m btmp i (v = 1))"
  by (auto simp: bitmap_set_def put_flag_def)

lemma bitmap_set_loop_eq:
  assumes "v = 0 \<or> v = 1" "cnt \<le> pg_cnt"
  shows "bitmap_set_loop m btmp start pg_cnt v cnt =
    Inr (fold (\<lambda>k m. put_flag m btmp (start + of_nat k) (v = 1)) [unat cnt..<unat pg_cnt] m)"
  using assms
proof (induction m btmp start pg_cnt v cnt rule: bitmap_set_loop.induct)
  case (1 m btmp start pg_cnt v cnt)
  show ?case
  proof (cases "cnt < pg_cnt")
    case True
    have le: "cnt + 1 \<le> pg_cnt" using True by (rule inc_le)
    have range: "[unat cnt..<unat pg_cnt] = unat cnt # [unat (cnt + 1)..<unat pg_cnt]"
      using True unat_Suc_u32 [OF True] by (simp add: upt_conv_Cons word_less_nat_alt)
    show ?thesis
      using "1.IH" [OF True "1.prems"(1) le] True "1.prems"(1)
      by (subst bitmap_set_loop.simps) (simp add: bitmap_set_flag range)
  next
    case False
    with "1.prems" have "cnt = pg_cnt" by simp
    then show ?thesis by (subst bitmap_set_loop.simps) simp
  qed
qed

definition set_range :: "bytes \<Rightarrow> bitmap \<Rightarrow> u32 \<Rightarrow> nat \<Rightarrow> bool \<Rightarrow> bytes" where
  "set_range m btmp i n v = fold (\<lambda>k m. put_flag m btmp (i + of_nat k) v) [0..<n] m"

lemma set_loop_range:
  "v = 0 \<or> v = 1 \<Longrightarrow>
    bitmap_set_loop m btmp start pg_cnt v 0 = Inr (set_range m btmp start (unat pg_cnt) (v = 1))"
  using bitmap_set_loop_eq [of v 0 pg_cnt m btmp start] by (simp add: set_range_def)

lemma set_range_test:
  "bitmap_scan_test (set_range m btmp i n v) btmp j = (if j \<in> span i n then v else bitmap_scan_test m btmp j)"
  unfolding set_range_def by (rule bm.put_range)

text \<open>Writing bits below bit \<open>8 * len\<close> touches only the bytes of the map.\<close>

definition map_bytes :: "bitmap \<Rightarrow> u32 set" where
  "map_bytes btmp = {bits btmp + of_nat k | k. k < unat (btmp_bytes_len btmp)}"

lemma put_flag_frame:
  assumes "unat i < 8 * unat (btmp_bytes_len btmp)" "a \<notin> map_bytes btmp"
  shows "put_flag m btmp i v a = m a"
proof -
  have "unat (i div 8) < unat (btmp_bytes_len btmp)" using assms(1) by (simp add: unat_div)
  then have "bits btmp + of_nat (unat (i div 8)) \<in> map_bytes btmp" unfolding map_bytes_def by blast
  then have "a \<noteq> bits btmp + i div 8" using assms(2) by auto
  then show ?thesis by (simp add: put_flag_def bitmap_put_frame)
qed

lemma set_range_frame:
  assumes "unat i + n \<le> 8 * unat (btmp_bytes_len btmp)" "unat i + n < 4294967296" "a \<notin> map_bytes btmp"
  shows "set_range m btmp i n v a = m a"
  using assms
proof (induction n)
  case 0
  then show ?case by (simp add: set_range_def)
next
  case (Suc n)
  have "unat (i + of_nat n) = unat i + n" by (rule unat_add_of_nat_u32) (use Suc.prems in simp)
  then have "put_flag m' btmp (i + of_nat n) v a = m' a" for m'
    using Suc.prems by (intro put_flag_frame) simp_all
  with Suc show ?case by (simp add: set_range_def)
qed

lemma test_frame:
  assumes "unat i < 8 * unat (btmp_bytes_len btmp)" "\<And>a. a \<in> map_bytes btmp \<Longrightarrow> m' a = m a"
  shows "bitmap_scan_test m' btmp i = bitmap_scan_test m btmp i"
proof -
  have "unat (i div 8) < unat (btmp_bytes_len btmp)" using assms(1) by (simp add: unat_div)
  then have "bits btmp + of_nat (unat (i div 8)) \<in> map_bytes btmp" unfolding map_bytes_def by blast
  then show ?thesis using assms(2) by (simp add: bitmap_scan_test_bit)
qed

section \<open>Physical pages\<close>

text \<open>Page number \<open>i\<close> of a pool, and the pages whose bit is clear.\<close>

definition pool_page :: "pool \<Rightarrow> u32 \<Rightarrow> u32" where
  "pool_page p i = phy_addr_start p + i * PG_SIZE"

definition pool_bit :: "kstate \<Rightarrow> pool_flags \<Rightarrow> u32 \<Rightarrow> bool" where
  "pool_bit s pf i = bitmap_scan_test (mem s) (pool_bitmap (pool_of pf s)) i"

definition pools_wf :: "kstate \<Rightarrow> bool" where
  "pools_wf s \<longleftrightarrow>
     unat (phy_addr_start (kernel_pool s)) + unat (btmp_bytes_len (pool_bitmap (kernel_pool s))) * 32768
       \<le> unat (phy_addr_start (user_pool s)) \<and>
     unat (phy_addr_start (user_pool s)) + unat (btmp_bytes_len (pool_bitmap (user_pool s))) * 32768 < 2 ^ 32 \<and>
     map_bytes (pool_bitmap (kernel_pool s)) \<inter> map_bytes (pool_bitmap (user_pool s)) = {}"

lemma pools_wf_no_wrap:
  assumes "pools_wf s" "unat i < 8 * unat (btmp_bytes_len (pool_bitmap (pool_of pf s)))"
  shows "unat (pool_page (pool_of pf s) i) = unat (phy_addr_start (pool_of pf s)) + unat i * 4096"
proof -
  have "unat i * 4096 < unat (btmp_bytes_len (pool_bitmap (pool_of pf s))) * 32768"
    using assms(2) by simp
  then have b: "unat (phy_addr_start (pool_of pf s)) + unat i * 4096 < 4294967296"
    using assms(1) by (cases pf) (auto simp: pools_wf_def pool_of_def)
  then have "unat (i * PG_SIZE) = unat i * 4096" by (simp add: PG_SIZE_def unat_mult_u32)
  with b show ?thesis unfolding pool_page_def by (subst unat_add_u32) simp_all
qed

lemma pool_page_owner:
  assumes "pools_wf s" "unat i < 8 * unat (btmp_bytes_len (pool_bitmap (pool_of pf s)))"
  shows "phy_addr_start (user_pool s) \<le> pool_page (pool_of pf s) i \<longleftrightarrow> pf = PF_USER"
    and "(pool_page (pool_of pf s) i - phy_addr_start (pool_of pf s)) div PG_SIZE = i"
proof -
  note u = pools_wf_no_wrap [OF assms]
  have "unat i * 4096 < unat (btmp_bytes_len (pool_bitmap (pool_of pf s))) * 32768"
    using assms(2) by simp
  then show "phy_addr_start (user_pool s) \<le> pool_page (pool_of pf s) i \<longleftrightarrow> pf = PF_USER"
    using assms(1) u by (cases pf) (auto simp: pools_wf_def pool_of_def word_le_nat_alt)
  have "unat (pool_page (pool_of pf s) i - phy_addr_start (pool_of pf s)) = unat i * 4096"
    using u by (subst unat_diff_u32) (simp_all add: word_le_nat_alt)
  then show "(pool_page (pool_of pf s) i - phy_addr_start (pool_of pf s)) div PG_SIZE = i"
    by (intro u32_eqI) (simp add: unat_div PG_SIZE_def)
qed

lemma palloc_cases:
  "(palloc s pf = Inl (Assert_failed ''idx!=-1'') \<and>
      bitmap_scan (mem s) (pool_bitmap (pool_of pf s)) 1 = - 1) \<or>
   (\<exists>i. palloc s pf = Inr (pool_page (pool_of pf s) i,
        s\<lparr>mem := put_flag (mem s) (pool_bitmap (pool_of pf s)) i True\<rparr>) \<and>
      \<not> pool_bit s pf i \<and> unat i + 1 < unat (btmp_bytes_len (pool_bitmap (pool_of pf s))))"
proof -
  let ?b = "pool_bitmap (pool_of pf s)"
  define i where "i = bitmap_scan (mem s) ?b 1"
  show ?thesis
  proof (cases "i = - 1")
    case True
    then show ?thesis by (simp add: palloc_def i_def [symmetric] Let_def)
  next
    case False
    have law: "unat i + unat (1 :: u32) < unat (btmp_bytes_len ?b)"
      "\<forall>a \<in> span i (unat (1 :: u32)). \<not> bitmap_scan_test (mem s) ?b a"
      using bm.scan_law [OF i_def [symmetric] False] by simp_all
    have "i \<in> span i (unat (1 :: u32))" unfolding span_def by (auto intro!: exI [of _ 0])
    with law(2) have "\<not> pool_bit s pf i" unfolding pool_bit_def by blast
    with law False show ?thesis
      by (intro disjI2 exI [of _ i])
        (simp add: palloc_def i_def [symmetric] Let_def bitmap_set_flag pool_page_def)
  qed
qed

lemma palloc_Inr:
  assumes "palloc s pf = Inr (p, s1)"
  obtains i where "p = pool_page (pool_of pf s) i"
    "s1 = s\<lparr>mem := put_flag (mem s) (pool_bitmap (pool_of pf s)) i True\<rparr>"
    "\<not> pool_bit s pf i" "unat i + 1 < unat (btmp_bytes_len (pool_bitmap (pool_of pf s)))"
  using palloc_cases [of s pf] assms by auto

lemma pool_of_mem [simp]: "pool_of pf (s\<lparr>mem := m\<rparr>) = pool_of pf s"
  by (simp add: pool_of_def)

lemma pools_wf_mem [simp]: "pools_wf (s\<lparr>mem := m\<rparr>) = pools_wf s"
  by (simp add: pools_wf_def)

text \<open>Writing a bit of one pool changes that bit of that pool only.\<close>

lemma pool_bit_put:
  assumes wf: "pools_wf s" and i: "unat i < 8 * unat (btmp_bytes_len (pool_bitmap (pool_of pf s)))"
    and j: "unat j < 8 * unat (btmp_bytes_len (pool_bitmap (pool_of pf' s)))"
  shows "pool_bit (s\<lparr>mem := put_flag (mem s) (pool_bitmap (pool_of pf s)) i v\<rparr>) pf' j =
    (if pf' = pf \<and> j = i then v else pool_bit s pf' j)"
proof (cases "pf' = pf")
  case True
  then show ?thesis using bm.put_law by (simp add: pool_bit_def)
next
  case False
  then have "map_bytes (pool_bitmap (pool_of pf' s)) \<inter> map_bytes (pool_bitmap (pool_of pf s)) = {}"
    using wf by (cases pf; cases pf') (auto simp: pools_wf_def pool_of_def)
  then have "bitmap_scan_test (put_flag (mem s) (pool_bitmap (pool_of pf s)) i v) (pool_bitmap (pool_of pf' s)) j =
      bitmap_scan_test (mem s) (pool_bitmap (pool_of pf' s)) j"
    by (intro test_frame [OF j] put_flag_frame [OF i]) blast
  with False show ?thesis by (simp add: pool_bit_def)
qed

text \<open>pfree finds the pool and the bit of the page palloc handed out.\<close>

lemma pfree_page:
  assumes wf: "pools_wf s" and i: "unat i < 8 * unat (btmp_bytes_len (pool_bitmap (pool_of pf s)))"
  shows "pfree s (pool_page (pool_of pf s) i) =
    Inr (s\<lparr>mem := put_flag (mem s) (pool_bitmap (pool_of pf s)) i False\<rparr>)"
proof -
  have "(if phy_addr_start (user_pool s) \<le> pool_page (pool_of pf s) i then PF_USER else PF_KERNEL) = pf"
    using pool_page_owner(1) [OF wf i] by (cases pf) auto
  then show ?thesis
    using pool_page_owner(2) [OF wf i] by (simp add: pfree_def Let_def bitmap_set_flag)
qed

text \<open>The pages a scan can still find.\<close>

definition free_pages :: "kstate \<Rightarrow> pool_flags \<Rightarrow> u32 set" where
  "free_pages s q = {i. unat i + 1 < unat (btmp_bytes_len (pool_bitmap (pool_of q s))) \<and> \<not> pool_bit s q i}"

lemma palloc_fails:
  assumes "palloc s pf = Inl e"
  shows "e = Assert_failed ''idx!=-1''" "free_pages s pf = {}"
proof -
  have scan: "bitmap_scan (mem s) (pool_bitmap (pool_of pf s)) 1 = - 1"
    and "palloc s pf = Inl (Assert_failed ''idx!=-1'')"
    using palloc_cases [of s pf] assms by auto
  then show "e = Assert_failed ''idx!=-1''" using assms by simp
  have "window_free (mem s) (pool_bitmap (pool_of pf s)) (unat i) 1" if "\<not> pool_bit s pf i" for i
  proof -
    have "k = unat i" if "unat i \<le> k \<and> k < unat i + 1" for k using that by simp
    moreover have "bit_free (mem s) (pool_bitmap (pool_of pf s)) (unat i)"
      using \<open>\<not> pool_bit s pf i\<close> by (simp add: bit_free_def pool_bit_def)
    ultimately show ?thesis unfolding window_free_def by metis
  qed
  moreover have "\<not> window_free (mem s) (pool_bitmap (pool_of pf s)) k 1"
    if "k + 1 < unat (btmp_bytes_len (pool_bitmap (pool_of pf s)))" for k
    using bitmap_scan_cases [of "mem s" "pool_bitmap (pool_of pf s)" 1] scan that by simp
  ultimately show "free_pages s pf = {}" unfolding free_pages_def by blast
qed

section \<open>Properties\<close>

text \<open>
  palloc takes a page whose bit was clear and sets exactly that bit of exactly that pool. It fails,
  by the assertion before the check for -1, exactly when no page the scan can see is free.
\<close>

theorem palloc_takes_one_page:
  assumes "pools_wf s"
  shows "if free_pages s pf = {} then palloc s pf = Inl (Assert_failed ''idx!=-1'')
    else \<exists>i \<in> free_pages s pf. \<exists>s1. palloc s pf = Inr (pool_page (pool_of pf s) i, s1) \<and>
      (\<forall>pf' j. unat j < 8 * unat (btmp_bytes_len (pool_bitmap (pool_of pf' s))) \<longrightarrow>
        pool_bit s1 pf' j = (pf' = pf \<and> j = i \<or> pool_bit s pf' j))"
proof (cases "palloc s pf")
  case (Inl e)
  then show ?thesis using palloc_fails by simp
next
  case (Inr r)
  obtain p s1 where r: "r = (p, s1)" by (cases r)
  obtain i where i: "p = pool_page (pool_of pf s) i"
    "s1 = s\<lparr>mem := put_flag (mem s) (pool_bitmap (pool_of pf s)) i True\<rparr>" "\<not> pool_bit s pf i"
    "unat i + 1 < unat (btmp_bytes_len (pool_bitmap (pool_of pf s)))"
    using palloc_Inr [of s pf p s1] Inr r by metis
  have "unat i < 8 * unat (btmp_bytes_len (pool_bitmap (pool_of pf s)))" using i(4) by simp
  note bit = pool_bit_put [OF assms this]
  have mem: "i \<in> free_pages s pf" using i(3,4) by (simp add: free_pages_def)
  then have "free_pages s pf \<noteq> {}" by blast
  moreover have "\<exists>s1. palloc s pf = Inr (pool_page (pool_of pf s) i, s1) \<and>
      (\<forall>pf' j. unat j < 8 * unat (btmp_bytes_len (pool_bitmap (pool_of pf' s))) \<longrightarrow>
        pool_bit s1 pf' j = (pf' = pf \<and> j = i \<or> pool_bit s pf' j))"
    unfolding Inr r i(1,2)
    by (intro exI conjI allI impI refl) (use bit in \<open>auto split: if_splits\<close>)
  ultimately show ?thesis using mem by auto
qed

definition demo_pools :: kstate where
  "demo_pools = demo_state\<lparr>kernel_pool := \<lparr>pool_bitmap = \<lparr>btmp_bytes_len = 8, bits = 0xc009a000\<rparr>,
       phy_addr_start = 0x200000, pool_size = 0x40000\<rparr>,
     user_pool := \<lparr>pool_bitmap = \<lparr>btmp_bytes_len = 8, bits = 0xc009a008\<rparr>,
       phy_addr_start = 0x240000, pool_size = 0x40000\<rparr>\<rparr>"

lemma demo_pools_wf: "pools_wf demo_pools"
proof -
  have "\<not> (0xc009a000 + of_nat k = (0xc009a008 + of_nat l :: u32))" if "k < 8" "l < 8" for k l :: nat
  proof
    assume "0xc009a000 + of_nat k = (0xc009a008 + of_nat l :: u32)"
    then have "unat (0xc009a000 + of_nat k :: u32) = unat (0xc009a008 + of_nat l :: u32)" by (rule arg_cong)
    then show False using that by (subst (asm) (1 2) unat_add_of_nat_u32) simp_all
  qed
  then show ?thesis by (auto simp: pools_wf_def demo_pools_def map_bytes_def)
qed

lemma demo_free_page: "0 \<in> free_pages demo_pools PF_USER"
  by (simp add: free_pages_def demo_pools_def pool_of_def pool_bit_def bitmap_scan_test_def demo_state_def Let_def)

lemma palloc_takes_one_page_witness:
  "\<exists>i \<in> free_pages demo_pools PF_USER. \<exists>s1.
    palloc demo_pools PF_USER = Inr (pool_page (pool_of PF_USER demo_pools) i, s1) \<and> pool_bit s1 PF_USER i"
proof -
  have "free_pages demo_pools PF_USER \<noteq> {}" using demo_free_page by blast
  then obtain i s1 where i: "i \<in> free_pages demo_pools PF_USER"
    "palloc demo_pools PF_USER = Inr (pool_page (pool_of PF_USER demo_pools) i, s1)"
    "\<forall>pf' j. unat j < 8 * unat (btmp_bytes_len (pool_bitmap (pool_of pf' demo_pools))) \<longrightarrow>
        pool_bit s1 pf' j = (pf' = PF_USER \<and> j = i \<or> pool_bit demo_pools pf' j)"
    using palloc_takes_one_page [OF demo_pools_wf, of PF_USER] by auto
  have "unat i < 8 * unat (btmp_bytes_len (pool_bitmap (pool_of PF_USER demo_pools)))"
    using i(1) by (simp add: free_pages_def)
  then have "pool_bit s1 PF_USER i" using i(3) by blast
  then show ?thesis using i(1,2) by blast
qed

text \<open>
  pfree undoes palloc: giving back the page palloc has just handed out succeeds, finds the
  right pool by the page's address, and leaves every bit of both pools as it was before.
\<close>

theorem pfree_palloc:
  assumes "pools_wf s" "palloc s pf = Inr (p, s1)"
  shows "\<exists>s2. pfree s1 p = Inr s2 \<and>
    (\<forall>pf' j. unat j < 8 * unat (btmp_bytes_len (pool_bitmap (pool_of pf' s))) \<longrightarrow>
      pool_bit s2 pf' j = pool_bit s pf' j)"
proof -
  obtain i where i: "p = pool_page (pool_of pf s) i"
    "s1 = s\<lparr>mem := put_flag (mem s) (pool_bitmap (pool_of pf s)) i True\<rparr>" "\<not> pool_bit s pf i"
    "unat i + 1 < unat (btmp_bytes_len (pool_bitmap (pool_of pf s)))"
    using palloc_Inr [OF assms(2)] by metis
  have lt: "unat i < 8 * unat (btmp_bytes_len (pool_bitmap (pool_of pf s)))" using i(4) by simp
  have wf1: "pools_wf s1" and lt1: "unat i < 8 * unat (btmp_bytes_len (pool_bitmap (pool_of pf s1)))"
    and p1: "p = pool_page (pool_of pf s1) i" using assms(1) lt i by simp_all
  show ?thesis
    unfolding p1 pfree_page [OF wf1 lt1]
    using pool_bit_put [OF wf1 lt1] pool_bit_put [OF assms(1) lt] i(2,3) by auto
qed

lemma demo_palloc:
  "palloc demo_pools PF_USER =
    Inr (0x240000, demo_pools\<lparr>mem := put_flag (mem demo_pools) (pool_bitmap (user_pool demo_pools)) 0 True\<rparr>)"
proof -
  have "bitmap_scan (mem demo_pools) (pool_bitmap (user_pool demo_pools)) 1 = 0"
    by (simp add: bitmap_scan_def scan_count.simps scan_slide.simps bitmap_scan_test_def
        demo_pools_def demo_state_def Let_def)
  then show ?thesis
    by (simp add: palloc_def pool_of_def Let_def bitmap_set_flag) (simp add: demo_pools_def)
qed

lemma pfree_palloc_witness:
  "\<exists>s1 s2. palloc demo_pools PF_USER = Inr (0x240000, s1) \<and> pfree s1 0x240000 = Inr s2 \<and>
    (\<forall>pf' j. unat j < 8 * unat (btmp_bytes_len (pool_bitmap (pool_of pf' demo_pools))) \<longrightarrow>
      pool_bit s2 pf' j = pool_bit demo_pools pf' j)"
  using pfree_palloc [OF demo_pools_wf demo_palloc] demo_palloc by blast

end
