(* ===== verification/Page_Map.thy ===== *)
theory Page_Map
  imports Paging Mem_Pool
begin

text \<open>
  Mapping and unmapping one page (page_table_add and page_table_pte_remove of kernel/memory.c).
  Their loads and stores go through the page tables they change. \<open>pt_wf\<close> says that the tables form
  a tree: the recursive slot is in place and no two directory entries share a table, but for entry 0,
  which boot/loader.S sets to the table of entry 768. Under it the
  operations update the address space, read as the partial function of the page walk, at one page.
\<close>

section \<open>memset on kernel addresses\<close>

text \<open>
  memset writes zeros word by word through the page tables; the typed objects that live in the
  range are zero afterwards as well.
\<close>

definition in_range :: "u32 \<Rightarrow> u32 \<Rightarrow> nat \<Rightarrow> bool" where
  "in_range a va n \<longleftrightarrow> unat (a - va) < n"

fun zero_words :: "kstate \<Rightarrow> u32 \<Rightarrow> nat \<Rightarrow> kstate kres" where
  "zero_words s va 0 = Inr s"
| "zero_words s va (Suc n) = bindR (store32 s va 0) (\<lambda>s1. zero_words s1 (va + 4) n)"

definition wipe :: "u32 \<Rightarrow> nat \<Rightarrow> 'x \<Rightarrow> (u32 \<Rightarrow> 'x) \<Rightarrow> u32 \<Rightarrow> 'x" where
  "wipe va n z f a = (if in_range a va n then z else f a)"

definition clear_typed :: "kstate \<Rightarrow> u32 \<Rightarrow> nat \<Rightarrow> kstate" where
  "clear_typed s va n = s\<lparr>
     mem := wipe va n 0 (mem s),
     lheap := wipe va n \<lparr>prev_ptr = 0, next_ptr = 0\<rparr> (lheap s),
     arenas := wipe va n \<lparr>arena_desc = 0, arena_cnt = 0, arena_large = False\<rparr> (arenas s)\<rparr>"

lemma clear_typed_phys: "clear_typed (s\<lparr>phys := m\<rparr>) va n = (clear_typed s va n)\<lparr>phys := m\<rparr>"
  by (cases s) (simp add: clear_typed_def)

definition kmemset0 :: "kstate \<Rightarrow> u32 \<Rightarrow> u32 \<Rightarrow> kstate kres" where
  "kmemset0 s va n = assertR (va \<noteq> NULL) ''dst_ != NULL''
     (bindR (zero_words s va (unat n div 4)) (\<lambda>s1. Inr (clear_typed s1 va (unat n))))"

section \<open>Mapping and unmapping\<close>

definition PG_P_1 :: u32 where "PG_P_1 = 1"
definition PG_RW_W :: u32 where "PG_RW_W = 2"
definition PG_US_U :: u32 where "PG_US_U = 4"

definition page_table_add :: "kstate \<Rightarrow> u32 \<Rightarrow> u32 \<Rightarrow> kstate kres" where
  "page_table_add s vaddr page_phyaddr =
     (let pde = pde_ptr vaddr; pte = pte_ptr vaddr in
      bindR (load32 s pde) (\<lambda>pde_v.
        if pde_v AND 0x00000001 \<noteq> 0
        then bindR (load32 s pte) (\<lambda>pte_v.
               if \<not> (pte_v AND 0x00000001 \<noteq> 0)
               then store32 s pte (page_phyaddr OR PG_US_U OR PG_RW_W OR PG_P_1)
               else Inl (Panicked ''PTE REPEAT''))
        else bindR (palloc s PF_KERNEL) (\<lambda>(pde_phyaddr, s1).
               bindR (store32 s1 pde (pde_phyaddr OR PG_US_U OR PG_RW_W OR PG_P_1)) (\<lambda>s2.
                 let addr = pte AND 0xfffff000 in
                 assertR (addr \<noteq> NULL) ''addr!=NULL''
                   (bindR (kmemset0 s2 addr PG_SIZE) (\<lambda>s3.
                      bindR (load32 s3 pte) (\<lambda>pte_v.
                        assertR (\<not> (pte_v AND 0x00000001 \<noteq> 0)) ''!(*pte&0x00000001)''
                          (store32 s3 pte (page_phyaddr OR PG_US_U OR PG_RW_W OR PG_P_1)))))))))"

definition page_table_pte_remove :: "kstate \<Rightarrow> u32 \<Rightarrow> kstate kres" where
  "page_table_pte_remove s vaddr =
     (let pte = pte_ptr vaddr
      in bindR (load32 s pte) (\<lambda>pte_v. store32 s pte (pte_v AND NOT PG_P_1)))"

section \<open>Words of a page\<close>

lemma unat_frame_word:
  assumes "unat i < 1024"
  shows "unat (page_frame f + i * 4) = unat f div 4096 * 4096 + unat i * 4"
proof -
  have "unat f div 4096 < 1048576" using unat_u32_bound [of f] by (intro less_mult_imp_div_less) simp
  then have "unat f div 4096 * 4096 + unat i * 4 < 4294967296" using assms by linarith
  then show ?thesis using assms
    by (subst unat_add_u32) (simp_all add: unat_page_frame unat_mult_u32)
qed

lemma cell_inject:
  fixes a b i j :: nat
  assumes "a * 4096 + i * 4 = b * 4096 + j * 4" "i < 1024" "j < 1024"
  shows "a = b" "i = j"
proof -
  have "(i * 4 + a * 4096) div 4096 = a" "(j * 4 + b * 4096) div 4096 = b" using assms(2,3) by simp_all
  then show "a = b" using assms(1) by (metis add.commute)
  then show "i = j" using assms(1) by simp
qed

lemma frame_word_inject:
  assumes "unat i < 1024" "unat j < 1024"
  shows "page_frame f + i * 4 = page_frame g + j * 4 \<longleftrightarrow> page_frame f = page_frame g \<and> i = j"
proof
  assume eq: "page_frame f + i * 4 = page_frame g + j * 4"
  have "unat f div 4096 * 4096 + unat i * 4 = unat g div 4096 * 4096 + unat j * 4"
    using unat_frame_word [OF assms(1), of f] unat_frame_word [OF assms(2), of g] eq by simp
  from cell_inject [OF this assms] show "page_frame f = page_frame g \<and> i = j"
    by (intro conjI u32_eqI) (simp_all add: unat_page_frame)
qed simp

lemma idx_lt [simp]: "unat (PDE_IDX v) < 1024" "unat (PTE_IDX v) < 1024"
  using idx_bounds [of v] by (simp_all add: unat_PDE_IDX unat_PTE_IDX)

lemma frame_word_frame: "unat i < 1024 \<Longrightarrow> page_frame (page_frame f + i * 4) = page_frame f"
  by (rule u32_eqI) (simp add: unat_page_frame unat_frame_word)

lemma page_frame_add_offset: "page_frame v + page_offset v = v"
proof (rule u32_eqI)
  have "unat (page_frame v) + unat (page_offset v) = unat v"
    by (simp add: unat_page_frame unat_page_offset)
  then show "unat (page_frame v + page_offset v) = unat v"
    using unat_u32_bound [of v] by (subst unat_add_u32) simp_all
qed

lemma page_frame_idx: "page_frame v = page_frame w \<longleftrightarrow> PDE_IDX v = PDE_IDX w \<and> PTE_IDX v = PTE_IDX w"
proof
  assume "page_frame v = page_frame w"
  then have "unat v div 4096 = unat w div 4096" using unat_page_frame [of v] unat_page_frame [of w] by simp
  moreover have "unat v div 4194304 = unat v div 4096 div 1024" for v :: u32
    by (simp add: div_mult2_eq [symmetric])
  ultimately show "PDE_IDX v = PDE_IDX w \<and> PTE_IDX v = PTE_IDX w"
    by (intro conjI u32_eqI) (simp_all add: unat_PDE_IDX unat_PTE_IDX)
next
  assume eq: "PDE_IDX v = PDE_IDX w \<and> PTE_IDX v = PTE_IDX w"
  have split: "unat v div 4096 = unat (PDE_IDX v) * 1024 + unat (PTE_IDX v)" for v :: u32
  proof -
    have "unat v div 4194304 = unat v div 4096 div 1024" by (simp add: div_mult2_eq [symmetric])
    then show ?thesis unfolding unat_PDE_IDX unat_PTE_IDX by simp
  qed
  have "unat v div 4096 = unat w div 4096" using eq split [of v] split [of w] by simp
  then show "page_frame v = page_frame w" by (intro u32_eqI) (simp add: unat_page_frame)
qed

section \<open>Well-formed page tables\<close>

text \<open>
  Two directory entries are special: the last one is the recursive slot, and entry 0, with which
  boot/loader.S gives the table of entry 768 a second place, for the addresses below 4 MB. No
  pool hands out addresses of either; the others have a table of their own.
\<close>

definition own_pde :: "u32 \<Rightarrow> bool" where
  "own_pde v \<longleftrightarrow> PDE_IDX v \<noteq> 0 \<and> PDE_IDX v \<noteq> 1023"

definition pt_wf :: "(u32 \<Rightarrow> u32) \<Rightarrow> u32 \<Rightarrow> bool" where
  "pt_wf m dir \<longleftrightarrow> rec_slot m dir \<and>
     (\<forall>v w. PDE_IDX v \<noteq> 0 \<longrightarrow> PDE_IDX w \<noteq> 0 \<longrightarrow> present (m (pde_addr dir v)) \<longrightarrow> present (m (pde_addr dir w)) \<longrightarrow>
        page_frame (m (pde_addr dir v)) = page_frame (m (pde_addr dir w)) \<longrightarrow> PDE_IDX v = PDE_IDX w)"

text \<open>The last directory entry, as the entry of the last address.\<close>

lemma pde_addr_last: "pde_addr dir 0xffffffff = page_frame dir + 4092"
  by (simp add: pde_addr_def PDE_IDX_def)

lemma PDE_IDX_last: "PDE_IDX 0xffffffff = 1023"
  by (simp add: PDE_IDX_def)

lemma pde_addr_inject: "pde_addr dir v = pde_addr dir w \<longleftrightarrow> PDE_IDX v = PDE_IDX w"
  unfolding pde_addr_def by (subst frame_word_inject) simp_all

lemma table_not_dir:
  assumes "pt_wf m dir" "present (m (pde_addr dir v))" "own_pde v"
  shows "page_frame (m (pde_addr dir v)) \<noteq> page_frame dir"
proof
  assume eq: "page_frame (m (pde_addr dir v)) = page_frame dir"
  have "present (m (pde_addr dir 0xffffffff)) \<and> page_frame (m (pde_addr dir 0xffffffff)) = page_frame dir"
    using assms(1) by (simp add: pt_wf_def rec_slot_def Let_def pde_addr_last)
  moreover have "PDE_IDX v \<noteq> 0" "PDE_IDX 0xffffffff \<noteq> 0" using assms(3) by (simp_all add: own_pde_def PDE_IDX_last)
  ultimately have "PDE_IDX v = PDE_IDX 0xffffffff" using assms(1,2) eq unfolding pt_wf_def by metis
  with assms(3) show False by (simp add: own_pde_def PDE_IDX_last)
qed

lemma pte_addr_not_pde:
  assumes "pt_wf m dir" "present (m (pde_addr dir v))" "own_pde v"
  shows "pte_addr (m (pde_addr dir v)) v \<noteq> pde_addr dir w"
  unfolding pte_addr_def pde_addr_def [of dir w]
  using table_not_dir [OF assms] by (simp add: frame_word_inject)

lemma pte_addr_inject:
  assumes "pt_wf m dir" "present (m (pde_addr dir v))" "present (m (pde_addr dir w))" "own_pde v" "own_pde w"
  shows "pte_addr (m (pde_addr dir v)) v = pte_addr (m (pde_addr dir w)) w \<longleftrightarrow> page_frame v = page_frame w"
proof -
  have "pte_addr (m (pde_addr dir v)) v = pte_addr (m (pde_addr dir w)) w \<longleftrightarrow>
      page_frame (m (pde_addr dir v)) = page_frame (m (pde_addr dir w)) \<and> PTE_IDX v = PTE_IDX w"
    unfolding pte_addr_def by (subst frame_word_inject) simp_all
  also have "page_frame (m (pde_addr dir v)) = page_frame (m (pde_addr dir w)) \<longleftrightarrow> PDE_IDX v = PDE_IDX w"
  proof
    assume "page_frame (m (pde_addr dir v)) = page_frame (m (pde_addr dir w))"
    then show "PDE_IDX v = PDE_IDX w" using assms unfolding pt_wf_def own_pde_def by blast
  qed (simp add: pde_addr_def)
  finally show ?thesis by (simp add: page_frame_idx)
qed

section \<open>Writing one table entry\<close>

text \<open>The state of the address space after the entry of \<open>v\<close> in a present table is set to \<open>e\<close>.\<close>

lemma write_pte_wf:
  fixes e
  assumes wf: "pt_wf m dir" and P: "present (m (pde_addr dir v))" and i: "own_pde v"
  defines "m' \<equiv> m(pte_addr (m (pde_addr dir v)) v := e)"
  shows "pt_wf m' dir" "m' (pde_addr dir w) = m (pde_addr dir w)"
proof -
  show dirs: "m' (pde_addr dir w) = m (pde_addr dir w)" for w
    unfolding m'_def using pte_addr_not_pde [OF wf P i, of w] by simp
  have "rec_slot m' dir"
    using wf dirs [of "0xffffffff"] by (simp add: pt_wf_def rec_slot_def Let_def pde_addr_last)
  then show "pt_wf m' dir" using wf unfolding pt_wf_def dirs by blast
qed

lemma write_pte_walk:
  assumes wf: "pt_wf m dir" and P: "present (m (pde_addr dir v))" and i: "own_pde v" and w: "own_pde w"
  shows "mmu_walk (m(pte_addr (m (pde_addr dir v)) v := e)) dir w =
    (if page_frame w = page_frame v
     then if present e then Some (page_frame e + page_offset w) else None
     else mmu_walk m dir w)"
proof -
  let ?m' = "m(pte_addr (m (pde_addr dir v)) v := e)"
  note dirs = write_pte_wf(2) [OF wf P i, of e]
  show ?thesis
  proof (cases "page_frame w = page_frame v")
    case True
    then have idx: "PDE_IDX w = PDE_IDX v" "PTE_IDX w = PTE_IDX v" by (simp_all add: page_frame_idx)
    then have same: "pde_addr dir w = pde_addr dir v" "\<And>x. pte_addr x w = pte_addr x v"
      by (simp_all add: pde_addr_def pte_addr_def)
    have "?m' (pte_addr (m (pde_addr dir v)) v) = e" by simp
    then show ?thesis
      using True P dirs [of v] unfolding mmu_walk_def same Let_def by simp
  next
    case False
    have "?m' (pte_addr (m (pde_addr dir w)) w) = m (pte_addr (m (pde_addr dir w)) w)"
      if "present (m (pde_addr dir w))"
      using pte_addr_inject [OF wf P that i w] False by auto
    then show ?thesis using False dirs [of w] unfolding mmu_walk_def Let_def by simp
  qed
qed

section \<open>A new table\<close>

definition zero_frame :: "u32 \<Rightarrow> (u32 \<Rightarrow> u32) \<Rightarrow> u32 \<Rightarrow> u32" where
  "zero_frame f m a = (if \<exists>i. unat i < 1024 \<and> a = page_frame f + i * 4 then 0 else m a)"

lemma zero_frame_word:
  "unat i < 1024 \<Longrightarrow> zero_frame f m (page_frame g + i * 4) =
    (if page_frame g = page_frame f then 0 else m (page_frame g + i * 4))"
  unfolding zero_frame_def using frame_word_inject [of i _ g f] by auto

lemma zero_frame_pde: "page_frame f \<noteq> page_frame dir \<Longrightarrow> zero_frame f m (pde_addr dir w) = m (pde_addr dir w)"
  by (simp add: pde_addr_def zero_frame_word)

lemma zero_frame_pte:
  "zero_frame f m (pte_addr e w) = (if page_frame e = page_frame f then 0 else m (pte_addr e w))"
  by (simp add: pte_addr_def zero_frame_word)

definition fresh_table :: "(u32 \<Rightarrow> u32) \<Rightarrow> u32 \<Rightarrow> u32 \<Rightarrow> bool" where
  "fresh_table m dir f \<longleftrightarrow> page_frame f = f \<and> f \<noteq> page_frame dir \<and>
     (\<forall>w. present (m (pde_addr dir w)) \<longrightarrow> page_frame (m (pde_addr dir w)) \<noteq> f)"

lemma new_table_wf:
  assumes wf: "pt_wf m dir" and i: "own_pde v" and fresh: "fresh_table m dir f"
    and e: "page_frame e = f"
  defines "m3 \<equiv> zero_frame f (m(pde_addr dir v := e))"
  shows "pt_wf m3 dir"
    and "m3 (pde_addr dir w) = (if PDE_IDX w = PDE_IDX v then e else m (pde_addr dir w))"
proof -
  have fd: "page_frame f \<noteq> page_frame dir" using fresh by (simp add: fresh_table_def)
  show dirs: "m3 (pde_addr dir w) = (if PDE_IDX w = PDE_IDX v then e else m (pde_addr dir w))" for w
    by (simp add: m3_def zero_frame_pde [OF fd] pde_addr_inject)
  have "rec_slot m3 dir"
    using wf i dirs [of "0xffffffff"]
    by (simp add: pt_wf_def rec_slot_def Let_def pde_addr_last PDE_IDX_last own_pde_def)
  then show "pt_wf m3 dir"
    unfolding pt_wf_def
  proof (intro conjI allI impI)
    fix a b
    assume n0: "PDE_IDX a \<noteq> 0" "PDE_IDX b \<noteq> 0" and P: "present (m3 (pde_addr dir a))" "present (m3 (pde_addr dir b))"
      and eq: "page_frame (m3 (pde_addr dir a)) = page_frame (m3 (pde_addr dir b))"
    have new: "page_frame (m (pde_addr dir w)) \<noteq> f" if "present (m (pde_addr dir w))" for w
      using fresh that by (simp add: fresh_table_def)
    have old: "PDE_IDX a = PDE_IDX b" if "present (m (pde_addr dir a))" "present (m (pde_addr dir b))"
      "page_frame (m (pde_addr dir a)) = page_frame (m (pde_addr dir b))"
      using wf that n0 unfolding pt_wf_def by blast
    show "PDE_IDX a = PDE_IDX b"
      using P eq new [of a] new [of b] old e
      by (cases "PDE_IDX a = PDE_IDX v"; cases "PDE_IDX b = PDE_IDX v"; simp add: dirs)
  qed
qed

lemma new_table_walk:
  assumes wf: "pt_wf m dir" and i: "own_pde v" and fresh: "fresh_table m dir f"
    and e: "page_frame e = f" and absent: "\<not> present (m (pde_addr dir v))" and w: "own_pde w"
  shows "mmu_walk (zero_frame f (m(pde_addr dir v := e))) dir w = mmu_walk m dir w"
proof -
  let ?m3 = "zero_frame f (m(pde_addr dir v := e))"
  note dirs = new_table_wf(2) [OF wf i fresh e]
  have pf: "page_frame f = f" using fresh by (simp add: fresh_table_def)
  show ?thesis
  proof (cases "PDE_IDX w = PDE_IDX v")
    case True
    then have same: "pde_addr dir w = pde_addr dir v" by (simp add: pde_addr_def)
    have "?m3 (pte_addr e w) = 0" by (simp add: zero_frame_pte e pf)
    then show ?thesis
      using absent dirs [of w] True unfolding mmu_walk_def same Let_def by (simp add: present_def)
  next
    case False
    have "?m3 (pte_addr (m (pde_addr dir w)) w) = m (pte_addr (m (pde_addr dir w)) w)"
      if P: "present (m (pde_addr dir w))"
    proof -
      have "page_frame (m (pde_addr dir w)) \<noteq> f" using fresh P by (simp add: fresh_table_def)
      moreover have "pte_addr (m (pde_addr dir w)) w \<noteq> pde_addr dir v" by (rule pte_addr_not_pde [OF wf P w])
      ultimately show ?thesis by (simp add: zero_frame_pte pf)
    qed
    then show ?thesis using False dirs [of w] unfolding mmu_walk_def Let_def by simp
  qed
qed

section \<open>The zeroing of a new table through the window\<close>

text \<open>The address whose table entry is number \<open>k\<close> of the table of \<open>v\<close>.\<close>

definition table_va :: "u32 \<Rightarrow> nat \<Rightarrow> u32" where
  "table_va v k = of_nat (unat v div 4194304 * 4194304 + k * 4096)"

lemma table_va_idx:
  assumes "k < 1024"
  shows "PDE_IDX (table_va v k) = PDE_IDX v" "unat (PTE_IDX (table_va v k)) = k"
proof -
  let ?d = "unat v div 4194304"
  have "?d < 1024" by (rule idx_bounds)
  then have lt: "?d * 4194304 + k * 4096 < 4294967296" using assms by linarith
  then have u: "unat (table_va v k) = k * 4096 + ?d * 4194304"
    unfolding table_va_def by (subst unat_of_nat) simp
  have "(k * 4096 + ?d * 4194304) div 4194304 = ?d" using assms by simp
  then show "PDE_IDX (table_va v k) = PDE_IDX v" by (intro u32_eqI) (simp add: unat_PDE_IDX u)
  have "k * 4096 + ?d * 4194304 = (k + ?d * 1024) * 4096" by simp
  then have "(k * 4096 + ?d * 4194304) div 4096 = k + ?d * 1024" by simp
  then show "unat (PTE_IDX (table_va v k)) = k" using assms by (simp add: unat_PTE_IDX u)
qed

lemma pte_ptr_table_va:
  assumes "Suc k < 1024"
  shows "pte_ptr (table_va v (Suc k)) = pte_ptr (table_va v k) + 4"
proof (rule u32_eqI)
  have "unat (pte_ptr (table_va v j)) = 0xffc00000 + unat v div 4194304 * 4096 + j * 4" if "j < 1024" for j
    using table_va_idx [OF that, of v] unfolding unat_pte_ptr unat_PDE_IDX [symmetric] unat_PTE_IDX [symmetric]
    by simp
  then show "unat (pte_ptr (table_va v (Suc k))) = unat (pte_ptr (table_va v k) + 4)"
    using assms idx_bounds(1) [of v] by (subst unat_add_u32) simp_all
qed

lemma pte_ptr_page: "pte_ptr v AND 0xfffff000 = pte_ptr (table_va v 0)"
proof -
  have "page_frame (pte_ptr v) = pte_ptr (table_va v 0)"
  proof (rule u32_eqI)
    let ?d = "unat v div 4194304" and ?p = "unat v div 4096 mod 1024"
    have e1: "0xffc00000 + ?d * 4096 + ?p * 4 = ?p * 4 + (1047552 + ?d) * 4096" by simp
    have e2: "(?p * 4 + (1047552 + ?d) * 4096) div 4096 = 1047552 + ?d"
      using idx_bounds(2) [of v] by (subst div_mult_self1) simp_all
    have "unat (page_frame (pte_ptr v)) = (1047552 + ?d) * 4096"
      unfolding unat_page_frame unat_pte_ptr e1 e2 by (rule refl)
    moreover have "unat (pte_ptr (table_va v 0)) = 0xffc00000 + ?d * 4096"
      using table_va_idx [of 0 v] unfolding unat_pte_ptr unat_PDE_IDX [symmetric] unat_PTE_IDX [symmetric]
      by simp
    ultimately show "unat (page_frame (pte_ptr v)) = unat (pte_ptr (table_va v 0))" by simp
  qed
  then show ?thesis by (simp add: page_frame_def)
qed

lemma store32_phys: "store32 s a v = Inr s1 \<Longrightarrow> \<exists>m. s1 = s\<lparr>phys := m\<rparr>"
  by (auto simp: store32_def split: option.splits)

definition table_words :: "u32 \<Rightarrow> nat \<Rightarrow> nat \<Rightarrow> u32 set" where
  "table_words f j n = (\<lambda>k. page_frame f + of_nat k * 4) ` {j..<j + n}"

lemma table_words_0 [simp]: "table_words f j 0 = {}"
  by (simp add: table_words_def)

lemma table_words_Suc:
  "table_words f j (Suc n) = insert (page_frame f + of_nat j * 4) (table_words f (Suc j) n)"
proof -
  have "{j..<j + Suc n} = insert j {Suc j..<Suc j + n}" by auto
  then show ?thesis by (simp only: table_words_def image_insert)
qed

lemma zero_words_table:
  assumes "rec_slot (phys s) (cr3 s)" and P: "present (phys s (pde_addr (cr3 s) v))"
    and f: "page_frame (phys s (pde_addr (cr3 s) v)) = page_frame f" "page_frame f \<noteq> page_frame (cr3 s)"
    and "j + n \<le> 1024" "0 < n"
  shows "zero_words s (pte_ptr (table_va v j)) n = 
    Inr (s\<lparr>phys := \<lambda>a. if a \<in> table_words f j n then 0 else phys s a\<rparr>)"
  using assms
proof (induction n arbitrary: j s)
  case 0
  then show ?case by simp
next
  case (Suc n)
  let ?dir = "cr3 s" and ?v = "table_va v j"
  have j: "j < 1024" using Suc.prems(5) by simp
  have dv: "pde_addr ?dir ?v = pde_addr ?dir v" by (simp add: pde_addr_def table_va_idx [OF j])
  have "PTE_IDX ?v = of_nat j" 
    using table_va_idx(2) [OF j, of v] j by (intro u32_eqI) (simp add: unat_of_nat)
  then have pv: "pte_addr (phys s (pde_addr ?dir v)) ?v = page_frame f + of_nat j * 4"
    by (simp add: pte_addr_def Suc.prems(3))
  let ?s1 = "s\<lparr>phys := (phys s)(page_frame f + of_nat j * 4 := 0)\<rparr>"
  have step: "store32 s (pte_ptr ?v) 0 = Inr ?s1"
    using store32_pte_ptr [OF Suc.prems(1), of ?v] Suc.prems(2) by (simp add: dv pv)
  have ju: "unat (of_nat j :: u32) < 1024" using j by (simp add: unat_of_nat)
  have keep: "phys ?s1 (pde_addr ?dir w) = phys s (pde_addr ?dir w)" for w
    using Suc.prems(4) frame_word_inject [OF ju idx_lt(1) [of w], of f ?dir] by (simp add: pde_addr_def)
  have rec1: "rec_slot (phys ?s1) (cr3 ?s1)"
    using Suc.prems(1) keep [of "0xffffffff"] by (simp add: rec_slot_def Let_def pde_addr_last)
  show ?case
  proof (cases "n = 0")
    case True
    have "(\<lambda>a. if a \<in> table_words f j (Suc 0) then 0 else phys s a) =
        (phys s)(page_frame f + of_nat j * 4 := 0)"
      by (simp add: table_words_Suc fun_eq_iff)
    with True step show ?thesis by simp
  next
    case False
    have next_va: "pte_ptr ?v + 4 = pte_ptr (table_va v (Suc j))"
      using pte_ptr_table_va [of j v] Suc.prems(5) False by simp
    have "zero_words ?s1 (pte_ptr (table_va v (Suc j))) n = 
        Inr (?s1\<lparr>phys := \<lambda>a. if a \<in> table_words f (Suc j) n then 0 else phys ?s1 a\<rparr>)"
    proof (rule Suc.IH [OF rec1])
      have same: "phys ?s1 (pde_addr (cr3 ?s1) v) = phys s (pde_addr ?dir v)" using keep [of v] by simp
      show "present (phys ?s1 (pde_addr (cr3 ?s1) v))"
        "page_frame (phys ?s1 (pde_addr (cr3 ?s1) v)) = page_frame f"
        unfolding same by (rule Suc.prems(2), rule Suc.prems(3))
    qed (use Suc.prems(4,5) False in simp_all)
    moreover have "(\<lambda>a. if a \<in> table_words f (Suc j) n then 0 else phys ?s1 a) =
        (\<lambda>a. if a \<in> table_words f j (Suc n) then 0 else phys s a)"
      by (simp add: table_words_Suc fun_eq_iff)
    ultimately show ?thesis by (simp add: step next_va)
  qed
qed

lemma zero_words_new_table:
  assumes "rec_slot (phys s) (cr3 s)" and P: "present (phys s (pde_addr (cr3 s) v))"
    and f: "page_frame (phys s (pde_addr (cr3 s) v)) = page_frame f" "page_frame f \<noteq> page_frame (cr3 s)"
  shows "zero_words s (pte_ptr (table_va v 0)) 1024 = Inr (s\<lparr>phys := zero_frame f (phys s)\<rparr>)"
proof -
  have "a \<in> table_words f 0 1024 \<longleftrightarrow> (\<exists>i. unat i < 1024 \<and> a = page_frame f + i * 4)"
    for a :: u32
  proof
    assume "a \<in> table_words f 0 1024"
    then obtain k where k: "k < 1024" "a = page_frame f + of_nat k * 4" by (auto simp: table_words_def)
    have "unat (of_nat k :: u32) < 1024" using k(1) by (simp add: unat_of_nat)
    with k(2) show "\<exists>i. unat i < 1024 \<and> a = page_frame f + i * 4" by blast
  next
    assume "\<exists>i. unat i < 1024 \<and> a = page_frame f + i * 4"
    then obtain i :: u32 where "unat i < 1024" "a = page_frame f + of_nat (unat i) * 4" by auto
    moreover have "unat i \<in> {0..<0 + 1024}" using \<open>unat i < 1024\<close> by simp
    ultimately show "a \<in> table_words f 0 1024" unfolding table_words_def by blast
  qed
  then show ?thesis
    using zero_words_table [OF assms, of 0 1024] by (simp add: zero_frame_def [abs_def])
qed

section \<open>page_table_add and page_table_pte_remove\<close>

lemma present_bit: "present e \<longleftrightarrow> bit e 0"
  using bit_iff_and_push_bit_not_eq_0 [of e 0] by (simp add: present_def)

lemma entry_fields:
  "page_frame (p OR PG_US_U OR PG_RW_W OR PG_P_1) = page_frame p"
  "present (p OR PG_US_U OR PG_RW_W OR PG_P_1)"
proof -
  have flags: "p OR PG_US_U OR PG_RW_W OR PG_P_1 = p OR mask 3"
    by (simp add: PG_US_U_def PG_RW_W_def PG_P_1_def mask_eq_exp_minus_1 or.assoc)
  show "page_frame (p OR PG_US_U OR PG_RW_W OR PG_P_1) = page_frame p"
    unfolding flags page_frame_def mask_high20
    by (rule bit_word_eqI) (auto simp: bit_simps)
  have "bit (p OR mask 3) 0" by (simp add: bit_or_iff bit_mask_iff possible_bit_word)
  then show "present (p OR PG_US_U OR PG_RW_W OR PG_P_1)"
    unfolding flags present_bit .
qed

lemma page_table_add_old_table:
  assumes wf: "pt_wf (phys s) (cr3 s)" and P: "present (phys s (pde_addr (cr3 s) v))"
    and free: "mmu_walk (phys s) (cr3 s) v = None"
  shows "page_table_add s v p = Inr (s\<lparr>phys :=
    (phys s)(pte_addr (phys s (pde_addr (cr3 s) v)) v := p OR PG_US_U OR PG_RW_W OR PG_P_1)\<rparr>)"
proof -
  have rec: "rec_slot (phys s) (cr3 s)" using wf by (simp add: pt_wf_def)
  have "\<not> present (phys s (pte_addr (phys s (pde_addr (cr3 s) v)) v))"
    using free P by (simp add: mmu_walk_def Let_def split: if_splits)
  then show ?thesis
    using P unfolding page_table_add_def Let_def
    by (simp add: load32_pde_ptr [OF rec] load32_pte_ptr [OF rec P] store32_pte_ptr [OF rec P] present_def)
qed

text \<open>With a new table: the state after the zeroing, and the entry.\<close>

lemma page_table_add_new_table:
  assumes wf: "pt_wf (phys s) (cr3 s)" and i: "own_pde v"
    and absent: "\<not> present (phys s (pde_addr (cr3 s) v))"
    and pal: "palloc s PF_KERNEL = Inr (f, s1)" and fresh: "fresh_table (phys s) (cr3 s) f"
  defines "m3 \<equiv> zero_frame f ((phys s)(pde_addr (cr3 s) v := f OR PG_US_U OR PG_RW_W OR PG_P_1))"
  shows "page_table_add s v p = Inr ((clear_typed s1 (pte_ptr (table_va v 0)) 4096)\<lparr>phys :=
    m3(pte_addr (m3 (pde_addr (cr3 s) v)) v := p OR PG_US_U OR PG_RW_W OR PG_P_1)\<rparr>)"
proof -
  let ?dir = "cr3 s" and ?e = "f OR PG_US_U OR PG_RW_W OR PG_P_1" and ?a = "pte_ptr (table_va v 0)"
  have rec: "rec_slot (phys s) ?dir" using wf by (simp add: pt_wf_def)
  have e: "page_frame ?e = f" "present ?e" using fresh by (simp_all add: entry_fields fresh_table_def)
  have pf: "page_frame f = f" and fd: "page_frame f \<noteq> page_frame ?dir" using fresh by (simp_all add: fresh_table_def)
  have s1: "phys s1 = phys s" "cr3 s1 = ?dir" 
    by (rule palloc_Inr [OF pal], simp)+
  define s2 where "s2 = s1\<lparr>phys := (phys s)(pde_addr ?dir v := ?e)\<rparr>"
  have st1: "store32 s1 (pde_ptr v) ?e = Inr s2"
    using store32_pde_ptr [of s1 v ?e] rec by (simp add: s1 s2_def)
  have "phys s2 (pde_addr ?dir 0xffffffff) = phys s (pde_addr ?dir 0xffffffff)"
    using i by (simp add: s2_def pde_addr_inject PDE_IDX_last own_pde_def)
  then have rec2: "rec_slot (phys s2) (cr3 s2)"
    using rec by (simp add: rec_slot_def Let_def pde_addr_last s2_def s1)
  have "zero_words s2 ?a 1024 = Inr (s2\<lparr>phys := zero_frame f (phys s2)\<rparr>)"
    by (rule zero_words_new_table [OF rec2]) (simp_all add: s2_def s1 e pf, use fd pf in simp)
  moreover have "?a \<noteq> 0"
  proof
    assume "?a = 0"
    then have "unat ?a = 0" by simp
    then show False by (simp add: unat_pte_ptr)
  qed
  ultimately have zero: "kmemset0 s2 ?a PG_SIZE = Inr ((clear_typed s1 ?a 4096)\<lparr>phys := m3\<rparr>)"
    by (simp add: kmemset0_def PG_SIZE_def m3_def s2_def clear_typed_phys)
  let ?s3 = "(clear_typed s1 ?a 4096)\<lparr>phys := m3\<rparr>"
  have wf3: "pt_wf m3 ?dir" and dir3: "m3 (pde_addr ?dir v) = ?e"
    using new_table_wf [OF wf i fresh e(1)] by (simp_all add: m3_def)
  have sel3: "phys ?s3 = m3" "cr3 ?s3 = ?dir" by (simp_all add: clear_typed_def s1)
  have rec3: "rec_slot (phys ?s3) (cr3 ?s3)" using wf3 unfolding sel3 by (simp add: pt_wf_def)
  have P3: "present (phys ?s3 (pde_addr (cr3 ?s3) v))" unfolding sel3 dir3 by (rule e(2))
  have "m3 (pte_addr ?e v) = 0" by (simp add: m3_def zero_frame_pte e pf)
  then have ld3: "load32 ?s3 (pte_ptr v) = Inr 0"
    using load32_pte_ptr [OF rec3 P3] unfolding sel3 dir3 by simp
  have st3: "store32 ?s3 (pte_ptr v) x = Inr (?s3\<lparr>phys := m3(pte_addr ?e v := x)\<rparr>)" for x
    using store32_pte_ptr [OF rec3 P3] unfolding sel3 dir3 .
  have np: "phys s (pde_addr ?dir v) AND 1 = 0" using absent by (simp add: present_def)
  show ?thesis
    unfolding page_table_add_def Let_def pte_ptr_page dir3
    using np \<open>?a \<noteq> 0\<close> by (simp add: load32_pde_ptr [OF rec] pal st1 zero ld3 st3)
qed

lemma page_table_add_cases:
  assumes wf: "pt_wf (phys s) (cr3 s)" and i: "own_pde v" and p: "page_frame p = p"
    and free: "mmu_walk (phys s) (cr3 s) v = None"
    and table: "present (phys s (pde_addr (cr3 s) v)) \<or>
      \<not> present (phys s (pde_addr (cr3 s) v)) \<and>
        palloc s PF_KERNEL = Inr (f, s1) \<and> fresh_table (phys s) (cr3 s) f"
  shows "\<exists>m. page_table_add s v p = Inr ((if present (phys s (pde_addr (cr3 s) v)) then s
        else clear_typed s1 (pte_ptr (table_va v 0)) 4096)\<lparr>phys := m\<rparr>) \<and> pt_wf m (cr3 s) \<and>
    (\<forall>w. own_pde w \<longrightarrow> mmu_walk m (cr3 s) w =
      (if page_frame w = page_frame v then Some (p + page_offset w) else mmu_walk (phys s) (cr3 s) w)) \<and>
    (\<forall>w. present (m (pde_addr (cr3 s) w)) \<longrightarrow> present (phys s (pde_addr (cr3 s) w)) \<and>
        m (pde_addr (cr3 s) w) = phys s (pde_addr (cr3 s) w) \<or>
      \<not> present (phys s (pde_addr (cr3 s) v)) \<and> page_frame (m (pde_addr (cr3 s) w)) = f) \<and>
    (\<forall>w. present (phys s (pde_addr (cr3 s) w)) \<longrightarrow> m (pde_addr (cr3 s) w) = phys s (pde_addr (cr3 s) w)) \<and>
    (\<forall>a. fresh_table (phys s) (cr3 s) (page_frame a) \<longrightarrow>
      (\<not> present (phys s (pde_addr (cr3 s) v)) \<longrightarrow> page_frame a \<noteq> f) \<longrightarrow> m a = phys s a)"
  using table
proof
  let ?e = "p OR PG_US_U OR PG_RW_W OR PG_P_1"
  have e: "page_frame ?e = p" "present ?e" using p by (simp_all add: entry_fields)
  assume P: "present (phys s (pde_addr (cr3 s) v))"
  let ?m = "(phys s)(pte_addr (phys s (pde_addr (cr3 s) v)) v := ?e)"
  note old = page_table_add_old_table [OF wf P free, of p] write_pte_wf [OF wf P i, of ?e]
    write_pte_walk [OF wf P i, where e = ?e]
  have "?m a = phys s a" if "fresh_table (phys s) (cr3 s) (page_frame a)" for a
  proof -
    have "page_frame (pte_addr (phys s (pde_addr (cr3 s) v)) v) = page_frame (phys s (pde_addr (cr3 s) v))"
      by (simp add: pte_addr_def frame_word_frame)
    then have "a \<noteq> pte_addr (phys s (pde_addr (cr3 s) v)) v" using that P unfolding fresh_table_def by metis
    then show ?thesis by simp
  qed
  then show ?thesis
    by (intro exI [of _ ?m]) (use old P e in simp)
next
  let ?e = "p OR PG_US_U OR PG_RW_W OR PG_P_1" and ?fe = "f OR PG_US_U OR PG_RW_W OR PG_P_1"
  have e: "page_frame ?e = p" "present ?e" using p by (simp_all add: entry_fields)
  assume t: "\<not> present (phys s (pde_addr (cr3 s) v)) \<and>
    palloc s PF_KERNEL = Inr (f, s1) \<and> fresh_table (phys s) (cr3 s) f"
  then have absent: "\<not> present (phys s (pde_addr (cr3 s) v))" and pal: "palloc s PF_KERNEL = Inr (f, s1)"
    and fresh: "fresh_table (phys s) (cr3 s) f" by blast+
  have fe: "page_frame ?fe = f" "present ?fe" using fresh by (simp_all add: entry_fields fresh_table_def)
  let ?m3 = "zero_frame f ((phys s)(pde_addr (cr3 s) v := ?fe))"
  have wf3: "pt_wf ?m3 (cr3 s)"
    and dirs: "?m3 (pde_addr (cr3 s) w) = (if PDE_IDX w = PDE_IDX v then ?fe else phys s (pde_addr (cr3 s) w))" for w
    using new_table_wf [OF wf i fresh fe(1)] by blast+
  have P3: "present (?m3 (pde_addr (cr3 s) v))" using fe(2) by (simp add: dirs)
  let ?m = "?m3(pte_addr (?m3 (pde_addr (cr3 s) v)) v := ?e)"
  show ?thesis
  proof (rule exI [of _ ?m], intro conjI allI impI)
    show "page_table_add s v p = Inr ((if present (phys s (pde_addr (cr3 s) v)) then s
        else clear_typed s1 (pte_ptr (table_va v 0)) 4096)\<lparr>phys := ?m\<rparr>)"
      using page_table_add_new_table [OF wf i absent pal fresh, of p] absent by simp
    show "pt_wf ?m (cr3 s)" by (rule write_pte_wf(1) [OF wf3 P3 i])
    show "mmu_walk ?m (cr3 s) w =
      (if page_frame w = page_frame v then Some (p + page_offset w) else mmu_walk (phys s) (cr3 s) w)"
      if "own_pde w" for w
      unfolding write_pte_walk [OF wf3 P3 i that] using new_table_walk [OF wf i fresh fe(1) absent that] e by simp
    fix w assume w: "present (?m (pde_addr (cr3 s) w))"
    have "?m (pde_addr (cr3 s) w) = ?m3 (pde_addr (cr3 s) w)" by (rule write_pte_wf(2) [OF wf3 P3 i])
    then show "present (phys s (pde_addr (cr3 s) w)) \<and> ?m (pde_addr (cr3 s) w) = phys s (pde_addr (cr3 s) w) \<or>
      \<not> present (phys s (pde_addr (cr3 s) v)) \<and> page_frame (?m (pde_addr (cr3 s) w)) = f"
      using w dirs [of w] fe absent by (cases "PDE_IDX w = PDE_IDX v") simp_all
  next
    fix w assume w: "present (phys s (pde_addr (cr3 s) w))"
    have "?m (pde_addr (cr3 s) w) = ?m3 (pde_addr (cr3 s) w)" by (rule write_pte_wf(2) [OF wf3 P3 i])
    moreover have "PDE_IDX w \<noteq> PDE_IDX v" using w absent by (auto simp: pde_addr_def)
    ultimately show "?m (pde_addr (cr3 s) w) = phys s (pde_addr (cr3 s) w)" using dirs [of w] by simp
  next
    fix a assume a: "fresh_table (phys s) (cr3 s) (page_frame a)"
      and "\<not> present (phys s (pde_addr (cr3 s) v)) \<longrightarrow> page_frame a \<noteq> f"
    then have af: "page_frame a \<noteq> f" using absent by blast
    have pf: "page_frame f = f" using fresh by (simp add: fresh_table_def)
    have "page_frame (pte_addr (?m3 (pde_addr (cr3 s) v)) v) = f"
      using fe(1) dirs [of v] frame_word_frame [of "PTE_IDX v" f] pf by (simp add: pte_addr_def)
    then have "?m a = ?m3 a" using af by auto
    also have "\<dots> = ((phys s)(pde_addr (cr3 s) v := ?fe)) a"
    proof -
      have "page_frame a = page_frame f" if "zero_frame f m a \<noteq> m a" for m
      proof -
        have "\<exists>i. unat i < 1024 \<and> a = page_frame f + i * 4" using that by (auto simp: zero_frame_def split: if_splits)
        then show ?thesis using frame_word_frame [of _ f] by blast
      qed
      then show ?thesis using af pf by metis
    qed
    also have "\<dots> = phys s a"
    proof -
      have "page_frame (pde_addr (cr3 s) v) = page_frame (cr3 s)" by (simp add: pde_addr_def frame_word_frame)
      then have "a \<noteq> pde_addr (cr3 s) v" using a unfolding fresh_table_def by metis
      then show ?thesis by simp
    qed
    finally show "?m a = phys s a" .
  qed
qed

lemma present_clear: "\<not> present (e AND NOT PG_P_1)"
  by (simp add: present_bit PG_P_1_def bit_and_iff bit_not_iff)

lemma page_table_pte_remove_eq:
  assumes wf: "pt_wf (phys s) (cr3 s)" and P: "present (phys s (pde_addr (cr3 s) v))"
    and i: "own_pde v"
  shows "\<exists>m. page_table_pte_remove s v = Inr (s\<lparr>phys := m\<rparr>) \<and> pt_wf m (cr3 s) \<and>
    (\<forall>w. own_pde w \<longrightarrow> mmu_walk m (cr3 s) w = (if page_frame w = page_frame v then None else mmu_walk (phys s) (cr3 s) w)) \<and>
    (\<forall>w. m (pde_addr (cr3 s) w) = phys s (pde_addr (cr3 s) w))"
proof -
  have rec: "rec_slot (phys s) (cr3 s)" using wf by (simp add: pt_wf_def)
  let ?a = "pte_addr (phys s (pde_addr (cr3 s) v)) v"
  let ?e = "phys s ?a AND NOT PG_P_1"
  have "page_table_pte_remove s v = Inr (s\<lparr>phys := (phys s)(?a := ?e)\<rparr>)"
    by (simp add: page_table_pte_remove_def load32_pte_ptr [OF rec P] store32_pte_ptr [OF rec P])
  then show ?thesis
    using write_pte_wf [OF wf P i, of ?e] write_pte_walk [OF wf P i, where e = ?e] present_clear
    by (intro exI [of _ "(phys s)(?a := ?e)"]) simp
qed

end
