(* ===== verification/Page_Alloc.thy ===== *)
theory Page_Alloc
  imports Page_Map
begin

text \<open>
  Allocation of mapped pages in kernel/memory.c: malloc_page takes a run of virtual pages and one
  physical page for each and maps them; get_kernel_pages, get_user_pages and get_a_page are its
  callers under the pool locks; mfree_page is the way back; mem_pool_init lays the pools out.
  \<open>alloc_inv\<close> is the invariant of the allocator: a page whose bit is clear is neither mapped nor in
  use as a page table, and a virtual page whose bit is clear is not mapped.
\<close>

section \<open>Operations\<close>

fun map_pages :: "nat \<Rightarrow> pool_flags \<Rightarrow> u32 \<Rightarrow> kstate \<Rightarrow> (bool \<times> kstate) kres" where
  "map_pages 0 pf vaddr s = Inr (True, s)"
| "map_pages (Suc n) pf vaddr s =
     bindR (palloc s pf) (\<lambda>(page_phyaddr, s1).
       assertR (page_phyaddr \<noteq> NULL) ''page_phyaddr!=NULL''
         (if page_phyaddr = NULL then Inr (False, s1)
          else bindR (page_table_add s1 vaddr page_phyaddr) (\<lambda>s2. map_pages n pf (vaddr + PG_SIZE) s2)))"

definition malloc_page :: "kstate \<Rightarrow> pool_flags \<Rightarrow> u32 \<Rightarrow> (u32 \<times> kstate) kres" where
  "malloc_page s pf pg_cnt =
     assertR (0 < pg_cnt \<and> pg_cnt < 3840) ''pg_cnt>0&&pg_cnt<3840''
       (bindR (vaddr_get s pf pg_cnt) (\<lambda>(vaddr_start, s1).
          assertR (vaddr_start \<noteq> NULL) ''vaddr_start!=NULL''
            (if vaddr_start = NULL then Inr (NULL, s1)
             else bindR (map_pages (unat pg_cnt) pf vaddr_start s1) (\<lambda>(done_all, s2).
                    Inr (if done_all then vaddr_start else NULL, s2)))))"

definition get_kernel_pages :: "kstate \<Rightarrow> u32 \<Rightarrow> (u32 \<times> kstate) kres" where
  "get_kernel_pages s pg_cnt =
     bindR (lock_acquire s KERNEL_POOL_LOCK) (\<lambda>s1.
       bindR (malloc_page s1 PF_KERNEL pg_cnt) (\<lambda>(vaddr, s2).
         assertR (vaddr \<noteq> NULL) ''vaddr!=NULL''
           (bindR (if vaddr \<noteq> NULL then kmemset0 s2 vaddr (pg_cnt * PG_SIZE) else Inr s2) (\<lambda>s3.
              bindR (lock_release s3 KERNEL_POOL_LOCK) (\<lambda>s4. Inr (vaddr, s4))))))"

definition get_user_pages :: "kstate \<Rightarrow> u32 \<Rightarrow> (u32 \<times> kstate) kres" where
  "get_user_pages s pg_cnt =
     bindR (lock_acquire s USER_POOL_LOCK) (\<lambda>s1.
       bindR (malloc_page s1 PF_USER pg_cnt) (\<lambda>(vaddr, s2).
         assertR (vaddr \<noteq> NULL) ''vaddr!=NULL''
           (bindR (kmemset0 s2 vaddr (pg_cnt * PG_SIZE)) (\<lambda>s3.
              bindR (lock_release s3 USER_POOL_LOCK) (\<lambda>s4. Inr (vaddr, s4))))))"

definition get_a_page :: "kstate \<Rightarrow> pool_flags \<Rightarrow> u32 \<Rightarrow> (u32 \<times> kstate) kres" where
  "get_a_page s pf vaddr =
     bindR (lock_acquire s (pool_lock pf)) (\<lambda>s1.
       let c = running_thread s1; va = vaddr_pool pf s1;
           bit_idx = (vaddr - Kernel_State.vaddr_start va) div PG_SIZE in
       bindR (if pgdir (tasks s1 c) \<noteq> NULL \<and> pf = PF_USER \<or> pgdir (tasks s1 c) = NULL \<and> pf = PF_KERNEL
              then assertR (0 <s bit_idx) ''bit_idx > 0''
                     (bindR (bitmap_set (mem s1) (vaddr_bitmap va) bit_idx 1) (\<lambda>m1. Inr (s1\<lparr>mem := m1\<rparr>)))
              else Inl (Panicked ''get_a_page:not allow kernel alloc userspace or user alloc kernelspace by get_a_page''))
         (\<lambda>s2. bindR (palloc s2 pf) (\<lambda>(page_phyaddr, s3).
            if page_phyaddr = NULL then Inr (NULL, s3)
            else bindR (page_table_add s3 vaddr page_phyaddr) (\<lambda>s4.
                   bindR (lock_release s4 (pool_lock pf)) (\<lambda>s5. Inr (vaddr, s5))))))"

fun unmap_pages :: "nat \<Rightarrow> u32 \<Rightarrow> kstate \<Rightarrow> kstate kres" where
  "unmap_pages 0 vaddr s = Inr s"
| "unmap_pages (Suc n) vaddr s =
     bindR (addr_v2p s vaddr) (\<lambda>pg_phy_addr.
       bindR (pfree s pg_phy_addr) (\<lambda>s1.
         bindR (page_table_pte_remove s1 vaddr) (\<lambda>s2. unmap_pages n (vaddr + PG_SIZE) s2)))"

definition mfree_page :: "kstate \<Rightarrow> pool_flags \<Rightarrow> u32 \<Rightarrow> u32 \<Rightarrow> kstate kres" where
  "mfree_page s pf vaddr pg_cnt =
     assertR (0 < pg_cnt \<and> vaddr mod PG_SIZE = 0) ''pg_cnt > 0 && vaddr % PG_SIZE == 0''
       (bindR (addr_v2p s vaddr) (\<lambda>pg_phy_addr.
          assertR (pg_phy_addr mod PG_SIZE = 0 \<and> 0x102000 \<le> pg_phy_addr)
            ''pg_phy_addr % PG_SIZE == 0 && pg_phy_addr >= 0x102000''
            (bindR (unmap_pages (unat pg_cnt) vaddr s) (\<lambda>s1. vaddr_remove s1 pf vaddr pg_cnt))))"

text \<open>The layout of the pools: half of the free pages each, counted in 16 bits.\<close>

definition mem_pool_init :: "kstate \<Rightarrow> u32 \<Rightarrow> kstate kres" where
  "mem_pool_init s0 all_mem =
     (let s = put_str s0 ''mem_pool init start\<newline>'';
          page_table_size = PG_SIZE * 256;
          used_mem = page_table_size + 0x100000;
          free_mem = all_mem - used_mem;
          all_free_pages = (ucast (free_mem div PG_SIZE) :: u16);
          kernel_free_pages = all_free_pages div 2;
          user_free_pages = all_free_pages - kernel_free_pages;
          kernel_bitmap_length = (ucast (kernel_free_pages div 8) :: u32);
          user_bitmap_length = (ucast (user_free_pages div 8) :: u32);
          kernel_pool_start = used_mem;
          user_pool_start = used_mem + ucast kernel_free_pages * PG_SIZE;
          kp = \<lparr>pool_bitmap = \<lparr>btmp_bytes_len = kernel_bitmap_length, bits = MEM_BITMAP_BASE\<rparr>,
                phy_addr_start = kernel_pool_start, pool_size = ucast kernel_free_pages * PG_SIZE\<rparr>;
          up = \<lparr>pool_bitmap = \<lparr>btmp_bytes_len = user_bitmap_length,
                  bits = MEM_BITMAP_BASE + kernel_bitmap_length\<rparr>,
                phy_addr_start = user_pool_start, pool_size = ucast user_free_pages * PG_SIZE\<rparr>;
          kv = \<lparr>vaddr_bitmap = \<lparr>btmp_bytes_len = kernel_bitmap_length,
                  bits = MEM_BITMAP_BASE + kernel_bitmap_length + user_bitmap_length\<rparr>,
                vaddr_start = K_HEAP_START\<rparr>;
          s1 = s\<lparr>kernel_pool := kp, user_pool := up\<rparr>;
          s2 = put_str s1 ''   kernel_pool_bitmap start:'';
          s3 = put_int s2 (bits (pool_bitmap kp));
          s4 = put_str s3 '' kernel_pool_phy_addr start:'';
          s5 = put_str (put_int s4 (phy_addr_start kp)) ''\<newline>'';
          s6 = put_str s5 ''user_pool_bitmap start:'';
          s7 = put_int s6 (bits (pool_bitmap up));
          s8 = put_str s7 '' user_pool_phy_addr start:'';
          s9 = put_str (put_int s8 (phy_addr_start up)) ''\<newline>''
      in bindR (bitmap_init (mem s9) (pool_bitmap kp)) (\<lambda>m1.
           bindR (bitmap_init m1 (pool_bitmap up)) (\<lambda>m2.
             bindR (bitmap_init m2 (vaddr_bitmap kv)) (\<lambda>m3.
               let s10 = s9\<lparr>mem := m3, kernel_vaddr := kv\<rparr>;
                   s11 = lock_init (lock_init s10 KERNEL_POOL_LOCK) USER_POOL_LOCK
               in Inr (put_str s11 ''   mem_pool_init done\<newline>'')))))"

section \<open>The invariant of the physical pages\<close>

abbreviation vmap :: "kstate \<Rightarrow> u32 \<Rightarrow> u32 option" where
  "vmap s \<equiv> mmu_walk (phys s) (cr3 s)"

definition pool_idx :: "kstate \<Rightarrow> pool_flags \<Rightarrow> u32 \<Rightarrow> bool" where
  "pool_idx s q i \<longleftrightarrow> unat i < 8 * unat (btmp_bytes_len (pool_bitmap (pool_of q s)))"

definition below_window :: "u32 \<Rightarrow> bool" where
  "below_window a \<longleftrightarrow> unat a < 0xffc00000"

definition low_map :: "bitmap \<Rightarrow> bool" where
  "low_map b \<longleftrightarrow> (\<forall>a \<in> map_bytes b. below_window a)"

definition unused_page :: "kstate \<Rightarrow> u32 \<Rightarrow> bool" where
  "unused_page s p \<longleftrightarrow> fresh_table (phys s) (cr3 s) p \<and>
     (\<forall>w. own_pde w \<longrightarrow> vmap s w \<noteq> Some (p + page_offset w))"

definition phys_inv :: "kstate \<Rightarrow> bool" where
  "phys_inv s \<longleftrightarrow> pools_wf s \<and> pt_wf (phys s) (cr3 s) \<and>
     (\<forall>q. low_map (pool_bitmap (pool_of q s)) \<and> phy_addr_start (pool_of q s) \<noteq> 0) \<and>
     (\<forall>q i. pool_idx s q i \<longrightarrow> \<not> pool_bit s q i \<longrightarrow> unused_page s (pool_page (pool_of q s) i))"

text \<open>What an allocation leaves alone: everything but the pools' bits, which only get set.\<close>

definition alloc_frame :: "kstate \<Rightarrow> kstate \<Rightarrow> bool" where
  "alloc_frame s s' \<longleftrightarrow> cr3 s' = cr3 s \<and> cur s' = cur s \<and> tasks s' = tasks s \<and>
     kernel_pool s' = kernel_pool s \<and> user_pool s' = user_pool s \<and> kernel_vaddr s' = kernel_vaddr s \<and>
     (\<forall>a. below_window a \<longrightarrow> a \<notin> map_bytes (pool_bitmap (kernel_pool s)) \<longrightarrow>
        a \<notin> map_bytes (pool_bitmap (user_pool s)) \<longrightarrow> mem s' a = mem s a) \<and>
     (\<forall>a. below_window a \<longrightarrow> lheap s' a = lheap s a \<and> arenas s' a = arenas s a) \<and>
     (\<forall>q i. pool_idx s q i \<longrightarrow> pool_bit s q i \<longrightarrow> pool_bit s' q i)"

lemma alloc_frame_refl [simp]: "alloc_frame s s"
  by (simp add: alloc_frame_def)

lemma alloc_frame_pool: "alloc_frame s s' \<Longrightarrow> pool_of q s' = pool_of q s"
  by (simp add: alloc_frame_def pool_of_def)

lemma alloc_frame_idx: "alloc_frame s s' \<Longrightarrow> pool_idx s' q i = pool_idx s q i"
  by (simp add: pool_idx_def alloc_frame_pool)

lemma alloc_frame_mem:
  "alloc_frame s s' \<Longrightarrow> below_window a \<Longrightarrow> a \<notin> map_bytes (pool_bitmap (kernel_pool s)) \<Longrightarrow>
    a \<notin> map_bytes (pool_bitmap (user_pool s)) \<Longrightarrow> mem s' a = mem s a"
  by (simp add: alloc_frame_def)

lemma alloc_frame_typed:
  "alloc_frame s s' \<Longrightarrow> below_window a \<Longrightarrow> lheap s' a = lheap s a \<and> arenas s' a = arenas s a"
  by (simp add: alloc_frame_def)

lemma alloc_frame_bit: "alloc_frame s s' \<Longrightarrow> pool_idx s q i \<Longrightarrow> pool_bit s q i \<Longrightarrow> pool_bit s' q i"
  by (simp add: alloc_frame_def)

lemma alloc_frame_sel:
  assumes "alloc_frame s s'"
  shows "cr3 s' = cr3 s" "cur s' = cur s" "tasks s' = tasks s" "kernel_pool s' = kernel_pool s"
    "user_pool s' = user_pool s" "kernel_vaddr s' = kernel_vaddr s"
  using assms by (simp_all add: alloc_frame_def)

lemma alloc_frame_trans:
  assumes "alloc_frame s s1" "alloc_frame s1 s2"
  shows "alloc_frame s s2"
  unfolding alloc_frame_def
proof (intro conjI allI impI)
  note sel = alloc_frame_sel [OF assms(1)] alloc_frame_sel [OF assms(2)]
  show "mem s2 a = mem s a" if "below_window a" "a \<notin> map_bytes (pool_bitmap (kernel_pool s))"
    "a \<notin> map_bytes (pool_bitmap (user_pool s))" for a
    using alloc_frame_mem [OF assms(1) that] alloc_frame_mem [OF assms(2), of a] that by (simp add: sel)
  show "lheap s2 a = lheap s a" "arenas s2 a = arenas s a" if "below_window a" for a
    using alloc_frame_typed [OF assms(1) that] alloc_frame_typed [OF assms(2) that] by simp_all
  show "pool_bit s2 q i" if "pool_idx s q i" "pool_bit s q i" for q i
    using alloc_frame_bit [OF assms(1) that] alloc_frame_bit [OF assms(2), of q i] that(1)
    by (simp add: alloc_frame_idx [OF assms(1)])
qed (simp_all add: alloc_frame_sel [OF assms(1)] alloc_frame_sel [OF assms(2)])

text \<open>
  A page that is in use and holds no table does not become a table, and nothing is written to it;
  the entries of the directory that are present stay.
\<close>

definition not_table :: "kstate \<Rightarrow> u32 \<Rightarrow> bool" where
  "not_table s p \<longleftrightarrow> fresh_table (phys s) (cr3 s) p"

definition tables_frame :: "kstate \<Rightarrow> kstate \<Rightarrow> bool" where
  "tables_frame s s' \<longleftrightarrow> (\<forall>q i. pool_idx s q i \<longrightarrow> pool_bit s q i \<longrightarrow>
     not_table s (pool_page (pool_of q s) i) \<longrightarrow> not_table s' (pool_page (pool_of q s) i) \<and>
       (\<forall>a. page_frame a = pool_page (pool_of q s) i \<longrightarrow> phys s' a = phys s a)) \<and>
     (\<forall>w. present (phys s (pde_addr (cr3 s) w)) \<longrightarrow> phys s' (pde_addr (cr3 s) w) = phys s (pde_addr (cr3 s) w))"

lemma tables_frame_same: "phys s' = phys s \<Longrightarrow> cr3 s' = cr3 s \<Longrightarrow> tables_frame s s'"
  by (simp add: tables_frame_def not_table_def)

lemma tables_frame_trans:
  assumes "alloc_frame s s1" "tables_frame s s1" "tables_frame s1 s2"
  shows "tables_frame s s2"
  unfolding tables_frame_def
proof (intro conjI allI impI)
  have c: "cr3 s1 = cr3 s" using assms(1) by (simp add: alloc_frame_def)
  note t1 = assms(2) [unfolded tables_frame_def]
  note t2 = assms(3) [unfolded tables_frame_def alloc_frame_pool [OF assms(1)] alloc_frame_idx [OF assms(1)] c]
  fix q i assume i: "pool_idx s q i" "pool_bit s q i" "not_table s (pool_page (pool_of q s) i)"
  then have i1: "pool_bit s1 q i" "not_table s1 (pool_page (pool_of q s) i)"
    using alloc_frame_bit [OF assms(1)] t1 by blast+
  then show "not_table s2 (pool_page (pool_of q s) i)" using t2 i(1) by blast
  show "phys s2 a = phys s a" if "page_frame a = pool_page (pool_of q s) i" for a
    using t1 t2 i i1 that by (metis (no_types))
next
  fix w assume w: "present (phys s (pde_addr (cr3 s) w))"
  moreover have "cr3 s1 = cr3 s" using assms(1) by (simp add: alloc_frame_def)
  ultimately show "phys s2 (pde_addr (cr3 s) w) = phys s (pde_addr (cr3 s) w)"
    using assms(2,3) unfolding tables_frame_def by metis
qed

lemma mmu_walk_None_frame: "page_frame w = page_frame v \<Longrightarrow> mmu_walk m dir v = None \<Longrightarrow> mmu_walk m dir w = None"
  by (auto simp: mmu_walk_def Let_def page_frame_idx pde_addr_def pte_addr_def split: if_splits)

text \<open>
  What an allocation never does to pages in use: their bits stay set, their contents and the
  translations that existed stay.
\<close>

definition space_frame :: "kstate \<Rightarrow> kstate \<Rightarrow> bool" where
  "space_frame s s' \<longleftrightarrow> cr3 s' = cr3 s \<and> (\<forall>q. pool_of q s' = pool_of q s) \<and>
     (\<forall>q i. pool_idx s q i \<longrightarrow> pool_bit s q i \<longrightarrow> pool_bit s' q i) \<and> tables_frame s s' \<and>
     (\<forall>w. own_pde w \<longrightarrow> vmap s w \<noteq> None \<longrightarrow> vmap s' w = vmap s w)"

lemma space_frame_trans:
  assumes "space_frame s s1" "space_frame s1 s2"
  shows "space_frame s s2"
proof -
  have c: "cr3 s1 = cr3 s" "pool_of q s1 = pool_of q s" "pool_idx s1 q i = pool_idx s q i" for q i
    using assms(1) by (simp_all add: space_frame_def pool_idx_def)
  have "tables_frame s s2"
    unfolding tables_frame_def
  proof (intro conjI allI impI)
    fix q i assume i: "pool_idx s q i" "pool_bit s q i" "not_table s (pool_page (pool_of q s) i)"
    have t1: "not_table s1 (pool_page (pool_of q s) i)" "\<And>a. page_frame a = pool_page (pool_of q s) i \<Longrightarrow> phys s1 a = phys s a"
      using assms(1) i unfolding space_frame_def tables_frame_def by blast+
    have "pool_bit s1 q i" using assms(1) i unfolding space_frame_def by blast
    then have t2: "not_table s2 (pool_page (pool_of q s) i)" "\<And>a. page_frame a = pool_page (pool_of q s) i \<Longrightarrow> phys s2 a = phys s1 a"
      using assms(2) i(1) t1(1) unfolding space_frame_def tables_frame_def c by blast+
    show "not_table s2 (pool_page (pool_of q s) i)" by (rule t2)
    show "phys s2 a = phys s a" if "page_frame a = pool_page (pool_of q s) i" for a using t1(2) t2(2) that by simp
  next
    fix w assume w: "present (phys s (pde_addr (cr3 s) w))"
    then show "phys s2 (pde_addr (cr3 s) w) = phys s (pde_addr (cr3 s) w)"
      using assms unfolding space_frame_def tables_frame_def by metis
  qed
  moreover have "vmap s2 w = vmap s w" if "own_pde w" "vmap s w \<noteq> None" for w
  proof -
    have "vmap s1 w = vmap s w" using assms(1) that unfolding space_frame_def by blast
    then show ?thesis using assms(2) that unfolding space_frame_def by metis
  qed
  ultimately show ?thesis using assms unfolding space_frame_def c by (simp add: c)
qed

lemma pool_page_inject:
  assumes "pools_wf s" "pool_idx s q i" "pool_idx s q' j"
    and "pool_page (pool_of q s) i = pool_page (pool_of q' s) j"
  shows "q = q' \<and> i = j"
proof -
  note o1 = pool_page_owner [OF assms(1) assms(2) [unfolded pool_idx_def]]
  note o2 = pool_page_owner [OF assms(1) assms(3) [unfolded pool_idx_def]]
  have "q = PF_USER \<longleftrightarrow> q' = PF_USER" using o1(1) o2(1) assms(4) by simp
  then have q: "q = q'" by (cases q; cases q') auto
  have "j = (pool_page (pool_of q' s) j - phy_addr_start (pool_of q' s)) div PG_SIZE"
    by (rule o2(2) [symmetric])
  also have "\<dots> = i" using o1(2) assms(4) unfolding q by simp
  finally show ?thesis using q by simp
qed

text \<open>Writes into frames that were free in the first state, which move no translation.\<close>

lemma space_frame_write:
  assumes sf: "space_frame s s1" and same: "cr3 s2 = cr3 s1" "\<And>q. pool_of q s2 = pool_of q s1"
    and bit: "\<And>q i. pool_idx s1 q i \<Longrightarrow> pool_bit s2 q i = pool_bit s1 q i"
    and walk: "\<And>w. mmu_walk (phys s2) (cr3 s1) w = vmap s1 w"
    and pde: "\<And>w. phys s2 (pde_addr (cr3 s1) w) = phys s1 (pde_addr (cr3 s1) w)"
    and out: "\<And>a. page_frame a \<notin> X \<Longrightarrow> phys s2 a = phys s1 a"
    and free: "\<And>q i. pool_idx s q i \<Longrightarrow> pool_bit s q i \<Longrightarrow> pool_page (pool_of q s) i \<notin> X"
  shows "space_frame s s2"
proof -
  have c: "cr3 s1 = cr3 s" "pool_of q s1 = pool_of q s" "pool_idx s1 q i = pool_idx s q i" for q i
    using sf by (simp_all add: space_frame_def pool_idx_def)
  have "tables_frame s s2"
    unfolding tables_frame_def
  proof (intro conjI allI impI)
    fix q i assume i: "pool_idx s q i" "pool_bit s q i" "not_table s (pool_page (pool_of q s) i)"
    have t1: "not_table s1 (pool_page (pool_of q s) i)" "\<And>a. page_frame a = pool_page (pool_of q s) i \<Longrightarrow> phys s1 a = phys s a"
      using sf i unfolding space_frame_def tables_frame_def by blast+
    show "not_table s2 (pool_page (pool_of q s) i)" using t1(1) by (simp add: not_table_def fresh_table_def same pde)
    show "phys s2 a = phys s a" if "page_frame a = pool_page (pool_of q s) i" for a
      using t1(2) [OF that] out [of a] free [OF i(1,2)] that by simp
  next
    fix w assume "present (phys s (pde_addr (cr3 s) w))"
    then show "phys s2 (pde_addr (cr3 s) w) = phys s (pde_addr (cr3 s) w)"
      using sf pde [of w] unfolding space_frame_def tables_frame_def c by simp
  qed
  then show ?thesis
    using sf bit walk unfolding space_frame_def same c by (simp add: same c)
qed

lemma space_frame_refl: "space_frame s s"
  by (simp add: space_frame_def tables_frame_same)

lemma pool_page_nonzero:
  assumes "phys_inv s" "pool_idx s q i"
  shows "pool_page (pool_of q s) i \<noteq> 0"
proof
  assume z: "pool_page (pool_of q s) i = 0"
  have "pools_wf s" "phy_addr_start (pool_of q s) \<noteq> 0" using assms(1) by (simp_all add: phys_inv_def)
  moreover have "unat (pool_page (pool_of q s) i) = unat (phy_addr_start (pool_of q s)) + unat i * 4096"
    by (rule pools_wf_no_wrap) (use assms(1,2) in \<open>simp_all add: phys_inv_def pool_idx_def\<close>)
  ultimately show False using z by (simp add: unat_eq_0)
qed

lemma free_pages_card:
  assumes "free_pages s q \<subseteq> insert i (free_pages s' q)"
  shows "card (free_pages s q) \<le> Suc (card (free_pages s' q))"
proof -
  have "finite (insert i (free_pages s' q))" by simp
  from card_mono [OF this assms] show ?thesis
    by (metis card_insert_le_m1 card_insert_if finite le_SucI le_trans order_refl)
qed

text \<open>palloc keeps the invariant, and the page it hands out is unused.\<close>

lemma palloc_inv:
  assumes inv: "phys_inv s" and pal: "palloc s pf = Inr (p, s1)"
  shows "phys_inv s1" "alloc_frame s s1" "unused_page s1 p" "phys s1 = phys s" "lheap s1 = lheap s"
    "\<exists>i. p = pool_page (pool_of pf s) i \<and> pool_idx s pf i \<and> \<not> pool_bit s pf i \<and> pool_bit s1 pf i"
    "card (free_pages s q) \<le> Suc (card (free_pages s1 q))"
proof -
  obtain i where i: "p = pool_page (pool_of pf s) i"
    "s1 = s\<lparr>mem := put_flag (mem s) (pool_bitmap (pool_of pf s)) i True\<rparr>" "\<not> pool_bit s pf i"
    "unat i + 1 < unat (btmp_bytes_len (pool_bitmap (pool_of pf s)))"
    using palloc_Inr [OF pal] by metis
  have wf: "pools_wf s" using inv by (simp add: phys_inv_def)
  have lt: "unat i < 8 * unat (btmp_bytes_len (pool_bitmap (pool_of pf s)))" using i(4) by simp
  then have idx: "pool_idx s pf i" by (simp add: pool_idx_def)
  have bit: "pool_bit s1 q j = (if q = pf \<and> j = i then True else pool_bit s q j)" if "pool_idx s q j" for q j
    using pool_bit_put [OF wf lt] that unfolding i(2) pool_idx_def by blast
  have same: "pool_of q s1 = pool_of q s" "pool_idx s1 q j = pool_idx s q j"
    "unused_page s1 x = unused_page s x" for q j x
    by (simp_all add: i(2) pool_idx_def unused_page_def)
  show "phys s1 = phys s" "lheap s1 = lheap s" by (simp_all add: i(2))
  show "phys_inv s1"
    unfolding phys_inv_def
  proof (intro conjI allI impI)
    fix q j assume j: "pool_idx s1 q j" "\<not> pool_bit s1 q j"
    then have "\<not> pool_bit s q j" "pool_idx s q j" using bit [of q j] by (auto simp: same split: if_splits)
    then show "unused_page s1 (pool_page (pool_of q s1) j)" using inv by (simp add: phys_inv_def same)
  qed (use inv in \<open>simp_all add: phys_inv_def same\<close>, use inv in \<open>simp_all add: phys_inv_def i(2)\<close>)
  show "unused_page s1 p" using inv idx i(1,3) unfolding same phys_inv_def by blast
  show "\<exists>i. p = pool_page (pool_of pf s) i \<and> pool_idx s pf i \<and> \<not> pool_bit s pf i \<and> pool_bit s1 pf i"
    using i(1,3) idx bit by auto
  have "free_pages s q \<subseteq> insert i (free_pages s1 q)"
    using bit [of q] by (auto simp: free_pages_def same pool_idx_def split: if_splits)
  then show "card (free_pages s q) \<le> Suc (card (free_pages s1 q))" by (rule free_pages_card)
  have "mem s1 a = mem s a" if "a \<notin> map_bytes (pool_bitmap (pool_of pf s))" for a
    using put_flag_frame [OF lt that] by (simp add: i(2))
  then have "mem s1 a = mem s a" if "a \<notin> map_bytes (pool_bitmap (kernel_pool s))"
    "a \<notin> map_bytes (pool_bitmap (user_pool s))" for a
    using that by (cases pf) (simp_all add: pool_of_def)
  then show "alloc_frame s s1"
    using bit unfolding alloc_frame_def by (simp add: same [symmetric], simp add: i(2) pool_of_def)
qed

text \<open>The window of the page tables is out of the way of everything else.\<close>

lemma window_range:
  assumes "below_window a"
  shows "\<not> in_range a (pte_ptr (table_va v 0)) 4096"
proof -
  let ?w = "pte_ptr (table_va v 0)"
  have w: "unat ?w = 0xffc00000 + unat v div 4194304 * 4096"
    using table_va_idx [of 0 v] unfolding unat_pte_ptr unat_PDE_IDX [symmetric] unat_PTE_IDX [symmetric]
    by simp
  have "unat v div 4194304 < 1024" by (rule idx_bounds)
  then have hi: "unat ?w \<le> 4294963200" using w by simp
  have "unat a < unat ?w" using assms w by (simp add: below_window_def)
  then have "unat (a - ?w) = unat a + 4294967296 - unat ?w" by (simp add: unat_sub_if')
  then show ?thesis using hi by (simp add: in_range_def)
qed

lemma clear_window_frame:
  assumes "phys_inv s"
  shows "alloc_frame s ((clear_typed s (pte_ptr (table_va v 0)) 4096)\<lparr>phys := m\<rparr>)"
    and "pool_idx s q i \<Longrightarrow>
      pool_bit ((clear_typed s (pte_ptr (table_va v 0)) 4096)\<lparr>phys := m\<rparr>) q i = pool_bit s q i"
proof -
  let ?s = "(clear_typed s (pte_ptr (table_va v 0)) 4096)\<lparr>phys := m\<rparr>"
  have same: "pool_of q ?s = pool_of q s" for q by (simp add: clear_typed_def pool_of_def)
  have mem: "mem ?s a = mem s a" "lheap ?s a = lheap s a" "arenas ?s a = arenas s a" if "below_window a" for a
    using window_range [OF that] by (simp_all add: clear_typed_def wipe_def)
  show bit: "pool_bit ?s q i = pool_bit s q i" if "pool_idx s q i" for q i
    unfolding pool_bit_def same
    by (rule test_frame) (use that assms mem in \<open>auto simp: pool_idx_def phys_inv_def low_map_def\<close>)
  show "alloc_frame s ?s"
    unfolding alloc_frame_def using mem bit
    by (intro conjI allI impI) (simp_all, simp_all add: clear_typed_def)
qed

lemma phys_frame: "alloc_frame s (s\<lparr>phys := m\<rparr>)" "pool_bit (s\<lparr>phys := m\<rparr>) q i = pool_bit s q i"
  by (simp_all add: alloc_frame_def pool_bit_def pool_of_def)

lemma page_table_add_inv:
  assumes inv: "phys_inv s" and i: "own_pde v" and free: "vmap s v = None"
    and p: "p = pool_page (pool_of pf s) ip" "pool_idx s pf ip" "pool_bit s pf ip" "page_frame p = p"
  shows "page_table_add s v p = Inl (Assert_failed ''idx!=-1'') \<and> free_pages s PF_KERNEL = {} \<or>
    (\<exists>s'. page_table_add s v p = Inr s' \<and> phys_inv s' \<and> alloc_frame s s' \<and> tables_frame s s' \<and>
      (\<forall>q. card (free_pages s q) \<le> Suc (card (free_pages s' q))) \<and>
      (\<forall>w. own_pde w \<longrightarrow> vmap s' w =
        (if page_frame w = page_frame v then Some (p + page_offset w) else vmap s w)))"
proof -
  have wf: "pt_wf (phys s) (cr3 s)" and pw: "pools_wf s" using inv by (simp_all add: phys_inv_def)
  let ?P = "present (phys s (pde_addr (cr3 s) v))"
  show ?thesis
  proof (cases "\<not> ?P \<and> (\<exists>e. palloc s PF_KERNEL = Inl e)")
    case True
    then have pal: "palloc s PF_KERNEL = Inl (Assert_failed ''idx!=-1'')" using palloc_cases [of s PF_KERNEL] by auto
    then have "page_table_add s v p = Inl (Assert_failed ''idx!=-1'')"
      using True wf by (simp add: page_table_add_def load32_pde_ptr pt_wf_def present_def)
    then show ?thesis using palloc_fails(2) [OF pal] by blast
  next
    case False
    obtain f s1 where fs: "?P \<and> s1 = s \<or> \<not> ?P \<and> palloc s PF_KERNEL = Inr (f, s1)"
    proof (cases ?P)
      case True
      then show thesis using that by blast
    next
      case np: False
      then obtain r where "palloc s PF_KERNEL = Inr r" using False by (cases "palloc s PF_KERNEL") auto
      then show thesis using np that by (cases r) blast
    qed
    have s1: "phys_inv s1" "alloc_frame s s1" "phys s1 = phys s"
      and f: "\<not> ?P \<Longrightarrow> unused_page s1 f \<and>
        (\<exists>j. f = pool_page (pool_of PF_KERNEL s) j \<and> pool_idx s PF_KERNEL j \<and> \<not> pool_bit s PF_KERNEL j \<and>
          pool_bit s1 PF_KERNEL j)"
      using fs palloc_inv [OF inv, of PF_KERNEL f s1] inv by auto
    note frame1 = alloc_frame_sel [OF s1(2)] alloc_frame_pool [OF s1(2)] alloc_frame_idx [OF s1(2)]
    have "?P \<or> \<not> ?P \<and> palloc s PF_KERNEL = Inr (f, s1) \<and> fresh_table (phys s) (cr3 s) f"
      using fs f s1(3) frame1 by (auto simp: unused_page_def)
    then obtain m where m: "page_table_add s v p = Inr ((if ?P then s
        else clear_typed s1 (pte_ptr (table_va v 0)) 4096)\<lparr>phys := m\<rparr>)" "pt_wf m (cr3 s)"
      "\<And>w. own_pde w \<Longrightarrow> mmu_walk m (cr3 s) w =
        (if page_frame w = page_frame v then Some (p + page_offset w) else vmap s w)"
      "\<And>w. present (m (pde_addr (cr3 s) w)) \<Longrightarrow> present (phys s (pde_addr (cr3 s) w)) \<and>
          m (pde_addr (cr3 s) w) = phys s (pde_addr (cr3 s) w) \<or> \<not> ?P \<and> page_frame (m (pde_addr (cr3 s) w)) = f"
      "\<And>w. present (phys s (pde_addr (cr3 s) w)) \<Longrightarrow> m (pde_addr (cr3 s) w) = phys s (pde_addr (cr3 s) w)"
      "\<And>a. fresh_table (phys s) (cr3 s) (page_frame a) \<Longrightarrow> (\<not> ?P \<Longrightarrow> page_frame a \<noteq> f) \<Longrightarrow> m a = phys s a"
      using page_table_add_cases [OF wf i p(4) free] by blast
    define s' where "s' = (if ?P then s else clear_typed s1 (pte_ptr (table_va v 0)) 4096)\<lparr>phys := m\<rparr>"
    have form: "s' = s1\<lparr>phys := m\<rparr> \<or> s' = (clear_typed s1 (pte_ptr (table_va v 0)) 4096)\<lparr>phys := m\<rparr>"
      using fs by (auto simp: s'_def)
    then have fr1: "alloc_frame s1 s'" using phys_frame clear_window_frame [OF s1(1)] by blast
    have bit1: "pool_bit s' q j = pool_bit s1 q j" if "pool_idx s q j" for q j
    proof -
      have "pool_idx s1 q j" using that by (simp add: frame1)
      then show ?thesis using form phys_frame clear_window_frame [OF s1(1)] by blast
    qed
    have fr: "alloc_frame s s'" by (rule alloc_frame_trans [OF s1(2) fr1])
    note sel = alloc_frame_sel [OF fr] alloc_frame_pool [OF fr] alloc_frame_idx [OF fr]
    have cnt: "card (free_pages s q) \<le> Suc (card (free_pages s' q))" for q
    proof -
      have "free_pages s' q = free_pages s1 q"
        using bit1 by (auto simp: free_pages_def sel frame1 pool_idx_def)
      moreover have "card (free_pages s q) \<le> Suc (card (free_pages s1 q))"
        using fs palloc_inv(7) [OF inv] by auto
      ultimately show ?thesis by simp
    qed
    have ph: "phys s' = m" by (simp add: s'_def)
    have "phys_inv s'"
      unfolding phys_inv_def
    proof (intro conjI allI impI)
      show "pools_wf s'" using pw by (simp add: pools_wf_def sel)
      show "pt_wf (phys s') (cr3 s')" using m(2) by (simp add: ph sel)
      fix q
      show "low_map (pool_bitmap (pool_of q s'))" "phy_addr_start (pool_of q s') \<noteq> 0"
        using inv by (simp_all add: phys_inv_def sel)
      fix j assume j: "pool_idx s' q j" "\<not> pool_bit s' q j"
      let ?g = "pool_page (pool_of q s) j"
      have idx: "pool_idx s q j" using j(1) by (simp add: sel)
      have nb1: "\<not> pool_bit s1 q j" using j(2) bit1 [OF idx] by simp
      then have nb: "\<not> pool_bit s q j" using alloc_frame_bit [OF s1(2) idx] by blast
      have un: "unused_page s ?g" using inv idx nb by (simp add: phys_inv_def)
      have "?g \<noteq> p" using pool_page_inject [OF pw idx p(2)] nb p(1,3) by auto
      moreover have "?g \<noteq> f" if "\<not> ?P"
        using f [OF that] pool_page_inject [OF pw idx] nb1 by auto
      ultimately show "unused_page s' (pool_page (pool_of q s') j)"
        using un m(3,4) by (simp add: unused_page_def fresh_table_def ph sel) (metis (no_types))
    qed
    moreover have "tables_frame s s'"
      unfolding tables_frame_def
    proof (intro conjI allI impI)
      fix q j assume idx: "pool_idx s q j" and bit: "pool_bit s q j" and nt: "not_table s (pool_page (pool_of q s) j)"
      have ne: "pool_page (pool_of q s) j \<noteq> f" if "\<not> ?P"
        using f [OF that] pool_page_inject [OF pw idx] bit by auto
      then show "not_table s' (pool_page (pool_of q s) j)"
        using nt m(4) by (simp add: not_table_def fresh_table_def ph sel) (metis (no_types))
      show "phys s' a = phys s a" if "page_frame a = pool_page (pool_of q s) j" for a
        unfolding ph by (rule m(6)) (use nt ne that in \<open>auto simp: not_table_def\<close>)
    qed (use m(5) in \<open>simp add: ph\<close>)
    moreover have "page_table_add s v p = Inr s'" using m(1) by (simp add: s'_def)
    ultimately show ?thesis using fr m(3) cnt by (auto simp: ph sel)
  qed
qed

section \<open>A run of pages\<close>

text \<open>Page \<open>k\<close> of the run that starts at \<open>v\<close>.\<close>

definition run_page :: "u32 \<Rightarrow> nat \<Rightarrow> u32" where
  "run_page v k = v + of_nat k * PG_SIZE"

definition run_ok :: "u32 \<Rightarrow> nat \<Rightarrow> bool" where
  "run_ok v n \<longleftrightarrow> page_frame v = v \<and> 0x400000 \<le> unat v \<and> unat v + n * 4096 \<le> 0xffc00000"

lemma run_page_unat:
  assumes "run_ok v n" "k < n"
  shows "unat (run_page v k) = unat v + k * 4096"
proof -
  have "unat v + k * 4096 < 4294967296" using assms by (auto simp: run_ok_def)
  moreover have "run_page v k = v + of_nat (k * 4096)" by (simp add: run_page_def PG_SIZE_def)
  ultimately show ?thesis by (simp only: unat_add_of_nat_u32)
qed

lemma run_page_frame:
  assumes "run_ok v n" "k < n"
  shows "page_frame (run_page v k) = run_page v k" "own_pde (run_page v k)"
proof -
  note u = run_page_unat [OF assms]
  have "unat v = unat v div 4096 * 4096" using assms(1) unat_page_frame [of v] by (simp add: run_ok_def)
  then have "unat (run_page v k) = (unat v div 4096 + k) * 4096" using u by simp
  then show "page_frame (run_page v k) = run_page v k"
    by (intro u32_eqI) (simp add: unat_page_frame)
  have "k * 4096 + 4096 \<le> n * 4096" using assms(2) by simp
  then have "unat (run_page v k) < 1023 * 4194304" using u assms(1) by (simp add: run_ok_def)
  then have "unat (PDE_IDX (run_page v k)) < 1023" unfolding unat_PDE_IDX by (rule less_mult_imp_div_less)
  moreover have "1 \<le> unat (PDE_IDX (run_page v k))"
    using div_le_mono [of "4194304" "unat (run_page v k)" 4194304] u assms(1) by (simp add: unat_PDE_IDX run_ok_def)
  ultimately show "own_pde (run_page v k)" by (auto simp: own_pde_def)
qed

lemma run_page_inject:
  assumes "run_ok v n" "j < n" "k < n"
  shows "run_page v j = run_page v k \<longleftrightarrow> j = k"
proof
  assume "run_page v j = run_page v k"
  then have "unat v + j * 4096 = unat v + k * 4096"
    unfolding run_page_unat [OF assms(1,2), symmetric] run_page_unat [OF assms(1,3), symmetric] by simp
  then show "j = k" by simp
qed simp

lemma run_page_next: "run_page (v + PG_SIZE) k = run_page v (Suc k)"
  by (simp add: run_page_def algebra_simps)

lemma run_ok_next:
  assumes "run_ok v (Suc n)"
  shows "run_ok (v + PG_SIZE) n"
proof -
  have u: "unat (v + PG_SIZE) = unat v + 4096"
    using assms by (subst unat_add_u32) (simp_all add: run_ok_def PG_SIZE_def)
  have "unat v = unat v div 4096 * 4096" using assms unat_page_frame [of v] by (simp add: run_ok_def)
  then have "unat (v + PG_SIZE) = (unat v div 4096 + 1) * 4096" using u by simp
  then have "page_frame (v + PG_SIZE) = v + PG_SIZE" by (intro u32_eqI) (simp add: unat_page_frame)
  with u show ?thesis using assms by (simp add: run_ok_def)
qed

text \<open>The address space in which page \<open>k\<close> of the run has been mapped to \<open>fs ! k\<close>.\<close>

definition run_mapped :: "kstate \<Rightarrow> kstate \<Rightarrow> u32 \<Rightarrow> u32 list \<Rightarrow> bool" where
  "run_mapped s s' v fs \<longleftrightarrow>
     (\<forall>w k. k < length fs \<longrightarrow> page_frame w = run_page v k \<longrightarrow> vmap s' w = Some (fs ! k + page_offset w)) \<and>
     (\<forall>w. own_pde w \<longrightarrow> (\<forall>k < length fs. page_frame w \<noteq> run_page v k) \<longrightarrow> vmap s' w = vmap s w)"

definition fresh_pages :: "kstate \<Rightarrow> kstate \<Rightarrow> pool_flags \<Rightarrow> u32 list \<Rightarrow> bool" where
  "fresh_pages s s' pf fs \<longleftrightarrow> distinct fs \<and>
     (\<forall>f \<in> set fs. \<exists>i. f = pool_page (pool_of pf s) i \<and> pool_idx s pf i \<and> \<not> pool_bit s pf i \<and> pool_bit s' pf i)"

lemma own_pde_frame: "page_frame w = page_frame v \<Longrightarrow> own_pde w = own_pde v"
  by (simp add: page_frame_idx own_pde_def)

lemma run_mapped_Cons:
  assumes run: "run_ok v (Suc (length fs))"
    and one: "\<And>w. own_pde w \<Longrightarrow> vmap s1 w =
      (if page_frame w = page_frame v then Some (p + page_offset w) else vmap s w)"
    and rest: "run_mapped s1 s2 (v + PG_SIZE) fs"
  shows "run_mapped s s2 v (p # fs)"
proof -
  have v0: "run_page v 0 = v" by (simp add: run_page_def)
  have vf: "page_frame v = v" "own_pde v" using run_page_frame [OF run, of 0] by (simp_all add: v0)
  show ?thesis
    unfolding run_mapped_def
  proof (intro conjI allI impI)
    fix w k assume k: "k < length (p # fs)" "page_frame w = run_page v k"
    have pw: "own_pde w"
      using run_page_frame [OF run, of k] k own_pde_frame [of w "run_page v k"] by simp
    show "vmap s2 w = Some ((p # fs) ! k + page_offset w)"
    proof (cases k)
      case 0
      have "page_frame w \<noteq> run_page (v + PG_SIZE) j" if "j < length fs" for j
        using run_page_inject [OF run, of "Suc j" 0] that k(2) 0 by (auto simp: run_page_next)
      then have "vmap s2 w = vmap s1 w" using rest pw unfolding run_mapped_def by blast
      then show ?thesis using one [OF pw] k(2) 0 by (simp add: v0 vf)
    next
      case (Suc j)
      then have "page_frame w = run_page (v + PG_SIZE) j" "j < length fs"
        using k by (simp_all add: run_page_next)
      then show ?thesis using rest Suc unfolding run_mapped_def by simp
    qed
  next
    fix w assume pw: "own_pde w" and out: "\<forall>k < length (p # fs). page_frame w \<noteq> run_page v k"
    have "page_frame w \<noteq> run_page (v + PG_SIZE) j" if "j < length fs" for j
      using out that by (auto simp: run_page_next)
    then have "vmap s2 w = vmap s1 w" using rest pw unfolding run_mapped_def by blast
    moreover have "page_frame w \<noteq> page_frame v" using out vf v0 by force
    ultimately show "vmap s2 w = vmap s w" using one [OF pw] by simp
  qed
qed

definition map_pages_ok :: "nat \<Rightarrow> pool_flags \<Rightarrow> u32 \<Rightarrow> kstate \<Rightarrow> bool" where
  "map_pages_ok n pf v s \<longleftrightarrow>
     map_pages n pf v s = Inl (Assert_failed ''idx!=-1'') \<and>
       (card (free_pages s PF_KERNEL) < 2 * n \<or> card (free_pages s pf) < 2 * n) \<or>
     (\<exists>s' fs. map_pages n pf v s = Inr (True, s') \<and> phys_inv s' \<and> alloc_frame s s' \<and> length fs = n \<and>
        tables_frame s s' \<and> (\<forall>f \<in> set fs. not_table s' f) \<and>
        fresh_pages s s' pf fs \<and> run_mapped s s' v fs \<and>
        (\<forall>q. card (free_pages s q) \<le> 2 * n + card (free_pages s' q)))"

lemma map_pages_run:
  assumes "phys_inv s" "run_ok v n" "\<And>k. k < n \<Longrightarrow> vmap s (run_page v k) = None"
  shows "map_pages_ok n pf v s"
  using assms
proof (induction n arbitrary: s v)
  case 0
  then show ?case by (simp add: map_pages_ok_def fresh_pages_def run_mapped_def tables_frame_same)
next
  case (Suc n)
  have v0: "run_page v 0 = v" by (simp add: run_page_def)
  note vf = run_page_frame [OF Suc.prems(2), of 0, unfolded v0]
  show ?case
  proof (cases "palloc s pf")
    case (Inl e)
    then show ?thesis using palloc_fails [OF Inl] by (simp add: map_pages_ok_def)
  next
    case (Inr r)
    obtain p s1 where r: "r = (p, s1)" by (cases r)
    note pal = palloc_inv [OF Suc.prems(1) Inr [unfolded r]]
    note f1 = alloc_frame_sel [OF pal(2)] alloc_frame_pool [OF pal(2)] alloc_frame_idx [OF pal(2)]
    obtain i where i: "p = pool_page (pool_of pf s) i" "pool_idx s pf i" "\<not> pool_bit s pf i" "pool_bit s1 pf i"
      using pal(6) by blast
    have p0: "p \<noteq> 0" using pool_page_nonzero [OF Suc.prems(1) i(2)] i(1) by simp
    have pp: "page_frame p = p" using pal(3) by (simp add: unused_page_def fresh_table_def)
    have "vmap s1 v = None" using Suc.prems(3) [of 0] by (simp add: v0 pal(4) f1)
    from page_table_add_inv [OF pal(1) vf(2) this _ _ i(4) pp] i(1,2)
    have add: "page_table_add s1 v p = Inl (Assert_failed ''idx!=-1'') \<and> free_pages s1 PF_KERNEL = {} \<or>
      (\<exists>s2. page_table_add s1 v p = Inr s2 \<and> phys_inv s2 \<and> alloc_frame s1 s2 \<and> tables_frame s1 s2 \<and>
        (\<forall>q. card (free_pages s1 q) \<le> Suc (card (free_pages s2 q))) \<and>
        (\<forall>w. own_pde w \<longrightarrow> vmap s2 w =
          (if page_frame w = page_frame v then Some (p + page_offset w) else vmap s1 w)))"
      by (simp add: f1)
    then show ?thesis
    proof
      assume fail: "page_table_add s1 v p = Inl (Assert_failed ''idx!=-1'') \<and> free_pages s1 PF_KERNEL = {}"
      then have "card (free_pages s PF_KERNEL) \<le> 1" using pal(7) [of PF_KERNEL] by simp
      then show ?thesis using fail Inr r p0 by (simp add: map_pages_ok_def)
    next
      assume "\<exists>s2. page_table_add s1 v p = Inr s2 \<and> phys_inv s2 \<and> alloc_frame s1 s2 \<and> tables_frame s1 s2 \<and>
        (\<forall>q. card (free_pages s1 q) \<le> Suc (card (free_pages s2 q))) \<and>
        (\<forall>w. own_pde w \<longrightarrow> vmap s2 w =
          (if page_frame w = page_frame v then Some (p + page_offset w) else vmap s1 w))"
      then obtain s2 where s2: "page_table_add s1 v p = Inr s2" "phys_inv s2" "alloc_frame s1 s2" "tables_frame s1 s2"
        and cnt2: "\<And>q. card (free_pages s1 q) \<le> Suc (card (free_pages s2 q))"
        and map2: "\<And>w. own_pde w \<Longrightarrow> vmap s2 w =
          (if page_frame w = page_frame v then Some (p + page_offset w) else vmap s w)"
        by (auto simp: pal(4) f1)
      have fr2: "alloc_frame s s2" by (rule alloc_frame_trans [OF pal(2) s2(3)])
      have "tables_frame s s1" by (rule tables_frame_same) (simp_all add: pal(4) f1)
      then have tf2: "tables_frame s s2" by (rule tables_frame_trans [OF pal(2) _ s2(4)])
      have "not_table s1 p" using pal(3) by (simp add: unused_page_def not_table_def)
      then have nt2: "not_table s2 p" using s2(4) i by (simp add: tables_frame_def f1)
      have cnt: "card (free_pages s q) \<le> Suc (Suc (card (free_pages s2 q)))" for q
        using pal(7) [of q] cnt2 [of q] by simp
      have step: "map_pages (Suc n) pf v s = map_pages n pf (v + PG_SIZE) s2"
        using Inr r p0 s2(1) by simp
      have ok: "map_pages_ok n pf (v + PG_SIZE) s2"
      proof (cases "n = 0")
        case True
        then show ?thesis using s2(2) by (simp add: map_pages_ok_def fresh_pages_def run_mapped_def tables_frame_same)
      next
        case False
        show ?thesis
        proof (rule Suc.IH [OF s2(2)])
          show "run_ok (v + PG_SIZE) n" using run_ok_next [OF Suc.prems(2)] .
          show "vmap s2 (run_page (v + PG_SIZE) k) = None" if "k < n" for k
          proof -
            have k: "Suc k < Suc n" using that by simp
            have "run_page v (Suc k) \<noteq> run_page v 0"
              using run_page_inject [OF Suc.prems(2) k, of 0] by simp
            then show ?thesis
              using map2 [OF run_page_frame(2) [OF Suc.prems(2) k]] run_page_frame(1) [OF Suc.prems(2) k]
                vf(1) Suc.prems(3) [OF k] by (simp add: run_page_next v0)
          qed
        qed
      qed
      show ?thesis
      proof (cases "map_pages n pf (v + PG_SIZE) s2")
        case (Inl e)
        then show ?thesis using ok step cnt [of PF_KERNEL] cnt [of pf] by (auto simp: map_pages_ok_def)
      next
        case (Inr x)
        then obtain s' fs where s': "map_pages n pf (v + PG_SIZE) s2 = Inr (True, s')" "phys_inv s'"
          "alloc_frame s2 s'" "length fs = n" "fresh_pages s2 s' pf fs" "run_mapped s2 s' (v + PG_SIZE) fs"
          "tables_frame s2 s'" "\<forall>f \<in> set fs. not_table s' f"
          "\<And>q. card (free_pages s2 q) \<le> 2 * n + card (free_pages s' q)"
          using ok by (auto simp: map_pages_ok_def)
        have fr': "alloc_frame s s'" by (rule alloc_frame_trans [OF fr2 s'(3)])
        note g = alloc_frame_pool [OF fr2] alloc_frame_idx [OF fr2]
        have pool2: "pool_bit s2 pf i" using alloc_frame_bit [OF s2(3), of pf i] i(2,4) by (simp add: f1)
        have "tables_frame s s'" by (rule tables_frame_trans [OF fr2 tf2 s'(7)])
        moreover have "not_table s' p" using s'(7) nt2 i(1,2) pool2 by (simp add: tables_frame_def g)
        moreover have "pool_bit s' pf i" using alloc_frame_bit [OF s'(3), of pf i] i(2) pool2 by (simp add: g)
        moreover have "p \<notin> set fs"
        proof
          assume "p \<in> set fs"
          then obtain j where j: "p = pool_page (pool_of pf s) j" "pool_idx s pf j" "\<not> pool_bit s2 pf j"
            using s'(5) by (auto simp: fresh_pages_def g)
          have "i = j" using pool_page_inject [of s pf i pf j] Suc.prems(1) i(1,2) j(1,2) by (simp add: phys_inv_def)
          then show False using j(3) pool2 by simp
        qed
        moreover have "\<exists>j. f = pool_page (pool_of pf s) j \<and> pool_idx s pf j \<and> \<not> pool_bit s pf j \<and> pool_bit s' pf j"
          if "f \<in> set fs" for f
          using s'(5) that alloc_frame_bit [OF fr2] unfolding fresh_pages_def g by blast
        ultimately have "fresh_pages s s' pf (p # fs)" using s'(5) i by (auto simp: fresh_pages_def)
        moreover have "run_mapped s s' v (p # fs)"
          by (rule run_mapped_Cons [OF _ map2 s'(6)]) (use Suc.prems(2) s'(4) in simp_all)
        moreover have "card (free_pages s q) \<le> 2 * Suc n + card (free_pages s' q)" for q
          using le_trans [OF cnt [of q], of "Suc (Suc (2 * n + card (free_pages s' q)))"] s'(9) [of q] by simp
        ultimately show ?thesis
          unfolding map_pages_ok_def step using s'(1,2,4,8) fr' \<open>tables_frame s s'\<close> \<open>not_table s' p\<close>
          by (intro disjI2 exI [of _ s'] exI [of _ "p # fs"]) simp
      qed
    qed
  qed
qed

section \<open>malloc_page\<close>

definition vpool_inv :: "kstate \<Rightarrow> pool_flags \<Rightarrow> bool" where
  "vpool_inv s pf \<longleftrightarrow>
     (let va = vaddr_pool pf s; b = vaddr_bitmap va; start = Kernel_State.vaddr_start va;
          L = unat (btmp_bytes_len b) in
      page_frame start = start \<and> 0x400000 \<le> unat start \<and>
      unat start + L * 4096 \<le> (if pf = PF_KERNEL then 0xffc00000 else 0xbffff000) \<and>
      map_bytes b \<inter> map_bytes (pool_bitmap (kernel_pool s)) = {} \<and>
      map_bytes b \<inter> map_bytes (pool_bitmap (user_pool s)) = {} \<and> low_map b \<and>
      (\<forall>i < L. \<not> bitmap_scan_test (mem s) b (of_nat i) \<longrightarrow> vmap s (run_page start i) = None))"

text \<open>The virtual half: the run the scan found, with its bits set.\<close>

lemma vaddr_get_run:
  fixes n
  assumes vinv: "vpool_inv s pf"
  defines "b \<equiv> vaddr_bitmap (vaddr_pool pf s)" and "start \<equiv> Kernel_State.vaddr_start (vaddr_pool pf s)"
  defines "i \<equiv> bitmap_scan (mem s) b n"
  shows "i = - 1 \<Longrightarrow> vaddr_get s pf n =
      (if pf = PF_KERNEL then Inl (Assert_failed ''bits_idx_start!=-1'') else Inr (NULL, s))"
    and "i \<noteq> - 1 \<Longrightarrow> 0 < n \<Longrightarrow> vaddr_get s pf n =
      Inr (run_page start (unat i), s\<lparr>mem := set_range (mem s) b i (unat n) True\<rparr>)"
proof -
  show "i = - 1 \<Longrightarrow> vaddr_get s pf n =
      (if pf = PF_KERNEL then Inl (Assert_failed ''bits_idx_start!=-1'') else Inr (NULL, s))"
    by (cases pf) (simp_all add: vaddr_get_def i_def b_def vaddr_pool_def Let_def)
  assume i: "i \<noteq> - 1" and n: "0 < n"
  have lt: "unat i + unat n < unat (btmp_bytes_len b)"
    using bm.scan_law [OF i_def [THEN meta_eq_to_obj_eq, symmetric] i] by simp
  have ok: "run_ok start (unat (btmp_bytes_len b))"
    using vinv by (cases pf) (simp_all add: vpool_inv_def Let_def run_ok_def b_def start_def)
  have page: "start + i * PG_SIZE = run_page start (unat i)" by (simp add: run_page_def)
  show "vaddr_get s pf n =
      Inr (run_page start (unat i), s\<lparr>mem := set_range (mem s) b i (unat n) True\<rparr>)"
  proof (cases pf)
    case PF_KERNEL
    then show ?thesis
      using i page by (simp add: vaddr_get_def i_def b_def start_def vaddr_pool_def Let_def set_loop_range)
  next
    case PF_USER
    have "unat (run_page start (unat i)) = unat start + unat i * 4096"
      using run_page_unat [OF ok] lt by simp
    moreover have "unat i * 4096 + 4096 \<le> unat (btmp_bytes_len b) * 4096" using lt by simp
    moreover have "unat start + unat (btmp_bytes_len b) * 4096 \<le> 0xbffff000"
      using vinv PF_USER by (simp add: vpool_inv_def Let_def b_def start_def)
    ultimately have "unat (run_page start (unat i)) < unat (0xbffff000 :: u32)" by simp
    then have "start + i * PG_SIZE < 0xc0000000 - PG_SIZE"
      unfolding page by (simp add: word_less_nat_alt PG_SIZE_def)
    then show ?thesis
      using i page PF_USER
      by (simp add: vaddr_get_def i_def b_def start_def vaddr_pool_def Let_def set_loop_range)
  qed
qed

lemma set_range_phys_inv:
  assumes inv: "phys_inv s" and vinv: "vpool_inv s pf"
  defines "b \<equiv> vaddr_bitmap (vaddr_pool pf s)"
  assumes lt: "unat i + n < unat (btmp_bytes_len b)"
  shows "phys_inv (s\<lparr>mem := set_range (mem s) b i n v\<rparr>)"
    and "pool_idx s q j \<Longrightarrow> pool_bit (s\<lparr>mem := set_range (mem s) b i n v\<rparr>) q j = pool_bit s q j"
proof -
  let ?s = "s\<lparr>mem := set_range (mem s) b i n v\<rparr>"
  have disj: "map_bytes b \<inter> map_bytes (pool_bitmap (pool_of q s)) = {}" for q
    using vinv by (cases q) (simp_all add: vpool_inv_def Let_def b_def pool_of_def)
  have keep: "set_range (mem s) b i n v a = mem s a" if "a \<notin> map_bytes b" for a
    using lt that unat_u32_bound [of "btmp_bytes_len b"] by (intro set_range_frame) auto
  show bit: "pool_bit ?s q j = pool_bit s q j" if "pool_idx s q j" for q j
    unfolding pool_bit_def pool_of_mem
    by (rule test_frame) (use that disj [of q] keep in \<open>auto simp: pool_idx_def\<close>)
  have same: "pool_idx ?s q j = pool_idx s q j" "unused_page ?s x = unused_page s x" for q j x
    by (simp_all add: pool_idx_def unused_page_def)
  show "phys_inv ?s"
    using inv bit unfolding phys_inv_def by (simp add: same)
qed

text \<open>
  What malloc_page promises: a run of mapped pages on physical pages that were free, or a failed
  assertion whose cause is named.
\<close>

definition no_window :: "kstate \<Rightarrow> pool_flags \<Rightarrow> u32 \<Rightarrow> bool" where
  "no_window s pf n \<longleftrightarrow> bitmap_scan (mem s) (vaddr_bitmap (vaddr_pool pf s)) n = - 1"

definition few_pages :: "kstate \<Rightarrow> pool_flags \<Rightarrow> u32 \<Rightarrow> bool" where
  "few_pages s pf n \<longleftrightarrow> card (free_pages s PF_KERNEL) < 2 * unat n \<or> card (free_pages s pf) < 2 * unat n"

text \<open>The bits of the virtual pages: the run was clear, is set now, and the others are as before.\<close>

definition window_taken :: "kstate \<Rightarrow> kstate \<Rightarrow> pool_flags \<Rightarrow> u32 \<Rightarrow> nat \<Rightarrow> bool" where
  "window_taken s s' pf v n \<longleftrightarrow> vaddr_pool pf s' = vaddr_pool pf s \<and>
     (let va = vaddr_pool pf s; b = vaddr_bitmap va in
      \<exists>i. v = run_page (Kernel_State.vaddr_start va) (unat i) \<and> unat i + n < unat (btmp_bytes_len b) \<and>
        (\<forall>a \<in> span i n. \<not> bitmap_scan_test (mem s) b a) \<and>
        (\<forall>j. unat j < 8 * unat (btmp_bytes_len b) \<longrightarrow>
           bitmap_scan_test (mem s') b j = (j \<in> span i n \<or> bitmap_scan_test (mem s) b j)))"

text \<open>No run of \<open>n\<close> clear bits starts below the page \<open>v\<close>.\<close>

definition lowest_window :: "kstate \<Rightarrow> pool_flags \<Rightarrow> u32 \<Rightarrow> nat \<Rightarrow> bool" where
  "lowest_window s pf v n \<longleftrightarrow> (let va = vaddr_pool pf s in
     \<forall>k. unat (Kernel_State.vaddr_start va) + k * 4096 < unat v \<longrightarrow> \<not> window_free (mem s) (vaddr_bitmap va) k n)"

definition malloc_page_ok :: "kstate \<Rightarrow> pool_flags \<Rightarrow> u32 \<Rightarrow> u32 \<Rightarrow> kstate \<Rightarrow> u32 list \<Rightarrow> bool" where
  "malloc_page_ok s pf n v s' fs \<longleftrightarrow>
     v \<noteq> NULL \<and> run_ok v (unat n) \<and> length fs = unat n \<and> phys_inv s' \<and> vpool_inv s' pf \<and>
     fresh_pages s s' pf fs \<and> run_mapped s s' v fs \<and> window_taken s s' pf v (unat n) \<and>
     kernel_pool s' = kernel_pool s \<and> user_pool s' = user_pool s \<and> tasks s' = tasks s \<and>
     (\<forall>f \<in> set fs. not_table s' f) \<and> cr3 s' = cr3 s \<and> cur s' = cur s \<and>
     (\<forall>a. below_window a \<longrightarrow> lheap s' a = lheap s a \<and> arenas s' a = arenas s a) \<and>
     lowest_window s pf v (unat n) \<and> (\<forall>q. card (free_pages s q) \<le> 2 * unat n + card (free_pages s' q)) \<and>
     space_frame s s' \<and>
     (\<forall>a. below_window a \<longrightarrow> a \<notin> map_bytes (pool_bitmap (kernel_pool s)) \<longrightarrow> a \<notin> map_bytes (pool_bitmap (user_pool s)) \<longrightarrow>
        a \<notin> map_bytes (vaddr_bitmap (vaddr_pool pf s)) \<longrightarrow> mem s' a = mem s a)"

lemma window_after_run:
  assumes vinv: "vpool_inv s pf" and lt: "unat i + n < unat (btmp_bytes_len (vaddr_bitmap (vaddr_pool pf s)))"
    and clear: "\<forall>a \<in> span i n. \<not> bitmap_scan_test (mem s) (vaddr_bitmap (vaddr_pool pf s)) a"
  defines "b \<equiv> vaddr_bitmap (vaddr_pool pf s)"
  defines "s1 \<equiv> s\<lparr>mem := set_range (mem s) (vaddr_bitmap (vaddr_pool pf s)) i n True\<rparr>"
  assumes fr: "alloc_frame s1 s'"
  shows "window_taken s s' pf (run_page (Kernel_State.vaddr_start (vaddr_pool pf s)) (unat i)) n"
proof -
  note sel = alloc_frame_sel [OF fr]
  have va: "vaddr_pool pf s' = vaddr_pool pf s"
    by (simp add: vaddr_pool_def sel) (simp add: s1_def)
  have lo: "below_window a" "a \<notin> map_bytes (pool_bitmap (kernel_pool s1))"
    "a \<notin> map_bytes (pool_bitmap (user_pool s1))" if "a \<in> map_bytes b" for a
    using vinv that by (auto simp: vpool_inv_def Let_def low_map_def b_def s1_def)
  have mem': "mem s' a = mem s1 a" if "a \<in> map_bytes b" for a
    by (rule alloc_frame_mem [OF fr lo [OF that]])
  have "bitmap_scan_test (mem s') b j = (j \<in> span i n \<or> bitmap_scan_test (mem s) b j)"
    if "unat j < 8 * unat (btmp_bytes_len b)" for j
  proof -
    have "bitmap_scan_test (mem s') b j = bitmap_scan_test (mem s1) b j"
      by (rule test_frame [OF that]) (rule mem')
    then show ?thesis by (simp add: s1_def b_def set_range_test)
  qed
  then show ?thesis
    using va lt clear unfolding window_taken_def Let_def b_def by blast
qed

lemma vpool_after_run:
  assumes vinv: "vpool_inv s pf" and lt: "unat i + n < unat (btmp_bytes_len (vaddr_bitmap (vaddr_pool pf s)))"
  defines "b \<equiv> vaddr_bitmap (vaddr_pool pf s)" and "start \<equiv> Kernel_State.vaddr_start (vaddr_pool pf s)"
  defines "s1 \<equiv> s\<lparr>mem := set_range (mem s) (vaddr_bitmap (vaddr_pool pf s)) i n True\<rparr>"
  assumes fr: "alloc_frame s1 s'" and run: "run_mapped s1 s' (run_page start (unat i)) fs" and len: "length fs = n"
  shows "vpool_inv s' pf"
proof -
  let ?L = "unat (btmp_bytes_len b)"
  note sel = alloc_frame_sel [OF fr]
  have va: "vaddr_pool pf s' = vaddr_pool pf s"
    by (simp add: vaddr_pool_def sel) (simp add: s1_def)
  have pools: "kernel_pool s' = kernel_pool s" "user_pool s' = user_pool s" "cr3 s' = cr3 s"
    by (simp_all add: sel) (simp_all add: s1_def)
  have lo: "below_window a" "a \<notin> map_bytes (pool_bitmap (kernel_pool s1))"
    "a \<notin> map_bytes (pool_bitmap (user_pool s1))" if "a \<in> map_bytes b" for a
    using vinv that by (auto simp: vpool_inv_def Let_def low_map_def b_def s1_def)
  have mem': "mem s' a = mem s1 a" if "a \<in> map_bytes b" for a
    by (rule alloc_frame_mem [OF fr lo [OF that]])
  have ok: "run_ok start ?L"
    using vinv by (cases pf) (simp_all add: vpool_inv_def Let_def run_ok_def b_def start_def)
  have "vmap s' (run_page start j) = None"
    if j: "j < ?L" and clear: "\<not> bitmap_scan_test (mem s') b (of_nat j)" for j
  proof -
    have "?L < 4294967296" by (rule unat_u32_bound)
    then have uj: "unat (of_nat j :: u32) = j" using j by (simp add: unat_of_nat)
    have "bitmap_scan_test (mem s') b (of_nat j) = bitmap_scan_test (mem s1) b (of_nat j)"
      by (rule test_frame) (use j uj mem' in simp_all)
    then have out: "of_nat j \<notin> span i n" and cl: "\<not> bitmap_scan_test (mem s) b (of_nat j)"
      using clear by (auto simp: s1_def b_def set_range_test split: if_splits)
    have "run_page start j \<noteq> run_page (run_page start (unat i)) k" if "k < n" for k
    proof
      assume eq: "run_page start j = run_page (run_page start (unat i)) k"
      have "run_page (run_page start (unat i)) k = run_page start (unat i + k)"
        by (simp add: run_page_def algebra_simps)
      then have "j = unat i + k" using eq run_page_inject [OF ok j, of "unat i + k"] lt that by (simp add: b_def)
      then have "of_nat j = i + of_nat k" by simp
      then show False using out that by (auto simp: span_def)
    qed
    then have "vmap s' (run_page start j) = vmap s1 (run_page start j)"
      using run run_page_frame [OF ok j] len unfolding run_mapped_def by simp
    also have "\<dots> = vmap s (run_page start j)" by (simp add: s1_def)
    also have "\<dots> = None" using vinv j cl by (simp add: vpool_inv_def Let_def b_def start_def)
    finally show ?thesis .
  qed
  then show ?thesis
    using vinv unfolding vpool_inv_def Let_def va pools b_def start_def by simp
qed

lemma malloc_page_run:
  assumes inv: "phys_inv s" and vinv: "vpool_inv s pf"
  shows "(\<exists>msg. malloc_page s pf n = Inl (Assert_failed msg)) \<and>
      (\<not> (0 < n \<and> n < 3840) \<or> no_window s pf n \<or> few_pages s pf n) \<or>
    (\<exists>v s' fs. malloc_page s pf n = Inr (v, s') \<and> malloc_page_ok s pf n v s' fs)"
proof -
  let ?b = "vaddr_bitmap (vaddr_pool pf s)" and ?start = "Kernel_State.vaddr_start (vaddr_pool pf s)"
  let ?i = "bitmap_scan (mem s) ?b n"
  let ?v = "run_page ?start (unat ?i)" and ?s1 = "s\<lparr>mem := set_range (mem s) ?b ?i (unat n) True\<rparr>"
  consider (bad) "\<not> (0 < n \<and> n < 3840)" | (none) "0 < n \<and> n < 3840" "?i = - 1"
    | (run) "0 < n \<and> n < 3840" "?i \<noteq> - 1" by blast
  then show ?thesis
  proof cases
    case bad
    then show ?thesis by (auto simp: malloc_page_def assertR_def)
  next
    case none
    then show ?thesis
      using vaddr_get_run(1) [OF vinv none(2)] by (simp add: malloc_page_def no_window_def)
  next
    case run
    have lt: "unat ?i + unat n < unat (btmp_bytes_len ?b)" using bm.scan_law [OF refl run(2)] by simp
    have free: "\<forall>a \<in> span ?i (unat n). \<not> bitmap_scan_test (mem s) ?b a" using bm.scan_law [OF refl run(2)] by blast
    have ok: "run_ok ?start (unat (btmp_bytes_len ?b))"
      using vinv by (cases pf) (simp_all add: vpool_inv_def Let_def run_ok_def)
    have i: "unat ?i < unat (btmp_bytes_len ?b)" using lt by simp
    have comp: "run_page ?v k = run_page ?start (unat ?i + k)" for k by (simp add: run_page_def algebra_simps)
    have okv: "run_ok ?v (unat n)"
    proof -
      have "(unat ?i + unat n) * 4096 \<le> unat (btmp_bytes_len ?b) * 4096" using lt by simp
      then show ?thesis
        using ok run_page_frame(1) [OF ok i] run_page_unat [OF ok i] by (simp add: run_ok_def)
    qed
    have v0: "?v \<noteq> 0"
    proof
      assume "?v = 0"
      then have "unat ?start + unat ?i * 4096 = 0" using run_page_unat [OF ok i] by simp
      then show False using vinv by (simp add: vpool_inv_def Let_def unat_eq_0)
    qed
    have unmapped: "vmap ?s1 (run_page ?v k) = None" if "k < unat n" for k
    proof -
      have "?i + of_nat k \<in> span ?i (unat n)" using that by (auto simp: span_def)
      then have "\<not> bitmap_scan_test (mem s) ?b (of_nat (unat ?i + k))" using free by simp
      moreover have "unat ?i + k < unat (btmp_bytes_len ?b)" using that lt by simp
      ultimately have "vmap s (run_page ?start (unat ?i + k)) = None"
        using vinv unfolding vpool_inv_def Let_def by blast
      then show ?thesis by (simp add: comp)
    qed
    have get: "vaddr_get s pf n = Inr (?v, ?s1)" using vaddr_get_run(2) [OF vinv run(2)] run(1) by blast
    note inv1 = set_range_phys_inv [OF inv vinv lt, where v = True]
    have free1: "free_pages ?s1 q = free_pages s q" for q
      using inv1(2) by (auto simp: free_pages_def pool_idx_def)
    from map_pages_run [OF inv1(1) okv unmapped, of pf] have "map_pages_ok (unat n) pf ?v ?s1" .
    then show ?thesis
    proof (cases "map_pages (unat n) pf ?v ?s1")
      case (Inl e)
      then have "e = Assert_failed ''idx!=-1''" "few_pages s pf n"
        using \<open>map_pages_ok (unat n) pf ?v ?s1\<close> by (auto simp: map_pages_ok_def few_pages_def free1)
      then show ?thesis using Inl get run(1) v0 by (simp add: malloc_page_def)
    next
      case (Inr x)
      then obtain s' fs where s': "map_pages (unat n) pf ?v ?s1 = Inr (True, s')" "phys_inv s'"
        "alloc_frame ?s1 s'" "length fs = unat n" "fresh_pages ?s1 s' pf fs" "run_mapped ?s1 s' ?v fs"
        "\<forall>f \<in> set fs. not_table s' f" "\<forall>q. card (free_pages s q) \<le> 2 * unat n + card (free_pages s' q)"
        "tables_frame ?s1 s'"
        using \<open>map_pages_ok (unat n) pf ?v ?s1\<close> by (auto simp: map_pages_ok_def free1)
      have fresh: "fresh_pages s s' pf fs"
      proof -
        have "pool_idx ?s1 pf j = pool_idx s pf j" for j by (simp add: pool_idx_def)
        then show ?thesis using s'(5) inv1(2) unfolding fresh_pages_def pool_of_mem by blast
      qed
      have mapped: "run_mapped s s' ?v fs" using s'(6) by (simp add: run_mapped_def)
      have "vmap s' w = vmap s w" if w: "own_pde w" "vmap s w \<noteq> None" for w
      proof -
        have "page_frame w \<noteq> run_page ?v k" if k: "k < length fs" for k
        proof
          assume "page_frame w = run_page ?v k"
          then have "page_frame (run_page ?v k) = page_frame w" using run_page_frame(1) [OF okv] k s'(4) by simp
          then have "vmap s w = None"
            using mmu_walk_None_frame [of w "run_page ?v k" "phys s" "cr3 s"] unmapped [of k] k s'(4) by simp
          then show False using w(2) by simp
        qed
        then show ?thesis using mapped w(1) unfolding run_mapped_def by blast
      qed
      moreover have "pool_idx ?s1 q i = pool_idx s q i" for q i by (simp add: pool_idx_def)
      then have "tables_frame s s'" "\<forall>q i. pool_idx s q i \<longrightarrow> pool_bit s q i \<longrightarrow> pool_bit s' q i"
        using s'(9) inv1(2) alloc_frame_bit [OF s'(3)] by (simp_all add: tables_frame_def not_table_def)
      ultimately have "space_frame s s'"
        using alloc_frame_sel [OF s'(3)] alloc_frame_pool [OF s'(3)] by (simp add: space_frame_def)
      moreover note mapped
      moreover have "vpool_inv s' pf" by (rule vpool_after_run [OF vinv lt s'(3,6,4)])
      moreover have "window_taken s s' pf ?v (unat n)" by (rule window_after_run [OF vinv lt free s'(3)])
      moreover have "lheap s' a = lheap s a \<and> arenas s' a = arenas s a" if "below_window a" for a
        using alloc_frame_typed [OF s'(3) that] by simp
      moreover have "lowest_window s pf ?v (unat n)"
      proof -
        have "\<forall>k < unat ?i. \<not> window_free (mem s) ?b k (unat n)"
          using bitmap_scan_cases [of "mem s" ?b n] run(2) by blast
        then show ?thesis using run_page_unat [OF ok i] by (simp add: lowest_window_def Let_def)
      qed
      moreover have "mem s' a = mem s a"
        if a: "below_window a" "a \<notin> map_bytes (pool_bitmap (kernel_pool s))" "a \<notin> map_bytes (pool_bitmap (user_pool s))" "a \<notin> map_bytes ?b" for a
      proof -
        have "unat ?i + unat n \<le> 8 * unat (btmp_bytes_len ?b)" "unat ?i + unat n < 4294967296"
          using lt unat_u32_bound [of "btmp_bytes_len ?b"] by linarith+
        then have "mem ?s1 a = mem s a" using set_range_frame [OF _ _ a(4)] by simp
        moreover have "mem s' a = mem ?s1 a" by (rule alloc_frame_mem [OF s'(3) a(1)]) (use a(2,3) in simp_all)
        ultimately show ?thesis by simp
      qed
      ultimately have "malloc_page_ok s pf n ?v s' fs"
        using v0 okv s'(2,4,7,8) fresh alloc_frame_sel [OF s'(3)] by (simp add: malloc_page_ok_def)
      moreover have "malloc_page s pf n = Inr (?v, s')"
        using get run(1) v0 s'(1) by (simp add: malloc_page_def)
      ultimately show ?thesis by blast
    qed
  qed
qed

section \<open>mfree_page\<close>

text \<open>The run of pages a release starts from: mapped, page by page, to pages of one pool.\<close>

definition run_on :: "kstate \<Rightarrow> pool_flags \<Rightarrow> u32 \<Rightarrow> u32 list \<Rightarrow> bool" where
  "run_on s pf v is \<longleftrightarrow> run_ok v (length is) \<and> distinct is \<and>
     (\<forall>k < length is. pool_idx s pf (is ! k) \<and> vmap s (run_page v k) = Some (pool_page (pool_of pf s) (is ! k)))"

definition unmapped :: "kstate \<Rightarrow> kstate \<Rightarrow> u32 \<Rightarrow> nat \<Rightarrow> bool" where
  "unmapped s s' v n \<longleftrightarrow> (\<forall>w. own_pde w \<longrightarrow>
     vmap s' w = (if \<exists>k < n. page_frame w = run_page v k then None else vmap s w))"

definition pages_freed :: "kstate \<Rightarrow> kstate \<Rightarrow> pool_flags \<Rightarrow> u32 set \<Rightarrow> bool" where
  "pages_freed s s' pf js \<longleftrightarrow> (\<forall>q j. pool_idx s q j \<longrightarrow>
     pool_bit s' q j = (\<not> (q = pf \<and> j \<in> js) \<and> pool_bit s q j))"

lemma vmap_present: "vmap s w = Some x \<Longrightarrow> present (phys s (pde_addr (cr3 s) w))"
  by (simp add: mmu_walk_def Let_def split: if_splits)

lemma unmap_one:
  assumes wf: "pt_wf (phys s) (cr3 s)" and pw: "pools_wf s" and i: "pool_idx s pf i"
    and v: "own_pde v" "vmap s v = Some (pool_page (pool_of pf s) i)"
  shows "\<exists>m ph. bindR (addr_v2p s v) (\<lambda>p. bindR (pfree s p) (\<lambda>s1. page_table_pte_remove s1 v)) =
      Inr (s\<lparr>mem := m, phys := ph\<rparr>) \<and> pt_wf ph (cr3 s) \<and>
    (\<forall>w. own_pde w \<longrightarrow> mmu_walk ph (cr3 s) w = (if page_frame w = page_frame v then None else vmap s w)) \<and>
    (\<forall>w. ph (pde_addr (cr3 s) w) = phys s (pde_addr (cr3 s) w)) \<and>
    pages_freed s (s\<lparr>mem := m, phys := ph\<rparr>) pf {i} \<and>
    (\<forall>a. a \<notin> map_bytes (pool_bitmap (pool_of pf s)) \<longrightarrow> m a = mem s a)"
proof -
  have rec: "rec_slot (phys s) (cr3 s)" using wf by (simp add: pt_wf_def)
  have lt: "unat i < 8 * unat (btmp_bytes_len (pool_bitmap (pool_of pf s)))" using i by (simp add: pool_idx_def)
  let ?m = "put_flag (mem s) (pool_bitmap (pool_of pf s)) i False" and ?s1 = "s\<lparr>mem := put_flag (mem s) (pool_bitmap (pool_of pf s)) i False\<rparr>"
  have v2p: "addr_v2p s v = Inr (pool_page (pool_of pf s) i)" by (rule addr_v2p_walk [OF rec v(2)])
  have free: "pfree s (pool_page (pool_of pf s) i) = Inr ?s1" by (rule pfree_page [OF pw lt])
  have "pt_wf (phys ?s1) (cr3 ?s1)" "present (phys ?s1 (pde_addr (cr3 ?s1) v))"
    using wf vmap_present [OF v(2)] by simp_all
  from page_table_pte_remove_eq [OF this v(1)] obtain ph where ph:
    "page_table_pte_remove ?s1 v = Inr (?s1\<lparr>phys := ph\<rparr>)" "pt_wf ph (cr3 s)"
    "\<And>w. own_pde w \<Longrightarrow> mmu_walk ph (cr3 s) w = (if page_frame w = page_frame v then None else vmap s w)"
    "\<And>w. ph (pde_addr (cr3 s) w) = phys s (pde_addr (cr3 s) w)" by auto
  have "pool_bit (s\<lparr>mem := ?m, phys := ph\<rparr>) q j = pool_bit ?s1 q j" for q j
    by (simp add: pool_bit_def pool_of_def)
  then have "pages_freed s (s\<lparr>mem := ?m, phys := ph\<rparr>) pf {i}"
    using pool_bit_put [OF pw lt] by (auto simp: pages_freed_def pool_idx_def)
  moreover have "?m a = mem s a" if "a \<notin> map_bytes (pool_bitmap (pool_of pf s))" for a
    by (rule put_flag_frame [OF lt that])
  ultimately show ?thesis using v2p free ph by (intro exI [of _ ?m] exI [of _ ph]) simp
qed

lemma unmap_pages_run:
  assumes "pt_wf (phys s) (cr3 s)" "pools_wf s" "run_on s pf v is"
  shows "\<exists>m ph. unmap_pages (length is) v s = Inr (s\<lparr>mem := m, phys := ph\<rparr>) \<and> pt_wf ph (cr3 s) \<and>
    (\<forall>w. ph (pde_addr (cr3 s) w) = phys s (pde_addr (cr3 s) w)) \<and>
    unmapped s (s\<lparr>mem := m, phys := ph\<rparr>) v (length is) \<and>
    pages_freed s (s\<lparr>mem := m, phys := ph\<rparr>) pf (set is) \<and>
    (\<forall>a. a \<notin> map_bytes (pool_bitmap (pool_of pf s)) \<longrightarrow> m a = mem s a)"
  using assms
proof (induction "is" arbitrary: s v)
  case Nil
  have "s\<lparr>mem := mem s, phys := phys s\<rparr> = s" by simp
  then show ?case
    using Nil by (intro exI [of _ "mem s"] exI [of _ "phys s"]) (simp add: unmapped_def pages_freed_def)
next
  case (Cons i "is")
  have v0: "run_page v 0 = v" by (simp add: run_page_def)
  have run: "run_ok v (Suc (length is))" using Cons.prems(3) by (simp add: run_on_def)
  note vf = run_page_frame [OF run, of 0, unfolded v0]
  have i: "pool_idx s pf i" "vmap s v = Some (pool_page (pool_of pf s) i)" "i \<notin> set is"
    using Cons.prems(3) by (auto simp: run_on_def v0)
  obtain m1 ph1 where one:
    "bindR (addr_v2p s v) (\<lambda>p. bindR (pfree s p) (\<lambda>s1. page_table_pte_remove s1 v)) = Inr (s\<lparr>mem := m1, phys := ph1\<rparr>)"
    "pt_wf ph1 (cr3 s)"
    "\<And>w. own_pde w \<Longrightarrow> mmu_walk ph1 (cr3 s) w = (if page_frame w = page_frame v then None else vmap s w)"
    "pages_freed s (s\<lparr>mem := m1, phys := ph1\<rparr>) pf {i}"
    "\<And>a. a \<notin> map_bytes (pool_bitmap (pool_of pf s)) \<Longrightarrow> m1 a = mem s a"
    "\<And>w. ph1 (pde_addr (cr3 s) w) = phys s (pde_addr (cr3 s) w)"
    using unmap_one [OF Cons.prems(1,2) i(1) vf(2) i(2)] by auto
  let ?s1 = "s\<lparr>mem := m1, phys := ph1\<rparr>"
  have same: "pool_of q ?s1 = pool_of q s" "pool_idx ?s1 q j = pool_idx s q j" for q j
    by (simp_all add: pool_of_def pool_idx_def)
  have step: "unmap_pages (length (i # is)) v s = unmap_pages (length is) (v + PG_SIZE) ?s1"
    using one(1) by (simp add: bindR_assoc [symmetric])
  have run1: "run_on ?s1 pf (v + PG_SIZE) is"
  proof -
    have "vmap ?s1 (run_page (v + PG_SIZE) k) = Some (pool_page (pool_of pf s) (is ! k))" if "k < length is" for k
    proof -
      have k: "Suc k < Suc (length is)" using that by simp
      have "run_page v (Suc k) \<noteq> run_page v 0" using run_page_inject [OF run k, of 0] by simp
      then have "page_frame (run_page v (Suc k)) \<noteq> page_frame v"
        using run_page_frame(1) [OF run k] vf(1) v0 by simp
      moreover have "vmap s (run_page v (Suc k)) = Some (pool_page (pool_of pf s) (is ! k))"
        using Cons.prems(3) k by (auto simp: run_on_def)
      ultimately show ?thesis using one(3) run_page_frame(2) [OF run k] by (simp add: run_page_next)
    qed
    moreover have "run_ok (v + PG_SIZE) (length is)" using run_ok_next [OF run] .
    moreover have "pool_idx s pf (is ! k)" if "k < length is" for k
      using Cons.prems(3) that unfolding run_on_def by (metis Suc_less_eq length_Cons nth_Cons_Suc)
    ultimately show ?thesis using Cons.prems(3) by (simp add: run_on_def same)
  qed
  have pw1: "pools_wf ?s1" using Cons.prems(2) by (simp add: pools_wf_def)
  have "pt_wf (phys ?s1) (cr3 ?s1)" using one(2) by simp
  from Cons.IH [OF this pw1 run1] obtain m ph where rest:
    "unmap_pages (length is) (v + PG_SIZE) ?s1 = Inr (?s1\<lparr>mem := m, phys := ph\<rparr>)" "pt_wf ph (cr3 s)"
    "unmapped ?s1 (?s1\<lparr>mem := m, phys := ph\<rparr>) (v + PG_SIZE) (length is)"
    "pages_freed ?s1 (?s1\<lparr>mem := m, phys := ph\<rparr>) pf (set is)"
    "\<And>a. a \<notin> map_bytes (pool_bitmap (pool_of pf s)) \<Longrightarrow> m a = m1 a"
    "\<And>w. ph (pde_addr (cr3 s) w) = ph1 (pde_addr (cr3 s) w)"
    by (auto simp: same)
  have form: "?s1\<lparr>mem := m, phys := ph\<rparr> = s\<lparr>mem := m, phys := ph\<rparr>" by simp
  have ex: "(\<exists>k < Suc n. page_frame w = run_page v k) \<longleftrightarrow>
      page_frame w = v \<or> (\<exists>k < n. page_frame w = run_page (v + PG_SIZE) k)" for w n
    unfolding run_page_next by (metis v0 less_Suc_eq_0_disj)
  have "unmapped s (s\<lparr>mem := m, phys := ph\<rparr>) v (length (i # is))"
    using rest(3) one(3) vf(1) unfolding unmapped_def form by (auto simp: ex)
  moreover have "pages_freed s (s\<lparr>mem := m, phys := ph\<rparr>) pf (set (i # is))"
    using rest(4) one(4) unfolding pages_freed_def form same by auto
  ultimately show ?case
    using rest(1,2,5,6) one(5,6) step form by (intro exI [of _ m] exI [of _ ph]) simp
qed

end
