(* ===== verification/Memory_Props.thy ===== *)
theory Memory_Props
  imports Page_Alloc
begin

text \<open>
  The properties of page allocation, with a small machine on which they are exercised: a page
  directory that holds the recursive slot only, two pools of 64 pages and a kernel heap of 64
  virtual pages.
\<close>

section \<open>The layout mem_pool_init computes\<close>

text \<open>The quantities mem_pool_init derives from the size of the memory.\<close>

definition all_free_pages :: "u32 \<Rightarrow> u16" where
  "all_free_pages all_mem = ucast ((all_mem - (PG_SIZE * 256 + 0x100000)) div PG_SIZE)"

definition kernel_free_pages :: "u32 \<Rightarrow> u16" where
  "kernel_free_pages all_mem = all_free_pages all_mem div 2"

definition user_free_pages :: "u32 \<Rightarrow> u16" where
  "user_free_pages all_mem = all_free_pages all_mem - kernel_free_pages all_mem"

lemma unat_all_free_pages:
  "unat (all_free_pages m) = unat (m - 0x200000) div 4096 mod 65536"
  by (simp add: all_free_pages_def PG_SIZE_def unsigned_ucast_eq take_bit_eq_mod unat_div)

lemma unat_kernel_free_pages: "unat (kernel_free_pages m) = unat (all_free_pages m) div 2"
  by (simp add: kernel_free_pages_def unat_div)

lemma unat_user_free_pages: "unat (user_free_pages m) = unat (all_free_pages m) - unat (all_free_pages m) div 2"
proof -
  have "kernel_free_pages m \<le> all_free_pages m" by (simp add: word_le_nat_alt unat_kernel_free_pages)
  then show ?thesis by (simp add: user_free_pages_def unat_sub unat_kernel_free_pages)
qed

text \<open>The three bitmaps, one after the other from MEM_BITMAP_BASE on.\<close>

definition layout_maps :: "u32 \<Rightarrow> bitmap \<times> bitmap \<times> bitmap" where
  "layout_maps m = (let kl = (ucast (kernel_free_pages m div 8) :: u32); ul = ucast (user_free_pages m div 8) in
     (\<lparr>btmp_bytes_len = kl, bits = MEM_BITMAP_BASE\<rparr>, \<lparr>btmp_bytes_len = ul, bits = MEM_BITMAP_BASE + kl\<rparr>,
      \<lparr>btmp_bytes_len = kl, bits = MEM_BITMAP_BASE + kl + ul\<rparr>))"

lemma map_bytes_range:
  assumes "unat (bits b) + unat (btmp_bytes_len b) \<le> 4294967296" "a \<in> map_bytes b"
  shows "unat (bits b) \<le> unat a" "unat a < unat (bits b) + unat (btmp_bytes_len b)"
proof -
  obtain k where k: "k < unat (btmp_bytes_len b)" "a = bits b + of_nat k"
    using assms(2) by (auto simp: map_bytes_def)
  then have "unat a = unat (bits b) + k" using assms(1) by (simp add: unat_add_of_nat_u32)
  with k show "unat (bits b) \<le> unat a" "unat a < unat (bits b) + unat (btmp_bytes_len b)" by simp_all
qed

lemma map_bytes_disjoint:
  assumes "unat (bits b) + unat (btmp_bytes_len b) \<le> unat (bits c)"
    and "unat (bits c) + unat (btmp_bytes_len c) \<le> 4294967296"
  shows "map_bytes b \<inter> map_bytes c = {}"
proof -
  have "unat (bits b) + unat (btmp_bytes_len b) \<le> 4294967296" using assms by simp
  then show ?thesis using map_bytes_range [of b] map_bytes_range [of c] assms by fastforce
qed

lemma ucast_div8: "unat (ucast (x div 8 :: u16) :: u32) = unat x div 8"
proof -
  have "unat (x div 8) < 65536" using unsigned_less [of "x div 8"] by simp
  then show ?thesis by (simp add: unsigned_ucast_eq take_bit_eq_mod unat_div)
qed

lemma ucast16: "unat (ucast (x :: u16) :: u32) = unat x"
proof -
  have "unat x < 65536" using unsigned_less [of x] by simp
  then show ?thesis by (simp add: unsigned_ucast_eq take_bit_eq_mod)
qed

lemma layout_maps_place:
  assumes "layout_maps m = (k, u, v)"
  shows "unat (bits k) = 0xc009a000" "unat (btmp_bytes_len k) = unat (kernel_free_pages m) div 8"
    "unat (btmp_bytes_len u) = unat (user_free_pages m) div 8"
    "unat (bits u) = unat (bits k) + unat (btmp_bytes_len k)" "btmp_bytes_len v = btmp_bytes_len k"
    "unat (bits v) = unat (bits u) + unat (btmp_bytes_len u)"
    "unat (bits v) + unat (btmp_bytes_len v) \<le> 0xc00a0000"
proof -
  have kv: "k = \<lparr>btmp_bytes_len = ucast (kernel_free_pages m div 8), bits = MEM_BITMAP_BASE\<rparr>"
    "u = \<lparr>btmp_bytes_len = ucast (user_free_pages m div 8), bits = MEM_BITMAP_BASE + btmp_bytes_len k\<rparr>"
    "v = \<lparr>btmp_bytes_len = btmp_bytes_len k, bits = bits u + btmp_bytes_len u\<rparr>"
    using assms by (auto simp: layout_maps_def Let_def)
  have all: "unat (all_free_pages m) < 65536" using unsigned_less [of "all_free_pages m"] by simp
  show kb: "unat (bits k) = 0xc009a000" by (simp add: kv MEM_BITMAP_BASE_def)
  show kl: "unat (btmp_bytes_len k) = unat (kernel_free_pages m) div 8" by (simp add: kv ucast_div8)
  show ul: "unat (btmp_bytes_len u) = unat (user_free_pages m) div 8" by (simp add: kv ucast_div8)
  have small: "unat (btmp_bytes_len k) \<le> 4096" "unat (btmp_bytes_len u) \<le> 4096"
    using all by (simp_all add: kl ul unat_kernel_free_pages unat_user_free_pages)
  show ub: "unat (bits u) = unat (bits k) + unat (btmp_bytes_len k)"
    unfolding kv(2) using small by (simp add: MEM_BITMAP_BASE_def kb unat_add_u32)
  show "btmp_bytes_len v = btmp_bytes_len k" by (simp add: kv(3))
  show vb: "unat (bits v) = unat (bits u) + unat (btmp_bytes_len u)"
    unfolding kv(3) using small ub kb by (simp add: unat_add_u32)
  show "unat (bits v) + unat (btmp_bytes_len v) \<le> 0xc00a0000"
    using small kb ub vb by (simp add: kv(3))
qed

text \<open>
  The state mem_pool_init leaves: the pools share the free pages, the three maps lie one after the
  other, and every bit of them is clear.
\<close>

definition maps_clear :: "kstate \<Rightarrow> bitmap \<Rightarrow> bool" where
  "maps_clear s b \<longleftrightarrow> (\<forall>i. unat i < 8 * unat (btmp_bytes_len b) \<longrightarrow> \<not> bitmap_scan_test (mem s) b i)"

lemma maps_clear_zero:
  assumes "\<And>a. a - bits b < btmp_bytes_len b \<Longrightarrow> mem s a = 0"
  shows "maps_clear s b"
  unfolding maps_clear_def
proof (intro allI impI)
  fix i :: u32
  assume "unat i < 8 * unat (btmp_bytes_len b)"
  then have "i div 8 < btmp_bytes_len b" by (simp add: word_less_nat_alt unat_div)
  then show "\<not> bitmap_scan_test (mem s) b i" by (simp add: bitmap_scan_test_bit assms)
qed

lemma mem_pool_init_eq:
  fixes m s
  defines "k \<equiv> fst (layout_maps m)" and "u \<equiv> fst (snd (layout_maps m))" and "v \<equiv> snd (snd (layout_maps m))"
  shows "\<exists>s'. mem_pool_init s m = Inr s' \<and>
    kernel_pool s' = \<lparr>pool_bitmap = k, phy_addr_start = 0x200000,
      pool_size = ucast (kernel_free_pages m) * PG_SIZE\<rparr> \<and>
    user_pool s' = \<lparr>pool_bitmap = u, phy_addr_start = 0x200000 + ucast (kernel_free_pages m) * PG_SIZE,
      pool_size = ucast (user_free_pages m) * PG_SIZE\<rparr> \<and>
    kernel_vaddr s' = \<lparr>vaddr_bitmap = v, vaddr_start = K_HEAP_START\<rparr> \<and>
    mem s' = memset_loop (memset_loop (memset_loop (mem s) (bits k) 0 (btmp_bytes_len k))
      (bits u) 0 (btmp_bytes_len u)) (bits v) 0 (btmp_bytes_len v) \<and>
    phys s' = phys s \<and> cr3 s' = cr3 s \<and> cur s' = cur s \<and>
    lheap s' = dl_init (dl_init (lheap s) (sema_waiters (lock_semaphore KERNEL_POOL_LOCK)))
      (sema_waiters (lock_semaphore USER_POOL_LOCK)) \<and>
    lock_holder s' = (lock_holder s)(KERNEL_POOL_LOCK := 0, USER_POOL_LOCK := 0) \<and>
    holder_repeat_nr s' = (holder_repeat_nr s)(KERNEL_POOL_LOCK := 0, USER_POOL_LOCK := 0) \<and>
    sema_value s' = (sema_value s)(lock_semaphore KERNEL_POOL_LOCK := 1, lock_semaphore USER_POOL_LOCK := 1)"
proof -
  have km: "layout_maps m = (k, u, v)" by (simp add: k_def u_def v_def)
  note place = layout_maps_place [OF km]
  have "unat (bits k) \<noteq> 0" "unat (bits u) \<noteq> 0" "unat (bits v) \<noteq> 0" using place by simp_all
  then have nn: "bits k \<noteq> 0" "bits u \<noteq> 0" "bits v \<noteq> 0" by auto
  have kv: "k = \<lparr>btmp_bytes_len = ucast (kernel_free_pages m div 8), bits = MEM_BITMAP_BASE\<rparr>"
    "u = \<lparr>btmp_bytes_len = ucast (user_free_pages m div 8),
      bits = MEM_BITMAP_BASE + ucast (kernel_free_pages m div 8)\<rparr>"
    "v = \<lparr>btmp_bytes_len = ucast (kernel_free_pages m div 8),
      bits = MEM_BITMAP_BASE + ucast (kernel_free_pages m div 8) + ucast (user_free_pages m div 8)\<rparr>"
    by (simp_all add: k_def u_def v_def layout_maps_def Let_def)
  have used: "PG_SIZE * 256 + 0x100000 = (0x200000 :: u32)" by (simp add: PG_SIZE_def)
  have free: "ucast ((m - 0x200000) div PG_SIZE) = all_free_pages m"
    by (simp add: all_free_pages_def used)
  have half: "all_free_pages m div 2 = kernel_free_pages m" "all_free_pages m - kernel_free_pages m = user_free_pages m"
    by (simp_all add: kernel_free_pages_def user_free_pages_def)
  show ?thesis
    unfolding mem_pool_init_def Let_def used
    unfolding free half kv [symmetric] bitmap_init_def memset_def
    using nn
    by (simp add: lock_init_def sema_init_def list_init_def set_sema_value_def set_holder_def set_repeat_def
        put_str_def put_int_def)
qed

lemma mem_pool_init_maps:
  "\<exists>s'. mem_pool_init s m = Inr s' \<and> pools_wf s' \<and>
    unat (pool_size (kernel_pool s')) + unat (pool_size (user_pool s')) =
      (unat (m - 0x200000) div 4096 mod 65536) * 4096 \<and>
    map_bytes (vaddr_bitmap (kernel_vaddr s')) \<inter> map_bytes (pool_bitmap (kernel_pool s')) = {} \<and>
    map_bytes (vaddr_bitmap (kernel_vaddr s')) \<inter> map_bytes (pool_bitmap (user_pool s')) = {} \<and>
    maps_clear s' (pool_bitmap (kernel_pool s')) \<and> maps_clear s' (pool_bitmap (user_pool s')) \<and>
    maps_clear s' (vaddr_bitmap (kernel_vaddr s'))"
proof -
  obtain k u v where km: "layout_maps m = (k, u, v)" by (metis prod_cases3)
  note place = layout_maps_place [OF km]
  obtain s' where s': "mem_pool_init s m = Inr s'"
    "kernel_pool s' = \<lparr>pool_bitmap = k, phy_addr_start = 0x200000, pool_size = ucast (kernel_free_pages m) * PG_SIZE\<rparr>"
    "user_pool s' = \<lparr>pool_bitmap = u, phy_addr_start = 0x200000 + ucast (kernel_free_pages m) * PG_SIZE,
      pool_size = ucast (user_free_pages m) * PG_SIZE\<rparr>"
    "kernel_vaddr s' = \<lparr>vaddr_bitmap = v, vaddr_start = K_HEAP_START\<rparr>"
    "mem s' = memset_loop (memset_loop (memset_loop (mem s) (bits k) 0 (btmp_bytes_len k))
      (bits u) 0 (btmp_bytes_len u)) (bits v) 0 (btmp_bytes_len v)"
    using mem_pool_init_eq [of s m] unfolding km fst_conv snd_conv by blast
  have all: "unat (all_free_pages m) < 65536" using unsigned_less [of "all_free_pages m"] by simp
  have kfp: "unat (kernel_free_pages m) \<le> 32767" "unat (user_free_pages m) \<le> 65535"
    using all by (simp_all add: unat_kernel_free_pages unat_user_free_pages)
  have pages: "unat (ucast (kernel_free_pages m) * PG_SIZE) = unat (kernel_free_pages m) * 4096"
    "unat (ucast (user_free_pages m) * PG_SIZE) = unat (user_free_pages m) * 4096"
    using kfp by (simp_all add: PG_SIZE_def unat_mult_u32 ucast16)
  have ustart: "unat (phy_addr_start (user_pool s')) = 0x200000 + unat (kernel_free_pages m) * 4096"
    using pages(1) kfp by (simp add: s'(3) unat_add_u32)
  have sum: "unat (kernel_free_pages m) + unat (user_free_pages m) = unat (all_free_pages m)"
    by (simp add: unat_kernel_free_pages unat_user_free_pages)
  have disj: "map_bytes k \<inter> map_bytes u = {}" "map_bytes k \<inter> map_bytes v = {}" "map_bytes u \<inter> map_bytes v = {}"
    using place by (intro map_bytes_disjoint; simp)+
  have wf: "pools_wf s'"
  proof -
    have "unat (btmp_bytes_len k) * 32768 \<le> unat (kernel_free_pages m) * 4096"
      "unat (btmp_bytes_len u) * 32768 \<le> unat (user_free_pages m) * 4096"
      by (simp_all add: place(2,3))
    then show ?thesis using ustart kfp sum all disj(1) by (simp add: pools_wf_def s'(2,3))
  qed
  have clear: "maps_clear s' k" "maps_clear s' u" "maps_clear s' v"
    by (rule maps_clear_zero, simp add: s'(5) memset_loop_eq)+
  have size: "unat (pool_size (kernel_pool s')) + unat (pool_size (user_pool s')) =
      (unat (m - 0x200000) div 4096 mod 65536) * 4096"
    using sum by (simp add: s'(2,3) pages unat_all_free_pages flip: add_mult_distrib)
  show ?thesis
    using s'(1) wf size disj clear by (intro exI [of _ s']) (simp add: s'(2-4) Int_commute)
qed

text \<open>
  C39. mem_pool_init always returns, and its layout is this. \<open>N\<close> pages are counted beyond the first 2
  MB, in 16 bits, so that whatever the memory is the pools manage less than 256 MB. The kernel pool
  starts at 2 MB and has \<open>K\<close>, half of them; the user pool starts where the kernel pool ends and has the
  other \<open>U\<close>. The maps lie one after the other from 0xc009a000 on, below the stack of main: the kernel
  pool's and the user pool's, with one bit for each page but the last fewer than eight, and that of
  the kernel heap, as long as the first. All their bits are clear, no byte outside them is written,
  the kernel heap starts at 0xc0100000 and the locks of both pools are free.
\<close>

theorem mem_pool_init_layout:
  "let N = unat (m - 0x200000) div 4096 mod 65536; K = N div 2; U = N - K; k = K div 8; u = U div 8 in
    \<exists>s'. mem_pool_init s m = Inr s' \<and>
      unat (phy_addr_start (kernel_pool s')) = 0x200000 \<and> unat (pool_size (kernel_pool s')) = K * 4096 \<and>
      unat (phy_addr_start (user_pool s')) = 0x200000 + K * 4096 \<and> unat (pool_size (user_pool s')) = U * 4096 \<and>
      Kernel_State.vaddr_start (kernel_vaddr s') = 0xc0100000 \<and>
      unat (bits (pool_bitmap (kernel_pool s'))) = 0xc009a000 \<and> unat (btmp_bytes_len (pool_bitmap (kernel_pool s'))) = k \<and>
      unat (bits (pool_bitmap (user_pool s'))) = 0xc009a000 + k \<and> unat (btmp_bytes_len (pool_bitmap (user_pool s'))) = u \<and>
      unat (bits (vaddr_bitmap (kernel_vaddr s'))) = 0xc009a000 + k + u \<and> unat (btmp_bytes_len (vaddr_bitmap (kernel_vaddr s'))) = k \<and>
      0xc009a000 + k + u + k < (0xc009e000 :: nat) \<and> pools_wf s' \<and>
      maps_clear s' (pool_bitmap (kernel_pool s')) \<and> maps_clear s' (pool_bitmap (user_pool s')) \<and>
      maps_clear s' (vaddr_bitmap (kernel_vaddr s')) \<and>
      {a. mem s' a \<noteq> mem s a} \<subseteq> map_bytes (pool_bitmap (kernel_pool s')) \<union> map_bytes (pool_bitmap (user_pool s')) \<union>
        map_bytes (vaddr_bitmap (kernel_vaddr s')) \<and>
      lock_holder s' KERNEL_POOL_LOCK = 0 \<and> sema_value s' (lock_semaphore KERNEL_POOL_LOCK) = 1 \<and>
      lock_holder s' USER_POOL_LOCK = 0 \<and> sema_value s' (lock_semaphore USER_POOL_LOCK) = 1"
proof -
  obtain k u v where km: "layout_maps m = (k, u, v)" by (metis prod_cases3)
  note place = layout_maps_place [OF km]
  obtain s' where s': "mem_pool_init s m = Inr s'"
    "kernel_pool s' = \<lparr>pool_bitmap = k, phy_addr_start = 0x200000, pool_size = ucast (kernel_free_pages m) * PG_SIZE\<rparr>"
    "user_pool s' = \<lparr>pool_bitmap = u, phy_addr_start = 0x200000 + ucast (kernel_free_pages m) * PG_SIZE,
      pool_size = ucast (user_free_pages m) * PG_SIZE\<rparr>"
    "kernel_vaddr s' = \<lparr>vaddr_bitmap = v, vaddr_start = K_HEAP_START\<rparr>"
    "mem s' = memset_loop (memset_loop (memset_loop (mem s) (bits k) 0 (btmp_bytes_len k))
      (bits u) 0 (btmp_bytes_len u)) (bits v) 0 (btmp_bytes_len v)"
    "lock_holder s' = (lock_holder s)(KERNEL_POOL_LOCK := 0, USER_POOL_LOCK := 0)"
    "sema_value s' = (sema_value s)(lock_semaphore KERNEL_POOL_LOCK := 1, lock_semaphore USER_POOL_LOCK := 1)"
    using mem_pool_init_eq [of s m] unfolding km fst_conv snd_conv by blast
  have maps: "pools_wf s'" "maps_clear s' k" "maps_clear s' u" "maps_clear s' v"
    using mem_pool_init_maps [of s m] by (simp_all add: s'(1-4))
  have all: "unat (all_free_pages m) < 65536" using unsigned_less [of "all_free_pages m"] by simp
  have kfp: "unat (kernel_free_pages m) \<le> 32767" "unat (user_free_pages m) \<le> 32768"
    using all by (simp_all add: unat_kernel_free_pages unat_user_free_pages)
  have pages: "unat (ucast (kernel_free_pages m) * PG_SIZE) = unat (kernel_free_pages m) * 4096"
    "unat (ucast (user_free_pages m) * PG_SIZE) = unat (user_free_pages m) * 4096"
    using kfp by (simp_all add: PG_SIZE_def unat_mult_u32 ucast16)
  have ustart: "unat (0x200000 + ucast (kernel_free_pages m) * PG_SIZE) = 0x200000 + unat (kernel_free_pages m) * 4096"
    using pages(1) kfp by (simp add: unat_add_u32)
  have below: "0xc009a000 + unat (kernel_free_pages m) div 8 + unat (user_free_pages m) div 8 + unat (kernel_free_pages m) div 8 < 0xc009e000"
    using kfp by linarith
  have byte: "a \<in> map_bytes b" if "a - bits b < btmp_bytes_len b" for a b
    unfolding map_bytes_def using that by (intro CollectI exI [of _ "unat (a - bits b)"]) (simp add: word_less_nat_alt)
  have frame: "{a. mem s' a \<noteq> mem s a} \<subseteq> map_bytes k \<union> map_bytes u \<union> map_bytes v"
    using byte by (auto simp: s'(5) memset_loop_eq split: if_splits)
  have locks: "KERNEL_POOL_LOCK \<noteq> USER_POOL_LOCK" "lock_semaphore KERNEL_POOL_LOCK \<noteq> lock_semaphore USER_POOL_LOCK"
    by (simp_all add: KERNEL_POOL_LOCK_def USER_POOL_LOCK_def lock_semaphore_def)
  show ?thesis
    unfolding Let_def unat_all_free_pages [symmetric] unat_kernel_free_pages [symmetric] unat_user_free_pages [symmetric, folded unat_kernel_free_pages]
    using s'(1) maps pages ustart frame locks place below
    by (intro exI [of _ s']) (simp add: s'(2-4,6-7) K_HEAP_START_def)
qed

section \<open>A machine with page tables\<close>

definition demo_phys :: "u32 \<Rightarrow> u32" where
  "demo_phys a = (if a = 0x100ffc then 0x100007 else 0)"

definition demo_paged :: kstate where
  "demo_paged = demo_pools\<lparr>phys := demo_phys,
     kernel_vaddr := \<lparr>vaddr_bitmap = \<lparr>btmp_bytes_len = 8, bits = 0xc009a010\<rparr>, vaddr_start = 0xc0100000\<rparr>\<rparr>"

lemma demo_paged_sel [simp]:
  "phys demo_paged = demo_phys" "cr3 demo_paged = 0x100000" "mem demo_paged = (\<lambda>_. 0)"
  "kernel_pool demo_paged = \<lparr>pool_bitmap = \<lparr>btmp_bytes_len = 8, bits = 0xc009a000\<rparr>,
     phy_addr_start = 0x200000, pool_size = 0x40000\<rparr>"
  "user_pool demo_paged = \<lparr>pool_bitmap = \<lparr>btmp_bytes_len = 8, bits = 0xc009a008\<rparr>,
     phy_addr_start = 0x240000, pool_size = 0x40000\<rparr>"
  "kernel_vaddr demo_paged = \<lparr>vaddr_bitmap = \<lparr>btmp_bytes_len = 8, bits = 0xc009a010\<rparr>, vaddr_start = 0xc0100000\<rparr>"
  by (simp_all add: demo_paged_def demo_pools_def demo_state_def)

lemma demo_dir: "demo_phys (pde_addr 0x100000 w) = (if PDE_IDX w = 1023 then 0x100007 else 0)"
proof -
  have last: "pde_addr 0x100000 0xffffffff = (0x100ffc :: u32)"
    by (simp add: pde_addr_last page_frame_def)
  have "pde_addr 0x100000 w = 0x100ffc \<longleftrightarrow> PDE_IDX w = 1023"
    using pde_addr_inject [of "0x100000" w "0xffffffff"] unfolding last PDE_IDX_last .
  then show ?thesis by (simp add: demo_phys_def)
qed

lemma demo_present: "present (demo_phys (pde_addr 0x100000 w)) \<longleftrightarrow> PDE_IDX w = 1023"
  by (simp add: demo_dir present_def)

lemma demo_pt_wf: "pt_wf demo_phys 0x100000"
proof -
  have "rec_slot demo_phys 0x100000"
    by (simp add: rec_slot_def Let_def demo_phys_def page_frame_def present_def)
  then show ?thesis by (simp add: pt_wf_def demo_present)
qed

lemma demo_unmapped: "own_pde w \<Longrightarrow> mmu_walk demo_phys 0x100000 w = None"
  by (simp add: mmu_walk_def Let_def demo_present own_pde_def)

lemma demo_paged_wf: "pools_wf demo_paged"
  using demo_pools_wf by (simp add: pools_wf_def demo_pools_def)

lemma bytes_low:
  assumes "unat (bits b) + unat (btmp_bytes_len b) \<le> 0xffc00000"
  shows "low_map b"
  using map_bytes_range(2) [of b] assms by (fastforce simp: low_map_def below_window_def)

lemma demo_unused:
  assumes "pool_idx demo_paged q i"
  shows "unused_page demo_paged (pool_page (pool_of q demo_paged) i)"
proof -
  let ?p = "pool_page (pool_of q demo_paged) i"
  have u: "unat ?p = unat (phy_addr_start (pool_of q demo_paged)) + unat i * 4096"
    by (rule pools_wf_no_wrap [OF demo_paged_wf]) (use assms in \<open>simp add: pool_idx_def\<close>)
  have start: "unat (phy_addr_start (pool_of q demo_paged)) = 0x200000 \<or>
      unat (phy_addr_start (pool_of q demo_paged)) = 0x240000"
    by (cases q) (simp_all add: pool_of_def)
  then have "unat ?p = (512 + unat i) * 4096 \<or> unat ?p = (576 + unat i) * 4096" using u by auto
  then have "\<exists>k \<ge> 512. unat ?p = k * 4096"
    by (elim disjE) (rule exI [of _ "512 + unat i"], simp, rule exI [of _ "576 + unat i"], simp)
  then obtain k where k: "unat ?p = k * 4096" "512 \<le> k" by blast
  then have "0x200000 \<le> unat ?p" by simp
  have "page_frame ?p = ?p" using k(1) by (intro u32_eqI) (simp add: unat_page_frame)
  moreover have "?p \<noteq> 0x100000"
  proof
    assume "?p = 0x100000"
    then have "unat ?p = unat (0x100000 :: u32)" by (rule arg_cong)
    then show False using \<open>0x200000 \<le> unat ?p\<close> by simp
  qed
  moreover have "page_frame (0x100000 :: u32) = 0x100000" "page_frame (0x100007 :: u32) = 0x100000" "\<not> present 0"
    by (simp_all add: page_frame_def present_def)
  ultimately show ?thesis
    by (simp add: unused_page_def fresh_table_def demo_present demo_dir demo_unmapped)
qed

lemma demo_phys_inv: "phys_inv demo_paged"
proof -
  have "low_map (pool_bitmap (pool_of q demo_paged)) \<and> phy_addr_start (pool_of q demo_paged) \<noteq> 0" for q
    by (cases q) (simp_all add: pool_of_def bytes_low)
  then show ?thesis
    using demo_paged_wf demo_pt_wf demo_unused by (simp add: phys_inv_def)
qed

lemma demo_vpool_inv: "vpool_inv demo_paged PF_KERNEL"
proof -
  let ?b = "\<lparr>btmp_bytes_len = 8, bits = 0xc009a010\<rparr> :: bitmap"
  have d: "map_bytes ?b \<inter> map_bytes \<lparr>btmp_bytes_len = 8, bits = 0xc009a000\<rparr> = {}"
    "map_bytes ?b \<inter> map_bytes \<lparr>btmp_bytes_len = 8, bits = 0xc009a008\<rparr> = {}"
    by (subst Int_commute, rule map_bytes_disjoint; simp)+
  have run: "run_ok 0xc0100000 8" by (simp add: run_ok_def page_frame_def)
  have "low_map ?b" by (rule bytes_low) simp
  then show ?thesis
    using d run_page_frame(2) [OF run] demo_unmapped
    by (simp add: vpool_inv_def Let_def vaddr_pool_def page_frame_def)
qed

section \<open>Properties of mapping\<close>

text \<open>
  C5. page_table_add maps one page. On well-formed page tables a page that is not mapped becomes
  mapped to the physical page, with a new page table from the kernel pool where there was none, and
  no other address changes its translation, those that share a page table with entry 768 or with
  the directory itself apart; a page already mapped is the panic PTE REPEAT.
\<close>

theorem page_table_add_maps:
  assumes "pt_wf (phys s) (cr3 s)" "own_pde v" "page_frame p = p"
    and "\<not> present (phys s (pde_addr (cr3 s) v)) \<Longrightarrow>
      \<exists>f s1. palloc s PF_KERNEL = Inr (f, s1) \<and> fresh_table (phys s) (cr3 s) f"
  shows "if vmap s v = None
    then \<exists>s'. page_table_add s v p = Inr s' \<and> pt_wf (phys s') (cr3 s') \<and>
      (\<forall>w. own_pde w \<longrightarrow> vmap s' w =
        (if page_frame w = page_frame v then Some (p + page_offset w) else vmap s w))
    else page_table_add s v p = Inl (Panicked ''PTE REPEAT'')"
proof (cases "vmap s v")
  case None
  obtain f s1 where "present (phys s (pde_addr (cr3 s) v)) \<or> \<not> present (phys s (pde_addr (cr3 s) v)) \<and>
      palloc s PF_KERNEL = Inr (f, s1) \<and> fresh_table (phys s) (cr3 s) f"
    using assms(4) by blast
  from page_table_add_cases [OF assms(1-3) None this] obtain m where m:
    "page_table_add s v p = Inr ((if present (phys s (pde_addr (cr3 s) v)) then s
        else clear_typed s1 (pte_ptr (table_va v 0)) 4096)\<lparr>phys := m\<rparr>)" "pt_wf m (cr3 s)"
    "\<forall>w. own_pde w \<longrightarrow> mmu_walk m (cr3 s) w =
      (if page_frame w = page_frame v then Some (p + page_offset w) else vmap s w)" by blast
  let ?s' = "(if present (phys s (pde_addr (cr3 s) v)) then s
        else clear_typed s1 (pte_ptr (table_va v 0)) 4096)\<lparr>phys := m\<rparr>"
  have "cr3 ?s' = cr3 s"
  proof (cases "present (phys s (pde_addr (cr3 s) v))")
    case False
    then have "palloc s PF_KERNEL = Inr (f, s1)"
      using \<open>present _ \<or> _\<close> by blast
    then have "cr3 s1 = cr3 s" by (rule palloc_Inr) simp
    then show ?thesis by (simp add: clear_typed_def)
  qed simp
  then show ?thesis using None m by (auto intro!: exI [of _ ?s'])
next
  case (Some x)
  have rec: "rec_slot (phys s) (cr3 s)" using assms(1) by (simp add: pt_wf_def)
  have P: "present (phys s (pde_addr (cr3 s) v))" by (rule vmap_present [OF Some])
  have "present (phys s (pte_addr (phys s (pde_addr (cr3 s) v)) v))"
    using Some by (simp add: mmu_walk_def Let_def split: if_splits)
  then show ?thesis
    using Some P by (simp add: page_table_add_def Let_def load32_pde_ptr [OF rec] load32_pte_ptr [OF rec P] present_def)
qed

lemma demo_kernel_page: "\<exists>f s1. palloc demo_paged PF_KERNEL = Inr (f, s1) \<and> fresh_table demo_phys 0x100000 f"
proof (cases "palloc demo_paged PF_KERNEL")
  case (Inl e)
  then have "free_pages demo_paged PF_KERNEL = {}" by (rule palloc_fails)
  moreover have "0 \<in> free_pages demo_paged PF_KERNEL"
    by (simp add: free_pages_def pool_of_def pool_bit_def bitmap_scan_test_def Let_def)
  ultimately show ?thesis by blast
next
  case (Inr x)
  then obtain f s1 where "palloc demo_paged PF_KERNEL = Inr (f, s1)" by (cases x) simp
  with palloc_inv(2-4) [OF demo_phys_inv this] show ?thesis
    using alloc_frame_sel(1) [of demo_paged s1] by (auto simp: unused_page_def)
qed

lemma page_table_add_maps_witness:
  "\<exists>s'. page_table_add demo_paged 0xc0100000 0x240000 = Inr s' \<and> vmap s' 0xc0100004 = Some 0x240004"
proof -
  have i: "own_pde 0xc0100000" "own_pde 0xc0100004" "page_frame (0x240000 :: u32) = 0x240000"
    "page_frame (0xc0100004 :: u32) = page_frame 0xc0100000" "page_offset (0xc0100004 :: u32) = 4"
    by (simp_all add: own_pde_def PDE_IDX_def page_frame_def page_offset_def)
  have wf: "pt_wf (phys demo_paged) (cr3 demo_paged)" using demo_pt_wf by simp
  have "vmap demo_paged 0xc0100000 = None" using demo_unmapped [OF i(1)] by simp
  then show ?thesis
    using page_table_add_maps [OF wf i(1,3)] demo_kernel_page i(2,4,5) by force
qed

text \<open>
  C15. malloc_page delivers. When the virtual pool has a window the scan can see and both pools have
  pages enough (each page may need a new page table), malloc_page returns a run of pg_cnt
  pages that were not mapped, mapped to distinct physical pages that were free; the bits of both
  are set, every other translation is as before, and the allocator's invariants hold again.
\<close>

theorem malloc_page_maps:
  assumes "phys_inv s" "vpool_inv s pf" "0 < n" "n < 3840" "\<not> no_window s pf n" "\<not> few_pages s pf n"
  shows "\<exists>v s' fs. malloc_page s pf n = Inr (v, s') \<and> malloc_page_ok s pf n v s' fs"
  using malloc_page_run [OF assms(1,2), of n] assms(3-6) by blast

lemma demo_no_few:
  "\<not> no_window demo_paged PF_KERNEL 2" "\<not> few_pages demo_paged PF_KERNEL 2"
proof -
  show "\<not> no_window demo_paged PF_KERNEL 2"
    by (simp add: no_window_def vaddr_pool_def bitmap_scan_def scan_count.simps scan_slide.simps
        bitmap_scan_test_def Let_def)
  have "{0, 1, 2, 3} \<subseteq> free_pages demo_paged PF_KERNEL"
    by (auto simp: free_pages_def pool_of_def pool_bit_def bitmap_scan_test_def Let_def)
  then have "card {0, 1, 2, 3 :: u32} \<le> card (free_pages demo_paged PF_KERNEL)"
    by (rule card_mono [rotated]) simp
  then show "\<not> few_pages demo_paged PF_KERNEL 2" by (simp add: few_pages_def)
qed

lemma malloc_page_maps_witness:
  "\<exists>v s' fs. malloc_page demo_paged PF_KERNEL 2 = Inr (v, s') \<and> malloc_page_ok demo_paged PF_KERNEL 2 v s' fs"
  by (rule malloc_page_maps [OF demo_phys_inv demo_vpool_inv _ _ demo_no_few]) simp_all

text \<open>
  malloc_page never returns NULL: it either returns a mapped run or fails an assertion, because
  the number of pages is out of range, no window is visible to the scan, or a pool ran short. The
  callers' tests for NULL are dead code.
\<close>

theorem malloc_page_never_null:
  assumes "phys_inv s" "vpool_inv s pf"
  shows "(\<exists>v s'. malloc_page s pf n = Inr (v, s') \<and> v \<noteq> NULL) \<or>
    (\<exists>msg. malloc_page s pf n = Inl (Assert_failed msg)) \<and>
      (n = 0 \<or> 3840 \<le> n \<or> no_window s pf n \<or> few_pages s pf n)"
  using malloc_page_run [OF assms, of n] by (auto simp: malloc_page_ok_def not_less word_gt_0)

lemma malloc_page_never_null_witness:
  "\<exists>msg. malloc_page demo_paged PF_KERNEL 0 = Inl (Assert_failed msg)"
  using malloc_page_never_null [OF demo_phys_inv demo_vpool_inv, of 0] by (auto simp: malloc_page_def)

section \<open>Giving pages back\<close>

lemma page_offset_frame: "page_frame v = v \<Longrightarrow> page_offset v = 0"
  using page_frame_add_offset [of v] by simp

lemma page_frame_mod: "page_frame x = x \<Longrightarrow> x mod PG_SIZE = 0"
proof -
  assume "page_frame x = x"
  then have "unat x = unat x div 4096 * 4096" using unat_page_frame [of x] by simp
  then have "unat x mod 4096 = 0" by (metis mod_mult_self2_is_0)
  then show ?thesis by (intro u32_eqI) (simp add: unat_mod PG_SIZE_def)
qed

lemma mmu_walk_page: "mmu_walk m dir v = Some x \<Longrightarrow> page_frame v = v \<Longrightarrow> page_frame x = x"
  using page_offset_frame [of v] by (auto simp: mmu_walk_def Let_def split: if_splits)

text \<open>The pages a successful malloc_page has mapped, as indices of the pool.\<close>

lemma malloc_page_indices:
  assumes ok: "malloc_page_ok s pf n v s1 fs"
  obtains "is" where "fs = map (pool_page (pool_of pf s)) is" "run_on s1 pf v is" "length is = unat n"
proof -
  have fr: "\<forall>f \<in> set fs. \<exists>i. f = pool_page (pool_of pf s) i \<and> pool_idx s pf i"
    using ok unfolding malloc_page_ok_def fresh_pages_def by blast
  then obtain g where g: "\<forall>f \<in> set fs. f = pool_page (pool_of pf s) (g f) \<and> pool_idx s pf (g f)"
    using bchoice [of "set fs" "\<lambda>f i. f = pool_page (pool_of pf s) i \<and> pool_idx s pf i"] by blast
  have same: "pool_of q s1 = pool_of q s" "pool_idx s1 q j = pool_idx s q j" for q j
    using ok by (simp_all add: malloc_page_ok_def pool_of_def pool_idx_def)
  have fs: "fs = map (pool_page (pool_of pf s)) (map g fs)"
    using g by (simp add: map_idI)
  have len: "length (map g fs) = unat n" and run: "run_ok v (unat n)"
    and mapped: "run_mapped s s1 v fs" and "distinct fs"
    using ok by (simp_all add: malloc_page_ok_def fresh_pages_def)
  have "inj_on g (set fs)" using g by (metis inj_onI)
  then have "distinct (map g fs)" using \<open>distinct fs\<close> by (simp add: distinct_map)
  moreover have "pool_idx s1 pf (map g fs ! k) \<and>
      vmap s1 (run_page v k) = Some (pool_page (pool_of pf s1) (map g fs ! k))" if "k < length (map g fs)" for k
  proof -
    have k: "k < length fs" "k < unat n" using that len by simp_all
    note f = run_page_frame(1) [OF run k(2)]
    have "vmap s1 (run_page v k) = Some (fs ! k + page_offset (run_page v k))"
      using mapped k(1) f unfolding run_mapped_def by blast
    then show ?thesis using g k(1) by (simp add: page_offset_frame [OF f] same)
  qed
  ultimately have "run_on s1 pf v (map g fs)"
    using run len unfolding run_on_def by simp
  then show thesis using that fs len by blast
qed

lemma vaddr_remove_run:
  assumes v: "v = run_page (Kernel_State.vaddr_start (vaddr_pool pf s)) (unat i)"
    and ok: "run_ok (Kernel_State.vaddr_start (vaddr_pool pf s)) L" "unat i < L"
  shows "vaddr_remove s pf v n =
    Inr (s\<lparr>mem := set_range (mem s) (vaddr_bitmap (vaddr_pool pf s)) i (unat n) False\<rparr>)"
proof -
  let ?start = "Kernel_State.vaddr_start (vaddr_pool pf s)"
  have "unat v = unat ?start + unat i * 4096" unfolding v by (rule run_page_unat [OF ok])
  then have "unat (v - ?start) = unat i * 4096" by (subst unat_diff_u32) (simp_all add: word_le_nat_alt)
  then have "(v - ?start) div PG_SIZE = i" by (intro u32_eqI) (simp add: unat_div PG_SIZE_def)
  then show ?thesis by (simp add: vaddr_remove_def Let_def set_loop_range)
qed

text \<open>mfree_page on a run of pages of one pool.\<close>

lemma mfree_page_run:
  fixes s pf
  defines "b \<equiv> vaddr_bitmap (vaddr_pool pf s)" and "start \<equiv> Kernel_State.vaddr_start (vaddr_pool pf s)"
  assumes wf: "pt_wf (phys s) (cr3 s)" "pools_wf s" and vinv: "vpool_inv s pf"
    and run: "run_on s pf v is" "length is = unat n" "0 < n"
    and win: "v = run_page start (unat i)" "unat i + unat n < unat (btmp_bytes_len b)"
    and low: "0x102000 \<le> unat (phy_addr_start (pool_of pf s))"
  shows "\<exists>m ph. mfree_page s pf v n = Inr (s\<lparr>mem := m, phys := ph\<rparr>) \<and> pt_wf ph (cr3 s) \<and>
    (\<forall>w. ph (pde_addr (cr3 s) w) = phys s (pde_addr (cr3 s) w)) \<and>
    unmapped s (s\<lparr>mem := m, phys := ph\<rparr>) v (unat n) \<and> pages_freed s (s\<lparr>mem := m, phys := ph\<rparr>) pf (set is) \<and>
    (\<forall>j. unat j < 8 * unat (btmp_bytes_len b) \<longrightarrow>
       bitmap_scan_test m b j = (j \<notin> span i (unat n) \<and> bitmap_scan_test (mem s) b j)) \<and>
    (\<forall>a. a \<notin> map_bytes (pool_bitmap (pool_of pf s)) \<longrightarrow> a \<notin> map_bytes b \<longrightarrow> m a = mem s a)"
proof -
  have n0: "0 < unat n" using run(3) by (simp add: word_gt_0_no word_less_nat_alt)
  have rv: "run_ok v (unat n)" using run(1,2) by (simp add: run_on_def)
  have v0: "run_page v 0 = v" by (simp add: run_page_def)
  note vf = run_page_frame(1) [OF rv n0, unfolded v0]
  let ?p = "pool_page (pool_of pf s) (is ! 0)"
  have first: "vmap s v = Some ?p" "pool_idx s pf (is ! 0)"
    using run(1,2) n0 unfolding run_on_def by (metis v0)+
  have v2p: "addr_v2p s v = Inr ?p"
    using addr_v2p_walk [OF _ first(1)] wf(1) by (simp add: pt_wf_def)
  have "unat ?p = unat (phy_addr_start (pool_of pf s)) + unat (is ! 0) * 4096"
    by (rule pools_wf_no_wrap [OF wf(2)]) (use first(2) in \<open>simp add: pool_idx_def\<close>)
  then have ge: "0x102000 \<le> ?p" using low by (simp add: word_le_nat_alt)
  obtain m ph where un: "unmap_pages (length is) v s = Inr (s\<lparr>mem := m, phys := ph\<rparr>)"
    "unmapped s (s\<lparr>mem := m, phys := ph\<rparr>) v (length is)"
    "pages_freed s (s\<lparr>mem := m, phys := ph\<rparr>) pf (set is)"
    "\<And>a. a \<notin> map_bytes (pool_bitmap (pool_of pf s)) \<Longrightarrow> m a = mem s a" "pt_wf ph (cr3 s)"
    "\<And>w. ph (pde_addr (cr3 s) w) = phys s (pde_addr (cr3 s) w)"
    using unmap_pages_run [OF wf run(1)] by blast
  let ?s1 = "s\<lparr>mem := m, phys := ph\<rparr>" and ?m2 = "set_range m b i (unat n) False"
  have va: "vaddr_pool pf ?s1 = vaddr_pool pf s" by (simp add: vaddr_pool_def running_thread_def)
  have okL: "run_ok start (unat (btmp_bytes_len b))"
    using vinv by (cases pf) (simp_all add: vpool_inv_def Let_def run_ok_def b_def start_def)
  have "vaddr_remove ?s1 pf v n = Inr (?s1\<lparr>mem := ?m2\<rparr>)"
    using vaddr_remove_run [of v pf ?s1 i "unat (btmp_bytes_len b)" n] win okL
    unfolding va b_def start_def by simp
  then have free: "mfree_page s pf v n = Inr (?s1\<lparr>mem := ?m2\<rparr>)"
    using run(2,3) page_frame_mod [OF vf] v2p page_frame_mod [OF mmu_walk_page [OF first(1) vf]] ge un(1)
    by (simp add: mfree_page_def)
  have disj: "map_bytes b \<inter> map_bytes (pool_bitmap (pool_of q s)) = {}" for q
    using vinv by (cases q) (simp_all add: vpool_inv_def Let_def pool_of_def b_def)
  have bits: "bitmap_scan_test ?m2 b j = (j \<notin> span i (unat n) \<and> bitmap_scan_test (mem s) b j)"
    if j: "unat j < 8 * unat (btmp_bytes_len b)" for j
  proof -
    have "bitmap_scan_test m b j = bitmap_scan_test (mem s) b j"
      by (rule test_frame [OF j]) (use un(4) disj [of pf] in auto)
    then show ?thesis by (simp add: set_range_test)
  qed
  have keep: "?m2 a = m a" if "a \<notin> map_bytes b" for a
    using win(2) that unat_u32_bound [of "btmp_bytes_len b"] by (intro set_range_frame) auto
  have "pool_bit (?s1\<lparr>mem := ?m2\<rparr>) q j = pool_bit ?s1 q j" if j: "pool_idx s q j" for q j
  proof -
    have po: "pool_of q ?s1 = pool_of q s" "pool_of q (?s1\<lparr>mem := ?m2\<rparr>) = pool_of q s"
      by (simp_all add: pool_of_def)
    show ?thesis
      unfolding pool_bit_def po using test_frame [of j "pool_bitmap (pool_of q s)" ?m2 m] keep disj [of q] j
      by (auto simp: pool_idx_def)
  qed
  then have "pages_freed s (?s1\<lparr>mem := ?m2\<rparr>) pf (set is)" using un(3) by (simp add: pages_freed_def)
  moreover have "unmapped s (?s1\<lparr>mem := ?m2\<rparr>) v (unat n)" using un(2) run(2) by (simp add: unmapped_def)
  moreover have form: "?s1\<lparr>mem := ?m2\<rparr> = s\<lparr>mem := ?m2, phys := ph\<rparr>" by simp
  ultimately show ?thesis using free bits keep un(4-6) unfolding form by (intro exI [of _ ?m2] exI [of _ ph]) simp
qed

text \<open>Mapping a run that was not mapped and unmapping it is the identity on the translations.\<close>

lemma remapped:
  assumes run: "run_ok v (length fs)" and new: "\<And>k. k < length fs \<Longrightarrow> vmap s (run_page v k) = None"
    and mapped: "run_mapped s s1 v fs" and un: "unmapped s1 s2 v (length fs)" and w: "own_pde w"
  shows "vmap s2 w = vmap s w"
proof -
  have un': "vmap s2 w = (if \<exists>k < length fs. page_frame w = run_page v k then None else vmap s1 w)"
    using un w unfolding unmapped_def by blast
  show ?thesis
  proof (cases "\<exists>k < length fs. page_frame w = run_page v k")
    case True
    then obtain k where k: "k < length fs" "page_frame w = run_page v k" by blast
    have "vmap s w = None"
      using mmu_walk_None_frame [of w "run_page v k"] run_page_frame(1) [OF run k(1)] k(2) new [OF k(1)] by simp
    then show ?thesis using un' True by simp
  next
    case False
    moreover have "vmap s1 w = vmap s w" using mapped w False unfolding run_mapped_def by blast
    ultimately show ?thesis using un' by (simp only: if_False simp_thms)
  qed
qed

text \<open>
  C16. mfree_page undoes malloc_page: giving back the run that malloc_page has just returned
  succeeds, every translation is again what it was before the allocation, so are the bits of the
  virtual pages, and exactly the bits of the physical pages the run was mapped to are cleared.
\<close>

theorem mfree_page_malloc_page:
  assumes inv: "phys_inv s" "vpool_inv s pf" and m: "malloc_page s pf n = Inr (v, s1)"
    and low: "0x102000 \<le> unat (phy_addr_start (pool_of pf s))"
  shows "\<exists>s2. mfree_page s1 pf v n = Inr s2 \<and> (\<forall>w. own_pde w \<longrightarrow> vmap s2 w = vmap s w) \<and>
    (\<forall>j. unat j < 8 * unat (btmp_bytes_len (vaddr_bitmap (vaddr_pool pf s))) \<longrightarrow>
       bitmap_scan_test (mem s2) (vaddr_bitmap (vaddr_pool pf s)) j =
       bitmap_scan_test (mem s) (vaddr_bitmap (vaddr_pool pf s)) j) \<and>
    (\<forall>q j. pool_idx s q j \<longrightarrow> pool_bit s2 q j = (pool_bit s1 q j \<and>
       \<not> (q = pf \<and> (\<exists>k < unat n. vmap s1 (run_page v k) = Some (pool_page (pool_of pf s) j)))))"
proof -
  obtain fs where ok: "malloc_page_ok s pf n v s1 fs"
    using malloc_page_run [OF inv, of n] m by auto
  obtain "is" where "is": "fs = map (pool_page (pool_of pf s)) is" "run_on s1 pf v is" "length is = unat n"
    by (rule malloc_page_indices [OF ok])
  let ?b = "vaddr_bitmap (vaddr_pool pf s)" and ?start = "Kernel_State.vaddr_start (vaddr_pool pf s)"
  have p1: "phys_inv s1" "vpool_inv s1 pf" "run_ok v (unat n)" "run_mapped s s1 v fs" "length fs = unat n"
    using ok by (simp_all add: malloc_page_ok_def)
  have same: "pool_of q s1 = pool_of q s" "pool_idx s1 q j = pool_idx s q j" "vaddr_pool pf s1 = vaddr_pool pf s" for q j
    using ok by (simp_all add: malloc_page_ok_def pool_of_def pool_idx_def window_taken_def)
  have wf1: "pt_wf (phys s1) (cr3 s1)" "pools_wf s1" using p1(1) by (simp_all add: phys_inv_def)
  have n0: "0 < n" using m by (simp add: malloc_page_def assertR_Inr_iff)
  obtain i where i: "v = run_page ?start (unat i)" "unat i + unat n < unat (btmp_bytes_len ?b)"
    "\<forall>a \<in> span i (unat n). \<not> bitmap_scan_test (mem s) ?b a"
    "\<forall>j. unat j < 8 * unat (btmp_bytes_len ?b) \<longrightarrow>
      bitmap_scan_test (mem s1) ?b j = (j \<in> span i (unat n) \<or> bitmap_scan_test (mem s) ?b j)"
    using ok unfolding malloc_page_ok_def window_taken_def Let_def by blast
  obtain m2 ph2 where m2: "mfree_page s1 pf v n = Inr (s1\<lparr>mem := m2, phys := ph2\<rparr>)"
    "unmapped s1 (s1\<lparr>mem := m2, phys := ph2\<rparr>) v (unat n)" "pages_freed s1 (s1\<lparr>mem := m2, phys := ph2\<rparr>) pf (set is)"
    "\<forall>j. unat j < 8 * unat (btmp_bytes_len ?b) \<longrightarrow>
      bitmap_scan_test m2 ?b j = (j \<notin> span i (unat n) \<and> bitmap_scan_test (mem s1) ?b j)"
    using mfree_page_run [OF wf1 p1(2) "is"(2,3) n0, unfolded same, OF i(1,2) low] by blast
  define s2 where "s2 = s1\<lparr>mem := m2, phys := ph2\<rparr>"
  have "mem s2 = m2" by (simp add: s2_def)
  note s2 = m2 [folded s2_def this]
  have new: "vmap s (run_page v k) = None" if k: "k < length fs" for k
  proof -
    have comp: "run_page v k = run_page ?start (unat i + k)" unfolding i(1) by (simp add: run_page_def algebra_simps)
    have "i + of_nat k \<in> span i (unat n)" using k p1(5) by (auto simp: span_def)
    then have "\<not> bitmap_scan_test (mem s) ?b (of_nat (unat i + k))" using i(3) by simp
    moreover have "unat i + k < unat (btmp_bytes_len ?b)" using k p1(5) i(2) by simp
    ultimately show ?thesis using inv(2) unfolding comp vpool_inv_def Let_def by blast
  qed
  have idx: "(\<exists>k < unat n. vmap s1 (run_page v k) = Some (pool_page (pool_of pf s) j)) \<longleftrightarrow> j \<in> set is"
    if j: "pool_idx s pf j" for j
  proof -
    have on: "pool_idx s pf (is ! k) \<and> vmap s1 (run_page v k) = Some (pool_page (pool_of pf s) (is ! k))"
      if "k < unat n" for k using "is"(2,3) that unfolding run_on_def same by simp
    have pw: "pools_wf s" using inv(1) by (simp add: phys_inv_def)
    have "pool_page (pool_of pf s) (is ! k) = pool_page (pool_of pf s) j \<longleftrightarrow> is ! k = j" if "k < unat n" for k
      using pool_page_inject [OF pw, of pf "is ! k" pf j] on [OF that] j by blast
    then show ?thesis using on "is"(3) by (auto simp: in_set_conv_nth)
  qed
  have "pool_bit s2 q j = (pool_bit s1 q j \<and>
      \<not> (q = pf \<and> (\<exists>k < unat n. vmap s1 (run_page v k) = Some (pool_page (pool_of pf s) j))))"
    if "pool_idx s q j" for q j
    using s2(3) that idx [of j] unfolding pages_freed_def same by blast
  moreover have "vmap s2 w = vmap s w" if "own_pde w" for w
    by (rule remapped [OF _ new p1(4) _ that]) (use p1(3,5) s2(2) in simp_all)
  moreover have "bitmap_scan_test (mem s2) ?b j = bitmap_scan_test (mem s) ?b j"
    if "unat j < 8 * unat (btmp_bytes_len ?b)" for j using s2(4) i(3,4) that by blast
  ultimately show ?thesis using s2(1) by blast
qed

lemma mfree_page_malloc_page_witness:
  "\<exists>v s1 s2. malloc_page demo_paged PF_KERNEL 2 = Inr (v, s1) \<and> mfree_page s1 PF_KERNEL v 2 = Inr s2 \<and>
    vmap s2 0xc0100000 = None"
proof -
  obtain v s1 where m: "malloc_page demo_paged PF_KERNEL 2 = Inr (v, s1)"
    using malloc_page_run [OF demo_phys_inv demo_vpool_inv, of 2] demo_no_few by auto
  have i: "own_pde 0xc0100000" by (simp add: own_pde_def PDE_IDX_def)
  have "0x102000 \<le> unat (phy_addr_start (pool_of PF_KERNEL demo_paged))" by (simp add: pool_of_def)
  from mfree_page_malloc_page [OF demo_phys_inv demo_vpool_inv m this] obtain s2 where
    "mfree_page s1 PF_KERNEL v 2 = Inr s2" "vmap s2 0xc0100000 = vmap demo_paged 0xc0100000" using i by blast
  then show ?thesis using m demo_unmapped [OF i] by auto
qed

end
