(* ===== verification/Heap.thy ===== *)
theory Heap
  imports Memory_Props
begin

text \<open>
  The kernel heap of kernel/memory.c: sys_malloc and sys_free on arenas. An arena is one page (or,
  for a request over 1024 bytes, several) that begins with struct arena, 12 bytes long; the rest of
  a small arena is cut into blocks of one size, and the free blocks of a size hang on the free list
  of its descriptor. A free block is a list node at the block's address.
\<close>

section \<open>Operations\<close>

definition DESC_CNT :: nat where "DESC_CNT = 7"

definition SIZEOF_ARENA :: u32 where "SIZEOF_ARENA = 12"

text \<open>The address of element \<open>idx\<close> of an array of descriptors.\<close>

definition desc_at :: "u32 \<Rightarrow> nat \<Rightarrow> u32" where
  "desc_at arr idx = arr + of_nat idx * SIZEOF_MEM_BLOCK_DESC"

lemma u16_Suc: "unat (i :: u16) < 7 \<Longrightarrow> unat (i + 1) = Suc (unat i)"
  by (simp add: unat_plus_if')

text \<open>The loop of block_desc_init from \<open>desc_idx\<close> on; block_size is a uint16_t.\<close>

function desc_init_loop :: "u32 \<Rightarrow> u16 \<Rightarrow> u16 \<Rightarrow> kstate \<Rightarrow> kstate" where
  "desc_init_loop desc_arry desc_idx bsize s =
     (if unat desc_idx < DESC_CNT
      then let d = desc_at desc_arry (unat desc_idx);
               s1 = s\<lparr>descs := (descs s)(d := \<lparr>block_size = ucast bsize,
                      blocks_per_arena = (PG_SIZE - SIZEOF_ARENA) div ucast bsize\<rparr>)\<rparr>;
               s2 = list_init s1 (free_list d)
           in desc_init_loop desc_arry (desc_idx + 1) (bsize * 2) s2
      else s)"
  by pat_completeness auto

termination
  by (relation "measure (\<lambda>(_, i, _, _). DESC_CNT - unat i)") (simp_all add: DESC_CNT_def u16_Suc)

declare desc_init_loop.simps [simp del]

definition block_desc_init :: "kstate \<Rightarrow> u32 \<Rightarrow> kstate" where
  "block_desc_init s desc_arry = desc_init_loop desc_arry 0 16 s"

definition mem_init :: "kstate \<Rightarrow> kstate kres" where
  "mem_init s0 =
     (let s = put_str s0 ''mem_init start\<newline>'' in
      bindR (load32 s 0xb00) (\<lambda>all_mem.
        bindR (mem_pool_init s all_mem) (\<lambda>s1.
          Inr (put_str (block_desc_init s1 K_BLOCK_DESC) ''mem_init done\<newline>''))))"

definition arena2block :: "kstate \<Rightarrow> u32 \<Rightarrow> u32 \<Rightarrow> u32" where
  "arena2block s a idx = a + SIZEOF_ARENA + idx * block_size (descs s (arena_desc (arenas s a)))"

definition block2arena :: "u32 \<Rightarrow> u32" where
  "block2arena b = b AND 0xfffff000"

text \<open>The first descriptor whose blocks are large enough; DESC_CNT when there is none.\<close>

function find_desc :: "kstate \<Rightarrow> u32 \<Rightarrow> u32 \<Rightarrow> nat \<Rightarrow> nat" where
  "find_desc s ds sz desc_idx =
     (if desc_idx < DESC_CNT
      then if sz \<le> block_size (descs s (desc_at ds desc_idx)) then desc_idx else find_desc s ds sz (desc_idx + 1)
      else desc_idx)"
  by pat_completeness auto

termination
  by (relation "measure (\<lambda>(_, _, _, i). DESC_CNT - i)") auto

declare find_desc.simps [simp del]

text \<open>
  The loop that cuts a new arena: every block is appended to the free list. The bound is read from
  the descriptor \<open>d\<close> in every round, as the code does.
\<close>

lemma loop_measure: "i < n \<Longrightarrow> unat n - unat (i + 1) < unat n - unat (i :: u32)"
  using unat_Suc_u32 [of i n] by (simp add: word_less_nat_alt)

lemma list_ops_frame [simp]:
  "descs (list_append s l e) = descs s" "arenas (list_append s l e) = arenas s"
  "descs (list_remove s e) = descs s" "arenas (list_remove s e) = arenas s"
  by (simp_all add: list_append_eq list_remove_eq)

function carve_loop :: "u32 \<Rightarrow> u32 \<Rightarrow> u32 \<Rightarrow> kstate \<Rightarrow> kstate kres" where
  "carve_loop a d block_idx s =
     (if block_idx < blocks_per_arena (descs s d)
      then let b = arena2block s a block_idx; fl = free_list (arena_desc (arenas s a)) in
           bindR (elem_find s fl b) (\<lambda>found.
             assertR (\<not> found) ''!elem_find(&a->desc->free_list, &b->free_elem)''
               (carve_loop a d (block_idx + 1) (list_append s fl b)))
      else Inr s)"
  by pat_completeness auto

termination
  by (relation "measure (\<lambda>(_, d, i, s). unat (blocks_per_arena (descs s d)) - unat i)")
    (simp_all add: loop_measure)

declare carve_loop.simps [simp del]

definition set_arena :: "u32 \<Rightarrow> arena \<Rightarrow> kstate \<Rightarrow> kstate" where
  "set_arena a v s = s\<lparr>arenas := (arenas s)(a := v)\<rparr>"

definition add_cnt :: "u32 \<Rightarrow> u32 \<Rightarrow> kstate \<Rightarrow> kstate" where
  "add_cnt a k s = s\<lparr>arenas := (arenas s)(a := (arenas s a)\<lparr>arena_cnt := arena_cnt (arenas s a) + k\<rparr>)\<rparr>"

text \<open>The branch of sys_malloc for more than 1024 bytes: whole pages, without a descriptor.\<close>

definition malloc_large :: "kstate \<Rightarrow> pool_flags \<Rightarrow> u32 \<Rightarrow> (u32 \<times> kstate) kres" where
  "malloc_large s pf sz =
     (let pg_cnt = (sz + SIZEOF_ARENA + PG_SIZE - 1) div PG_SIZE in
      bindR (malloc_page s pf pg_cnt) (\<lambda>(a, s1).
        if a \<noteq> NULL
        then bindR (kmemset0 s1 a (pg_cnt * PG_SIZE)) (\<lambda>s2.
               let s3 = set_arena a \<lparr>arena_desc = NULL, arena_cnt = pg_cnt, arena_large = True\<rparr> s2
               in bindR (lock_release s3 (pool_lock pf)) (\<lambda>s4. Inr (a + SIZEOF_ARENA, s4)))
        else bindR (lock_release s1 (pool_lock pf)) (\<lambda>s2. Inr (NULL, s2))))"

text \<open>A new arena for the descriptor \<open>d\<close>; the result says whether malloc_page gave a page.\<close>

definition new_arena :: "kstate \<Rightarrow> pool_flags \<Rightarrow> u32 \<Rightarrow> (bool \<times> kstate) kres" where
  "new_arena s pf d =
     bindR (malloc_page s pf 1) (\<lambda>(a, s1).
       if a = NULL then Inr (False, s1)
       else bindR (kmemset0 s1 a PG_SIZE) (\<lambda>s2.
              let s3 = set_arena a \<lparr>arena_desc = d, arena_cnt = blocks_per_arena (descs s2 d),
                         arena_large = False\<rparr> s2;
                  (s4, old_status) = intr_disable s3
              in bindR (carve_loop a d 0 s4) (\<lambda>s5. Inr (True, fst (intr_set_status s5 old_status)))))"

text \<open>The branch for small requests.\<close>

definition take_block :: "kstate \<Rightarrow> pool_flags \<Rightarrow> u32 \<Rightarrow> (u32 \<times> kstate) kres" where
  "take_block s pf d =
     bindR (list_pop s (free_list d)) (\<lambda>(b, s1).
       bindR (kmemset0 s1 b (block_size (descs s1 d))) (\<lambda>s2.
         bindR (lock_release (add_cnt (block2arena b) (- 1) s2) (pool_lock pf)) (\<lambda>s3. Inr (b, s3))))"

definition malloc_small :: "kstate \<Rightarrow> pool_flags \<Rightarrow> u32 \<Rightarrow> u32 \<Rightarrow> (u32 \<times> kstate) kres" where
  "malloc_small s pf ds sz =
     (let d = desc_at ds (find_desc s ds sz 0) in
      bindR (if list_empty s (free_list d) then new_arena s pf d else Inr (True, s)) (\<lambda>(got, s1).
        if got then take_block s1 pf d
        else bindR (lock_release s1 (pool_lock pf)) (\<lambda>s2. Inr (NULL, s2))))"

definition sys_malloc :: "kstate \<Rightarrow> u32 \<Rightarrow> (u32 \<times> kstate) kres" where
  "sys_malloc s sz =
     (let cur_thread = running_thread s;
          kernel = (pgdir (tasks s cur_thread) = NULL);
          pf = (if kernel then PF_KERNEL else PF_USER);
          psize = pool_size (pool_of pf s);
          ds = (if kernel then K_BLOCK_DESC else u_block_desc cur_thread)
      in if psize < sz then Inr (NULL, s)
         else bindR (lock_acquire s (pool_lock pf)) (\<lambda>s1.
                if 1024 < sz then malloc_large s1 pf sz else malloc_small s1 pf ds sz))"

text \<open>The loop of sys_free that takes the blocks of a free arena out of the free list.\<close>

function uncarve_loop :: "u32 \<Rightarrow> u32 \<Rightarrow> kstate \<Rightarrow> kstate kres" where
  "uncarve_loop a block_idx s =
     (if block_idx < blocks_per_arena (descs s (arena_desc (arenas s a)))
      then let b = arena2block s a block_idx in
           bindR (elem_find s (free_list (arena_desc (arenas s a))) b) (\<lambda>found.
             assertR found ''elem_find(&a->desc->free_list, &b->free_elem)''
               (uncarve_loop a (block_idx + 1) (list_remove s b)))
      else Inr s)"
  by pat_completeness auto

termination
  by (relation "measure (\<lambda>(a, i, s). unat (blocks_per_arena (descs s (arena_desc (arenas s a)))) - unat i)")
    (simp_all add: loop_measure)

declare uncarve_loop.simps [simp del]

definition free_block :: "kstate \<Rightarrow> pool_flags \<Rightarrow> u32 \<Rightarrow> u32 \<Rightarrow> kstate kres" where
  "free_block s pf a b =
     (let s1 = list_append s (free_list (arena_desc (arenas s a))) b;
          s2 = add_cnt a 1 s1
      in if arena_cnt (arenas s2 a) = blocks_per_arena (descs s2 (arena_desc (arenas s2 a)))
         then bindR (uncarve_loop a 0 s2) (\<lambda>s3. mfree_page s3 pf a 1)
         else Inr s2)"

definition sys_free :: "kstate \<Rightarrow> u32 \<Rightarrow> kstate kres" where
  "sys_free s ptr =
     assertR (ptr \<noteq> NULL) ''ptr != NULL''
       (let kernel = (pgdir (tasks s (running_thread s)) = NULL);
            pf = (if kernel then PF_KERNEL else PF_USER)
        in assertR (\<not> kernel \<or> K_HEAP_START < ptr) ''(uint32_t) ptr > K_HEAP_START''
             (bindR (lock_acquire s (pool_lock pf)) (\<lambda>s1.
                let a = block2arena ptr in
                bindR (if arena_desc (arenas s1 a) = NULL \<and> arena_large (arenas s1 a)
                       then mfree_page s1 pf a (arena_cnt (arenas s1 a))
                       else free_block s1 pf a ptr)
                  (\<lambda>s2. lock_release s2 (pool_lock pf)))))"

end
