(* ===== verification/Heap_Props.thy ===== *)
theory Heap_Props
  imports Heap
begin

text \<open>
  What the heap of kernel/memory.c promises: the table of descriptors, the address arithmetic of
  arenas, cutting an arena, and the allocation and release of blocks.
\<close>

section \<open>The table of descriptors\<close>

definition desc_table :: "kstate \<Rightarrow> u32 \<Rightarrow> mem_block_desc list" where
  "desc_table s arr = map (\<lambda>i. descs s (desc_at arr i)) [0..<DESC_CNT]"

definition desc_sizes :: "mem_block_desc list" where
  "desc_sizes = map (\<lambda>(b, n). \<lparr>block_size = b, blocks_per_arena = n\<rparr>)
     [(16, 255), (32, 127), (64, 63), (128, 31), (256, 15), (512, 7), (1024, 3)]"

lemma upt_7: "[0..<7 :: nat] = [0, 1, 2, 3, 4, 5, 6]"
  by (simp add: upt_rec)

lemma block_desc_init_eq:
  "block_desc_init s arr =
    fold (\<lambda>(i, b, n) s. list_init (s\<lparr>descs := (descs s)(arr + i * 24 := \<lparr>block_size = b, blocks_per_arena = n\<rparr>)\<rparr>)
        (arr + i * 24 + 8))
      [(0, 16, 255), (1, 32, 127), (2, 64, 63), (3, 128, 31), (4, 256, 15), (5, 512, 7), (6, 1024, 3)] s"
  by (simp add: block_desc_init_def desc_init_loop.simps DESC_CNT_def desc_at_def SIZEOF_MEM_BLOCK_DESC_def
      PG_SIZE_def SIZEOF_ARENA_def free_list_def Let_def)

text \<open>
  block_desc_init fills the table as documented: seven descriptors for blocks of 16, 32, up to
  1024 bytes with the number of blocks that fit in a page after the arena's 12 bytes, each with
  an empty free list.
\<close>

theorem block_desc_init_table:
  "desc_table (block_desc_init s arr) arr = desc_sizes \<and>
    list_all (\<lambda>i. list_empty (block_desc_init s arr) (free_list (desc_at arr i))) [0..<DESC_CNT]"
  unfolding block_desc_init_eq desc_table_def DESC_CNT_def upt_7
  by (simp add: desc_sizes_def desc_at_def SIZEOF_MEM_BLOCK_DESC_def free_list_def list_init_def list_empty_def
      dl_empty_def dl_init_def tail_of_def Let_def set_prev_def set_next_def)

lemma find_desc_least:
  assumes "i \<le> DESC_CNT"
  shows "find_desc s ds sz i \<le> DESC_CNT"
    "\<forall>k. i \<le> k \<longrightarrow> k < find_desc s ds sz i \<longrightarrow> block_size (descs s (desc_at ds k)) < sz"
    "find_desc s ds sz i < DESC_CNT \<longrightarrow> sz \<le> block_size (descs s (desc_at ds (find_desc s ds sz i)))"
  using assms
proof (induction s ds sz i rule: find_desc.induct)
  case (1 s ds sz i)
  let ?fit = "i < DESC_CNT \<and> \<not> sz \<le> block_size (descs s (desc_at ds i))"
  have unfold: "find_desc s ds sz i = (if ?fit then find_desc s ds sz (i + 1) else i)"
    by (subst find_desc.simps) simp
  { case 1 then show ?case using "1.IH" unfold by simp
  next
    case 2
    have "block_size (descs s (desc_at ds k)) < sz" if "?fit" "i \<le> k" "k < find_desc s ds sz (i + 1)" for k
      using "1.IH"(2) that by (cases "k = i") auto
    then show ?case using unfold by auto
  next
    case 3 then show ?case using "1.IH"(3) unfold by (auto simp: not_less) }
qed

text \<open>
  sys_malloc's search takes the smallest sufficient size: for a request of at most 1024 bytes it
  finds a descriptor of the table whose blocks are large enough, while those of the descriptor
  before it are too small.
\<close>

theorem find_desc_smallest_fit:
  assumes "desc_table s ds = desc_sizes" "sz \<le> 1024"
  shows "\<exists>i < DESC_CNT. find_desc s ds sz 0 = i \<and> sz \<le> block_size (descs s (desc_at ds i)) \<and>
    (i = 0 \<or> block_size (descs s (desc_at ds (i - 1))) < sz)"
proof -
  have b: "block_size (descs s (desc_at ds i)) = 16 * 2 ^ i" if "i < 7" for i
  proof -
    have "i \<in> {0, 1, 2, 3, 4, 5, 6}" using that by auto
    then show ?thesis
      using assms(1) unfolding desc_table_def DESC_CNT_def upt_7 by (auto simp: desc_sizes_def)
  qed
  define r where "r = find_desc s ds sz 0"
  have least: "r \<le> DESC_CNT" "k < r \<Longrightarrow> block_size (descs s (desc_at ds k)) < sz"
    "r < DESC_CNT \<Longrightarrow> sz \<le> block_size (descs s (desc_at ds r))" for k
    using find_desc_least [of 0 s ds sz] unfolding r_def by simp_all
  have "block_size (descs s (desc_at ds 6)) = 1024" using b [of 6] by simp
  then have "\<not> 6 < r" using least(2) [of 6] assms(2) by auto
  then have lt: "r < DESC_CNT" using least(1) by (simp add: DESC_CNT_def)
  have "r = 0 \<or> block_size (descs s (desc_at ds (r - 1))) < sz" using least(2) [of "r - 1"] by linarith
  then show ?thesis unfolding r_def [symmetric] using least(3) [OF lt] lt by blast
qed

lemma find_desc_smallest_fit_witness:
  "\<exists>i < DESC_CNT. find_desc (block_desc_init demo_paged K_BLOCK_DESC) K_BLOCK_DESC 33 0 = i \<and>
    33 \<le> block_size (descs (block_desc_init demo_paged K_BLOCK_DESC) (desc_at K_BLOCK_DESC i)) \<and>
    (i = 0 \<or> block_size (descs (block_desc_init demo_paged K_BLOCK_DESC) (desc_at K_BLOCK_DESC (i - 1))) < 33)"
  by (rule find_desc_smallest_fit)
    (simp_all add: block_desc_init_eq desc_table_def DESC_CNT_def upt_7 desc_sizes_def desc_at_def
      SIZEOF_MEM_BLOCK_DESC_def list_init_def)

section \<open>Addresses in an arena\<close>

text \<open>The arena \<open>a\<close> is a page whose blocks fit between its header and its end.\<close>

definition arena_fits :: "kstate \<Rightarrow> u32 \<Rightarrow> bool" where
  "arena_fits s a \<longleftrightarrow> page_frame a = a \<and> (let d = descs s (arena_desc (arenas s a)) in
     0 < block_size d \<and> unat (blocks_per_arena d) * unat (block_size d) \<le> 4084)"

lemma unat_page_next: "page_frame a = a \<Longrightarrow> unat a + 4096 \<le> 4294967296"
proof -
  assume "page_frame a = a"
  then have "unat a = unat a div 4096 * 4096" using unat_page_frame [of a] by simp
  moreover have "unat a div 4096 < 1048576" using unat_u32_bound [of a] by (intro less_mult_imp_div_less) simp
  ultimately show ?thesis by linarith
qed

lemma arena2block_unat:
  assumes "arena_fits s a" "idx < blocks_per_arena (descs s (arena_desc (arenas s a)))"
  defines "bs \<equiv> unat (block_size (descs s (arena_desc (arenas s a))))"
  shows "unat (arena2block s a idx) = unat a + 12 + unat idx * bs" "12 + unat idx * bs + bs \<le> 4096"
proof -
  have "unat idx + 1 \<le> unat (blocks_per_arena (descs s (arena_desc (arenas s a))))"
    using assms(2) by (simp add: word_less_nat_alt)
  then have "(unat idx + 1) * bs \<le> unat (blocks_per_arena (descs s (arena_desc (arenas s a)))) * bs"
    by (rule mult_le_mono1)
  then have le: "unat idx * bs + bs \<le> 4084" using assms(1) by (simp add: arena_fits_def Let_def bs_def)
  then show "12 + unat idx * bs + bs \<le> 4096" by simp
  have p: "unat a + 4096 \<le> 4294967296" using assms(1) by (intro unat_page_next) (simp add: arena_fits_def)
  have m: "unat (idx * block_size (descs s (arena_desc (arenas s a)))) = unat idx * bs"
    using le by (simp add: bs_def unat_mult_u32)
  have "0 < bs" using assms(1) by (simp add: arena_fits_def Let_def bs_def word_gt_0_no word_less_nat_alt)
  then have "unat a + 12 + unat idx * bs < 4294967296" using le p by linarith
  then show "unat (arena2block s a idx) = unat a + 12 + unat idx * bs"
    unfolding arena2block_def SIZEOF_ARENA_def by (simp add: unat_add_u32 m)
qed

lemma block2arena_frame: "block2arena b = page_frame b"
  by (simp add: block2arena_def page_frame_def)

lemma in_page_frame:
  assumes "page_frame a = a" "unat a \<le> unat b" "unat b < unat a + 4096"
  shows "page_frame b = a"
proof (rule u32_eqI)
  have "unat a = unat a div 4096 * 4096" using unat_page_frame [of a] assms(1) by simp
  then have "unat b div 4096 = unat a div 4096" using assms(2,3) by auto
  then show "unat (page_frame b) = unat a" using assms(1) by (metis unat_page_frame)
qed

text \<open>
  Blocks and arenas: every block of an arena lies in the arena's page behind the header,
  block2arena finds the arena of each of its blocks again, and different blocks do not overlap.
\<close>

theorem block2arena_arena2block:
  assumes "arena_fits s a" "i < blocks_per_arena (descs s (arena_desc (arenas s a)))"
    "j < blocks_per_arena (descs s (arena_desc (arenas s a)))"
  shows "block2arena (arena2block s a i) = a \<and> unat a + 12 \<le> unat (arena2block s a i) \<and>
    unat (arena2block s a i) + unat (block_size (descs s (arena_desc (arenas s a)))) \<le> unat a + 4096 \<and>
    (i < j \<longrightarrow> unat (arena2block s a i) + unat (block_size (descs s (arena_desc (arenas s a))))
      \<le> unat (arena2block s a j))"
proof -
  let ?bs = "unat (block_size (descs s (arena_desc (arenas s a))))"
  note ui = arena2block_unat [OF assms(1,2)] and uj = arena2block_unat [OF assms(1,3)]
  have pos: "0 < ?bs" "page_frame a = a"
    using assms(1) by (simp_all add: arena_fits_def Let_def word_gt_0_no word_less_nat_alt)
  have "page_frame (arena2block s a i) = a"
    by (rule in_page_frame [OF pos(2)]) (use ui pos(1) in linarith)+
  moreover have "unat (arena2block s a i) + ?bs \<le> unat (arena2block s a j)" if "i < j"
  proof -
    have "(unat i + 1) * ?bs \<le> unat j * ?bs" by (rule mult_le_mono1) (use that in \<open>simp add: word_less_nat_alt\<close>)
    then show ?thesis using ui(1) uj(1) by simp
  qed
  ultimately show ?thesis using ui by (simp add: block2arena_frame)
qed

definition demo_arena :: kstate where
  "demo_arena = set_arena 0xc0100000 \<lparr>arena_desc = K_BLOCK_DESC, arena_cnt = 255, arena_large = False\<rparr>
     (block_desc_init demo_paged K_BLOCK_DESC)"

lemma demo_arena_fits: "arena_fits demo_arena 0xc0100000"
  "blocks_per_arena (descs demo_arena (arena_desc (arenas demo_arena 0xc0100000))) = 255"
  by (simp_all add: arena_fits_def demo_arena_def set_arena_def block_desc_init_eq list_init_def page_frame_def Let_def)

lemma block2arena_arena2block_witness:
  "block2arena (arena2block demo_arena 0xc0100000 7) = 0xc0100000 \<and>
    unat (arena2block demo_arena 0xc0100000 7) + 16 \<le> unat (arena2block demo_arena 0xc0100000 8)"
proof -
  have "(7 :: u32) < blocks_per_arena (descs demo_arena (arena_desc (arenas demo_arena 0xc0100000)))"
    "(8 :: u32) < blocks_per_arena (descs demo_arena (arena_desc (arenas demo_arena 0xc0100000)))"
    "unat (block_size (descs demo_arena (arena_desc (arenas demo_arena 0xc0100000)))) = 16"
    by (simp_all add: demo_arena_fits(2))
      (simp add: demo_arena_def set_arena_def block_desc_init_eq list_init_def)
  then show ?thesis using block2arena_arena2block [OF demo_arena_fits(1), of 7 8] by simp
qed

section \<open>Zeroing mapped memory\<close>

text \<open>Writes to a frame that is neither the directory nor a page table leave the translation alone.\<close>

lemma outside_tables:
  assumes wf: "pt_wf m dir" and f: "fresh_table m dir f" and out: "\<And>a. page_frame a \<noteq> f \<Longrightarrow> m' a = m a"
  shows "m' (pde_addr dir w) = m (pde_addr dir w)" "mmu_walk m' dir w = mmu_walk m dir w" "pt_wf m' dir"
    "fresh_table m' dir f"
proof -
  have "page_frame (pde_addr dir w) \<noteq> f" for w
    using f unfolding pde_addr_def by (auto simp: frame_word_frame fresh_table_def)
  then have dirs: "m' (pde_addr dir w) = m (pde_addr dir w)" for w using out by blast
  then show "m' (pde_addr dir w) = m (pde_addr dir w)" .
  have "m' (pte_addr (m (pde_addr dir w)) w) = m (pte_addr (m (pde_addr dir w)) w)"
    if "present (m (pde_addr dir w))"
    by (rule out) (use f that in \<open>simp add: pte_addr_def frame_word_frame fresh_table_def\<close>)
  then show "mmu_walk m' dir w = mmu_walk m dir w" by (simp add: mmu_walk_def Let_def dirs)
  have "rec_slot m' dir"
    using wf dirs [of "0xffffffff"] by (simp add: pt_wf_def rec_slot_def Let_def pde_addr_last)
  then show "pt_wf m' dir" using wf unfolding pt_wf_def dirs by blast
  show "fresh_table m' dir f" using f unfolding fresh_table_def dirs .
qed

lemma page_offset_add:
  assumes "unat (page_offset va) + k < 4096"
  shows "page_frame (va + of_nat k) = page_frame va" "unat (page_offset (va + of_nat k)) = unat (page_offset va) + k"
proof -
  have va: "unat va = unat va div 4096 * 4096 + unat (page_offset va)" by (simp add: unat_page_offset)
  have "unat va div 4096 < 1048576" using unat_u32_bound [of va] by (intro less_mult_imp_div_less) simp
  then have u: "unat (va + of_nat k) = unat va div 4096 * 4096 + (unat (page_offset va) + k)"
    using va assms by (subst unat_add_of_nat_u32) linarith+
  then have d: "unat (va + of_nat k) div 4096 = unat va div 4096"
    "unat (va + of_nat k) mod 4096 = unat (page_offset va) + k" using assms by simp_all
  show "page_frame (va + of_nat k) = page_frame va" by (rule u32_eqI) (simp add: unat_page_frame d)
  show "unat (page_offset (va + of_nat k)) = unat (page_offset va) + k" by (simp add: unat_page_offset d)
qed

lemma zero_words_mapped:
  assumes "pt_wf (phys s) (cr3 s)" "fresh_table (phys s) (cr3 s) f"
    "vmap s va = Some (f + page_offset va)" "unat (page_offset va) + 4 * n \<le> 4096"
  shows "\<exists>ph. zero_words s va n = Inr (s\<lparr>phys := ph\<rparr>) \<and> (\<forall>a. page_frame a \<noteq> f \<longrightarrow> ph a = phys s a)"
  using assms
proof (induction n arbitrary: s va)
  case 0
  then show ?case by (intro exI [of _ "phys s"]) simp
next
  case (Suc n)
  let ?pa = "f + page_offset va"
  define ph1 where "ph1 = (phys s)(?pa := 0)"
  have pf: "page_frame f = f" using Suc.prems(2) by (simp add: fresh_table_def)
  have small: "unat (0 :: u32) + unat (page_offset va) < 4096" using Suc.prems(4) by simp
  have fr: "page_frame ?pa = f"
    using page_offset_add(1) [of f "unat (page_offset va)"] Suc.prems(4) pf page_offset_frame [OF pf] by simp
  have st: "store32 s va 0 = Inr (s\<lparr>phys := ph1\<rparr>)" using Suc.prems(3) by (simp add: store32_def ph1_def)
  have out: "ph1 a = phys s a" if "page_frame a \<noteq> f" for a using that fr by (auto simp: ph1_def)
  note keep = outside_tables [OF Suc.prems(1,2) out]
  show ?case
  proof (cases "n = 0")
    case True
    then show ?thesis using st out by (intro exI [of _ ph1]) simp
  next
    case False
    have off: "page_frame (va + 4) = page_frame va" "unat (page_offset (va + 4)) = unat (page_offset va) + 4"
      using page_offset_add [of va 4] Suc.prems(4) False by simp_all
    have same: "pde_addr d (va + 4) = pde_addr d va" "pte_addr e (va + 4) = pte_addr e va" for d e
      using off(1) page_frame_idx [of "va + 4" va] by (simp_all add: pde_addr_def pte_addr_def)
    have "vmap s (va + 4) = Some (f + page_offset (va + 4))"
      using Suc.prems(3) by (auto simp: mmu_walk_def Let_def same split: if_splits)
    then have "mmu_walk ph1 (cr3 s) (va + 4) = Some (f + page_offset (va + 4))"
      using keep(2) by simp
    moreover have "unat (page_offset (va + 4)) + 4 * n \<le> 4096" using off(2) Suc.prems(4) by simp
    ultimately obtain ph where ph: "zero_words (s\<lparr>phys := ph1\<rparr>) (va + 4) n = Inr (s\<lparr>phys := ph\<rparr>)"
      "\<forall>a. page_frame a \<noteq> f \<longrightarrow> ph a = ph1 a"
      using Suc.IH [of "s\<lparr>phys := ph1\<rparr>" "va + 4"] keep(3,4) by auto
    then show ?thesis using st out by (intro exI [of _ ph]) simp
  qed
qed

text \<open>memset inside one mapped page: the translation and everything outside the range stay.\<close>

definition same_vm :: "kstate \<Rightarrow> kstate \<Rightarrow> bool" where
  "same_vm s s' \<longleftrightarrow> cr3 s' = cr3 s \<and> (\<forall>w. vmap s' w = vmap s w) \<and> pt_wf (phys s') (cr3 s')"

lemma kmemset0_page:
  assumes "pt_wf (phys s) (cr3 s)" "fresh_table (phys s) (cr3 s) f"
    "vmap s va = Some (f + page_offset va)" "unat (page_offset va) + unat n \<le> 4096" "va \<noteq> 0"
  shows "\<exists>ph. kmemset0 s va n = Inr ((clear_typed s va (unat n))\<lparr>phys := ph\<rparr>) \<and>
    same_vm s ((clear_typed s va (unat n))\<lparr>phys := ph\<rparr>)"
proof -
  have le: "unat (page_offset va) + 4 * (unat n div 4) \<le> 4096" using assms(4) by simp
  obtain ph where ph: "zero_words s va (unat n div 4) = Inr (s\<lparr>phys := ph\<rparr>)"
    "\<And>a. page_frame a \<noteq> f \<Longrightarrow> ph a = phys s a"
    using zero_words_mapped [OF assms(1-3) le] by blast
  note keep = outside_tables [OF assms(1,2) ph(2)]
  show ?thesis
    by (rule exI [of _ ph])
      (use ph(1) keep(2,3) assms(5) in \<open>simp add: kmemset0_def same_vm_def clear_typed_def\<close>)
qed

end
