(* ===== verification/Heap_Blocks.thy ===== *)
theory Heap_Blocks
  imports Heap_Props
begin

text \<open>
  Allocation and release of blocks: sys_malloc and sys_free of kernel/memory.c under the pool's
  lock. The free lists are read through the family of lists that also holds the lock's waiters.
\<close>

section \<open>The lock around the heap\<close>

definition lock_ready :: "kstate \<Rightarrow> u32 \<Rightarrow> (u32 \<Rightarrow> u32 list option) \<Rightarrow> bool" where
  "lock_ready s l F \<longleftrightarrow> lock_holder s l = 0 \<and> holder_repeat_nr s l = 0 \<and>
     sema_value s (lock_semaphore l) = 1 \<and> cur s \<noteq> 0 \<and>
     k_family s F \<and> F (sema_waiters (lock_semaphore l)) = Some []"

lemma lock_ready_acquire: "lock_ready s l F \<Longrightarrow> lock_acquire s l = Inr (locked l s)"
  by (rule lock_free_acquire) (auto simp: lock_ready_def lock_free_def)

lemma locked_frame [simp]:
  "descs (locked l s) = descs s" "arenas (locked l s) = arenas s" "tasks (locked l s) = tasks s"
  "phys (locked l s) = phys s" "cr3 (locked l s) = cr3 s" "mem (locked l s) = mem s"
  "kernel_pool (locked l s) = kernel_pool s" "user_pool (locked l s) = user_pool s"
  "kernel_vaddr (locked l s) = kernel_vaddr s"
  by (simp_all add: locked_def set_repeat_def set_holder_def set_sema_value_def)

lemma unlocked_frame [simp]:
  "descs (unlocked l s) = descs s" "arenas (unlocked l s) = arenas s" "tasks (unlocked l s) = tasks s"
  "phys (unlocked l s) = phys s" "cr3 (unlocked l s) = cr3 s" "mem (unlocked l s) = mem s"
  "kernel_pool (unlocked l s) = kernel_pool s" "user_pool (unlocked l s) = user_pool s"
  "kernel_vaddr (unlocked l s) = kernel_vaddr s"
  "lheap (unlocked l s) = lheap s" "cur (unlocked l s) = cur s"
  by (simp_all add: unlocked_def set_repeat_def set_holder_def set_sema_value_def)

text \<open>
  Work done under the lock: when it leaves the fields of the lock and of the running thread alone
  and the waiters' list stays empty, the release succeeds and the lock is ready again.
\<close>

definition lock_kept :: "kstate \<Rightarrow> kstate \<Rightarrow> bool" where
  "lock_kept s s' \<longleftrightarrow> lock_holder s' = lock_holder s \<and> holder_repeat_nr s' = holder_repeat_nr s \<and>
     sema_value s' = sema_value s \<and> cur s' = cur s"

lemma lock_ready_release:
  assumes "lock_ready s l F" "lock_kept (locked l s) s'" "k_family s' F'"
    "F' (sema_waiters (lock_semaphore l)) = Some []"
  shows "lock_release s' l = Inr (unlocked l s')" "lock_ready (unlocked l s') l F'"
proof -
  show "lock_release s' l = Inr (unlocked l s')"
    by (rule lock_free_release [OF assms(3,4)]) (use assms(2) in \<open>simp_all add: lock_kept_def\<close>)
  show "lock_ready (unlocked l s') l F'"
    using assms by (simp add: lock_ready_def lock_kept_def k_family_def)
      (simp add: unlocked_def)
qed

lemma k_family_cong:
  assumes "k_family s F" "\<And>x. x \<in> fam_nodes F \<Longrightarrow> lheap s' x = lheap s x"
  shows "k_family s' F"
proof -
  have "dl_list (lheap s') l xs = dl_list (lheap s) l xs" if "F l = Some xs" for l xs
    by (rule dl_list_frame) (use assms(2) that in \<open>auto simp: fam_nodes_def\<close>)
  then show ?thesis using assms(1) by (simp add: k_family_def dl_family_def)
qed

section \<open>Taking a block\<close>

text \<open>The block \<open>b\<close> of \<open>n\<close> bytes is in one mapped page that holds no table.\<close>

definition zeroable :: "kstate \<Rightarrow> u32 \<Rightarrow> u32 \<Rightarrow> bool" where
  "zeroable s b n \<longleftrightarrow> b \<noteq> 0 \<and> pt_wf (phys s) (cr3 s) \<and> unat (page_offset b) + unat n \<le> 4096 \<and>
     (\<exists>f. not_table s f \<and> vmap s b = Some (f + page_offset b))"

lemma kmemset0_zeroable:
  assumes "zeroable s b n"
  shows "\<exists>ph. kmemset0 s b n = Inr ((clear_typed s b (unat n))\<lparr>phys := ph\<rparr>) \<and>
    same_vm s ((clear_typed s b (unat n))\<lparr>phys := ph\<rparr>)"
  using assms kmemset0_page [of s _ b n] by (auto simp: zeroable_def not_table_def)

text \<open>The range of the block does not reach the header of its arena or another list node.\<close>

definition apart :: "u32 \<Rightarrow> u32 \<Rightarrow> (u32 \<Rightarrow> u32 list option) \<Rightarrow> bool" where
  "apart b n F \<longleftrightarrow> \<not> in_range (block2arena b) b (unat n) \<and> (\<forall>x \<in> fam_nodes F. x \<noteq> b \<longrightarrow> \<not> in_range x b (unat n))"

lemma fam_nodes_subset:
  assumes l: "F l = Some ys" and sub: "set xs \<subseteq> set ys"
  shows "fam_nodes (F(l \<mapsto> xs)) \<subseteq> fam_nodes F"
proof
  fix a assume "a \<in> fam_nodes (F(l \<mapsto> xs))"
  then obtain l' zs where l': "(F(l \<mapsto> xs)) l' = Some zs" "a \<in> set (dl_nodes l' zs)"
    unfolding fam_nodes_def by blast
  show "a \<in> fam_nodes F"
  proof (cases "l' = l")
    case True
    then have "a \<in> set (dl_nodes l ys)" using l' sub by (auto simp: dl_nodes_def)
    then show ?thesis using l unfolding fam_nodes_def by blast
  next
    case False
    then have "F l' = Some zs" using l'(1) by simp
    then show ?thesis using l'(2) unfolding fam_nodes_def by blast
  qed
qed

definition took_block :: "kstate \<Rightarrow> kstate \<Rightarrow> u32 \<Rightarrow> u32 \<Rightarrow> (u32 \<Rightarrow> u32 list option) \<Rightarrow> bool" where
  "took_block s s' l b F' \<longleftrightarrow> lock_ready s' l F' \<and> same_vm s s' \<and> descs s' = descs s \<and> tasks s' = tasks s \<and>
     cur s' = cur s \<and> arenas s' (block2arena b) =
       (arenas s (block2arena b))\<lparr>arena_cnt := arena_cnt (arenas s (block2arena b)) - 1\<rparr>"

lemma take_block_pops:
  assumes ready: "lock_ready s (pool_lock pf) F"
    and fl: "F (free_list d) = Some (b # bs)" "free_list d \<noteq> sema_waiters (lock_semaphore (pool_lock pf))"
    and zero: "zeroable s b (block_size (descs s d))" and apart: "apart b (block_size (descs s d)) F"
  shows "\<exists>s'. take_block (locked (pool_lock pf) s) pf d = Inr (b, s') \<and>
    took_block s s' (pool_lock pf) b (F(free_list d \<mapsto> bs))"
proof -
  let ?l = "pool_lock pf" and ?n = "block_size (descs s d)" and ?F' = "F(free_list d \<mapsto> bs)"
  define s0 where "s0 = locked ?l s"
  define s1 where "s1 = list_remove s0 b"
  have fam0: "k_family s0 F" using ready by (simp add: lock_ready_def s0_def)
  note pop = list_pop_family [OF fam0 fl(1)]
  have fam1: "k_family s1 ?F'" using pop(2) by (simp add: s1_def)
  have sel1: "phys s1 = phys s" "cr3 s1 = cr3 s" "descs s1 = descs s" "arenas s1 = arenas s" "tasks s1 = tasks s"
    by (simp_all add: s1_def s0_def list_remove_eq)
  have "zeroable s1 b ?n" using zero by (simp add: zeroable_def not_table_def sel1)
  then obtain ph where ph: "kmemset0 s1 b ?n = Inr ((clear_typed s1 b (unat ?n))\<lparr>phys := ph\<rparr>)"
    "same_vm s1 ((clear_typed s1 b (unat ?n))\<lparr>phys := ph\<rparr>)"
    using kmemset0_zeroable by blast
  define s2 where "s2 = (clear_typed s1 b (unat ?n))\<lparr>phys := ph\<rparr>"
  define s3 where "s3 = add_cnt (block2arena b) (- 1) s2"
  have arena2: "arenas s2 (block2arena b) = arenas s (block2arena b)"
    using apart by (simp add: s2_def clear_typed_def wipe_def sel1 apart_def)
  have "b \<notin> fam_nodes ?F'" using kl.removed_fresh [of s0 F "free_list d" "[]" b bs] fam0 fl(1) by simp
  moreover have "fam_nodes ?F' \<subseteq> fam_nodes F" by (rule fam_nodes_subset [of F "free_list d" "b # bs"]) (use fl(1) in auto)
  ultimately have "lheap s3 x = lheap s1 x" if "x \<in> fam_nodes ?F'" for x
    using that apart
    by (auto simp: s3_def s2_def add_cnt_def clear_typed_def wipe_def apart_def)
  then have fam3: "k_family s3 ?F'" by (rule k_family_cong [OF fam1])
  have kept: "lock_kept (locked ?l s) s3"
    by (simp add: lock_kept_def s3_def s2_def s1_def s0_def add_cnt_def clear_typed_def list_remove_eq)
  have w: "?F' (sema_waiters (lock_semaphore ?l)) = Some []"
    using ready fl(2) by (simp add: lock_ready_def)
  note rel = lock_ready_release [OF ready kept fam3 w]
  have "take_block s0 pf d = Inr (b, unlocked ?l s3)"
    by (simp only: take_block_def pop(1) bindR.simps case_prod_conv s1_def [symmetric] sel1(3) ph(1)
        s2_def [symmetric] s3_def [symmetric] rel(1))
  moreover have "same_vm s (unlocked ?l s3)"
    using ph(2) by (auto simp: same_vm_def sel1 s3_def add_cnt_def s2_def)
  moreover have "descs (unlocked ?l s3) = descs s" "tasks (unlocked ?l s3) = tasks s" "cur (unlocked ?l s3) = cur s"
    by (simp_all add: s3_def s2_def add_cnt_def clear_typed_def s1_def s0_def list_remove_eq)
  moreover have "arenas (unlocked ?l s3) (block2arena b) =
      (arenas s (block2arena b))\<lparr>arena_cnt := arena_cnt (arenas s (block2arena b)) - 1\<rparr>"
    using arena2 by (simp add: s3_def add_cnt_def)
  moreover note rel(2)
  ultimately have "took_block s (unlocked ?l s3) ?l b ?F'" unfolding took_block_def by blast
  moreover note \<open>take_block s0 pf d = Inr (b, unlocked ?l s3)\<close>
  ultimately show ?thesis by (simp add: s0_def)
qed

section \<open>sys_malloc and sys_free on one block\<close>

text \<open>The pool and the descriptors of the running thread.\<close>

definition heap_pf :: "kstate \<Rightarrow> pool_flags" where
  "heap_pf s = (if pgdir (tasks s (cur s)) = NULL then PF_KERNEL else PF_USER)"

definition heap_descs :: "kstate \<Rightarrow> u32" where
  "heap_descs s = (if pgdir (tasks s (cur s)) = NULL then K_BLOCK_DESC else u_block_desc (cur s))"

lemma find_desc_cong: "descs s' = descs s \<Longrightarrow> find_desc s' ds sz i = find_desc s ds sz i"
proof (induction s ds sz i rule: find_desc.induct)
  case (1 s ds sz i)
  then show ?case
    by (subst (1 2) find_desc.simps) simp
qed

text \<open>What taking the block \<open>b\<close> from the list of \<open>d\<close> needs.\<close>

definition block_ready :: "kstate \<Rightarrow> u32 \<Rightarrow> u32 \<Rightarrow> u32 \<Rightarrow> u32 list \<Rightarrow> (u32 \<Rightarrow> u32 list option) \<Rightarrow> bool" where
  "block_ready s l d b bs F \<longleftrightarrow> lock_ready s l F \<and> F (free_list d) = Some (b # bs) \<and>
     free_list d \<noteq> sema_waiters (lock_semaphore l) \<and> zeroable s b (block_size (descs s d)) \<and>
     apart b (block_size (descs s d)) F"

lemma sys_malloc_block:
  fixes s sz
  defines "l \<equiv> pool_lock (heap_pf s)" and "d \<equiv> desc_at (heap_descs s) (find_desc s (heap_descs s) sz 0)"
  assumes ready: "block_ready s l d b bs F" and sz: "sz \<le> 1024" "sz \<le> pool_size (pool_of (heap_pf s) s)"
  shows "\<exists>s'. sys_malloc s sz = Inr (b, s') \<and> took_block s s' l b (F(free_list d \<mapsto> bs))"
proof -
  have lr: "lock_ready s l F" and fl: "F (free_list d) = Some (b # bs)"
    "free_list d \<noteq> sema_waiters (lock_semaphore l)"
    and z: "zeroable s b (block_size (descs s d))" "apart b (block_size (descs s d)) F"
    using ready by (simp_all add: block_ready_def)
  obtain s' where s': "take_block (locked l s) (heap_pf s) d = Inr (b, s')"
    "took_block s s' l b (F(free_list d \<mapsto> bs))"
    using take_block_pops [OF lr [unfolded l_def] fl(1) fl(2) [unfolded l_def] z] by (auto simp: l_def)
  have "k_family (locked l s) F" using lr by (simp add: lock_ready_def)
  then have "\<not> list_empty (locked l s) (free_list d)" using kl.empty_law [of "locked l s" F] fl(1) by simp
  moreover have "desc_at (heap_descs s) (find_desc (locked l s) (heap_descs s) sz 0) = d"
    using find_desc_cong [of "locked l s" s] by (simp add: d_def)
  ultimately have "malloc_small (locked l s) (heap_pf s) (heap_descs s) sz = Inr (b, s')"
    using s'(1) by (simp add: malloc_small_def Let_def)
  moreover have "\<not> pool_size (pool_of (heap_pf s) s) < sz" "\<not> 1024 < sz" using sz by (simp_all add: not_less)
  ultimately have "sys_malloc s sz = Inr (b, s')"
    using lock_ready_acquire [OF lr] unfolding l_def heap_pf_def heap_descs_def
    by (simp add: sys_malloc_def running_thread_def Let_def split: if_splits)
  then show ?thesis using s'(2) by blast
qed

text \<open>Giving back a block whose arena does not become free.\<close>

definition gave_block :: "kstate \<Rightarrow> kstate \<Rightarrow> u32 \<Rightarrow> u32 \<Rightarrow> (u32 \<Rightarrow> u32 list option) \<Rightarrow> bool" where
  "gave_block s s' l b F' \<longleftrightarrow> lock_ready s' l F' \<and> same_vm s s' \<and>
     arenas s' = (arenas s)(block2arena b := (arenas s (block2arena b))\<lparr>arena_cnt :=
       arena_cnt (arenas s (block2arena b)) + 1\<rparr>)"

lemma sys_free_block:
  fixes s b
  defines "l \<equiv> pool_lock (heap_pf s)" and "a \<equiv> block2arena b"
  defines "d \<equiv> arena_desc (arenas s (block2arena b))"
  assumes lr: "lock_ready s l F" and wf: "pt_wf (phys s) (cr3 s)"
    and fl: "F (free_list d) = Some bs" "free_list d \<noteq> sema_waiters (lock_semaphore l)" "b \<notin> fam_nodes F"
    and b: "b \<noteq> 0" "heap_pf s = PF_KERNEL \<Longrightarrow> K_HEAP_START < b" "d \<noteq> 0"
    and more: "arena_cnt (arenas s a) + 1 \<noteq> blocks_per_arena (descs s d)"
  shows "\<exists>s'. sys_free s b = Inr s' \<and> gave_block s s' l b (F(free_list d \<mapsto> bs @ [b]))"
proof -
  let ?F' = "F(free_list d \<mapsto> bs @ [b])"
  define s1 where "s1 = list_append (locked l s) (free_list d) b"
  define s2 where "s2 = add_cnt a 1 s1"
  have fam0: "k_family (locked l s) F" using lr by (simp add: lock_ready_def)
  have "k_family s1 ?F'" unfolding s1_def by (rule kl.append_law [OF fam0 fl(1,3)])
  then have fam2: "k_family s2 ?F'" by (simp add: k_family_def s2_def add_cnt_def)
  have kept: "lock_kept (locked l s) s2"
    by (simp add: lock_kept_def s2_def s1_def add_cnt_def list_append_eq)
  have w: "?F' (sema_waiters (lock_semaphore l)) = Some []" using lr fl(2) by (simp add: lock_ready_def)
  note rel = lock_ready_release [OF lr kept fam2 w]
  have "free_block (locked l s) (heap_pf s) a b = Inr s2"
    using more by (simp add: free_block_def Let_def a_def [symmetric] d_def [folded a_def, symmetric] s1_def [symmetric] s2_def [symmetric])
      (simp add: s2_def s1_def add_cnt_def d_def a_def list_append_eq)
  then have "sys_free s b = Inr (unlocked l s2)"
    using rel(1) b lock_ready_acquire [OF lr] unfolding l_def heap_pf_def
    by (simp add: sys_free_def running_thread_def Let_def a_def d_def split: if_splits)
  moreover have "same_vm s (unlocked l s2)"
    using wf by (simp add: same_vm_def) (simp add: s2_def s1_def add_cnt_def list_append_eq)
  moreover have "arenas (unlocked l s2) = (arenas s)(block2arena b := (arenas s (block2arena b))\<lparr>arena_cnt :=
      arena_cnt (arenas s (block2arena b)) + 1\<rparr>)"
    by (simp add: s2_def s1_def add_cnt_def list_append_eq a_def)
  moreover note rel(2)
  ultimately have "gave_block s (unlocked l s2) l b ?F'" unfolding gave_block_def by blast
  moreover note \<open>sys_free s b = Inr (unlocked l s2)\<close>
  ultimately show ?thesis by blast
qed

section \<open>Properties\<close>

text \<open>
  sys_malloc serves a small request from the free list: when the smallest sufficient descriptor has
  a free block, sys_malloc returns the first block of its list, zeroed, takes it out of the list,
  counts it in its arena, changes no translation and leaves the pool's lock free again.
\<close>

theorem sys_malloc_pops_block:
  assumes "d = desc_at (heap_descs s) (find_desc s (heap_descs s) sz 0)"
    and "block_ready s (pool_lock (heap_pf s)) d b bs F"
    and "sz \<le> 1024" "sz \<le> pool_size (pool_of (heap_pf s) s)"
  shows "\<exists>s'. sys_malloc s sz = Inr (b, s') \<and> took_block s s' (pool_lock (heap_pf s)) b (F(free_list d \<mapsto> bs))"
  using sys_malloc_block [of s sz b bs F] assms by simp

text \<open>
  C35. sys_free undoes sys_malloc: freeing the block just allocated puts it at the end of the list of
  its descriptor, restores the count of its arena and leaves the lock free, as long as the arena
  still has other blocks in use.
\<close>

theorem sys_free_sys_malloc:
  assumes "d = desc_at (heap_descs s) (find_desc s (heap_descs s) sz 0)"
    and ready: "block_ready s (pool_lock (heap_pf s)) d b bs F"
    and "sz \<le> 1024" "sz \<le> pool_size (pool_of (heap_pf s) s)"
    and arena: "arena_desc (arenas s (block2arena b)) = d" "d \<noteq> NULL"
      "arena_cnt (arenas s (block2arena b)) \<noteq> blocks_per_arena (descs s d)"
    and b: "heap_pf s = PF_KERNEL \<Longrightarrow> K_HEAP_START < b"
  shows "\<exists>s' s''. sys_malloc s sz = Inr (b, s') \<and> sys_free s' b = Inr s'' \<and>
    lock_ready s'' (pool_lock (heap_pf s)) (F(free_list d \<mapsto> bs @ [b])) \<and> same_vm s s'' \<and>
    arenas s'' (block2arena b) = arenas s (block2arena b)"
proof -
  let ?l = "pool_lock (heap_pf s)" and ?F' = "F(free_list d \<mapsto> bs)"
  obtain s' where s': "sys_malloc s sz = Inr (b, s')" "took_block s s' ?l b ?F'"
    using sys_malloc_block [of s sz b bs F] assms by auto
  have t: "lock_ready s' ?l ?F'" "same_vm s s'" "descs s' = descs s" "heap_pf s' = heap_pf s"
    "arenas s' (block2arena b) =
      (arenas s (block2arena b))\<lparr>arena_cnt := arena_cnt (arenas s (block2arena b)) - 1\<rparr>"
    using s'(2) by (simp_all add: took_block_def heap_pf_def)
  have "b \<notin> fam_nodes ?F'"
    using kl.removed_fresh [of s F "free_list d" "[]" b bs] ready by (simp add: block_ready_def lock_ready_def)
  moreover have "pt_wf (phys s') (cr3 s')" using t(2) unfolding same_vm_def by blast
  ultimately have "\<exists>s''. sys_free s' b = Inr s'' \<and> gave_block s' s'' ?l b (?F'(free_list d \<mapsto> bs @ [b]))"
    using sys_free_block [of s' ?F' b bs] t ready arena b
    by (simp add: block_ready_def zeroable_def)
  then obtain s'' where s'': "sys_free s' b = Inr s''" "gave_block s' s'' ?l b (F(free_list d \<mapsto> bs @ [b]))"
    by auto
  have "same_vm s s''" using t(2) s''(2) by (auto simp: gave_block_def same_vm_def)
  moreover have "arenas s'' (block2arena b) = arenas s (block2arena b)" "lock_ready s'' ?l (F(free_list d \<mapsto> bs @ [b]))"
    using s''(2) t(5) by (simp_all add: gave_block_def)
  ultimately show ?thesis using s'(1) s''(1) by blast
qed

text \<open>
  A machine with one page table, on which the page 0xc0105000 is mapped: an arena for 16 bytes with
  two free blocks.
\<close>

definition heap_phys :: "u32 \<Rightarrow> u32" where
  "heap_phys a = (if a = 0x100ffc then 0x100007 else if a = 0x100c00 then 0x101007
     else if a = 0x101414 then 0x240007 else 0)"

definition heap_lists :: "(u32 \<times> u32 list) list" where
  "heap_lists = [(free_list K_BLOCK_DESC, [0xc010500c, 0xc010501c]),
     (sema_waiters (lock_semaphore KERNEL_POOL_LOCK), [])]"

definition heap_lheap :: lheap where
  "heap_lheap = dl_init (dl_append (dl_append (dl_init (\<lambda>_. \<lparr>prev_ptr = 0, next_ptr = 0\<rparr>)
     (free_list K_BLOCK_DESC)) (free_list K_BLOCK_DESC) 0xc010500c) (free_list K_BLOCK_DESC) 0xc010501c)
     (sema_waiters (lock_semaphore KERNEL_POOL_LOCK))"

definition demo_heap :: kstate where
  "demo_heap = (block_desc_init demo_paged K_BLOCK_DESC)\<lparr>phys := heap_phys, lheap := heap_lheap,
     arenas := (\<lambda>_. \<lparr>arena_desc = K_BLOCK_DESC, arena_cnt = 2, arena_large = False\<rparr>)\<rparr>"

lemma demo_heap_sel [simp]:
  "phys demo_heap = heap_phys" "lheap demo_heap = heap_lheap" "cr3 demo_heap = 0x100000"
  "arenas demo_heap a = \<lparr>arena_desc = K_BLOCK_DESC, arena_cnt = 2, arena_large = False\<rparr>"
  "cur demo_heap = T1" "pgdir (tasks demo_heap t) = 0" "pool_size (kernel_pool demo_heap) = 0x40000"
  "lock_holder demo_heap l = 0" "holder_repeat_nr demo_heap l = 0" "sema_value demo_heap x = 1"
  "descs demo_heap K_BLOCK_DESC = \<lparr>block_size = 16, blocks_per_arena = 255\<rparr>"
  by (simp_all add: demo_heap_def block_desc_init_eq list_init_def demo_paged_def demo_pools_def
      demo_state_def demo_task_def)

lemmas heap_addrs = free_list_def K_BLOCK_DESC_def sema_waiters_def lock_semaphore_def KERNEL_POOL_LOCK_def tail_of_def

lemma heap_nodes: "distinct (nodes_of heap_lists)"
  by (simp add: heap_lists_def nodes_of_def dl_nodes_def heap_addrs)

lemma heap_family: "k_family demo_heap (map_of heap_lists)"
  unfolding k_family_def
  by (rule dl_family_map_of [OF heap_nodes])
    (auto simp: heap_lists_def heap_lheap_def dl_append_def dl_insert_before_def dl_init_def Let_def
      set_prev_def set_next_def heap_addrs)

lemma heap_pde: "heap_phys (pde_addr 0x100000 w) =
  (if PDE_IDX w = 1023 then 0x100007 else if PDE_IDX w = 768 then 0x101007 else 0)"
proof -
  have a: "pde_addr 0x100000 0xffffffff = (0x100ffc :: u32)" "pde_addr 0x100000 0xc0000000 = (0x100c00 :: u32)"
    by (simp_all add: pde_addr_def page_frame_def PDE_IDX_def)
  have "PDE_IDX 0xc0000000 = 768" by (simp add: PDE_IDX_def)
  then have "pde_addr 0x100000 w = 0x100ffc \<longleftrightarrow> PDE_IDX w = 1023" "pde_addr 0x100000 w = 0x100c00 \<longleftrightarrow> PDE_IDX w = 768"
    unfolding a [symmetric] pde_addr_inject by (simp_all add: PDE_IDX_last)
  moreover have "pde_addr 0x100000 w \<noteq> 0x101414"
  proof
    assume "pde_addr 0x100000 w = 0x101414"
    then have "page_frame (pde_addr 0x100000 w) = page_frame 0x101414" by simp
    then show False by (simp add: pde_addr_def frame_word_frame) (simp add: page_frame_def)
  qed
  ultimately show ?thesis by (simp add: heap_phys_def)
qed

lemma heap_present: "present (heap_phys (pde_addr 0x100000 w)) \<longleftrightarrow> PDE_IDX w = 1023 \<or> PDE_IDX w = 768"
  by (simp add: heap_pde present_def)

lemma heap_zeroable: "zeroable demo_heap 0xc010500c 16"
proof -
  have f: "page_frame (0x100007 :: u32) = 0x100000" "page_frame (0x101007 :: u32) = 0x101000"
    "page_frame (0x100000 :: u32) = 0x100000" "page_frame (0x240000 :: u32) = 0x240000"
    "page_frame (0x240007 :: u32) = 0x240000" "PDE_IDX 0xc010500c = 768" "PTE_IDX 0xc010500c = 0x105"
    "page_offset (0xc010500c :: u32) = 12"
    by (simp_all add: page_frame_def PDE_IDX_def PTE_IDX_def page_offset_def)
  have "rec_slot heap_phys 0x100000"
    by (simp add: rec_slot_def Let_def heap_phys_def f present_def)
  moreover have np: "\<not> present 0" by (simp add: present_def)
  ultimately have "pt_wf heap_phys 0x100000" by (auto simp: pt_wf_def heap_present heap_pde f)
  moreover have "not_table demo_heap 0x240000"
    by (simp add: not_table_def fresh_table_def f heap_present heap_pde np)
  moreover have "pte_addr 0x101007 0xc010500c = (0x101414 :: u32)" by (simp add: pte_addr_def f)
  then have "mmu_walk heap_phys 0x100000 0xc010500c = Some (0x240000 + 12)"
    by (simp add: mmu_walk_def Let_def heap_pde f) (simp add: heap_phys_def present_def f)
  ultimately show ?thesis unfolding zeroable_def by (intro conjI exI [of _ "0x240000"]) (simp_all add: f)
qed

lemma heap_apart: "apart 0xc010500c 16 (map_of heap_lists)"
  unfolding apart_def fam_nodes_map_of [OF heap_nodes]
  by (simp add: heap_lists_def nodes_of_def dl_nodes_def heap_addrs in_range_def block2arena_def)

lemma heap_block_ready:
  "block_ready demo_heap KERNEL_POOL_LOCK K_BLOCK_DESC 0xc010500c [0xc010501c] (map_of heap_lists)"
  using heap_family heap_zeroable heap_apart
  by (simp add: block_ready_def lock_ready_def T1_def) (simp add: heap_lists_def heap_addrs)

lemma heap_desc_nonzero: "K_BLOCK_DESC \<noteq> 0"
  by (simp add: K_BLOCK_DESC_def)

lemma heap_desc: "K_BLOCK_DESC = desc_at (heap_descs demo_heap) (find_desc demo_heap (heap_descs demo_heap) 10 0)"
  "pool_lock (heap_pf demo_heap) = KERNEL_POOL_LOCK" "pool_of (heap_pf demo_heap) demo_heap = kernel_pool demo_heap"
  by (simp_all add: heap_descs_def heap_pf_def pool_lock_def pool_of_def find_desc.simps DESC_CNT_def desc_at_def)

lemma sys_malloc_pops_block_witness:
  "\<exists>s'. sys_malloc demo_heap 10 = Inr (0xc010500c, s') \<and> took_block demo_heap s' (pool_lock (heap_pf demo_heap))
    0xc010500c ((map_of heap_lists)(free_list K_BLOCK_DESC \<mapsto> [0xc010501c]))"
  by (rule sys_malloc_pops_block [OF heap_desc(1)]) (simp_all add: heap_desc(2,3) heap_block_ready)

lemma sys_free_sys_malloc_witness:
  "\<exists>s' s''. sys_malloc demo_heap 10 = Inr (0xc010500c, s') \<and> sys_free s' 0xc010500c = Inr s'' \<and>
    lock_ready s'' (pool_lock (heap_pf demo_heap))
      ((map_of heap_lists)(free_list K_BLOCK_DESC \<mapsto> [0xc010501c] @ [0xc010500c])) \<and>
    same_vm demo_heap s'' \<and> arenas s'' (block2arena 0xc010500c) = arenas demo_heap (block2arena 0xc010500c)"
  by (rule sys_free_sys_malloc [OF heap_desc(1)])
    (simp_all add: heap_desc(2,3) heap_block_ready heap_desc_nonzero K_HEAP_START_def)

end
