(* ===== verification/Idt.thy ===== *)
theory Idt
  imports Output
begin

text \<open>
  The interrupt descriptor table and the interrupt controller (kernel/interrupt.c). A gate is the
  record of the C structure. The addresses of the entry points intrXXentry and of syscall_handler
  are assembly (kernel/kernel.S) and arguments here; which vector each place of intr_entry_table
  belongs to is \<open>intr_vectors\<close>, read from the VECTOR lines of kernel.S. Port output is a log of
  (port, byte) pairs.
\<close>

section \<open>Constants of kernel/global.h and ports\<close>

definition SELECTOR_K_CODE :: u16 where "SELECTOR_K_CODE = push_bit 3 1 + push_bit 2 0 + 0"

definition IDT_DESC_ATTR_DPL0 :: u8 where "IDT_DESC_ATTR_DPL0 = push_bit 7 1 + push_bit 5 0 + 0xE"
definition IDT_DESC_ATTR_DPL3 :: u8 where "IDT_DESC_ATTR_DPL3 = push_bit 7 1 + push_bit 5 3 + 0xE"

definition IDT_DESC_CNT :: nat where "IDT_DESC_CNT = 0x81"

definition PIC_M_CTRL :: u16 where "PIC_M_CTRL = 0x20"
definition PIC_M_DATA :: u16 where "PIC_M_DATA = 0x21"
definition PIC_S_CTRL :: u16 where "PIC_S_CTRL = 0xa0"
definition PIC_S_DATA :: u16 where "PIC_S_DATA = 0xa1"

text \<open>The address of the array idt in the link map.\<close>

definition IDT :: u32 where "IDT = 0xc000a2a0"
definition SIZEOF_IDT :: u32 where "SIZEOF_IDT = 0x408"

definition outb :: "u16 \<Rightarrow> u8 \<Rightarrow> kstate \<Rightarrow> kstate" where
  "outb port data s = s\<lparr>outports := outports s @ [(port, Byte data)]\<rparr>"

section \<open>Operations\<close>

definition pic_init :: "kstate \<Rightarrow> kstate" where
  "pic_init s0 =
     (let s1 = outb PIC_M_DATA 0x01 (outb PIC_M_DATA 0x04 (outb PIC_M_DATA 0x20 (outb PIC_M_CTRL 0x11 s0)));
          s2 = outb PIC_S_DATA 0x01 (outb PIC_S_DATA 0x02 (outb PIC_S_DATA 0x28 (outb PIC_S_CTRL 0x11 s1)));
          s3 = outb PIC_S_DATA 0xff (outb PIC_M_DATA 0xfe s2);
          s4 = outb PIC_S_DATA 0xff (outb PIC_M_DATA 0xfc s3)
      in put_str s4 ''   pic_init done\<newline>'')"

definition make_idt_desc :: "u8 \<Rightarrow> u32 \<Rightarrow> gate_desc" where
  "make_idt_desc attr f =
     \<lparr>func_offset_low_word = ucast (f AND 0x0000FFFF), selector = SELECTOR_K_CODE, dcount = 0,
      attribute = attr, func_offset_high_word = ucast (drop_bit 16 (f AND 0xFFFF0000))\<rparr>"

definition set_gate :: "nat \<Rightarrow> gate_desc \<Rightarrow> kstate \<Rightarrow> kstate" where
  "set_gate i g s = s\<lparr>idt := (idt s)(of_nat i := g)\<rparr>"

text \<open>\<open>entry i\<close> is what intr_entry_table[i] holds, the word after its end included.\<close>

function idt_desc_loop :: "nat \<Rightarrow> (nat \<Rightarrow> u32) \<Rightarrow> kstate \<Rightarrow> kstate" where
  "idt_desc_loop i entry s =
     (if i < IDT_DESC_CNT
      then idt_desc_loop (i + 1) entry (set_gate i (make_idt_desc IDT_DESC_ATTR_DPL0 (entry i)) s)
      else s)"
  by pat_completeness auto

termination
  by (relation "measure (\<lambda>(i, _, _). IDT_DESC_CNT - i)") auto

declare idt_desc_loop.simps [simp del]

definition idt_desc_init :: "kstate \<Rightarrow> (nat \<Rightarrow> u32) \<Rightarrow> u32 \<Rightarrow> kstate" where
  "idt_desc_init s entry syscall_handler =
     (let lastindex = IDT_DESC_CNT - 1; s1 = idt_desc_loop 0 entry s
      in put_str (set_gate lastindex (make_idt_desc IDT_DESC_ATTR_DPL3 syscall_handler) s1)
           ''   idt_desc_init done\<newline>'')"

text \<open>What general_intr_handler has printed when it reaches its endless loop (without set_cursor).\<close>

definition exception_message :: "kstate \<Rightarrow> u8 \<Rightarrow> u32 \<Rightarrow> kstate" where
  "exception_message s vec_nr cr2 =
     (let s1 = ((\<lambda>s. put_char s (of_char CHR '' '')) ^^ 320) s;
          s2 = put_str s1 ''!!!!    exception message begin    !!!!\<newline>'';
          s3 = put_str s2 (intr_name s2 vec_nr);
          s4 = (if vec_nr = 14 then put_int (put_str s3 ''\<newline>page fault addr is '') cr2 else s3)
      in put_str s4 ''\<newline>!!!!    exception message end    !!!!\<newline>'')"

definition general_intr_handler :: "kstate \<Rightarrow> u8 \<Rightarrow> kstate kres" where
  "general_intr_handler s vec_nr =
     (if vec_nr = 0x27 \<or> vec_nr = 0x2f then Inr s
      else if unat vec_nr < IDT_DESC_CNT then Inl Diverges else Inl (Overrun ''intr_name''))"

function exception_loop :: "nat \<Rightarrow> kstate \<Rightarrow> kstate" where
  "exception_loop i s =
     (if i < IDT_DESC_CNT
      then exception_loop (i + 1)
             (s\<lparr>idt_table := (idt_table s)(of_nat i := ''general_intr_handler''),
                intr_name := (intr_name s)(of_nat i := ''unknown'')\<rparr>)
      else s)"
  by pat_completeness auto

termination
  by (relation "measure (\<lambda>(i, _). IDT_DESC_CNT - i)") auto

declare exception_loop.simps [simp del]

definition exception_names :: "(u8 \<times> string) list" where
  "exception_names =
    [(0, ''#DE Divide Error''), (1, ''#DB Debug Exception''), (2, ''NMI Interrupt''),
     (3, ''#BP Breakpoint Exception''), (4, ''#OF Overflow Exception''),
     (5, ''#BR BOUND Range Exceeded Exception''), (6, ''#UD Invalid Opcode Exception''),
     (7, ''#NM Device Not Available Exception''), (8, ''#DF Double Fault Exception''),
     (9, ''Coprocessor Segment Overrun''), (10, ''#TS Invalid TSS Exception''),
     (11, ''#NP Segment Not Present''), (12, ''#SS Stack Fault Exception''),
     (13, ''#GP General Protection Exception''), (14, ''#PF Page-Fault Exception''),
     (16, ''#MF x87 FPU Floating-Point Error''), (17, ''#AC Alignment Check Exception''),
     (18, ''#MC Machine-Check Exception''), (19, ''#XF SIMD Floating-Point Exception'')]"

definition exception_init :: "kstate \<Rightarrow> kstate" where
  "exception_init s =
     (let s1 = exception_loop 0 s
      in s1\<lparr>intr_name := foldl (\<lambda>f (v, n). f(v := n)) (intr_name s1) exception_names\<rparr>)"

definition idt_init :: "kstate \<Rightarrow> (nat \<Rightarrow> u32) \<Rightarrow> u32 \<Rightarrow> kstate" where
  "idt_init s entry syscall_handler =
     (let s1 = put_str s ''idt_init start\<newline>'';
          s2 = pic_init (exception_init (idt_desc_init s1 entry syscall_handler));
          idt_operand = (ucast (SIZEOF_IDT - 1) OR push_bit 16 (ucast IDT)) :: 64 word
      in put_str (s2\<lparr>idtr := idt_operand\<rparr>) ''idt_init done\<newline>'')"

definition register_handler :: "kstate \<Rightarrow> u8 \<Rightarrow> fptr \<Rightarrow> kstate kres" where
  "register_handler s vector_no f =
     (if unat vector_no < IDT_DESC_CNT
      then Inr (s\<lparr>idt_table := (idt_table s)(vector_no := f)\<rparr>) else Inl (Overrun ''idt_table''))"

text \<open>The vectors of the 128 VECTOR lines of kernel/kernel.S, in their order: 0x60 is missing.\<close>

definition intr_vectors :: "nat list" where
  "intr_vectors = [0..<0x60] @ [0x61..<0x81]"

section \<open>The tables after initialisation\<close>

text \<open>How the processor reads a gate: the handler's address, present, its DPL, a 32 bit interrupt gate.\<close>

definition gate_offset :: "gate_desc \<Rightarrow> u32" where
  "gate_offset g = push_bit 16 (ucast (func_offset_high_word g)) OR ucast (func_offset_low_word g)"

definition gate_present :: "gate_desc \<Rightarrow> bool" where
  "gate_present g \<longleftrightarrow> bit (attribute g) 7"

definition gate_dpl :: "gate_desc \<Rightarrow> u8" where
  "gate_dpl g = drop_bit 5 (attribute g) AND 3"

definition gate_type :: "gate_desc \<Rightarrow> u8" where
  "gate_type g = attribute g AND 0x1F"

lemma u32_halves: "push_bit 16 (ucast (ucast (drop_bit 16 (f AND 0xFFFF0000)) :: u16)) OR
    ucast (ucast (f AND 0x0000FFFF) :: u16) = (f :: u32)"
proof -
  have hi: "(0xFFFF0000 :: u32) = push_bit 16 (mask 16)" and lo: "(0x0000FFFF :: u32) = mask 16"
    by (simp_all add: mask_eq_exp_minus_1)
  show ?thesis
    unfolding hi lo by (rule bit_word_eqI) (auto simp: bit_simps not_less)
qed

lemma gate_offset_make [simp]: "gate_offset (make_idt_desc a f) = f"
  unfolding gate_offset_def make_idt_desc_def gate_desc.simps by (rule u32_halves)

lemma make_idt_desc_sel [simp]: "attribute (make_idt_desc a f) = a" "selector (make_idt_desc a f) = 8"
  by (simp_all add: make_idt_desc_def SELECTOR_K_CODE_def)

lemma of_nat_u8_eq: "n < 256 \<Longrightarrow> (v :: u8) = of_nat n \<longleftrightarrow> unat v = n"
  using unsigned_less [of v] by (auto simp: unat_of_nat)

text \<open>A table whose places from \<open>i\<close> on have been filled by one of the two loops.\<close>

definition filled :: "nat \<Rightarrow> (nat \<Rightarrow> 'a) \<Rightarrow> (u8 \<Rightarrow> 'a) \<Rightarrow> u8 \<Rightarrow> 'a" where
  "filled i g f v = (if i \<le> unat v \<and> unat v < IDT_DESC_CNT then g (unat v) else f v)"

lemma filled_next:
  assumes "i < IDT_DESC_CNT"
  shows "filled (Suc i) g (f(of_nat i := g i)) = filled i g f"
proof (rule ext)
  fix v :: u8
  show "filled (Suc i) g (f(of_nat i := g i)) v = filled i g f v"
    using assms of_nat_u8_eq [of i v] by (cases "unat v = i") (auto simp: filled_def IDT_DESC_CNT_def)
qed

lemma filled_end: "\<not> i < IDT_DESC_CNT \<Longrightarrow> filled i g f = f"
  by (rule ext) (auto simp: filled_def)

lemma idt_desc_loop_eq:
  "idt_desc_loop i entry s = s\<lparr>idt := filled i (\<lambda>i. make_idt_desc IDT_DESC_ATTR_DPL0 (entry i)) (idt s)\<rparr>"
proof (induction i entry s rule: idt_desc_loop.induct)
  case (1 i entry s)
  then show ?case
    by (subst idt_desc_loop.simps) (simp add: set_gate_def filled_end filled_next [where g = "\<lambda>i. make_idt_desc IDT_DESC_ATTR_DPL0 (entry i)"]
        del: fun_upd_apply)
qed

lemma exception_loop_eq:
  "exception_loop i s = s\<lparr>idt_table := filled i (\<lambda>_. ''general_intr_handler'') (idt_table s),
     intr_name := filled i (\<lambda>_. ''unknown'') (intr_name s)\<rparr>"
proof (induction i s rule: exception_loop.induct)
  case (1 i s)
  then show ?case
    by (subst exception_loop.simps) (simp add: filled_end filled_next [where g = "\<lambda>_. ''general_intr_handler''"]
        filled_next [where g = "\<lambda>_. ''unknown''"] del: fun_upd_apply)
qed

lemma outb_sel [simp]:
  "idt (outb p d s) = idt s" "idt_table (outb p d s) = idt_table s" "intr_name (outb p d s) = intr_name s"
  "outports (outb p d s) = outports s @ [(p, Byte d)]" "lheap (outb p d s) = lheap s" "screen (outb p d s) = screen s"
  "idt (put_str s str) = idt s" "idt_table (put_str s str) = idt_table s" "outports (put_str s str) = outports s"
  by (simp_all add: outb_def put_str_def)

lemma idt_init_sel:
  "idt (idt_init s entry h) = (\<lambda>v. if unat v < 0x80 then make_idt_desc IDT_DESC_ATTR_DPL0 (entry (unat v))
     else if v = 0x80 then make_idt_desc IDT_DESC_ATTR_DPL3 h else idt s v)"
  "idt_table (idt_init s entry h) = (\<lambda>v. if unat v < 0x81 then ''general_intr_handler'' else idt_table s v)"
proof -
  have 80: "v = 0x80 \<longleftrightarrow> unat v = 128" for v :: u8 using of_nat_u8_eq [of 128 v] by simp
  show "idt (idt_init s entry h) = (\<lambda>v. if unat v < 0x80 then make_idt_desc IDT_DESC_ATTR_DPL0 (entry (unat v))
     else if v = 0x80 then make_idt_desc IDT_DESC_ATTR_DPL3 h else idt s v)"
    by (intro ext) (simp add: idt_init_def idt_desc_init_def exception_init_def pic_init_def Let_def
        idt_desc_loop_eq exception_loop_eq set_gate_def 80 IDT_DESC_CNT_def filled_def)
  show "idt_table (idt_init s entry h) = (\<lambda>v. if unat v < 0x81 then ''general_intr_handler'' else idt_table s v)"
    by (intro ext) (simp add: idt_init_def idt_desc_init_def exception_init_def pic_init_def Let_def
        idt_desc_loop_eq exception_loop_eq set_gate_def IDT_DESC_CNT_def put_str_def filled_def)
qed

section \<open>Properties\<close>

text \<open>
  C36. After idt_init every vector below 0x80 has a present 32 bit interrupt gate of DPL 0 in the
  kernel code segment, vector 0x80 one of DPL 3 for syscall_handler. Because kernel.S has no entry
  for vector 0x60, the gates 0x60 to 0x7f lead to the entry points of the next vector.
\<close>

theorem idt_init_gates:
  fixes s h
  assumes "v < 0x81" "\<And>i. i < 128 \<Longrightarrow> entry i = entry_of (intr_vectors ! i)"
  defines "g \<equiv> idt (idt_init s entry h) (of_nat v)"
  shows "gate_present g \<and> gate_type g = 0xE \<and> selector g = 8 \<and>
    (if v = 0x80 then gate_dpl g = 3 \<and> gate_offset g = h
     else gate_dpl g = 0 \<and> gate_offset g = entry_of (if v < 0x60 then v else v + 1))"
proof -
  have v: "unat (of_nat v :: u8) = v" using assms(1) by (simp add: unat_of_nat)
  have "unat (0x80 :: u8) = 128" by simp
  then have 80: "of_nat v = (0x80 :: u8) \<longleftrightarrow> v = 128" using v by (metis of_nat_numeral)
  have nth: "intr_vectors ! v = (if v < 0x60 then v else v + 1)" if "v < 128"
    using that by (simp add: intr_vectors_def nth_append del: upt_rec_numeral)
  have attr: "bit IDT_DESC_ATTR_DPL0 7" "bit IDT_DESC_ATTR_DPL3 7" "drop_bit 5 IDT_DESC_ATTR_DPL0 AND 3 = 0"
    "drop_bit 5 IDT_DESC_ATTR_DPL3 AND 3 = 3" "IDT_DESC_ATTR_DPL0 AND 0x1F = 0xE" "IDT_DESC_ATTR_DPL3 AND 0x1F = 0xE"
    by (simp_all add: IDT_DESC_ATTR_DPL0_def IDT_DESC_ATTR_DPL3_def)
  show ?thesis
    using assms(1,2) nth attr unfolding g_def idt_init_sel v 80
    by (auto simp: gate_present_def gate_dpl_def gate_type_def)
qed

lemma idt_init_gates_witness:
  "gate_offset (idt (idt_init demo_state (\<lambda>i. of_nat (intr_vectors ! i)) 0xc0001fde) (of_nat 0x60)) = 0x61"
  using idt_init_gates [where v = "0x60" and entry = "\<lambda>i. of_nat (intr_vectors ! i)" and entry_of = of_nat
      and s = demo_state and h = "0xc0001fde"] by simp

end
