(* ===== verification/IOQueue.thy ===== *)
theory IOQueue
  imports Output
begin

text \<open>
  The keyboard's queue (device/ioqueue.c): a ring of 64 bytes, of which 63 are used, with one
  waiting consumer and one waiting producer. The ring itself is pure; \<open>contents\<close> is the abstract
  queue it stands for, and \<open>bounded_fifo\<close> the contract of a bounded queue. The operations on
  the kernel state add the assertions on the interrupt flag, the lock and the wake-ups.
\<close>

section \<open>The ring\<close>

definition bufsize :: u32 where "bufsize = 64"

definition next_pos :: "u32 \<Rightarrow> u32" where
  "next_pos pos = (pos + 1) mod bufsize"

definition ring_full :: "ioqueue \<Rightarrow> bool" where
  "ring_full q \<longleftrightarrow> next_pos (head q) = tail q"

definition ring_empty :: "ioqueue \<Rightarrow> bool" where
  "ring_empty q \<longleftrightarrow> head q = tail q"

definition ring_put :: "ioqueue \<Rightarrow> u8 \<Rightarrow> ioqueue" where
  "ring_put q c = q\<lparr>buf := (buf q)[unat (head q) := c], head := next_pos (head q)\<rparr>"

definition ring_get :: "ioqueue \<Rightarrow> u8 \<times> ioqueue" where
  "ring_get q = (buf q ! unat (tail q), q\<lparr>tail := next_pos (tail q)\<rparr>)"

section \<open>Operations on the kernel state\<close>

definition consumer :: "u32 \<Rightarrow> u32" where "consumer ioq = ioq + 28"
definition producer :: "u32 \<Rightarrow> u32" where "producer ioq = ioq + 32"

definition set_ptr :: "u32 \<Rightarrow> u32 \<Rightarrow> kstate \<Rightarrow> kstate" where
  "set_ptr a v s = s\<lparr>ptrs := (ptrs s)(a := v)\<rparr>"

definition set_ioq :: "u32 \<Rightarrow> ioqueue \<Rightarrow> kstate \<Rightarrow> kstate" where
  "set_ioq ioq q s = s\<lparr>ioqs := (ioqs s)(ioq := q)\<rparr>"

definition init_ioqueue :: "kstate \<Rightarrow> u32 \<Rightarrow> kstate" where
  "init_ioqueue s ioq =
     (let s1 = lock_init s ioq;
          s2 = set_ptr (producer ioq) NULL (set_ptr (consumer ioq) NULL s1)
      in set_ioq ioq ((ioqs s2 ioq)\<lparr>head := 0, tail := 0\<rparr>) s2)"

definition ioq_full :: "kstate \<Rightarrow> u32 \<Rightarrow> bool kres" where
  "ioq_full s ioq = assertR (intr_get_status s = INTR_OFF) ''intr_get_status()==INTR_OFF'' (Inr (ring_full (ioqs s ioq)))"

definition ioq_empty :: "kstate \<Rightarrow> u32 \<Rightarrow> bool kres" where
  "ioq_empty s ioq = assertR (intr_get_status s = INTR_OFF) ''intr_get_status()==INTR_OFF'' (Inr (ring_empty (ioqs s ioq)))"

text \<open>
  \<open>waiter\<close> is the address of the pointer to the waiting thread. The assertion reads \<open>*waiter\<close> before it
  compares \<open>waiter\<close> with NULL, so with NULL it needs the page at address 0; the queues' own fields,
  the other addresses that occur, are in the kernel's data, which is always mapped.
\<close>

definition ioq_wait :: "kstate \<Rightarrow> u32 \<Rightarrow> kstate kres" where
  "ioq_wait s waiter =
     (if waiter = NULL \<and> mmu_walk (phys s) (cr3 s) waiter = None then Inl (Page_fault waiter)
      else assertR (ptrs s waiter = NULL \<and> waiter \<noteq> NULL) ''*waiter==NULL&&waiter!=NULL''
             (thread_block (set_ptr waiter (running_thread s) s) TASK_BLOCKED))"

definition wakeup :: "kstate \<Rightarrow> u32 \<Rightarrow> kstate kres" where
  "wakeup s waiter =
     assertR (ptrs s waiter \<noteq> NULL) ''*waiter != NULL''
       (bindR (thread_unblock s (ptrs s waiter)) (\<lambda>s1. Inr (set_ptr waiter NULL s1)))"

text \<open>
  One round of the waiting loops. ioq_getchar passes the value of the consumer field where
  ioq_putchar passes the address of the producer field.
\<close>

definition get_wait :: "kstate \<Rightarrow> u32 \<Rightarrow> kstate kres" where
  "get_wait s ioq =
     bindR (lock_acquire s ioq) (\<lambda>s1. bindR (ioq_wait s1 (ptrs s1 (consumer ioq))) (\<lambda>s2. lock_release s2 ioq))"

definition put_wait :: "kstate \<Rightarrow> u32 \<Rightarrow> kstate kres" where
  "put_wait s ioq =
     bindR (lock_acquire s ioq) (\<lambda>s1. bindR (ioq_wait s1 (producer ioq)) (\<lambda>s2. lock_release s2 ioq))"

partial_function (option) get_loop :: "u32 \<Rightarrow> kstate \<Rightarrow> kstate kres option" where
  "get_loop ioq s =
     (case ioq_empty s ioq of
        Inl e \<Rightarrow> Some (Inl e)
      | Inr e \<Rightarrow> if e then (case get_wait s ioq of Inl x \<Rightarrow> Some (Inl x) | Inr s1 \<Rightarrow> get_loop ioq s1)
                else Some (Inr s))"

partial_function (option) put_loop :: "u32 \<Rightarrow> kstate \<Rightarrow> kstate kres option" where
  "put_loop ioq s =
     (case ioq_full s ioq of
        Inl e \<Rightarrow> Some (Inl e)
      | Inr f \<Rightarrow> if f then (case put_wait s ioq of Inl x \<Rightarrow> Some (Inl x) | Inr s1 \<Rightarrow> put_loop ioq s1)
                else Some (Inr s))"

definition ioq_getchar :: "kstate \<Rightarrow> u32 \<Rightarrow> (u8 \<times> kstate) kres" where
  "ioq_getchar s ioq =
     assertR (intr_get_status s = INTR_OFF) ''intr_get_status()==INTR_OFF''
       (bindR (joinR (get_loop ioq s)) (\<lambda>s1.
          if unat (tail (ioqs s1 ioq)) < 64
          then let (byte, q) = ring_get (ioqs s1 ioq); s2 = set_ioq ioq q s1
               in bindR (if ptrs s2 (producer ioq) \<noteq> NULL then wakeup s2 (producer ioq) else Inr s2)
                    (\<lambda>s3. Inr (byte, s3))
          else Inl (Overrun ''ioq->buf'')))"

text \<open>The rest of ioq_putchar from the test of its loop on.\<close>

definition put_from :: "kstate \<Rightarrow> u32 \<Rightarrow> u8 \<Rightarrow> kstate kres" where
  "put_from s ioq chr =
     bindR (joinR (put_loop ioq s)) (\<lambda>s1.
       if unat (head (ioqs s1 ioq)) < 64
       then let s2 = set_ioq ioq (ring_put (ioqs s1 ioq) chr) s1
            in if ptrs s2 (consumer ioq) \<noteq> NULL then wakeup s2 (consumer ioq) else Inr s2
       else Inl (Overrun ''ioq->buf''))"

definition ioq_putchar :: "kstate \<Rightarrow> u32 \<Rightarrow> u8 \<Rightarrow> kstate kres" where
  "ioq_putchar s ioq chr =
     assertR (intr_get_status s = INTR_OFF) ''intr_get_status()==INTR_OFF'' (put_from s ioq chr)"

text \<open>What a producer that was blocked on a full queue does when it is switched back to.\<close>

definition putchar_resume :: "kstate \<Rightarrow> u32 \<Rightarrow> u8 \<Rightarrow> kstate kres" where
  "putchar_resume s ioq chr =
     bindR (lock_release (fst (intr_set_status s INTR_OFF)) ioq) (\<lambda>s1. put_from s1 ioq chr)"

section \<open>The abstract queue\<close>

definition ring_ok :: "ioqueue \<Rightarrow> bool" where
  "ring_ok q \<longleftrightarrow> length (buf q) = 64 \<and> unat (head q) < 64 \<and> unat (tail q) < 64"

definition ring_len :: "ioqueue \<Rightarrow> nat" where
  "ring_len q = (unat (head q) + 64 - unat (tail q)) mod 64"

definition contents :: "ioqueue \<Rightarrow> u8 list" where
  "contents q = map (\<lambda>i. buf q ! ((unat (tail q) + i) mod 64)) [0..<ring_len q]"

text \<open>The contract of a bounded queue, and what a client gets from it.\<close>

locale bounded_fifo =
  fixes ok :: "'q \<Rightarrow> bool" and abs :: "'q \<Rightarrow> 'a list" and put :: "'q \<Rightarrow> 'a \<Rightarrow> 'q"
    and get :: "'q \<Rightarrow> 'a \<times> 'q" and full :: "'q \<Rightarrow> bool" and empty :: "'q \<Rightarrow> bool" and cap :: nat
  assumes put_ok: "ok q \<Longrightarrow> \<not> full q \<Longrightarrow> ok (put q x)"
    and put_abs: "ok q \<Longrightarrow> \<not> full q \<Longrightarrow> abs (put q x) = abs q @ [x]"
    and get_ok: "ok q \<Longrightarrow> \<not> empty q \<Longrightarrow> ok (snd (get q))"
    and get_abs: "ok q \<Longrightarrow> \<not> empty q \<Longrightarrow> abs q = fst (get q) # abs (snd (get q))"
    and full_iff: "ok q \<Longrightarrow> full q \<longleftrightarrow> length (abs q) = cap"
    and empty_iff: "ok q \<Longrightarrow> empty q \<longleftrightarrow> abs q = []"
    and cap_max: "ok q \<Longrightarrow> length (abs q) \<le> cap"
begin

fun puts :: "'q \<Rightarrow> 'a list \<Rightarrow> 'q" where
  "puts q [] = q"
| "puts q (x # xs) = puts (put q x) xs"

fun gets :: "nat \<Rightarrow> 'q \<Rightarrow> 'a list \<times> 'q" where
  "gets 0 q = ([], q)"
| "gets (Suc n) q = (let (x, q1) = get q; (xs, q2) = gets n q1 in (x # xs, q2))"

lemma not_full: "ok q \<Longrightarrow> length (abs q) < cap \<Longrightarrow> \<not> full q"
  using full_iff by auto

lemma puts_abs:
  assumes "ok q" "length (abs q) + length xs \<le> cap"
  shows "ok (puts q xs) \<and> abs (puts q xs) = abs q @ xs"
  using assms
proof (induction xs arbitrary: q)
  case (Cons x xs)
  then have "\<not> full q" by (intro not_full) simp_all
  then show ?case using Cons by (simp add: put_ok put_abs)
qed simp

lemma gets_abs:
  assumes "ok q" "n \<le> length (abs q)"
  shows "fst (gets n q) = take n (abs q) \<and> ok (snd (gets n q)) \<and> abs (snd (gets n q)) = drop n (abs q)"
  using assms
proof (induction n arbitrary: q)
  case (Suc n)
  then have ne: "\<not> empty q" using empty_iff by auto
  have ok1: "ok (snd (get q))" and abs1: "abs q = fst (get q) # abs (snd (get q))"
    using get_ok get_abs Suc.prems(1) ne by auto
  have "n \<le> length (abs (snd (get q)))" using Suc.prems(2) abs1 by (metis Suc_le_mono length_Cons)
  with Suc.IH [OF ok1] abs1 show ?case by (auto simp: split_beta Let_def)
qed simp

text \<open>First in, first out: what is put into an empty queue comes out in the same order.\<close>

lemma fifo:
  assumes "ok q" "empty q" "length xs \<le> cap"
  shows "fst (gets (length xs) (puts q xs)) = xs"
  using puts_abs [OF assms(1), of xs] gets_abs [of "puts q xs" "length xs"] assms empty_iff by simp

end

lemma unat_next_pos: "unat (next_pos p) = (unat p + 1) mod 64" if "unat p < 64"
  using that by (simp add: next_pos_def bufsize_def unat_mod unat_plus_if')

lemma next_pos_lt: "unat (next_pos p) < 64"
  by (simp add: next_pos_def bufsize_def unat_mod)

lemma mod_64: "x < 128 \<Longrightarrow> x mod 64 = (if x < 64 then x else x - 64)" for x :: nat
  by (simp add: mod_if)

lemma ring_len_eq:
  assumes "ring_ok q"
  shows "ring_len q = (if unat (tail q) \<le> unat (head q) then unat (head q) - unat (tail q)
    else unat (head q) + 64 - unat (tail q))"
proof (cases "unat (tail q) \<le> unat (head q)")
  case True
  then have eq: "unat (head q) + 64 - unat (tail q) = unat (head q) - unat (tail q) + 64" by simp
  have "unat (head q) - unat (tail q) < 64" using assms by (simp add: ring_ok_def less_imp_diff_less)
  then have "ring_len q = unat (head q) - unat (tail q)"
    unfolding ring_len_def eq mod_add_self2 by (rule mod_less)
  then show ?thesis using True by simp
next
  case False
  then show ?thesis using assms by (simp add: ring_len_def ring_ok_def)
qed

lemma contents_nth: "i < ring_len q \<Longrightarrow> contents q ! i = buf q ! ((unat (tail q) + i) mod 64)"
  by (simp add: contents_def)

lemma ring_len_lt: "ring_len q < 64"
  by (simp add: ring_len_def)

lemma length_contents [simp]: "length (contents q) = ring_len q"
  by (simp add: contents_def)

lemma next_pos_eq: "unat p < 64 \<Longrightarrow> unat (next_pos p) = (if unat p = 63 then 0 else unat p + 1)"
  by (simp add: unat_next_pos mod_64)

lemma ring_full_iff: "ring_ok q \<Longrightarrow> ring_full q \<longleftrightarrow> ring_len q = 63"
  unfolding ring_full_def word_unat_eq_iff by (auto simp: ring_len_eq ring_ok_def next_pos_eq)

lemma ring_empty_iff: "ring_ok q \<Longrightarrow> ring_empty q \<longleftrightarrow> ring_len q = 0"
  unfolding ring_empty_def word_unat_eq_iff by (auto simp: ring_len_eq ring_ok_def)

lemma ring_put_ok: "ring_ok q \<Longrightarrow> ring_ok (ring_put q c)"
  by (simp add: ring_ok_def ring_put_def next_pos_lt)

lemma ring_get_ok: "ring_ok q \<Longrightarrow> ring_ok (snd (ring_get q))"
  by (simp add: ring_ok_def ring_get_def next_pos_lt)

lemma ring_put_contents:
  assumes ok: "ring_ok q" and room: "\<not> ring_full q"
  shows "contents (ring_put q c) = contents q @ [c]"
proof (rule nth_equalityI)
  have len: "ring_len (ring_put q c) = ring_len q + 1"
    using ok room ring_put_ok [OF ok, of c] ring_full_iff [OF ok] ring_len_lt [of q]
    by (simp add: ring_len_eq) (auto simp: ring_put_def ring_ok_def next_pos_eq)
  then show "length (contents (ring_put q c)) = length (contents q @ [c])" by simp
  fix i assume "i < length (contents (ring_put q c))"
  then have i: "i \<le> ring_len q" using len by simp
  let ?h = "unat (head q)" and ?t = "unat (tail q)"
  have lt: "?h < 64" "?t < 64" "length (buf q) = 64" using ok by (simp_all add: ring_ok_def)
  have pos: "(?t + i) mod 64 = ?h \<longleftrightarrow> i = ring_len q"
    using lt i ring_len_lt [of q] ring_len_eq [OF ok] by (auto simp: mod_64 split: if_splits)
  show "contents (ring_put q c) ! i = (contents q @ [c]) ! i"
  proof (cases "i = ring_len q")
    case True
    then show ?thesis using pos lt len by (simp add: contents_nth nth_append) (simp add: ring_put_def)
  next
    case False
    then have "(?t + i) mod 64 \<noteq> ?h" "i < ring_len q" using pos i by auto
    then show ?thesis using len by (simp add: contents_nth nth_append) (simp add: ring_put_def)
  qed
qed

lemma ring_get_contents:
  assumes ok: "ring_ok q" and ne: "\<not> ring_empty q"
  shows "contents q = fst (ring_get q) # contents (snd (ring_get q))"
proof (rule nth_equalityI)
  let ?q = "snd (ring_get q)"
  have len: "ring_len q = ring_len ?q + 1"
    using ok ne ring_get_ok [OF ok] ring_empty_iff [OF ok]
    by (simp add: ring_len_eq) (auto simp: ring_get_def ring_ok_def next_pos_eq)
  then show "length (contents q) = length (fst (ring_get q) # contents ?q)" by simp
  fix i assume i: "i < length (contents q)"
  have lt: "unat (tail q) < 64" using ok by (simp add: ring_ok_def)
  show "contents q ! i = (fst (ring_get q) # contents ?q) ! i"
  proof (cases i)
    case 0
    then show ?thesis using lt len by (simp add: contents_nth) (simp add: ring_get_def)
  next
    case (Suc k)
    have "(unat (next_pos (tail q)) + k) mod 64 = (unat (tail q) + Suc k) mod 64"
      unfolding unat_next_pos [OF lt] by (simp add: mod_add_left_eq)
    moreover have "k < ring_len ?q" using Suc i len by simp
    ultimately show ?thesis using Suc i len by (simp add: contents_nth) (simp add: ring_get_def)
  qed
qed

interpretation ring: bounded_fifo ring_ok contents ring_put ring_get ring_full ring_empty 63
proof unfold_locales
  fix q :: ioqueue assume "ring_ok q"
  then show "ring_empty q \<longleftrightarrow> contents q = []"
    using ring_empty_iff [of q] length_contents [of q] by (metis length_0_conv)
qed (simp_all add: ring_put_ok ring_get_ok ring_put_contents ring_get_contents ring_full_iff
    ring_len_lt [THEN less_imp_le_nat] less_Suc_eq_le [symmetric] ring_len_lt)

section \<open>Properties\<close>

text \<open>
  C23. The ring is a first-in first-out queue of 63 places: bytes put into an empty ring, up to 63
  of them and wherever head and tail stand, come out in the order in which they went in.
\<close>

theorem ring_fifo:
  assumes "ring_ok q" "ring_empty q" "length cs \<le> 63"
  shows "fst (ring.gets (length cs) (ring.puts q cs)) = cs"
  by (rule ring.fifo [OF assms])

text \<open>A ring in the middle of its buffer: 60 and 61 wrap round to 0 and 1.\<close>

definition demo_ring :: ioqueue where
  "demo_ring = \<lparr>buf = replicate 64 0, head = 62, tail = 62\<rparr>"

lemma ring_fifo_witness:
  "fst (ring.gets (length [10, 20, 30 :: u8]) (ring.puts demo_ring [10, 20, 30])) = [10, 20, 30]"
  by (rule ring_fifo) (simp_all add: demo_ring_def ring_ok_def ring_empty_def)

lemma set_ioq_sel [simp]:
  "ioqs (set_ioq i q s) i = q" "ptrs (set_ioq i q s) = ptrs s" "eflags (set_ioq i q s) = eflags s"
  "ptrs (set_ptr a v s) = (ptrs s)(a := v)" "ioqs (set_ptr a v s) = ioqs s"
  by (simp_all add: set_ioq_def set_ptr_def)

text \<open>The two operations when nobody waits.\<close>

lemma putchar_room:
  assumes "intr_get_status s = INTR_OFF" "ring_ok (ioqs s ioq)" "\<not> ring_full (ioqs s ioq)"
    and "ptrs s (consumer ioq) = NULL"
  shows "ioq_putchar s ioq c = Inr (set_ioq ioq (ring_put (ioqs s ioq) c) s)"
  using assms by (simp add: ioq_putchar_def put_from_def put_loop.simps ioq_full_def ring_ok_def)

lemma getchar_byte:
  assumes "intr_get_status s = INTR_OFF" "ring_ok (ioqs s ioq)" "\<not> ring_empty (ioqs s ioq)"
    and "ptrs s (producer ioq) = NULL"
  shows "ioq_getchar s ioq = Inr (fst (ring_get (ioqs s ioq)), set_ioq ioq (snd (ring_get (ioqs s ioq))) s)"
  using assms by (simp add: ioq_getchar_def get_loop.simps ioq_empty_def split_beta Let_def ring_ok_def)

text \<open>
  With room in the queue and nobody waiting, ioq_putchar appends exactly the byte; on a queue
  that is not empty ioq_getchar takes exactly the oldest byte. Neither blocks and nothing else
  of the kernel changes.
\<close>

theorem ioq_put_get:
  assumes "intr_get_status s = INTR_OFF" "ring_ok (ioqs s ioq)"
    and "ptrs s (consumer ioq) = NULL" "ptrs s (producer ioq) = NULL"
  shows "(if length (contents (ioqs s ioq)) < 63
      then \<exists>q. ioq_putchar s ioq c = Inr (set_ioq ioq q s) \<and> ring_ok q \<and> contents q = contents (ioqs s ioq) @ [c]
      else ring_full (ioqs s ioq)) \<and>
    (case contents (ioqs s ioq) of
       [] \<Rightarrow> ring_empty (ioqs s ioq)
     | b # bs \<Rightarrow> \<exists>q. ioq_getchar s ioq = Inr (b, set_ioq ioq q s) \<and> ring_ok q \<and> contents q = bs)"
proof (rule conjI)
  let ?q = "ioqs s ioq"
  have full: "ring_full ?q \<longleftrightarrow> length (contents ?q) = 63" by (rule ring.full_iff [OF assms(2)])
  have "ioq_putchar s ioq c = Inr (set_ioq ioq (ring_put ?q c) s)" if "\<not> ring_full ?q"
    using putchar_room [OF assms(1,2) that assms(3)] .
  then show "if length (contents ?q) < 63
      then \<exists>q. ioq_putchar s ioq c = Inr (set_ioq ioq q s) \<and> ring_ok q \<and> contents q = contents ?q @ [c]
      else ring_full ?q"
    using full ring.cap_max [OF assms(2)] ring.put_ok [OF assms(2)] ring.put_abs [OF assms(2)] by auto
  have "ioq_getchar s ioq = Inr (fst (ring_get ?q), set_ioq ioq (snd (ring_get ?q)) s)" if "\<not> ring_empty ?q"
    using getchar_byte [OF assms(1,2) that assms(4)] .
  then show "case contents ?q of [] \<Rightarrow> ring_empty ?q
     | b # bs \<Rightarrow> \<exists>q. ioq_getchar s ioq = Inr (b, set_ioq ioq q s) \<and> ring_ok q \<and> contents q = bs"
    using ring.empty_iff [OF assms(2)] ring.get_ok [OF assms(2)] ring.get_abs [OF assms(2)]
    by (cases "contents ?q") auto
qed

lemma demo_ioq: "intr_get_status demo_state = INTR_OFF" "ring_ok (ioqs demo_state IOQUEUE)"
  "ptrs demo_state p = 0" "contents (ioqs demo_state IOQUEUE) = []"
  using demo_off by (simp_all add: demo_state_def ring_ok_def contents_def ring_len_def)

lemma ioq_put_get_witness:
  "\<exists>q. ioq_putchar demo_state IOQUEUE 65 = Inr (set_ioq IOQUEUE q demo_state) \<and> contents q = [65]"
  using ioq_put_get [OF demo_ioq(1,2,3,3), of 65] by (auto simp: demo_ioq(4))

text \<open>
  C24. A reader never waits. With the consumer field as init_ioqueue leaves it, NULL, ioq_getchar on
  an empty queue passes that value, not the field's address, to ioq_wait, which reads through it:
  where address 0 is not mapped, as in every process, that is a page fault, and where it is mapped
  the assertion fails. In no case does the reader block.
\<close>

theorem ioq_getchar_empty_fails:
  assumes "intr_get_status s = INTR_OFF" "lock_free s ioq" "ring_empty (ioqs s ioq)" "ptrs s (consumer ioq) = NULL"
  shows "ioq_getchar s ioq = Inl (if mmu_walk (phys s) (cr3 s) 0 = None then Page_fault 0
      else Assert_failed ''*waiter==NULL&&waiter!=NULL'')"
proof -
  have "phys (locked ioq s) = phys s" "cr3 (locked ioq s) = cr3 s" "ptrs (locked ioq s) = ptrs s"
    by (simp_all add: locked_def set_repeat_def set_holder_def set_sema_value_def)
  then have "get_wait s ioq = Inl (if mmu_walk (phys s) (cr3 s) 0 = None then Page_fault 0
      else Assert_failed ''*waiter==NULL&&waiter!=NULL'')"
    using assms(4) lock_free_acquire [OF assms(2)] by (simp add: get_wait_def ioq_wait_def)
  then show ?thesis using assms(1,3) by (simp add: ioq_getchar_def get_loop.simps ioq_empty_def)
qed

text \<open>The machine of Sched after init_ioqueue, empty and full.\<close>

definition demo_ioq_state :: kstate where
  "demo_ioq_state = init_ioqueue demo_state IOQUEUE"

definition full_ring :: ioqueue where
  "full_ring = \<lparr>buf = map of_nat [0..<64], head = 63, tail = 0\<rparr>"

definition demo_full_state :: kstate where
  "demo_full_state = set_ioq IOQUEUE full_ring demo_ioq_state"

definition demo_ioq_lists :: "u32 \<Rightarrow> u32 list option" where
  "demo_ioq_lists = demo_lists(sema_waiters (lock_semaphore IOQUEUE) \<mapsto> [])"

lemma init_ioqueue_sel:
  "lheap (init_ioqueue s q) = lheap (lock_init s q)" "phys (init_ioqueue s q) = phys s"
  "cr3 (init_ioqueue s q) = cr3 s" "cur (init_ioqueue s q) = cur s" "tasks (init_ioqueue s q) = tasks s"
  "eflags (init_ioqueue s q) = eflags s" "sema_value (init_ioqueue s q) = sema_value (lock_init s q)"
  "lock_holder (init_ioqueue s q) = lock_holder (lock_init s q)"
  "holder_repeat_nr (init_ioqueue s q) = holder_repeat_nr (lock_init s q)"
  "ptrs (init_ioqueue s q) (consumer q) = NULL" "ptrs (init_ioqueue s q) (producer q) = NULL"
  "ring_empty (ioqs (init_ioqueue s q) q)"
  by (simp_all add: init_ioqueue_def Let_def set_ioq_def set_ptr_def lock_init_sel ring_empty_def)

lemma demo_ioq_fresh:
  "{sema_waiters (lock_semaphore IOQUEUE), tail_of (sema_waiters (lock_semaphore IOQUEUE))} \<inter>
     insert (general_tag (cur demo_state)) (fam_nodes demo_lists) = {}"
  unfolding demo_lists_map_of fam_nodes_map_of [OF demo_nodes]
  by (simp add: nodes_of_def dl_nodes_def tail_of_def general_tag_def T1_def T2_def sema_waiters_def
      lock_semaphore_def THREAD_READY_LIST_def IOQUEUE_def demo_state_def)

lemma demo_ioq_inv: "sched_inv demo_ioq_state demo_ioq_lists [T2] {T1, T2} (\<lambda>_. 0x100000)"
proof -
  have "sched_inv (lock_init demo_state IOQUEUE) demo_ioq_lists [T2] {T1, T2} (\<lambda>_. 0x100000)"
    unfolding demo_ioq_lists_def by (rule lock_init_sched_inv [OF demo_sched_inv demo_ioq_fresh])
  then show ?thesis
    using sched_inv_cong [of demo_ioq_state "lock_init demo_state IOQUEUE"]
    by (simp add: demo_ioq_state_def init_ioqueue_sel lock_init_sel)
qed

lemma demo_ioq_free: "lock_free demo_ioq_state IOQUEUE"
proof -
  have "k_family demo_ioq_state demo_ioq_lists"
    using demo_ioq_inv by (simp add: sched_inv_def sched_core_def)
  moreover have "demo_ioq_lists (sema_waiters (lock_semaphore IOQUEUE)) = Some []"
    by (simp add: demo_ioq_lists_def)
  moreover have "cur demo_ioq_state \<noteq> 0"
    by (simp add: demo_ioq_state_def init_ioqueue_sel) (simp add: demo_state_def T1_def)
  ultimately show ?thesis
    unfolding lock_free_def by (auto simp: demo_ioq_state_def init_ioqueue_sel lock_init_sel)
qed

lemma demo_ioq_off: "intr_get_status demo_ioq_state = INTR_OFF"
  using demo_off by (simp add: intr_get_status_def demo_ioq_state_def init_ioqueue_sel)

lemma ioq_getchar_empty_fails_witness:
  "ioq_getchar demo_ioq_state IOQUEUE = Inl (if mmu_walk (phys demo_ioq_state) (cr3 demo_ioq_state) 0 = None
     then Page_fault 0 else Assert_failed ''*waiter==NULL&&waiter!=NULL'')"
  by (rule ioq_getchar_empty_fails [OF demo_ioq_off demo_ioq_free])
    (simp_all add: demo_ioq_state_def init_ioqueue_sel)

lemma demo_full:
  "sched_inv demo_full_state demo_ioq_lists [T2] {T1, T2} (\<lambda>_. 0x100000)"
  "intr_get_status demo_full_state = INTR_OFF" "lock_free demo_full_state IOQUEUE"
  "ring_full (ioqs demo_full_state IOQUEUE)" "ptrs demo_full_state (producer IOQUEUE) = NULL"
proof -
  have inv: "sched_inv demo_full_state F rs Ts D = sched_inv demo_ioq_state F rs Ts D" for F rs Ts D
    by (rule sched_inv_cong) (simp_all add: demo_full_state_def set_ioq_def)
  show "sched_inv demo_full_state demo_ioq_lists [T2] {T1, T2} (\<lambda>_. 0x100000)"
    unfolding inv by (rule demo_ioq_inv)
  show "intr_get_status demo_full_state = INTR_OFF"
    using demo_ioq_off by (simp add: intr_get_status_def demo_full_state_def)
  show "lock_free demo_full_state IOQUEUE"
    using demo_ioq_free by (simp add: lock_free_def k_family_def demo_full_state_def set_ioq_def)
  show "ring_full (ioqs demo_full_state IOQUEUE)"
    by (simp add: demo_full_state_def ring_full_def full_ring_def next_pos_def bufsize_def)
  show "ptrs demo_full_state (producer IOQUEUE) = NULL"
    by (simp add: demo_full_state_def demo_ioq_state_def init_ioqueue_sel)
qed

text \<open>
  A producer that meets a full queue records itself as the waiting producer and gives the processor
  to the next ready thread. It keeps the queue's lock while it is blocked.
\<close>

lemma putchar_full_blocks:
  assumes inv: "sched_inv s F (p # rs) Ts D" and off: "intr_get_status s = INTR_OFF"
    and free: "lock_free s ioq" and full: "ring_full (ioqs s ioq)"
    and none: "ptrs s (producer ioq) = NULL" "producer ioq \<noteq> NULL"
  shows "\<exists>s'. ioq_putchar s ioq c = Inl (Switched s') \<and> cur s' = p \<and>
    sched_inv s' (F(THREAD_READY_LIST \<mapsto> map general_tag rs)) rs Ts D \<and>
    status (tasks s' (cur s)) = TASK_BLOCKED \<and> ptrs s' (producer ioq) = cur s \<and>
    lock_holder s' ioq = cur s \<and> ioqs s' = ioqs s \<and> intr_get_status s' = INTR_OFF \<and>
    general_tag (cur s) \<notin> fam_nodes (F(THREAD_READY_LIST \<mapsto> map general_tag rs))"
proof -
  define s2 where "s2 = set_ptr (producer ioq) (cur s) (locked ioq s)"
  have sel: "cur s2 = cur s" "ptrs s2 (producer ioq) = cur s" "lock_holder s2 ioq = cur s" "ioqs s2 = ioqs s"
    by (simp_all add: s2_def set_ptr_def locked_def set_repeat_def set_holder_def set_sema_value_def)
  have "sched_inv s2 F (p # rs) Ts D = sched_inv s F (p # rs) Ts D"
    by (rule sched_inv_cong)
      (simp_all add: s2_def set_ptr_def locked_def set_repeat_def set_holder_def set_sema_value_def)
  with inv have inv2: "sched_inv s2 F (p # rs) Ts D" by simp
  obtain s' where s': "thread_block s2 TASK_BLOCKED = Inl (Switched s')" "cur s' = p"
    "sched_inv s' (F(THREAD_READY_LIST \<mapsto> map general_tag rs)) rs Ts D"
    "sched_frame (cli s2) s' {cur s2, p}" "status (tasks s' (cur s2)) = TASK_BLOCKED"
    using thread_block_switches [OF inv2, of TASK_BLOCKED] by (auto simp: block_status_def)
  have "ptrs (locked ioq s) (producer ioq) = NULL"
    using none by (simp add: locked_def set_repeat_def set_holder_def set_sema_value_def)
  then have "put_wait s ioq = Inl (Switched s')"
    using none s'(1) lock_free_acquire [OF free] by (simp add: put_wait_def ioq_wait_def s2_def)
  then have "ioq_putchar s ioq c = Inl (Switched s')"
    using off full by (simp add: ioq_putchar_def put_from_def put_loop.simps ioq_full_def)
  moreover have "ptrs s' = ptrs s2" "lock_holder s' = lock_holder s2" "ioqs s' = ioqs s2"
    using s'(4) by (simp_all add: sched_frame_def)
  moreover have "intr_get_status s' = INTR_OFF"
    using s'(4) intr_get_status_cli [of s2] by (simp add: sched_frame_def intr_get_status_def)
  moreover have "general_tag (cur s) \<notin> fam_nodes (F(THREAD_READY_LIST \<mapsto> map general_tag rs))"
    using inv fam_nodes_pop [of F THREAD_READY_LIST "general_tag p" "map general_tag rs"]
    unfolding sched_inv_def sched_core_def by auto
  ultimately show ?thesis using s' sel by auto
qed

text \<open>The reader that takes a byte then wakes it.\<close>

lemma getchar_wakes_producer:
  assumes inv: "sched_inv s F rs Ts D" and off: "intr_get_status s = INTR_OFF"
    and ok: "ring_ok (ioqs s ioq)" and ne: "contents (ioqs s ioq) = b # bs"
    and w: "ptrs s (producer ioq) = w" "w \<in> Ts" "block_status (status (tasks s w))"
      "general_tag w \<notin> fam_nodes F"
  shows "\<exists>s'. ioq_getchar s ioq = Inr (b, s') \<and> contents (ioqs s' ioq) = bs \<and>
    ptrs s' (producer ioq) = NULL \<and> status (tasks s' w) = TASK_READY \<and> cur s' = cur s \<and>
    sched_inv s' (F(THREAD_READY_LIST \<mapsto> map general_tag (w # rs))) (w # rs) Ts D"
proof -
  let ?q = "ioqs s ioq"
  have empty: "\<not> ring_empty ?q" using ring.empty_iff [OF ok] ne by simp
  have get: "fst (ring_get ?q) = b" "contents (snd (ring_get ?q)) = bs"
    using ring.get_abs [OF ok empty] ne by simp_all
  have lt: "unat (tail ?q) < 64" using ok by (simp add: ring_ok_def)
  define s1 where "s1 = set_ioq ioq (snd (ring_get ?q)) s"
  have sel: "tasks s1 = tasks s" "ptrs s1 = ptrs s" "cur s1 = cur s" "ioqs s1 ioq = snd (ring_get ?q)"
    by (simp_all add: s1_def set_ioq_def)
  have "sched_inv s1 F rs Ts D = sched_inv s F rs Ts D"
    by (rule sched_inv_cong) (simp_all add: s1_def set_ioq_def)
  with inv have inv1: "sched_inv s1 F rs Ts D" by simp
  obtain s2 where s2: "thread_unblock s1 w = Inr s2" "cur s2 = cur s1"
    "sched_inv s2 (F(THREAD_READY_LIST \<mapsto> map general_tag (w # rs))) (w # rs) Ts D"
    "sched_frame s1 s2 {w}" "status (tasks s2 w) = TASK_READY"
    using thread_unblock_readies [OF inv1 w(2) _ w(4)] w(3) by (auto simp: sel)
  define s' where "s' = set_ptr (producer ioq) NULL s2"
  have w0: "w \<noteq> NULL" using inv w(2) unfolding sched_inv_def sched_core_def by blast
  have "wakeup s1 (producer ioq) = Inr s'"
    using s2(1) w0 w(1) by (simp add: wakeup_def sel s'_def)
  then have "ioq_getchar s ioq = Inr (b, s')"
    using off empty lt w(1) w0 get(1)
    by (simp add: ioq_getchar_def get_loop.simps ioq_empty_def split_beta Let_def s1_def [symmetric] sel)
  moreover have "sched_inv s' (F(THREAD_READY_LIST \<mapsto> map general_tag (w # rs))) (w # rs) Ts D"
    using s2(3) sched_inv_cong [of s' s2] by (simp add: s'_def set_ptr_def)
  moreover have "ioqs s2 = ioqs s1" using s2(4) by (simp add: sched_frame_def)
  ultimately show ?thesis using s2 get(2) by (auto simp: s'_def set_ptr_def sel)
qed

text \<open>
  ioq_putchar on a full queue blocks the calling thread as the waiting producer and runs the
  first ready thread; the lock of the queue stays with the blocked producer, and the queue is
  untouched.
\<close>

theorem ioq_putchar_full_blocks:
  assumes "sched_inv s F (p # rs) Ts D" "intr_get_status s = INTR_OFF" "lock_free s ioq"
    and "ring_full (ioqs s ioq)" "ptrs s (producer ioq) = NULL" "producer ioq \<noteq> NULL"
  shows "\<exists>s'. ioq_putchar s ioq c = Inl (Switched s') \<and> cur s' = p \<and>
    sched_inv s' (F(THREAD_READY_LIST \<mapsto> map general_tag rs)) rs Ts D \<and>
    status (tasks s' (cur s)) = TASK_BLOCKED \<and> ptrs s' (producer ioq) = cur s \<and>
    lock_holder s' ioq = cur s \<and> ioqs s' = ioqs s \<and> intr_get_status s' = INTR_OFF \<and>
    general_tag (cur s) \<notin> fam_nodes (F(THREAD_READY_LIST \<mapsto> map general_tag rs))"
  using assms by (rule putchar_full_blocks)

lemma ioq_putchar_full_blocks_witness:
  "\<exists>s'. ioq_putchar demo_full_state IOQUEUE 7 = Inl (Switched s') \<and> cur s' = T2 \<and>
    ptrs s' (producer IOQUEUE) = cur demo_full_state"
  using ioq_putchar_full_blocks [OF demo_full, of 7] by (auto simp: producer_def IOQUEUE_def)

text \<open>
  ioq_getchar takes the oldest byte and, when a producer is waiting, makes it ready in front
  of all other ready threads and clears the producer field.
\<close>

theorem ioq_getchar_wakes_producer:
  assumes "sched_inv s F rs Ts D" "intr_get_status s = INTR_OFF"
    and "ring_ok (ioqs s ioq)" "contents (ioqs s ioq) = b # bs"
    and "ptrs s (producer ioq) = w" "w \<in> Ts" "block_status (status (tasks s w))" "general_tag w \<notin> fam_nodes F"
  shows "\<exists>s'. ioq_getchar s ioq = Inr (b, s') \<and> contents (ioqs s' ioq) = bs \<and>
    ptrs s' (producer ioq) = NULL \<and> status (tasks s' w) = TASK_READY \<and> cur s' = cur s \<and>
    sched_inv s' (F(THREAD_READY_LIST \<mapsto> map general_tag (w # rs))) (w # rs) Ts D"
  using assms by (rule getchar_wakes_producer)

lemma ioq_getchar_wakes_producer_witness:
  "\<exists>s' s''. ioq_putchar demo_full_state IOQUEUE 7 = Inl (Switched s') \<and>
    ioq_getchar s' IOQUEUE = Inr (0, s'') \<and> status (tasks s'' T1) = TASK_READY"
proof -
  have cur: "cur demo_full_state = T1"
    by (simp add: demo_full_state_def set_ioq_def demo_ioq_state_def init_ioqueue_sel) (simp add: demo_state_def)
  let ?F = "demo_ioq_lists(THREAD_READY_LIST \<mapsto> map general_tag [])"
  obtain s' where s': "ioq_putchar demo_full_state IOQUEUE 7 = Inl (Switched s')"
    "sched_inv s' ?F [] {T1, T2} (\<lambda>_. 0x100000)" "intr_get_status s' = INTR_OFF"
    "status (tasks s' T1) = TASK_BLOCKED" "ptrs s' (producer IOQUEUE) = T1" "general_tag T1 \<notin> fam_nodes ?F"
    "ioqs s' IOQUEUE = full_ring"
    using putchar_full_blocks [OF demo_full, of 7] cur
    by (auto simp: producer_def IOQUEUE_def demo_full_state_def)
  have "ring_ok (ioqs s' IOQUEUE)" by (simp add: s' ring_ok_def full_ring_def)
  moreover have "contents (ioqs s' IOQUEUE) = 0 # map of_nat [1..<63]"
    by (simp add: s' contents_def ring_len_def full_ring_def upt_rec)
  ultimately show ?thesis
    using ioq_getchar_wakes_producer [OF s'(2,3) _ _ s'(5) _ _ s'(6)] s'(1,4) by (auto simp: block_status_def)
qed

end
