(* ===== verification/Keyboard.thy ===== *)
theory Keyboard
  imports Idt IOQueue
begin

text \<open>
  The keyboard driver (device/keyboard.c): the table of characters, the flags of the modifier keys
  and the handler of the keyboard interrupt, which gets the byte read from port 0x60 as an
  argument and puts a character into the queue \<open>IOQUEUE\<close>.
\<close>

section \<open>Key codes and the table of characters\<close>

text \<open>The character of a one letter string.\<close>

definition ch :: "string \<Rightarrow> u8" where "ch s = of_char (hd s)"

definition esc :: u8 where "esc = 27"
definition enter :: u8 where "enter = 13"
definition tab :: u8 where "tab = 9"
definition backspace :: u8 where "backspace = 8"
definition char_invisible :: u8 where "char_invisible = 0"
definition quote :: u8 where "quote = 39"
definition dquote :: u8 where "dquote = 34"
definition bslash :: u8 where "bslash = 92"
definition bquote :: u8 where "bquote = 96"

definition shift_l_make :: u16 where "shift_l_make = 0x2a"
definition shift_r_make :: u16 where "shift_r_make = 0x36"
definition alt_l_make :: u16 where "alt_l_make = 0x38"
definition alt_r_make :: u16 where "alt_r_make = 0xe038"
definition ctrl_l_make :: u16 where "ctrl_l_make = 0x1d"
definition ctrl_r_make :: u16 where "ctrl_r_make = 0xe01d"
definition caps_lock_make :: u16 where "caps_lock_make = 0x3a"

lemmas make_defs = shift_l_make_def shift_r_make_def alt_l_make_def alt_r_make_def ctrl_l_make_def
  ctrl_r_make_def caps_lock_make_def

text \<open>The character without and with shift, by make code from 0x00 to 0x3A.\<close>

definition keymap :: "(u8 \<times> u8) list" where
  "keymap =
    [
     (char_invisible, char_invisible), (esc, esc), (ch ''1'', ch ''!''),
     (ch ''2'', ch ''@''), (ch ''3'', ch ''#''), (ch ''4'', ch ''$''),
     (ch ''5'', ch ''%''), (ch ''6'', ch ''^''), (ch ''7'', ch ''&''),
     (ch ''8'', ch ''*''), (ch ''9'', ch ''(''), (ch ''0'', ch '')''),
     (ch ''-'', ch ''_''), (ch ''='', ch ''+''), (backspace, backspace),
     (tab, tab), (ch ''q'', ch ''Q''), (ch ''w'', ch ''W''),
     (ch ''e'', ch ''E''), (ch ''r'', ch ''R''), (ch ''t'', ch ''T''),
     (ch ''y'', ch ''Y''), (ch ''u'', ch ''U''), (ch ''i'', ch ''I''),
     (ch ''o'', ch ''O''), (ch ''p'', ch ''P''), (ch ''['', ch ''{''),
     (ch '']'', ch ''}''), (enter, enter), (char_invisible, char_invisible),
     (ch ''a'', ch ''A''), (ch ''s'', ch ''S''), (ch ''d'', ch ''D''),
     (ch ''f'', ch ''F''), (ch ''g'', ch ''G''), (ch ''h'', ch ''H''),
     (ch ''j'', ch ''J''), (ch ''k'', ch ''K''), (ch ''l'', ch ''L''),
     (ch '';'', ch '':''), (quote, dquote), (bquote, ch ''~''),
     (char_invisible, char_invisible), (bslash, ch ''|''), (ch ''z'', ch ''Z''),
     (ch ''x'', ch ''X''), (ch ''c'', ch ''C''), (ch ''v'', ch ''V''),
     (ch ''b'', ch ''B''), (ch ''n'', ch ''N''), (ch ''m'', ch ''M''),
     (ch '','', ch ''<''), (ch ''.'', ch ''>''), (ch ''/'', ch ''?''),
     (char_invisible, char_invisible), (ch ''*'', ch ''*''), (char_invisible, char_invisible),
     (ch '' '', ch '' ''), (char_invisible, char_invisible)
    ]"

definition keymap_at :: "u8 \<Rightarrow> bool \<Rightarrow> u8 kres" where
  "keymap_at index shift =
     (if unat index < length keymap
      then Inr (if shift then snd (keymap ! unat index) else fst (keymap ! unat index))
      else Inl (Overrun ''keymap''))"

section \<open>The handler\<close>

definition keyboard_init :: "kstate \<Rightarrow> kstate kres" where
  "keyboard_init s =
     bindR (register_handler (put_str s ''keyboard init start\<newline>'') 0x21 ''intr_keyboard_handler'') (\<lambda>s1.
       Inr (put_str (init_ioqueue s1 IOQUEUE) ''keyboard init done\<newline>''))"

text \<open>A break code clears the flag of its key.\<close>

definition key_up :: "u16 \<Rightarrow> kbd_flags \<Rightarrow> kbd_flags" where
  "key_up make_code k =
     (if make_code = ctrl_l_make \<or> make_code = ctrl_r_make then k\<lparr>ctrl_status := False\<rparr>
      else if make_code = shift_l_make \<or> make_code = shift_r_make then k\<lparr>shift_status := False\<rparr>
      else if make_code = alt_l_make \<or> make_code = alt_r_make then k\<lparr>alt_status := False\<rparr>
      else k)"

text \<open>Which column of the table a make code selects.\<close>

definition shift_column :: "u16 \<Rightarrow> bool \<Rightarrow> bool \<Rightarrow> bool" where
  "shift_column scancode shift_down_last caps_lock_last =
     (if scancode < 0x0e \<or> scancode = 0x29 \<or> scancode = 0x1a \<or> scancode = 0x1b \<or> scancode = 0x2b \<or>
         scancode = 0x27 \<or> scancode = 0x28 \<or> scancode = 0x33 \<or> scancode = 0x34 \<or> scancode = 0x35
      then shift_down_last
      else if shift_down_last \<and> caps_lock_last then False
      else if shift_down_last \<or> caps_lock_last then True
      else False)"

text \<open>A key without a character: the modifiers; \<open>None\<close> is an unknown key.\<close>

definition key_down :: "u16 \<Rightarrow> kbd_flags \<Rightarrow> kbd_flags option" where
  "key_down scancode k =
     (if scancode = ctrl_l_make \<or> scancode = ctrl_r_make then Some (k\<lparr>ctrl_status := True\<rparr>)
      else if scancode = shift_l_make \<or> scancode = shift_r_make then Some (k\<lparr>shift_status := True\<rparr>)
      else if scancode = alt_l_make \<or> scancode = alt_r_make then Some (k\<lparr>alt_status := True\<rparr>)
      else if scancode = caps_lock_make then Some (k\<lparr>caps_lock_status := \<not> caps_lock_status k\<rparr>)
      else None)"

definition intr_keyboard_handler :: "kstate \<Rightarrow> u8 \<Rightarrow> kstate kres" where
  "intr_keyboard_handler s byte =
     (let shift_down_last = shift_status (kbd s); caps_lock_last = caps_lock_status (kbd s);
          scancode = ucast byte :: u16 in
      if scancode = 0xe0 then Inr (s\<lparr>kbd := (kbd s)\<lparr>ext_scancode := True\<rparr>\<rparr>)
      else if scancode AND 0x0080 \<noteq> 0 then Inr (s\<lparr>kbd := key_up (scancode AND 0xff7f) (kbd s)\<rparr>)
      else if 0x00 < scancode \<and> scancode < 0x3b \<or> scancode = alt_r_make \<or> scancode = ctrl_r_make
      then bindR (keymap_at (ucast (scancode AND 0x00ff)) (shift_column scancode shift_down_last caps_lock_last)) (\<lambda>cur_char.
             if cur_char \<noteq> 0
             then bindR (ioq_full s IOQUEUE) (\<lambda>full. if \<not> full then ioq_putchar s IOQUEUE cur_char else Inr s)
             else case key_down scancode (kbd s) of
                    Some k \<Rightarrow> Inr (s\<lparr>kbd := k\<rparr>)
                  | None \<Rightarrow> Inr (put_str s ''unknown key\<newline>''))
      else Inr s)"

section \<open>What is typed\<close>

text \<open>
  The reference: on the letter keys shift and caps lock cancel each other, on every other key caps
  lock does nothing.
\<close>

definition typed :: "u8 \<Rightarrow> kbd_flags \<Rightarrow> u8" where
  "typed byte k =
     (let (lower, upper) = keymap ! unat byte
      in if 97 \<le> lower \<and> lower \<le> 122
         then if shift_status k \<noteq> caps_lock_status k then upper else lower
         else if shift_status k then upper else lower)"

definition column_ok :: "nat \<Rightarrow> bool" where
  "column_ok n = (let (lower, upper) = keymap ! n; col = shift_column (of_nat n) in
     if 97 \<le> lower \<and> lower \<le> 122
     then col True True = False \<and> col True False = True \<and> col False True = True \<and> col False False = False
     else lower = upper \<or> col True True = True \<and> col True False = True \<and> col False True = False \<and> col False False = False)"

lemma keymap_eq: "keymap =
    [(0, 0), (27, 27), (49, 33), (50, 64), (51, 35), (52, 36),
     (53, 37), (54, 94), (55, 38), (56, 42), (57, 40), (48, 41),
     (45, 95), (61, 43), (8, 8), (9, 9), (113, 81), (119, 87),
     (101, 69), (114, 82), (116, 84), (121, 89), (117, 85), (105, 73),
     (111, 79), (112, 80), (91, 123), (93, 125), (13, 13), (0, 0),
     (97, 65), (115, 83), (100, 68), (102, 70), (103, 71), (104, 72),
     (106, 74), (107, 75), (108, 76), (59, 58), (39, 34), (96, 126),
     (0, 0), (92, 124), (122, 90), (120, 88), (99, 67), (118, 86),
     (98, 66), (110, 78), (109, 77), (44, 60), (46, 62), (47, 63),
     (0, 0), (42, 42), (0, 0), (32, 32), (0, 0)]"
  by (simp add: keymap_def ch_def esc_def enter_def tab_def backspace_def char_invisible_def quote_def
      dquote_def bslash_def bquote_def)

lemma length_keymap: "length keymap = 59"
  by (simp add: keymap_def)

lemma columns_ok: "list_all column_ok [0..<59]"
  by (simp add: column_ok_def keymap_eq shift_column_def upt_rec)

text \<open>Byte by byte: what the handler looks up is the reference.\<close>

lemma keymap_typed:
  assumes "unat byte < 59"
  shows "keymap_at byte (shift_column (ucast byte) (shift_status k) (caps_lock_status k)) = Inr (typed byte k)"
proof -
  have "column_ok (unat byte)" using columns_ok assms by (simp add: list_all_iff)
  moreover have "of_nat (unat byte) = (ucast byte :: u16)" by (simp add: unsigned_of_nat [symmetric])
  moreover obtain lo up where lu: "keymap ! unat byte = (lo, up)" by (cases "keymap ! unat byte")
  ultimately have "column_ok (unat byte)" by simp
  then show ?thesis
    using assms lu \<open>of_nat (unat byte) = (ucast byte :: u16)\<close>
    by (cases "shift_status k"; cases "caps_lock_status k")
      (auto simp: column_ok_def typed_def keymap_at_def length_keymap Let_def split: if_splits)
qed

text \<open>A make code of a key in the table is below 0x3b, and nothing above it is looked up.\<close>

lemma u8_codes:
  fixes byte :: u8
  assumes "0 < byte" "byte < 0x3b"
  shows "(ucast byte :: u16) \<noteq> 0xe0" "ucast byte AND 0x0080 = (0 :: u16)" "0 < (ucast byte :: u16)"
    "(ucast byte :: u16) < 0x3b" "ucast (ucast byte AND 0x00ff :: u16) = byte" "unat byte < 59"
proof -
  show lt: "unat byte < 59" using assms by (simp add: word_less_nat_alt)
  then have n: "unat (ucast byte :: u16) = unat byte" by (simp add: unsigned_ucast_eq take_bit_eq_mod)
  show "(ucast byte :: u16) \<noteq> 0xe0" "0 < (ucast byte :: u16)" "(ucast byte :: u16) < 0x3b"
    using lt assms n by (auto simp: word_less_nat_alt)
  have "\<not> bit (unat byte) 7" using lt by (simp add: bit_iff_odd)
  then have "\<not> bit (ucast byte :: u16) 7" by (simp add: bit_unsigned_iff)
  moreover have "(0x0080 :: u16) = 2 ^ 7" by simp
  ultimately show "ucast byte AND 0x0080 = (0 :: u16)" by (simp only: and_exp_eq_0_iff_not_bit not_False_eq_True)
  have m: "(0x00ff :: u16) = mask 8" by (simp add: mask_eq_exp_minus_1)
  show "ucast (ucast byte AND 0x00ff :: u16) = byte"
    unfolding m by (rule bit_word_eqI) (auto simp: bit_simps)
qed

text \<open>The handler on a code of the table, and on any other.\<close>

lemma handler_in_table:
  assumes "0 < byte" "byte < 0x3b"
  shows "intr_keyboard_handler s byte =
    (if typed byte (kbd s) \<noteq> 0
     then bindR (ioq_full s IOQUEUE) (\<lambda>full. if \<not> full then ioq_putchar s IOQUEUE (typed byte (kbd s)) else Inr s)
     else case key_down (ucast byte) (kbd s) of
            Some k \<Rightarrow> Inr (s\<lparr>kbd := k\<rparr>)
          | None \<Rightarrow> Inr (put_str s ''unknown key\<newline>''))"
  using u8_codes [OF assms] keymap_typed [of byte "kbd s"] by (simp add: intr_keyboard_handler_def Let_def)

lemma handler_outside_table:
  assumes "\<not> (0 < byte \<and> byte < 0x3b)"
  shows "\<exists>k. intr_keyboard_handler s byte = Inr (s\<lparr>kbd := k\<rparr>)"
proof -
  have n: "unat (ucast byte :: u16) = unat byte"
    using unat_u8_bound [of byte] by (simp add: unsigned_ucast_eq take_bit_eq_mod)
  have "unat byte < 256" by (rule unat_u8_bound)
  then have "(ucast byte :: u16) \<noteq> alt_r_make" "(ucast byte :: u16) \<noteq> ctrl_r_make"
    "\<not> (0 < (ucast byte :: u16) \<and> (ucast byte :: u16) < 0x3b)"
    using n assms by (auto simp: make_defs word_less_nat_alt word_unat_eq_iff)
  note codes = this
  have id: "s = s\<lparr>kbd := kbd s\<rparr>" by simp
  consider (ext) "(ucast byte :: u16) = 0xe0"
    | (break) "(ucast byte :: u16) \<noteq> 0xe0" "ucast byte AND 0x0080 \<noteq> (0 :: u16)"
    | (none) "(ucast byte :: u16) \<noteq> 0xe0" "ucast byte AND 0x0080 = (0 :: u16)" by blast
  then show ?thesis
  proof cases
    case ext
    then have "intr_keyboard_handler s byte = Inr (s\<lparr>kbd := (kbd s)\<lparr>ext_scancode := True\<rparr>\<rparr>)"
      unfolding intr_keyboard_handler_def Let_def by (simp only: refl if_True)
    then show ?thesis by blast
  next
    case break
    then have "intr_keyboard_handler s byte = Inr (s\<lparr>kbd := key_up (ucast byte AND 0xff7f) (kbd s)\<rparr>)"
      unfolding intr_keyboard_handler_def Let_def by (simp only: if_True if_False not_False_eq_True)
    then show ?thesis by blast
  next
    case none
    then have "intr_keyboard_handler s byte = Inr s"
      unfolding intr_keyboard_handler_def Let_def
      using codes by (simp only: if_False not_True_eq_False simp_thms)
    then have "intr_keyboard_handler s byte = Inr (s\<lparr>kbd := kbd s\<rparr>)" using id by simp
    then show ?thesis by blast
  qed
qed

text \<open>With interrupts off and nobody waiting, the handler finds the queue full or puts the byte.\<close>

lemma handler_types:
  assumes "intr_get_status s = INTR_OFF" "ring_ok (ioqs s IOQUEUE)" "ptrs s (consumer IOQUEUE) = NULL"
    and "0 < byte" "byte < 0x3b" "typed byte (kbd s) \<noteq> 0"
  shows "intr_keyboard_handler s byte =
    Inr (if ring_full (ioqs s IOQUEUE) then s
         else set_ioq IOQUEUE (ring_put (ioqs s IOQUEUE) (typed byte (kbd s))) s)"
  using putchar_room [OF assms(1,2) _ assms(3)] assms(1,6)
  by (simp add: handler_in_table [OF assms(4,5)] ioq_full_def)

section \<open>Properties\<close>

text \<open>
  C27. A key with a character puts exactly that character at the end of the queue, or is dropped
  when 63 bytes are waiting; nothing else changes. The character is the one of the table's shift
  column when shift is down, except that on the letter keys caps lock inverts the effect of shift.
\<close>

theorem keyboard_types:
  assumes "intr_get_status s = INTR_OFF" "ring_ok (ioqs s IOQUEUE)" "ptrs s (consumer IOQUEUE) = NULL"
    and "0 < byte" "byte < 0x3b" "typed byte (kbd s) \<noteq> 0"
  shows "\<exists>q. intr_keyboard_handler s byte = Inr (set_ioq IOQUEUE q s) \<and> ring_ok q \<and>
    contents q = take 63 (contents (ioqs s IOQUEUE) @ [typed byte (kbd s)])"
proof (cases "ring_full (ioqs s IOQUEUE)")
  case True
  then have "length (contents (ioqs s IOQUEUE)) = 63" using ring.full_iff [OF assms(2)] by simp
  moreover have "set_ioq IOQUEUE (ioqs s IOQUEUE) s = s" by (simp add: set_ioq_def fun_upd_idem)
  ultimately show ?thesis using handler_types [OF assms] assms(2) True by (intro exI [of _ "ioqs s IOQUEUE"]) simp
next
  case False
  then have "length (contents (ioqs s IOQUEUE)) < 63"
    using ring.full_iff [OF assms(2)] ring.cap_max [OF assms(2)] by simp
  then show ?thesis
    using handler_types [OF assms] False ring.put_ok [OF assms(2) False] ring.put_abs [OF assms(2) False] by auto
qed

text \<open>With caps lock on, the Q key types a capital and 1 still types 1.\<close>

definition caps_state :: kstate where
  "caps_state = demo_state\<lparr>kbd := (kbd demo_state)\<lparr>caps_lock_status := True\<rparr>\<rparr>"

lemma caps_state_sel: "intr_get_status caps_state = INTR_OFF" "ring_ok (ioqs caps_state IOQUEUE)"
  "ptrs caps_state p = NULL" "contents (ioqs caps_state IOQUEUE) = []"
  "caps_lock_status (kbd caps_state)" "shift_status (kbd caps_state) = False"
  using demo_off demo_ioq by (simp_all add: caps_state_def intr_get_status_def) (simp add: demo_state_def)

lemma keyboard_types_witness:
  "\<exists>q r. intr_keyboard_handler caps_state 0x10 = Inr (set_ioq IOQUEUE q caps_state) \<and> contents q = [81] \<and>
    intr_keyboard_handler caps_state 0x02 = Inr (set_ioq IOQUEUE r caps_state) \<and> contents r = [49]"
proof -
  have "typed 0x10 (kbd caps_state) = 81" "typed 0x02 (kbd caps_state) = 49"
    using caps_state_sel by (simp_all add: typed_def keymap_eq)
  then show ?thesis
    using keyboard_types [OF caps_state_sel(1,2,3), of "0x10"] keyboard_types [OF caps_state_sel(1,2,3), of "0x02"]
      caps_state_sel(4) by auto
qed

text \<open>
  C28. The handler is total: for every byte the keyboard can send it returns, without failing an
  assertion, reading outside the table or blocking, and it changes at most the queue, the flags of
  the modifier keys and the screen.
\<close>

theorem keyboard_handler_total:
  assumes "intr_get_status s = INTR_OFF" "ring_ok (ioqs s IOQUEUE)" "ptrs s (consumer IOQUEUE) = NULL"
  shows "\<exists>q k out. intr_keyboard_handler s byte =
      Inr (set_ioq IOQUEUE q (s\<lparr>kbd := k, screen := screen s @ out\<rparr>)) \<and> ring_ok q"
proof -
  let ?q = "ioqs s IOQUEUE"
  have same: "set_ioq IOQUEUE ?q (s\<lparr>kbd := k\<rparr>) = s\<lparr>kbd := k\<rparr>" "set_ioq IOQUEUE ?q s = s" for k
    by (simp_all add: set_ioq_def fun_upd_idem)
  have idem: "s\<lparr>kbd := kbd s, screen := screen s\<rparr> = s" "s\<lparr>kbd := k, screen := screen s\<rparr> = s\<lparr>kbd := k\<rparr>" for k by simp_all
  consider (typed) "0 < byte" "byte < 0x3b" "typed byte (kbd s) \<noteq> 0"
    | (other) "0 < byte" "byte < 0x3b" "typed byte (kbd s) = 0" | (none) "\<not> (0 < byte \<and> byte < 0x3b)" by blast
  then show ?thesis
  proof cases
    case typed
    let ?q' = "if ring_full ?q then ?q else ring_put ?q (typed byte (kbd s))"
    have "intr_keyboard_handler s byte = Inr (set_ioq IOQUEUE ?q' (s\<lparr>kbd := kbd s, screen := screen s @ []\<rparr>))"
      using handler_types [OF assms typed] by (simp add: same)
    moreover have "ring_ok ?q'" using ring.put_ok [OF assms(2)] assms(2) by simp
    ultimately show ?thesis by blast
  next
    case other
    have "\<exists>k out. intr_keyboard_handler s byte = Inr (s\<lparr>kbd := k, screen := screen s @ out\<rparr>)"
    proof (cases "key_down (ucast byte) (kbd s)")
      case None
      then have "intr_keyboard_handler s byte =
          Inr (s\<lparr>kbd := kbd s, screen := screen s @ chars_of ''unknown key\<newline>''\<rparr>)"
        using other by (simp add: handler_in_table put_str_def)
      then show ?thesis by blast
    next
      case (Some k)
      then have "intr_keyboard_handler s byte = Inr (s\<lparr>kbd := k, screen := screen s @ []\<rparr>)"
        using other by (simp add: handler_in_table)
      then show ?thesis by blast
    qed
    then obtain k out where "intr_keyboard_handler s byte =
        Inr (set_ioq IOQUEUE ?q (s\<lparr>kbd := k, screen := screen s @ out\<rparr>))"
      by (auto simp: set_ioq_def fun_upd_idem)
    then show ?thesis using assms(2) by blast
  next
    case none
    then obtain k where "intr_keyboard_handler s byte = Inr (set_ioq IOQUEUE ?q (s\<lparr>kbd := k, screen := screen s @ []\<rparr>))"
      using handler_outside_table [OF none, of s] by (auto simp: same)
    then show ?thesis using assms(2) by blast
  qed
qed

lemma keyboard_handler_total_witness:
  "\<exists>q k out. intr_keyboard_handler caps_state 0xff =
      Inr (set_ioq IOQUEUE q (caps_state\<lparr>kbd := k, screen := screen caps_state @ out\<rparr>)) \<and> ring_ok q"
  by (rule keyboard_handler_total [OF caps_state_sel(1,2,3)])

end
