(* ===== verification/Timer.thy ===== *)
theory Timer
  imports Idt
begin

text \<open>
  The timer (device/timer.c): the programming of counter 0 of the 8253, the handler of the timer
  interrupt, which counts the ticks of the running thread and calls the scheduler when they are
  used up, and the two sleep functions. thread_yield, which ticks_to_sleep calls, is defined
  nowhere in the sources and is an argument.
\<close>

definition IRQ0_FREQUENCY :: u32 where "IRQ0_FREQUENCY = 100"
definition INPUT_FREQUENCY :: u32 where "INPUT_FREQUENCY = 1193180"
definition COUNTER0_VALUE :: u32 where "COUNTER0_VALUE = INPUT_FREQUENCY div IRQ0_FREQUENCY"
definition COUNTER0_PORT :: u8 where "COUNTER0_PORT = 0x40"
definition COUNTER0_NO :: u8 where "COUNTER0_NO = 0"
definition COUNTER_MODE :: u8 where "COUNTER_MODE = 2"
definition READ_WRITE_LATCH :: u8 where "READ_WRITE_LATCH = 3"
definition PIT_COUNTROL_PORT :: u16 where "PIT_COUNTROL_PORT = 0x43"

section \<open>Operations\<close>

text \<open>Operands of type uint8_t are widened before a shift; the cast binds tighter than the shift.\<close>

definition frequency_set :: "u8 \<Rightarrow> u8 \<Rightarrow> u8 \<Rightarrow> u8 \<Rightarrow> u16 \<Rightarrow> kstate \<Rightarrow> kstate" where
  "frequency_set counter_port counter_no rwl counter_mode counter_value s =
     (let control = push_bit 6 (ucast counter_no) OR push_bit 4 (ucast rwl) OR push_bit 1 (ucast counter_mode) :: u32;
          s1 = outb PIT_COUNTROL_PORT (ucast control) s;
          s2 = outb (ucast counter_port) (ucast counter_value) s1
      in outb (ucast counter_port) (ucast (drop_bit 8 (ucast (ucast counter_value :: u8) :: u32))) s2)"

definition intr_timer_handler :: "kstate \<Rightarrow> kstate kres" where
  "intr_timer_handler s =
     (let c = running_thread s in
      assertR (stack_magic (tasks s c) = 0x19980906) ''cur_thread->stack_magic==0x19980906''
        (let s1 = update_task c (\<lambda>t. t\<lparr>elapsed_ticks := elapsed_ticks t + 1\<rparr>) s;
             s2 = s1\<lparr>ticks := ticks s1 + 1\<rparr>
         in if task_ticks (tasks s2 c) = 0 then schedule s2
            else Inr (update_task c (\<lambda>t. t\<lparr>task_ticks := task_ticks t - 1\<rparr>) s2)))"

definition timer_init :: "kstate \<Rightarrow> kstate kres" where
  "timer_init s =
     (let s1 = put_str s ''timer_init start!\<newline>'';
          s2 = frequency_set COUNTER0_PORT COUNTER0_NO READ_WRITE_LATCH COUNTER_MODE (ucast COUNTER0_VALUE) s1
      in bindR (register_handler s2 0x20 ''intr_timer_handler'') (\<lambda>s3.
           Inr (put_str s3 ''timer_init done!\<newline>'')))"

partial_function (option) sleep_loop ::
  "(kstate \<Rightarrow> kstate kres) \<Rightarrow> u32 \<Rightarrow> u32 \<Rightarrow> kstate \<Rightarrow> kstate kres option" where
  "sleep_loop thread_yield start_tick sleep_ticks s =
     (if ticks s - start_tick < sleep_ticks
      then (case thread_yield s of
              Inl e \<Rightarrow> Some (Inl e)
            | Inr s1 \<Rightarrow> sleep_loop thread_yield start_tick sleep_ticks s1)
      else Some (Inr s))"

definition ticks_to_sleep :: "(kstate \<Rightarrow> kstate kres) \<Rightarrow> kstate \<Rightarrow> u32 \<Rightarrow> kstate kres" where
  "ticks_to_sleep thread_yield s sleep_ticks = joinR (sleep_loop thread_yield (ticks s) sleep_ticks s)"

text \<open>
  DIV_ROUND_UP(m_seconds, mil_second_per_init) as the preprocessor expands it: mil_second_per_init
  is 1000 / IRQ0_FREQUENCY without parentheses.
\<close>

definition sleep_ticks_of :: "u32 \<Rightarrow> u32" where
  "sleep_ticks_of m_seconds = (m_seconds + 1000 div IRQ0_FREQUENCY - 1) div 1000 div IRQ0_FREQUENCY"

definition mtime_sleep :: "(kstate \<Rightarrow> kstate kres) \<Rightarrow> kstate \<Rightarrow> u32 \<Rightarrow> kstate kres" where
  "mtime_sleep thread_yield s m_seconds =
     (let sleep_ticks = sleep_ticks_of m_seconds
      in assertR (0 < sleep_ticks) ''sleep_ticks > 0'' (ticks_to_sleep thread_yield s sleep_ticks))"

section \<open>The handler\<close>

definition timer_tick :: "kstate \<Rightarrow> kstate" where
  "timer_tick s = machine_after s (intr_timer_handler s)"

text \<open>The two increments that every tick makes.\<close>

definition counted :: "kstate \<Rightarrow> kstate" where
  "counted s = (update_task (cur s) (\<lambda>t. t\<lparr>elapsed_ticks := elapsed_ticks t + 1\<rparr>) s)\<lparr>ticks := ticks s + 1\<rparr>"

lemma counted_sel:
  "lheap (counted s) = lheap s" "phys (counted s) = phys s" "cr3 (counted s) = cr3 s"
  "cur (counted s) = cur s" "eflags (counted s) = eflags s" "ticks (counted s) = ticks s + 1"
  "tasks (counted s) = (tasks s)(cur s := (tasks s (cur s))\<lparr>elapsed_ticks := elapsed_ticks (tasks s (cur s)) + 1\<rparr>)"
  by (simp_all add: counted_def)

text \<open>Changes to the tick counters of a thread are invisible to the scheduler's invariant.\<close>

lemma sched_inv_tasks:
  assumes "lheap s' = lheap s" "phys s' = phys s" "cr3 s' = cr3 s" "cur s' = cur s"
    and "\<And>t. status (tasks s' t) = status (tasks s t)" "\<And>t. pgdir (tasks s' t) = pgdir (tasks s t)"
    and inv: "sched_inv s F rs Ts D"
  shows "sched_inv s' F rs Ts D"
proof -
  have "dirs_ok s' Ts D"
    by (rule dirs_ok_cong [of _ s]) (use assms in \<open>auto simp: sched_inv_def sched_core_def dirs_ok_def\<close>)
  moreover have "k_family s' F"
    using inv assms(1) by (simp add: sched_inv_def sched_core_def k_family_def)
  ultimately show ?thesis using inv assms(4,5) unfolding sched_inv_def sched_core_def by simp
qed

lemma counted_inv: "sched_inv s F rs Ts D \<Longrightarrow> sched_inv (counted s) F rs Ts D"
  by (rule sched_inv_tasks [of _ s]) (simp_all add: counted_sel)

lemma timer_handler_eq:
  assumes "stack_magic (tasks s (cur s)) = 0x19980906"
  shows "intr_timer_handler s =
    (if task_ticks (tasks s (cur s)) = 0 then schedule (counted s)
     else Inr (update_task (cur s) (\<lambda>t. t\<lparr>task_ticks := task_ticks t - 1\<rparr>) (counted s)))"
  using assms by (simp add: intr_timer_handler_def counted_def Let_def)

text \<open>A tick inside the time slice.\<close>

lemma timer_tick_inside:
  assumes "stack_magic (tasks s (cur s)) = 0x19980906" "task_ticks (tasks s (cur s)) \<noteq> 0"
    and inv: "sched_inv s F rs Ts D"
  defines "s' \<equiv> timer_tick s"
  shows "cur s' = cur s" "ticks s' = ticks s + 1" "sched_inv s' F rs Ts D" "eflags s' = eflags s"
    "task_ticks (tasks s' (cur s)) = task_ticks (tasks s (cur s)) - 1"
    "stack_magic (tasks s' (cur s)) = 0x19980906"
proof -
  have s': "s' = update_task (cur s) (\<lambda>t. t\<lparr>task_ticks := task_ticks t - 1\<rparr>) (counted s)"
    using assms(1,2) by (simp add: s'_def timer_tick_def timer_handler_eq machine_after_def)
  show "cur s' = cur s" "eflags s' = eflags s" "stack_magic (tasks s' (cur s)) = 0x19980906"
    "task_ticks (tasks s' (cur s)) = task_ticks (tasks s (cur s)) - 1"
    using assms(1) by (simp_all add: s' counted_sel)
  show "ticks s' = ticks s + 1" by (simp add: s' update_task_def counted_sel)
  show "sched_inv s' F rs Ts D"
    unfolding s' by (rule sched_inv_tasks [OF _ _ _ _ _ _ counted_inv [OF inv]]) simp_all
qed

text \<open>The tick that ends it.\<close>

lemma timer_tick_last:
  assumes "stack_magic (tasks s (cur s)) = 0x19980906" "task_ticks (tasks s (cur s)) = 0"
    and inv: "sched_inv s F (p # rs) Ts D" and off: "intr_get_status s = INTR_OFF"
  shows "cur (timer_tick s) = p \<and> (\<exists>F'. sched_inv (timer_tick s) F' (rs @ [cur s]) Ts D) \<and>
    task_ticks (tasks (timer_tick s) (cur s)) = priority (tasks s (cur s))"
proof -
  let ?c = "counted s"
  have off': "intr_get_status ?c = INTR_OFF" using off by (simp add: intr_get_status_def counted_sel)
  obtain s1 where rc: "ready_current ?c = Inr s1"
    and core: "sched_core s1 (F(THREAD_READY_LIST \<mapsto> map general_tag ((p # rs) @ [cur ?c]))) ((p # rs) @ [cur ?c]) Ts D"
    and cur: "cur s1 = cur ?c"
    and t1: "tasks s1 (cur ?c) = (tasks ?c (cur ?c))\<lparr>status := TASK_READY, task_ticks := priority (tasks ?c (cur ?c))\<rparr>"
    using ready_current_running [OF counted_inv [OF inv]] by blast
  have st: "status (tasks s1 (cur ?c)) \<noteq> TASK_RUNNING" by (simp add: t1)
  have core': "sched_core s1 (F(THREAD_READY_LIST \<mapsto> map general_tag ((p # rs) @ [cur ?c]))) (p # (rs @ [cur ?c])) Ts D"
    using core by simp
  obtain s' where s': "schedule ?c = (if p = cur ?c then Inr s' else Inl (Switched s'))" "cur s' = p"
    "\<exists>F'. sched_inv s' F' (rs @ [cur ?c]) Ts D" "sched_frame s1 s' {p}"
    using schedule_pop [OF off' rc core' cur st] by blast
  have eq: "timer_tick s = s'"
    using assms(1,2) s'(1) by (simp add: timer_tick_def timer_handler_eq machine_after_def)
  have "status (tasks s p) = TASK_READY" "status (tasks s (cur s)) = TASK_RUNNING"
    using inv sched_core_ready [of s F "p # rs" Ts D p] unfolding sched_inv_def by simp_all
  then have "p \<noteq> cur s" by auto
  then have "tasks s' (cur s) = tasks s1 (cur s)" using s'(4) by (simp add: sched_frame_def)
  then show ?thesis using s' t1 unfolding eq by (simp add: counted_sel)
qed

lemma timer_iterated:
  assumes inv: "sched_inv s F rs Ts D" and off: "intr_get_status s = INTR_OFF"
    and magic: "stack_magic (tasks s (cur s)) = 0x19980906"
    and k: "k \<le> unat (task_ticks (tasks s (cur s)))"
  shows "cur ((timer_tick ^^ k) s) = cur s \<and> ticks ((timer_tick ^^ k) s) = ticks s + of_nat k \<and>
    sched_inv ((timer_tick ^^ k) s) F rs Ts D \<and> eflags ((timer_tick ^^ k) s) = eflags s \<and>
    stack_magic (tasks ((timer_tick ^^ k) s) (cur s)) = 0x19980906 \<and>
    task_ticks (tasks ((timer_tick ^^ k) s) (cur s)) = task_ticks (tasks s (cur s)) - of_nat k"
  using k
proof (induction k)
  case 0
  then show ?case using inv magic by simp
next
  case (Suc k)
  let ?s = "(timer_tick ^^ k) s" and ?n = "task_ticks (tasks s (cur s))"
  have IH: "cur ?s = cur s" "ticks ?s = ticks s + of_nat k" "sched_inv ?s F rs Ts D" "eflags ?s = eflags s"
    "stack_magic (tasks ?s (cur s)) = 0x19980906" "task_ticks (tasks ?s (cur s)) = ?n - of_nat k"
    using Suc by simp_all
  have "unat ?n < 256" using unsigned_less [of ?n] by simp
  then have "unat ?n \<noteq> k" "k < 256" using Suc.prems by simp_all
  then have "?n \<noteq> of_nat k" by (auto simp: of_nat_u8_eq)
  then have ne: "task_ticks (tasks ?s (cur ?s)) \<noteq> 0" by (simp add: IH)
  have "stack_magic (tasks ?s (cur ?s)) = 0x19980906" by (simp add: IH)
  from timer_tick_inside [OF this ne IH(3)] show ?case by (simp add: IH algebra_simps)
qed

section \<open>Turns\<close>

text \<open>What the ticks of a time slice leave of the PCBs.\<close>

lemma timer_tick_inside_tasks:
  assumes "stack_magic (tasks s (cur s)) = 0x19980906" "task_ticks (tasks s (cur s)) \<noteq> 0"
  shows "t \<noteq> cur s \<Longrightarrow> tasks (timer_tick s) t = tasks s t"
    "priority (tasks (timer_tick s) t) = priority (tasks s t)" "stack_magic (tasks (timer_tick s) t) = stack_magic (tasks s t)"
  using assms by (simp_all add: timer_tick_def timer_handler_eq machine_after_def counted_sel)

lemma timer_tick_last_tasks:
  assumes magic: "stack_magic (tasks s (cur s)) = 0x19980906" "task_ticks (tasks s (cur s)) = 0"
    and inv: "sched_inv s F (p # rs) Ts D" and off: "intr_get_status s = INTR_OFF"
  shows "intr_get_status (timer_tick s) = INTR_OFF"
    "priority (tasks (timer_tick s) t) = priority (tasks s t)" "stack_magic (tasks (timer_tick s) t) = stack_magic (tasks s t)"
    "task_ticks (tasks s t) = priority (tasks s t) \<or> t = cur s \<Longrightarrow> task_ticks (tasks (timer_tick s) t) = priority (tasks s t)"
proof -
  have off': "intr_get_status (counted s) = INTR_OFF" using off by (simp add: intr_get_status_def counted_sel)
  have q: "(p # rs) @ [cur (counted s)] = p # (rs @ [cur s])" by (simp add: counted_sel)
  obtain s' where s': "schedule (counted s) = (if p = cur (counted s) then Inr s' else Inl (Switched s'))"
    "sched_frame (counted s) s' {cur (counted s), p}"
    using schedule_running [OF counted_inv [OF inv] off' q] by blast
  have eq: "timer_tick s = s'" using magic s'(1) by (simp add: timer_tick_def timer_handler_eq machine_after_def)
  have slice: "same_slice (tasks (counted s) t) (tasks s' t)" using s'(2) by (simp add: sched_frame_def)
  have pr: "priority (tasks (counted s) t) = priority (tasks s t)" "stack_magic (tasks (counted s) t) = stack_magic (tasks s t)"
    "task_ticks (tasks (counted s) t) = task_ticks (tasks s t)" by (simp_all add: counted_sel)
  show "priority (tasks (timer_tick s) t) = priority (tasks s t)" "stack_magic (tasks (timer_tick s) t) = stack_magic (tasks s t)"
    using slice unfolding eq same_slice_def pr by blast+
  show "intr_get_status (timer_tick s) = INTR_OFF"
    using s'(2) off' by (simp add: eq sched_frame_def intr_get_status_def)
  show "task_ticks (tasks (timer_tick s) t) = priority (tasks s t)" if "task_ticks (tasks s t) = priority (tasks s t) \<or> t = cur s"
    using that slice timer_tick_last [OF magic inv off] unfolding eq same_slice_def pr by metis
qed

text \<open>
  Every thread but the running one has a whole time slice before it. A turn lasts until the running
  thread's slice is over.
\<close>

definition slices_full :: "kstate \<Rightarrow> u32 set \<Rightarrow> bool" where
  "slices_full s Ts \<longleftrightarrow> (\<forall>t \<in> Ts. stack_magic (tasks s t) = 0x19980906 \<and>
     (t \<noteq> cur s \<longrightarrow> task_ticks (tasks s t) = priority (tasks s t)))"

lemma turn_inside:
  assumes inv: "sched_inv s F rs Ts D" and off: "intr_get_status s = INTR_OFF"
    and magic: "stack_magic (tasks s (cur s)) = 0x19980906" and k: "k \<le> unat (task_ticks (tasks s (cur s)))"
  shows "(t \<noteq> cur s \<longrightarrow> tasks ((timer_tick ^^ k) s) t = tasks s t) \<and>
    priority (tasks ((timer_tick ^^ k) s) t) = priority (tasks s t) \<and> stack_magic (tasks ((timer_tick ^^ k) s) t) = stack_magic (tasks s t)"
  using k
proof (induction k)
  case (Suc k)
  let ?s = "(timer_tick ^^ k) s" and ?n = "task_ticks (tasks s (cur s))"
  have IH: "cur ?s = cur s" "stack_magic (tasks ?s (cur s)) = 0x19980906" "task_ticks (tasks ?s (cur s)) = ?n - of_nat k"
    using timer_iterated [OF inv off magic, of k] Suc.prems by simp_all
  have "unat ?n < 256" using unsigned_less [of ?n] by simp
  then have "unat ?n \<noteq> k" "k < 256" using Suc.prems by simp_all
  then have "?n \<noteq> of_nat k" by (auto simp: of_nat_u8_eq)
  then have "task_ticks (tasks ?s (cur ?s)) \<noteq> 0" "stack_magic (tasks ?s (cur ?s)) = 0x19980906" by (simp_all add: IH)
  from timer_tick_inside_tasks [OF this(2,1), of t] Suc show ?case by (simp add: IH)
qed simp

lemma turn_over:
  assumes inv: "sched_inv s F (p # rs) Ts D" and off: "intr_get_status s = INTR_OFF" and full: "slices_full s Ts"
  defines "s' \<equiv> (timer_tick ^^ Suc (unat (task_ticks (tasks s (cur s))))) s"
  shows "cur s' = p \<and> (\<exists>F'. sched_inv s' F' (rs @ [cur s]) Ts D) \<and> intr_get_status s' = INTR_OFF \<and>
    (\<forall>t \<in> Ts. stack_magic (tasks s' t) = 0x19980906 \<and> priority (tasks s' t) = priority (tasks s t) \<and>
      task_ticks (tasks s' t) = priority (tasks s t))"
proof -
  let ?n = "unat (task_ticks (tasks s (cur s)))"
  let ?s = "(timer_tick ^^ ?n) s"
  have c: "cur s \<in> Ts" using inv by (simp add: sched_inv_def sched_core_def)
  then have magic: "stack_magic (tasks s (cur s)) = 0x19980906" using full by (simp add: slices_full_def)
  have n: "cur ?s = cur s" "sched_inv ?s F (p # rs) Ts D" "eflags ?s = eflags s"
    "stack_magic (tasks ?s (cur s)) = 0x19980906" "task_ticks (tasks ?s (cur s)) = 0"
    using timer_iterated [OF inv off magic, of ?n] by simp_all
  have off': "intr_get_status ?s = INTR_OFF" using off n(3) by (simp add: intr_get_status_def)
  have m': "stack_magic (tasks ?s (cur ?s)) = 0x19980906" "task_ticks (tasks ?s (cur ?s)) = 0" using n by simp_all
  note last = timer_tick_last [OF m' n(2) off'] timer_tick_last_tasks [OF m' n(2) off']
  have in': "t \<noteq> cur s \<Longrightarrow> tasks ?s t = tasks s t" "priority (tasks ?s t) = priority (tasks s t)"
    "stack_magic (tasks ?s t) = stack_magic (tasks s t)" for t
    using turn_inside [OF inv off magic, of ?n t] by simp_all
  have eq: "s' = timer_tick ?s" by (simp add: s'_def)
  have "stack_magic (tasks s' t) = 0x19980906 \<and> priority (tasks s' t) = priority (tasks s t) \<and> task_ticks (tasks s' t) = priority (tasks s t)"
    if t: "t \<in> Ts" for t
  proof -
    have "task_ticks (tasks ?s t) = priority (tasks ?s t) \<or> t = cur ?s"
      using full t in'(1) [of t] n(1) by (auto simp: slices_full_def)
    from last(5) [OF this] show ?thesis using last(3,4) [of t] in'(2,3) [of t] full t by (simp add: eq slices_full_def)
  qed
  then show ?thesis using last(1) last(2) n(1) unfolding eq by auto
qed

text \<open>The ticks of the turns before number \<open>k\<close>; the first may have begun, the others are whole slices.\<close>

definition turn_start :: "kstate \<Rightarrow> u32 list \<Rightarrow> nat \<Rightarrow> nat" where
  "turn_start s q k = (\<Sum>i < k. Suc (unat (if i = 0 then task_ticks (tasks s (cur s)) else priority (tasks s (q ! (i mod length q))))))"

lemma turns:
  assumes inv: "sched_inv s F rs Ts D" and off: "intr_get_status s = INTR_OFF" and full: "slices_full s Ts" and ne: "rs \<noteq> []"
  defines "q \<equiv> cur s # rs"
  shows "let s' = (timer_tick ^^ turn_start s q k) s in cur s' # tl (rotate k q) = rotate k q \<and>
    (\<exists>F'. sched_inv s' F' (tl (rotate k q)) Ts D) \<and> intr_get_status s' = INTR_OFF \<and>
    (\<forall>t \<in> Ts. stack_magic (tasks s' t) = 0x19980906 \<and> priority (tasks s' t) = priority (tasks s t) \<and>
      (k = 0 \<and> t = cur s \<and> s' = s \<or> task_ticks (tasks s' t) = priority (tasks s t)))"
proof (induction k)
  case 0
  then show ?case using inv off full by (auto simp: turn_start_def q_def slices_full_def)
next
  case (Suc k)
  define s' where "s' = (timer_tick ^^ turn_start s q k) s"
  have IH: "cur s' # tl (rotate k q) = rotate k q" "\<exists>F'. sched_inv s' F' (tl (rotate k q)) Ts D" "intr_get_status s' = INTR_OFF"
    "\<And>t. t \<in> Ts \<Longrightarrow> stack_magic (tasks s' t) = 0x19980906 \<and> priority (tasks s' t) = priority (tasks s t) \<and>
      (k = 0 \<and> t = cur s \<and> s' = s \<or> task_ticks (tasks s' t) = priority (tasks s t))"
    using Suc unfolding s'_def Let_def by blast+
  have len: "length (tl (rotate k q)) = length rs" by (simp add: q_def)
  then obtain p ps where p: "tl (rotate k q) = p # ps" using ne by (cases "tl (rotate k q)") auto
  obtain F' where F': "sched_inv s' F' (p # ps) Ts D" using IH(2) p by auto
  have full': "slices_full s' Ts" using IH(4) by (auto simp: slices_full_def)
  have c: "cur s' \<in> Ts" using F' by (simp add: sched_inv_def sched_core_def)
  have q0: "q \<noteq> []" by (simp add: q_def)
  have cq: "cur s' = q ! (k mod length q)" using IH(1) hd_rotate_conv_nth [OF q0, of k] by (metis list.sel(1))
  have ticks: "task_ticks (tasks s' (cur s')) = (if k = 0 then task_ticks (tasks s (cur s)) else priority (tasks s (q ! (k mod length q))))"
  proof (cases "k = 0")
    case True
    then have "s' = s" by (simp add: s'_def turn_start_def)
    then show ?thesis using True by simp
  next
    case False
    then show ?thesis using IH(4) [OF c] cq by auto
  qed
  have "turn_start s q (Suc k) = Suc (unat (task_ticks (tasks s' (cur s')))) + turn_start s q k"
    unfolding ticks by (simp add: turn_start_def)
  then have step: "(timer_tick ^^ turn_start s q (Suc k)) s = (timer_tick ^^ Suc (unat (task_ticks (tasks s' (cur s'))))) s'"
    unfolding s'_def by (simp only: funpow_add comp_def)
  have rot: "rotate (Suc k) q = p # ps @ [cur s']" using IH(1) p by (metis append_Cons rotate1.simps(2) rotate_Suc)
  from turn_over [OF F' IH(3) full'] show ?case
    unfolding Let_def step rot using IH(4) by auto
qed

lemma turn_thread:
  assumes "sched_inv s F rs Ts D" "intr_get_status s = INTR_OFF" "slices_full s Ts" "rs \<noteq> []"
  shows "cur ((timer_tick ^^ turn_start s (cur s # rs) k) s) = (cur s # rs) ! (k mod Suc (length rs))"
proof -
  have "cur ((timer_tick ^^ turn_start s (cur s # rs) k) s) = hd (rotate k (cur s # rs))"
    using turns [OF assms, of k] unfolding Let_def by (metis list.sel(1))
  then show ?thesis using hd_rotate_conv_nth [of "cur s # rs" k] by simp
qed

section \<open>Properties\<close>

text \<open>
  C19. The time slice: a thread that starts with n ticks keeps the processor for n timer interrupts,
  which only count; at the next one the first ready thread runs, and the old one goes to the end
  of the ready list with its ticks set to its priority again.
\<close>

theorem timer_time_slice:
  assumes "sched_inv s F (p # rs) Ts D" "intr_get_status s = INTR_OFF"
    and "stack_magic (tasks s (cur s)) = 0x19980906" "n = unat (task_ticks (tasks s (cur s)))"
  shows "(\<forall>k \<le> n. cur ((timer_tick ^^ k) s) = cur s \<and> ticks ((timer_tick ^^ k) s) = ticks s + of_nat k) \<and>
    cur ((timer_tick ^^ Suc n) s) = p \<and>
    (\<exists>F'. sched_inv ((timer_tick ^^ Suc n) s) F' (rs @ [cur s]) Ts D) \<and>
    task_ticks (tasks ((timer_tick ^^ Suc n) s) (cur s)) = priority (tasks ((timer_tick ^^ n) s) (cur s))"
proof (intro conjI allI impI)
  show "cur ((timer_tick ^^ k) s) = cur s" "ticks ((timer_tick ^^ k) s) = ticks s + of_nat k" if "k \<le> n" for k
    using timer_iterated [OF assms(1-3)] that assms(4) by simp_all
  let ?s = "(timer_tick ^^ n) s"
  have n: "cur ?s = cur s" "sched_inv ?s F (p # rs) Ts D" "eflags ?s = eflags s"
    "stack_magic (tasks ?s (cur s)) = 0x19980906" "task_ticks (tasks ?s (cur s)) = 0"
    using timer_iterated [OF assms(1-3), of n] assms(4) by simp_all
  have "intr_get_status ?s = INTR_OFF" using assms(2) n(3) by (simp add: intr_get_status_def)
  from timer_tick_last [OF _ _ n(2) this] n
  show "cur ((timer_tick ^^ Suc n) s) = p" "\<exists>F'. sched_inv ((timer_tick ^^ Suc n) s) F' (rs @ [cur s]) Ts D"
    "task_ticks (tasks ((timer_tick ^^ Suc n) s) (cur s)) = priority (tasks ((timer_tick ^^ n) s) (cur s))"
    by simp_all
qed

lemma timer_time_slice_witness:
  "cur ((timer_tick ^^ 31) demo_state) = T1 \<and> cur ((timer_tick ^^ Suc 31) demo_state) = T2"
proof -
  have "31 = unat (task_ticks (tasks demo_state (cur demo_state)))"
    "stack_magic (tasks demo_state (cur demo_state)) = 0x19980906" "cur demo_state = T1"
    by (simp_all add: demo_state_def demo_task_def)
  then show ?thesis using timer_time_slice [OF demo_sched_inv demo_off] by (metis order_refl)
qed

text \<open>
  C20. The timer shares the processor for ever. From a state with at least two threads in which all but the
  running one have a whole time slice before them, timer interrupts alone run the threads of the
  ready queue one after the other, in a circle: after \<open>k\<close> turns the thread at place \<open>k\<close> runs, counted
  modulo their number from the thread that runs first. A turn is one tick longer than the ticks of
  its thread: what was left of them for the first turn, the priority for all others.
\<close>

theorem timer_shares_processor:
  assumes "sched_inv s F rs Ts D" "intr_get_status s = INTR_OFF" "slices_full s Ts" "rs \<noteq> []"
  shows "cur ((timer_tick ^^ turn_start s (cur s # rs) k) s) = (cur s # rs) ! (k mod Suc (length rs))"
  by (rule turn_thread [OF assms])

lemma timer_shares_processor_witness:
  "map (\<lambda>k. cur ((timer_tick ^^ turn_start demo_state (cur demo_state # [T2]) k) demo_state)) [0, 1, 2, 3] = [T1, T2, T1, T2]"
proof -
  have c: "cur demo_state = T1" by (simp add: demo_state_def)
  have "slices_full demo_state {T1, T2}" by (simp add: slices_full_def demo_state_def demo_task_def)
  from timer_shares_processor [OF demo_sched_inv demo_off this] show ?thesis by (simp add: c flip: numeral_2_eq_2)
qed

text \<open>
  mtime_sleep fails its assertion for every time below 99991 ms, because the unparenthesised
  macro divides by 1000 and by 100 instead of by 10.
\<close>

theorem mtime_sleep_fails:
  assumes "m < 99991"
  shows "mtime_sleep yield s m = Inl (Assert_failed ''sleep_ticks > 0'')"
proof -
  have m: "unat m < 99991" using assms by (simp add: word_less_nat_alt)
  then have "unat (m + 9) = unat m + 9" by (simp add: unat_add_u32)
  then have "unat ((m + 9) div 1000 div 100) = 0" using m by (simp add: unat_div)
  then have "sleep_ticks_of m = 0"
    by (simp add: sleep_ticks_of_def IRQ0_FREQUENCY_def unat_eq_0 add_diff_eq [symmetric])
  then show ?thesis by (simp add: mtime_sleep_def)
qed

lemma mtime_sleep_fails_witness:
  "mtime_sleep (\<lambda>s. Inr s) demo_state 1000 = Inl (Assert_failed ''sleep_ticks > 0'')"
  by (rule mtime_sleep_fails) simp

end
