(* ===== verification/Threads.thy ===== *)
theory Threads
  imports Page_Alloc Output
begin

text \<open>
  Creation of threads (thread/thread.c): process ids, the initial contents of a PCB, the first
  frame on its kernel stack, thread_start and the start of the main thread. The scheduler is in
  Sched. self_kstack has type uint32_t*, so subtracting a size moves it by four times as many bytes.
\<close>

definition SIZEOF_TASK_STRUCT :: u32 where "SIZEOF_TASK_STRUCT = 240"
definition SIZEOF_INTR_STACK :: u32 where "SIZEOF_INTR_STACK = 76"
definition SIZEOF_THREAD_STACK :: u32 where "SIZEOF_THREAD_STACK = 32"

text \<open>Arithmetic on a uint32_t*.\<close>

definition ptr_add :: "u32 \<Rightarrow> u32 \<Rightarrow> u32" where "ptr_add p n = p + 4 * n"
definition ptr_sub :: "u32 \<Rightarrow> u32 \<Rightarrow> u32" where "ptr_sub p n = p - 4 * n"

section \<open>Operations\<close>

definition allocate_pid :: "kstate \<Rightarrow> (u16 \<times> kstate) kres" where
  "allocate_pid s =
     bindR (lock_acquire s PID_LOCK) (\<lambda>s1.
       bindR (lock_release (s1\<lparr>next_pid := next_pid s1 + 1\<rparr>) PID_LOCK) (\<lambda>s2. Inr (next_pid s2, s2)))"

definition kernel_thread :: "(u32 \<Rightarrow> kstate \<Rightarrow> kstate kres) \<Rightarrow> u32 \<Rightarrow> kstate \<Rightarrow> kstate kres" where
  "kernel_thread function func_arg s = function func_arg (fst (intr_enable s))"

text \<open>memset over a PCB: the words of its page, the list nodes in it, its descriptors and fields.\<close>

definition zero_task :: task_struct where
  "zero_task = \<lparr>self_kstack = 0, pid = 0, status = TASK_RUNNING, task_name = [], priority = 0,
     task_ticks = 0, elapsed_ticks = 0, pgdir = 0,
     userprog_vaddr = \<lparr>vaddr_bitmap = \<lparr>btmp_bytes_len = 0, bits = 0\<rparr>, vaddr_start = 0\<rparr>,
     stack_magic = 0\<rparr>"

definition memset_pcb :: "kstate \<Rightarrow> u32 \<Rightarrow> kstate kres" where
  "memset_pcb s pthread =
     bindR (kmemset0 s pthread SIZEOF_TASK_STRUCT) (\<lambda>s1.
       Inr (s1\<lparr>tasks := (tasks s1)(pthread := zero_task),
         descs := wipe pthread (unat SIZEOF_TASK_STRUCT) \<lparr>block_size = 0, blocks_per_arena = 0\<rparr> (descs s1)\<rparr>))"

text \<open>strcpy into name[16].\<close>

definition copy_name :: "kstate \<Rightarrow> u32 \<Rightarrow> string \<Rightarrow> kstate kres" where
  "copy_name s pthread name =
     (if length name < 16 then Inr (update_task pthread (\<lambda>t. t\<lparr>task_name := name\<rparr>) s)
      else Inl (Overrun ''pthread->name''))"

definition init_thread :: "kstate \<Rightarrow> u32 \<Rightarrow> string \<Rightarrow> u32 \<Rightarrow> kstate kres" where
  "init_thread s pthread name prio =
     bindR (memset_pcb s pthread) (\<lambda>s1.
     bindR (copy_name s1 pthread name) (\<lambda>s2.
     bindR (allocate_pid s2) (\<lambda>(p, s3).
       let s4 = update_task pthread (\<lambda>t. t\<lparr>pid := p\<rparr>) s3;
           s5 = update_task pthread (\<lambda>t. t\<lparr>status :=
                  if pthread = main_thread s4 then TASK_RUNNING else TASK_READY\<rparr>) s4
       in Inr (update_task pthread (\<lambda>t. t\<lparr>priority := ucast prio, task_ticks := ucast prio,
            elapsed_ticks := 0, pgdir := NULL, self_kstack := pthread + PG_SIZE,
            stack_magic := 0x19980906\<rparr>) s5))))"

definition thread_create :: "kstate \<Rightarrow> u32 \<Rightarrow> fptr \<Rightarrow> u32 \<Rightarrow> kstate" where
  "thread_create s pthread function func_arg =
     (let s1 = update_task pthread (\<lambda>t. t\<lparr>self_kstack := ptr_sub (self_kstack t) SIZEOF_INTR_STACK\<rparr>) s;
          s2 = update_task pthread (\<lambda>t. t\<lparr>self_kstack := ptr_sub (self_kstack t) SIZEOF_THREAD_STACK\<rparr>) s1;
          kthread_stack = self_kstack (tasks s2 pthread)
      in s2\<lparr>thread_stacks := (thread_stacks s2)(kthread_stack := (thread_stacks s2 kthread_stack)
           \<lparr>ts_ebp := 0, ts_ebx := 0, ts_edi := 0, ts_esi := 0, ts_eip := ''kernel_thread'',
            ts_function := function, ts_func_arg := func_arg\<rparr>)\<rparr>)"

text \<open>The checked append to the list of ready threads and to the list of all threads.\<close>

definition add_ready :: "kstate \<Rightarrow> u32 \<Rightarrow> kstate kres" where
  "add_ready s thread =
     bindR (elem_find s THREAD_READY_LIST (general_tag thread)) (\<lambda>found.
       assertR (\<not> found) ''!elem_find(&thread_ready_list,&thread->general_tag)''
         (Inr (list_append s THREAD_READY_LIST (general_tag thread))))"

definition add_all :: "kstate \<Rightarrow> u32 \<Rightarrow> kstate kres" where
  "add_all s thread =
     bindR (elem_find s THREAD_ALL_LIST (all_list_tag thread)) (\<lambda>found.
       assertR (\<not> found) ''!elem_find(&thread_all_list,&thread->all_list_tag)''
         (Inr (list_append s THREAD_ALL_LIST (all_list_tag thread))))"

definition thread_start :: "kstate \<Rightarrow> string \<Rightarrow> u32 \<Rightarrow> fptr \<Rightarrow> u32 \<Rightarrow> (u32 \<times> kstate) kres" where
  "thread_start s name prio function func_arg =
     bindR (get_kernel_pages s 1) (\<lambda>(thread, s1).
     bindR (init_thread s1 thread name prio) (\<lambda>s2.
     bindR (add_ready (thread_create s2 thread function func_arg) thread) (\<lambda>s3.
     bindR (add_all s3 thread) (\<lambda>s4. Inr (thread, s4)))))"

definition make_main_thread :: "kstate \<Rightarrow> kstate kres" where
  "make_main_thread s =
     (let s1 = s\<lparr>main_thread := running_thread s\<rparr>
      in bindR (init_thread s1 (main_thread s1) ''main'' 1) (\<lambda>s2. add_all s2 (main_thread s2)))"

definition thread_init :: "kstate \<Rightarrow> kstate kres" where
  "thread_init s =
     (let s1 = put_str s ''thread_init start\<newline>'';
          s2 = list_init (list_init s1 THREAD_READY_LIST) THREAD_ALL_LIST
      in bindR (make_main_thread (lock_init s2 PID_LOCK)) (\<lambda>s3. Inr (put_str s3 ''thread_init done\<newline>'')))"

end
