(* ===== verification/Tss.thy ===== *)
theory Tss
  imports Idt
begin

text \<open>
  The task state segment and the segment descriptors of user programs (userprog/tss.c), with the
  selectors and attributes of kernel/global.h. update_tss_esp is in Sched.
\<close>

section \<open>Operations\<close>

definition SELECTOR_K_STACK :: u32 where "SELECTOR_K_STACK = push_bit 3 2 + push_bit 2 0 + 0"
definition SELECTOR_U_CODE :: u32 where "SELECTOR_U_CODE = push_bit 3 5 + push_bit 2 0 + 3"
definition SELECTOR_U_DATA :: u32 where "SELECTOR_U_DATA = push_bit 3 6 + push_bit 2 0 + 3"
definition SELECTOR_TSS :: u16 where "SELECTOR_TSS = push_bit 3 4 + push_bit 2 0 + 0"

definition GDT_ATTR_HIGH :: u8 where "GDT_ATTR_HIGH = push_bit 7 1 + push_bit 6 1 + push_bit 5 0 + push_bit 4 0"
definition GDT_CODE_ATTR_LOW_DPL3 :: u8 where
  "GDT_CODE_ATTR_LOW_DPL3 = push_bit 7 1 + push_bit 5 3 + push_bit 4 1 + 8"
definition GDT_DATA_ATTR_LOW_DPL3 :: u8 where
  "GDT_DATA_ATTR_LOW_DPL3 = push_bit 7 1 + push_bit 5 3 + push_bit 4 1 + 2"
definition TSS_ATTR_HIGH :: u8 where
  "TSS_ATTR_HIGH = push_bit 7 1 + push_bit 6 0 + push_bit 5 0 + push_bit 4 0 + 0"
definition TSS_ATTR_LOW :: u8 where "TSS_ATTR_LOW = push_bit 7 1 + push_bit 5 0 + push_bit 4 0 + 9"

definition TSS :: u32 where "TSS = 0xc000ad40"
definition SIZEOF_TSS :: u32 where "SIZEOF_TSS = 0x6c"

definition make_gdt_desc :: "u32 \<Rightarrow> u32 \<Rightarrow> u8 \<Rightarrow> u8 \<Rightarrow> gdt_desc" where
  "make_gdt_desc desc_addr limit attr_low attr_high =
     \<lparr>limit_low_word = ucast (limit AND 0x0000ffff), base_low_word = ucast (desc_addr AND 0x0000ffff),
      base_mid_byte = ucast (drop_bit 16 (desc_addr AND 0x00ff0000)), attr_low_byte = attr_low,
      limit_high_attr_high = ucast (drop_bit 16 (limit AND 0x000f0000) + ucast attr_high),
      base_high_byte = ucast (drop_bit 24 desc_addr)\<rparr>"

definition set_gdt :: "u32 \<Rightarrow> gdt_desc \<Rightarrow> kstate \<Rightarrow> kstate" where
  "set_gdt a d s = s\<lparr>gdt := (gdt s)(a := d)\<rparr>"

definition tss_init :: "kstate \<Rightarrow> kstate" where
  "tss_init s =
     (let s1 = put_str s ''tss_init start\<newline>''; tss_size = SIZEOF_TSS;
          s2 = s1\<lparr>tss := zero_tss\<lparr>tss_ss0 := SELECTOR_K_STACK, tss_io_base := tss_size\<rparr>\<rparr>;
          s3 = set_gdt 0xc0000920 (make_gdt_desc TSS (tss_size - 1) TSS_ATTR_LOW TSS_ATTR_HIGH) s2;
          s4 = set_gdt 0xc0000928 (make_gdt_desc 0 0xfffff GDT_CODE_ATTR_LOW_DPL3 GDT_ATTR_HIGH) s3;
          s5 = set_gdt 0xc0000930 (make_gdt_desc 0 0xfffff GDT_DATA_ATTR_LOW_DPL3 GDT_ATTR_HIGH) s4;
          gdt_operand = (8 * 7 - 1) OR push_bit 16 0xc0000900
      in put_str (s5\<lparr>gdtr := gdt_operand, task_reg := SELECTOR_TSS\<rparr>) ''tss_init and ltr done\<newline>'')"

section \<open>How the processor reads them\<close>

definition seg_base :: "gdt_desc \<Rightarrow> u32" where
  "seg_base d = push_bit 24 (ucast (base_high_byte d)) OR push_bit 16 (ucast (base_mid_byte d)) OR ucast (base_low_word d)"

definition seg_limit :: "gdt_desc \<Rightarrow> u32" where
  "seg_limit d = push_bit 16 (ucast (limit_high_attr_high d AND 0x0F)) OR ucast (limit_low_word d)"

definition seg_flags :: "gdt_desc \<Rightarrow> u8" where
  "seg_flags d = limit_high_attr_high d AND 0xF0"

definition seg_dpl :: "gdt_desc \<Rightarrow> u8" where
  "seg_dpl d = drop_bit 5 (attr_low_byte d) AND 3"

text \<open>The descriptor a selector names through gdtr.\<close>

definition descriptor_of :: "kstate \<Rightarrow> u32 \<Rightarrow> gdt_desc" where
  "descriptor_of s sel = gdt s (ucast (drop_bit 16 (gdtr s)) + (sel AND NOT 7))"

lemma make_gdt_desc_base [simp]: "seg_base (make_gdt_desc a l lo hi) = a"
proof -
  have m: "(0x0000ffff :: u32) = mask 16" "(0x00ff0000 :: u32) = push_bit 16 (mask 8)"
    by (simp_all add: mask_eq_exp_minus_1)
  show ?thesis
    unfolding seg_base_def make_gdt_desc_def gdt_desc.simps m
  proof (rule bit_word_eqI)
    fix n assume "n < LENGTH(32)"
    then show "bit (push_bit 24 (ucast (ucast (drop_bit 24 a) :: u8)) OR
        push_bit 16 (ucast (ucast (drop_bit 16 (a AND push_bit 16 (mask 8))) :: u8)) OR
        ucast (ucast (a AND mask 16) :: u16) :: u32) n = bit a n"
      by (cases "24 \<le> n") (auto simp: bit_simps not_less)
  qed
qed

text \<open>The limit and the attributes meet in one byte; they do not overlap.\<close>

lemma limit_bits: "(l :: u32) \<le> 0xfffff \<Longrightarrow> bit l n \<Longrightarrow> n < 20"
proof -
  assume "l \<le> 0xfffff" and b: "bit l n"
  then have "unat l < 2 ^ 20" by (simp add: word_le_nat_alt)
  moreover have "bit (unat l) n" using b by (simp add: bit_unsigned_iff)
  then have "odd (unat l div 2 ^ n)" by (simp add: bit_iff_odd)
  then have "2 ^ n \<le> unat l" by (metis div_less even_zero not_le)
  ultimately have "(2 :: nat) ^ n < 2 ^ 20" by (rule le_less_trans [rotated])
  then show "n < 20" by (rule power_less_imp_less_exp [rotated]) simp
qed

lemma low_clear: "(hi :: u8) AND 0x0F = 0 \<Longrightarrow> bit hi n \<Longrightarrow> 4 \<le> n"
proof -
  assume hi: "hi AND 0x0F = 0" and b: "bit hi n"
  have "(0x0F :: u8) = mask 4" by (simp add: mask_eq_exp_minus_1)
  then have "\<not> bit (hi AND mask 4) n" using hi by simp
  then show "4 \<le> n" using b by (auto simp: bit_simps not_less dest: bit_imp_le_length)
qed

lemma make_gdt_desc_limit:
  assumes "l \<le> 0xfffff" "hi AND 0x0F = 0"
  shows "seg_limit (make_gdt_desc a l lo hi) = l" "seg_flags (make_gdt_desc a l lo hi) = hi"
proof -
  let ?L = "drop_bit 16 (l AND push_bit 16 (mask 4)) :: u32"
  have m: "(0x0000ffff :: u32) = mask 16" "(0x000f0000 :: u32) = push_bit 16 (mask 4)"
    "(0x0F :: u8) = mask 4" "(0xF0 :: u8) = push_bit 4 (mask 4)"
    by (simp_all add: mask_eq_exp_minus_1)
  have "?L AND ucast hi = 0"
    by (rule bit_word_eqI) (auto simp: bit_simps dest: low_clear [OF assms(2)])
  then have high: "limit_high_attr_high (make_gdt_desc a l lo hi) = ucast (?L OR ucast hi)"
    unfolding make_gdt_desc_def gdt_desc.simps m by (simp only: disjunctive_add_eq_or)
  have low: "limit_low_word (make_gdt_desc a l lo hi) = ucast (l AND mask 16)"
    unfolding make_gdt_desc_def gdt_desc.simps m ..
  show "seg_limit (make_gdt_desc a l lo hi) = l"
    unfolding seg_limit_def high low m
  proof (rule bit_word_eqI)
    fix n assume "n < LENGTH(32)"
    then show "bit (push_bit 16 (ucast (ucast (?L OR ucast hi) AND (mask 4 :: u8))) OR ucast (ucast (l AND mask 16) :: u16) :: u32) n = bit l n"
      using limit_bits [OF assms(1), of n] low_clear [OF assms(2), of "n - 16"]
      by (cases "16 \<le> n") (auto simp: bit_simps not_less)
  qed
  show "seg_flags (make_gdt_desc a l lo hi) = hi"
    unfolding seg_flags_def high m
    by (rule bit_word_eqI) (auto simp: bit_simps not_less dest: low_clear [OF assms(2)])
qed

section \<open>Properties\<close>

text \<open>
  C37. make_gdt_desc packs what the processor unpacks: base, 20 bit limit and flags of the descriptor
  are the arguments, as long as the limit and the low half of attr_high leave each other's bits
  clear.
\<close>

theorem gdt_desc_roundtrip:
  fixes base attr_low
  assumes "limit \<le> 0xfffff" "attr_high AND 0x0F = 0"
  defines "d \<equiv> make_gdt_desc base limit attr_low attr_high"
  shows "seg_base d = base \<and> seg_limit d = limit \<and> seg_flags d = attr_high \<and> attr_low_byte d = attr_low"
  using make_gdt_desc_limit [OF assms(1,2)] make_gdt_desc_base unfolding d_def
  by (intro conjI) (simp_all only:, simp add: make_gdt_desc_def)

lemma gdt_desc_roundtrip_witness:
  "seg_base (make_gdt_desc 0xc000ad40 0x6b TSS_ATTR_LOW TSS_ATTR_HIGH) = 0xc000ad40"
  using gdt_desc_roundtrip [where limit = "0x6b" and attr_high = TSS_ATTR_HIGH and base = "0xc000ad40"
      and attr_low = TSS_ATTR_LOW] by (simp add: TSS_ATTR_HIGH_def)

text \<open>
  C38. After tss_init the task register's selector names the descriptor of the TSS, and the two user
  selectors name flat segments of DPL 3, code and data; the TSS itself has the kernel's stack
  segment and an I/O bitmap beyond its limit.
\<close>

theorem tss_init_descriptors:
  fixes s
  defines "s' \<equiv> tss_init s"
  defines "t \<equiv> descriptor_of s' (ucast (task_reg s'))" and "c \<equiv> descriptor_of s' SELECTOR_U_CODE"
    and "d \<equiv> descriptor_of s' SELECTOR_U_DATA"
  shows "seg_base t = TSS \<and> seg_limit t = SIZEOF_TSS - 1 \<and> attr_low_byte t = 0x89 \<and>
    seg_base c = 0 \<and> seg_limit c = 0xfffff \<and> seg_flags c = 0xC0 \<and> seg_dpl c = 3 \<and> attr_low_byte c = 0xF8 \<and>
    seg_base d = 0 \<and> seg_limit d = 0xfffff \<and> seg_flags d = 0xC0 \<and> seg_dpl d = 3 \<and> attr_low_byte d = 0xF2 \<and>
    tss_ss0 (tss s') = SELECTOR_K_STACK \<and> tss_io_base (tss s') = SIZEOF_TSS"
proof -
  have sels: "ucast (task_reg s') AND NOT 7 = (0x20 :: u32)" "SELECTOR_U_CODE AND NOT 7 = 0x28"
    "SELECTOR_U_DATA AND NOT 7 = 0x30" "ucast (drop_bit 16 (gdtr s')) = (0xc0000900 :: u32)"
    by (simp_all add: s'_def tss_init_def Let_def put_str_def SELECTOR_TSS_def SELECTOR_U_CODE_def SELECTOR_U_DATA_def)
  have tab: "gdt s' 0xc0000920 = make_gdt_desc TSS (SIZEOF_TSS - 1) TSS_ATTR_LOW TSS_ATTR_HIGH"
    "gdt s' 0xc0000928 = make_gdt_desc 0 0xfffff GDT_CODE_ATTR_LOW_DPL3 GDT_ATTR_HIGH"
    "gdt s' 0xc0000930 = make_gdt_desc 0 0xfffff GDT_DATA_ATTR_LOW_DPL3 GDT_ATTR_HIGH"
    by (simp_all add: s'_def tss_init_def Let_def put_str_def set_gdt_def)
  have desc: "t = make_gdt_desc TSS (SIZEOF_TSS - 1) TSS_ATTR_LOW TSS_ATTR_HIGH"
    "c = make_gdt_desc 0 0xfffff GDT_CODE_ATTR_LOW_DPL3 GDT_ATTR_HIGH"
    "d = make_gdt_desc 0 0xfffff GDT_DATA_ATTR_LOW_DPL3 GDT_ATTR_HIGH"
    unfolding t_def c_def d_def descriptor_of_def sels by (simp_all add: tab)
  have hi: "TSS_ATTR_HIGH AND 0x0F = 0" "GDT_ATTR_HIGH AND 0x0F = 0" "GDT_ATTR_HIGH = 0xC0"
    by (simp_all add: TSS_ATTR_HIGH_def GDT_ATTR_HIGH_def)
  have lim: "SIZEOF_TSS - 1 \<le> 0xfffff" by (simp add: SIZEOF_TSS_def)
  have lo: "attr_low_byte (make_gdt_desc a l lo h) = lo" for a l lo h by (simp add: make_gdt_desc_def)
  have attr: "TSS_ATTR_LOW = 0x89" "GDT_CODE_ATTR_LOW_DPL3 = 0xF8" "GDT_DATA_ATTR_LOW_DPL3 = 0xF2"
    by (simp_all add: TSS_ATTR_LOW_def GDT_CODE_ATTR_LOW_DPL3_def GDT_DATA_ATTR_LOW_DPL3_def)
  have "tss_ss0 (tss s') = SELECTOR_K_STACK" "tss_io_base (tss s') = SIZEOF_TSS"
    by (simp_all add: s'_def tss_init_def Let_def put_str_def set_gdt_def)
  then show ?thesis
    unfolding desc seg_dpl_def lo attr using make_gdt_desc_limit [OF lim hi(1)] make_gdt_desc_limit [OF order_refl hi(2)] hi(3)
    by simp
qed

end
