(* ===== verification/Process.thy ===== *)
theory Process
  imports Threads Heap Tss
begin

text \<open>
  User processes (userprog/process.c): the page directory and the address map of a process, its
  creation, and the frame with which start_process leaves the kernel. Activation of a process is
  in Sched, the task state segment in Tss.
\<close>

section \<open>Processes\<close>

definition default_prio :: u32 where "default_prio = 31"
definition USER_STACK3_VADDR :: u32 where "USER_STACK3_VADDR = 0xc0000000 - 0x1000"
definition USER_VADDR_START :: u32 where "USER_VADDR_START = 0x8048000"
definition EFLAGS_MBS :: u32 where "EFLAGS_MBS = push_bit 1 1"
definition EFLAGS_IF_1 :: u32 where "EFLAGS_IF_1 = push_bit 9 1"
definition EFLAGS_IOPL_0 :: u32 where "EFLAGS_IOPL_0 = push_bit 12 0"

text \<open>The frame that start_process builds; the call of get_a_page comes after the other fields.\<close>

definition user_frame :: "u32 \<Rightarrow> intr_stack \<Rightarrow> intr_stack" where
  "user_frame function st = st
     \<lparr>is_edi := 0, is_esi := 0, is_ebp := 0, is_esp_dummy := 0, is_ebx := 0, is_edx := 0, is_ecx := 0, is_eax := 0,
      is_gs := 0, is_ss := SELECTOR_U_DATA, is_ds := SELECTOR_U_DATA, is_es := SELECTOR_U_DATA, is_fs := SELECTOR_U_DATA,
      is_eip := function, is_cs := SELECTOR_U_CODE, is_eflags := EFLAGS_IOPL_0 OR EFLAGS_MBS OR EFLAGS_IF_1\<rparr>"

text \<open>The result is the frame that intr_exit pops.\<close>

definition start_process :: "kstate \<Rightarrow> u32 \<Rightarrow> (u32 \<times> kstate) kres" where
  "start_process s filename =
     (let c = running_thread s;
          s1 = update_task c (\<lambda>t. t\<lparr>self_kstack := ptr_add (self_kstack t) SIZEOF_THREAD_STACK\<rparr>) s;
          proc_stack = self_kstack (tasks s1 c);
          s2 = s1\<lparr>intr_stacks := (intr_stacks s1)(proc_stack := user_frame filename (intr_stacks s1 proc_stack))\<rparr>
      in bindR (get_a_page s2 PF_USER USER_STACK3_VADDR) (\<lambda>(page, s3).
           Inr (proc_stack, s3\<lparr>intr_stacks := (intr_stacks s3)(proc_stack :=
             (intr_stacks s3 proc_stack)\<lparr>is_esp := page + PG_SIZE\<rparr>)\<rparr>)))"

text \<open>memcpy of whole words through the page tables.\<close>

fun copy_words :: "kstate \<Rightarrow> u32 \<Rightarrow> u32 \<Rightarrow> nat \<Rightarrow> kstate kres" where
  "copy_words s dst src 0 = Inr s"
| "copy_words s dst src (Suc n) =
     bindR (load32 s src) (\<lambda>v. bindR (store32 s dst v) (\<lambda>s1. copy_words s1 (dst + 4) (src + 4) n))"

definition kmemcpy :: "kstate \<Rightarrow> u32 \<Rightarrow> u32 \<Rightarrow> u32 \<Rightarrow> kstate kres" where
  "kmemcpy s dst src n =
     assertR (dst \<noteq> NULL \<and> src \<noteq> NULL) ''dst_ != NULL && src_ != NULL'' (copy_words s dst src (unat n div 4))"

definition create_page_dir :: "kstate \<Rightarrow> (u32 \<times> kstate) kres" where
  "create_page_dir s =
     bindR (get_kernel_pages s 1) (\<lambda>(page_dir_vaddr, s1).
       if page_dir_vaddr = NULL
       then bindR (console_put_str s1 ''create_page_dir: get_kernel_page failed!\<newline>'') (\<lambda>s2. Inr (NULL, s2))
       else bindR (kmemcpy s1 (page_dir_vaddr + 0x300 * 4) (0xfffff000 + 0x300 * 4) 1024) (\<lambda>s2.
              bindR (addr_v2p s2 page_dir_vaddr) (\<lambda>new_page_dir_phy_addr.
                bindR (store32 s2 (page_dir_vaddr + 1023 * 4) (new_page_dir_phy_addr OR PG_US_U OR PG_RW_W OR PG_P_1))
                  (\<lambda>s3. Inr (page_dir_vaddr, s3)))))"

definition user_bitmap_len :: u32 where
  "user_bitmap_len = (0xc0000000 - USER_VADDR_START) div PG_SIZE div 8"

definition user_bitmap_pages :: u32 where
  "user_bitmap_pages = ((0xc0000000 - USER_VADDR_START) div PG_SIZE div 8 + PG_SIZE - 1) div PG_SIZE"

definition set_uvaddr :: "u32 \<Rightarrow> (virtual_addr \<Rightarrow> virtual_addr) \<Rightarrow> kstate \<Rightarrow> kstate" where
  "set_uvaddr p f = update_task p (\<lambda>t. t\<lparr>userprog_vaddr := f (userprog_vaddr t)\<rparr>)"

definition create_user_vaddr_bitmap :: "kstate \<Rightarrow> u32 \<Rightarrow> kstate kres" where
  "create_user_vaddr_bitmap s user_prog =
     (let s1 = set_uvaddr user_prog (\<lambda>v. v\<lparr>Kernel_State.vaddr_start := USER_VADDR_START\<rparr>) s in
      bindR (get_kernel_pages s1 user_bitmap_pages) (\<lambda>(b, s2).
        let s3 = set_uvaddr user_prog (\<lambda>v. v\<lparr>vaddr_bitmap := \<lparr>btmp_bytes_len = user_bitmap_len, bits = b\<rparr>\<rparr>) s2
        in bindR (bitmap_init (mem s3) (vaddr_bitmap (userprog_vaddr (tasks s3 user_prog)))) (\<lambda>m.
             Inr (s3\<lparr>mem := m\<rparr>))))"

definition process_execute :: "kstate \<Rightarrow> u32 \<Rightarrow> string \<Rightarrow> kstate kres" where
  "process_execute s filename name =
     bindR (get_kernel_pages s 1) (\<lambda>(thread, s1).
     bindR (init_thread s1 thread name default_prio) (\<lambda>s2.
     bindR (create_user_vaddr_bitmap s2 thread) (\<lambda>s3.
     bindR (create_page_dir (thread_create s3 thread ''start_process'' filename)) (\<lambda>(dir, s4).
       let s5 = update_task thread (\<lambda>t. t\<lparr>pgdir := dir\<rparr>) s4;
           (s6, old_status) = intr_disable (block_desc_init s5 (u_block_desc thread))
       in bindR (add_ready s6 thread) (\<lambda>s7.
          bindR (add_all s7 thread) (\<lambda>s8. Inr (fst (intr_set_status s8 old_status))))))))"

end
