(* ===== verification/Syscall.thy ===== *)
theory Syscall
  imports Heap CString
begin

text \<open>
  System calls: the table and the kernel's functions of userprog/syscall-init.c, and the user's
  functions of lib/user/syscall.c. The trap between them, syscall_handler of kernel/kernel.S, is
  \<open>int_0x80\<close>: it calls the function at place eax of the table without checking eax.
\<close>

section \<open>The kernel side\<close>

definition syscall_nr :: u32 where "syscall_nr = 32"

definition SYS_GETPID :: u32 where "SYS_GETPID = 0"
definition SYS_WRITE :: u32 where "SYS_WRITE = 1"
definition SYS_MALLOC :: u32 where "SYS_MALLOC = 2"
definition SYS_FREE :: u32 where "SYS_FREE = 3"

text \<open>pid_t is a signed 16 bit type, so the result is its sign extension.\<close>

definition sys_getpid :: "kstate \<Rightarrow> u32" where
  "sys_getpid s = scast (pid (tasks s (running_thread s)))"

text \<open>The string at an address, as put_str reads it.\<close>

partial_function (option) string_at :: "bytes \<Rightarrow> u32 \<Rightarrow> u8 list option" where
  "string_at m p = (if m p = 0 then Some [] else Option.bind (string_at m (p + 1)) (\<lambda>cs. Some (m p # cs)))"

definition sys_write :: "kstate \<Rightarrow> u32 \<Rightarrow> (u32 \<times> kstate) kres" where
  "sys_write s str =
     bindR (loopR (string_at (mem s) str)) (\<lambda>cs.
       bindR (console_put_str s (map (\<lambda>c. char_of (unat c)) cs)) (\<lambda>s1.
         bindR (strlen (mem s1) str) (\<lambda>n. Inr (n, s1))))"

definition syscall_init :: "kstate \<Rightarrow> kstate" where
  "syscall_init s =
     (let s1 = put_str s ''syscall init start\<newline>'';
          s2 = s1\<lparr>syscall_table := (syscall_table s1)(SYS_GETPID := ''sys_getpid'', SYS_WRITE := ''sys_write'',
                 SYS_MALLOC := ''sys_malloc'', SYS_FREE := ''sys_free'')\<rparr>
      in put_str s2 ''syscall init done\<newline>'')"

section \<open>The trap\<close>

text \<open>The result is eax; a function of type void leaves it undetermined, which is \<open>None\<close>.\<close>

definition int_0x80 :: "kstate \<Rightarrow> u32 \<Rightarrow> u32 \<Rightarrow> (u32 option \<times> kstate) kres" where
  "int_0x80 s eax ebx =
     (if eax < syscall_nr
      then let f = syscall_table s eax in
        if f = ''sys_getpid'' then Inr (Some (sys_getpid s), s)
        else if f = ''sys_write'' then bindR (sys_write s ebx) (\<lambda>(n, s1). Inr (Some n, s1))
        else if f = ''sys_malloc'' then bindR (sys_malloc s ebx) (\<lambda>(p, s1). Inr (Some p, s1))
        else if f = ''sys_free'' then bindR (sys_free s ebx) (\<lambda>s1. Inr (None, s1))
        else Inl (Page_fault 0)
      else Inl (Overrun ''syscall_table''))"

section \<open>The user side\<close>

definition getpid :: "kstate \<Rightarrow> (u32 option \<times> kstate) kres" where
  "getpid s = int_0x80 s SYS_GETPID 0"

definition write_call :: "kstate \<Rightarrow> u32 \<Rightarrow> (u32 option \<times> kstate) kres" where
  "write_call s str = int_0x80 s SYS_WRITE str"

definition malloc :: "kstate \<Rightarrow> u32 \<Rightarrow> (u32 option \<times> kstate) kres" where
  "malloc s sz = int_0x80 s SYS_MALLOC sz"

definition free_call :: "kstate \<Rightarrow> u32 \<Rightarrow> kstate kres" where
  "free_call s ptr = bindR (int_0x80 s SYS_FREE ptr) (\<lambda>(_, s1). Inr s1)"

section \<open>Properties\<close>

definition syscalls_ready :: "kstate \<Rightarrow> bool" where
  "syscalls_ready s \<longleftrightarrow> syscall_table s SYS_GETPID = ''sys_getpid'' \<and> syscall_table s SYS_WRITE = ''sys_write'' \<and>
     syscall_table s SYS_MALLOC = ''sys_malloc'' \<and> syscall_table s SYS_FREE = ''sys_free''"

lemma syscall_init_ready: "syscalls_ready (syscall_init s)"
  by (simp add: syscalls_ready_def syscall_init_def Let_def put_str_def SYS_GETPID_def SYS_WRITE_def SYS_MALLOC_def
      SYS_FREE_def)

lemma string_at_cstr: "cstr m p cs \<Longrightarrow> string_at m p = Some cs"
  by (induction cs arbitrary: p) (simp_all add: string_at.simps)

text \<open>
  From syscall_init on, each of the user's four functions runs its function in the kernel with
  the same argument and hands back the result.
\<close>

theorem syscalls_reach_kernel:
  assumes "syscalls_ready s"
  shows "getpid s = Inr (Some (sys_getpid s), s) \<and>
    write_call s str = bindR (sys_write s str) (\<lambda>(n, s1). Inr (Some n, s1)) \<and>
    malloc s sz = bindR (sys_malloc s sz) (\<lambda>(p, s1). Inr (Some p, s1)) \<and>
    free_call s ptr = sys_free s ptr"
proof -
  have "bindR (bindR r (\<lambda>s1. Inr (None :: u32 option, s1))) (\<lambda>(_, s1). Inr s1) = r" for r :: "kstate kres"
    by (cases r) simp_all
  then show ?thesis
    using assms by (simp add: syscalls_ready_def getpid_def write_call_def malloc_def free_call_def int_0x80_def
        syscall_nr_def SYS_GETPID_def SYS_WRITE_def SYS_MALLOC_def SYS_FREE_def)
qed

lemma syscalls_reach_kernel_witness:
  "getpid (syscall_init demo_state) = Inr (Some (sys_getpid (syscall_init demo_state)), syscall_init demo_state)"
  using syscalls_reach_kernel [OF syscall_init_ready] by blast

text \<open>
  sys_write prints: when the console is free, the string at the address appears at the end of
  the screen's log, its length is returned, and the rest of the kernel is unchanged.
\<close>

theorem sys_write_prints:
  assumes "cstr (mem s) str cs" "str \<noteq> NULL" "lock_free s CONSOLE_LOCK"
  shows "sys_write s str = Inr (of_nat (length cs), s\<lparr>screen := screen s @ cs\<rparr>)"
proof -
  have "of_char (char_of (unat c)) = c" for c :: u8
  proof -
    have "(of_char (char_of (unat c)) :: nat) = unat c" using unat_u8_bound [of c] by simp
    then have "(of_nat (of_char (char_of (unat c))) :: u8) = of_nat (unat c)" by (rule arg_cong)
    then have "(of_char (char_of (unat c)) :: u8) = of_nat (unat c)" by (simp only: of_nat_of_char)
    also have "of_nat (unat c) = c" by simp
    finally show ?thesis .
  qed
  then have "chars_of (map (\<lambda>c. char_of (unat c)) cs) = cs" by (simp add: chars_of_def map_idI)
  then have "put_str s (map (\<lambda>c. char_of (unat c)) cs) = s\<lparr>screen := screen s @ cs\<rparr>" by (simp add: put_str_def)
  then show ?thesis
    using console_put_str_free [OF assms(3), of "map (\<lambda>c. char_of (unat c)) cs"]
    by (simp add: sys_write_def string_at_cstr [OF assms(1)] strlen_cstr [OF assms(1,2)])
qed

text \<open>The thread of Sched's example with a string at 0x8049000 and an initialised console.\<close>

definition demo_write :: kstate where
  "demo_write = (console_init demo_state)\<lparr>mem := (\<lambda>_. 0)(0x8049000 := 72, 0x8049001 := 105)\<rparr>"

lemma sys_write_prints_witness:
  "sys_write demo_write 0x8049000 = Inr (2, demo_write\<lparr>screen := screen demo_write @ [72, 105]\<rparr>)"
proof -
  let ?W = "sema_waiters (lock_semaphore CONSOLE_LOCK)"
  have "dl_family (dl_init (lheap demo_state) ?W) (Map.empty(?W \<mapsto> []))"
    by (rule dl_family_init) (simp_all add: dl_family_def)
  then have "k_family demo_write (Map.empty(?W \<mapsto> []))"
    by (simp add: k_family_def demo_write_def console_init_def lock_init_sel)
  then have "lock_free demo_write CONSOLE_LOCK"
    unfolding lock_free_def
    by (intro conjI exI [of _ "Map.empty(?W \<mapsto> [])"]) (simp_all add: demo_write_def console_init_def lock_init_sel, simp add: demo_state_def T1_def)
  moreover have "cstr (mem demo_write) 0x8049000 [72, 105]" by (simp add: demo_write_def)
  ultimately show ?thesis using sys_write_prints [of demo_write "0x8049000" "[72, 105]"] by simp
qed

end
