(* ===== verification/Kernel_Init.thy ===== *)
theory Kernel_Init
  imports Heap_Blocks Keyboard Timer Process Syscall
begin

text \<open>
  The start of the kernel (init_all of kernel/init.c) and the dispatch of interrupts: the entry
  point of a vector in kernel/kernel.S calls idt_table[vector], here the handler that the table
  names. The timer and the keyboard are the two lines pic_init leaves open.
\<close>

definition init_all :: "kstate \<Rightarrow> (nat \<Rightarrow> u32) \<Rightarrow> u32 \<Rightarrow> kstate kres" where
  "init_all s entry syscall_handler =
     (let s1 = idt_init (put_str s ''init_all\<newline>'') entry syscall_handler in
      bindR (mem_init s1) (\<lambda>s2.
      bindR (thread_init s2) (\<lambda>s3.
      bindR (timer_init s3) (\<lambda>s4.
      bindR (keyboard_init (console_init s4)) (\<lambda>s5. Inr (syscall_init (tss_init s5)))))))"

text \<open>
  An interrupt: the gate clears IF, the entry point calls the handler, iretd restores EFLAGS.
  \<open>byte\<close> is what port 0x60 holds.
\<close>

definition interrupt :: "kstate \<Rightarrow> u8 \<Rightarrow> u8 \<Rightarrow> kstate kres" where
  "interrupt s vec byte =
     (let s1 = cli s; f = idt_table s vec in
      bindR (if f = ''intr_timer_handler'' then intr_timer_handler s1
             else if f = ''intr_keyboard_handler'' then intr_keyboard_handler s1 byte
             else if f = ''general_intr_handler'' then general_intr_handler s1 vec
             else Inl (Page_fault 0))
        (\<lambda>s2. Inr (s2\<lparr>eflags := eflags s\<rparr>)))"

end
