(* ===== verification/Kernel_Pages.thy ===== *)
theory Kernel_Pages
  imports Heap_Blocks Threads
begin

text \<open>
  get_kernel_pages as its callers see it: the lock of the pool taken and given back, a run of
  fresh pages mapped and filled with zeros, and everything else in the kernel as before. \<open>mem_only\<close>
  says which parts of the state the memory functions can touch at all.
\<close>

section \<open>What the memory functions touch\<close>

definition mem_only :: "kstate \<Rightarrow> kstate \<Rightarrow> bool" where
  "mem_only s s' \<longleftrightarrow> (\<exists>m p l a. s' = s\<lparr>mem := m, phys := p, lheap := l, arenas := a\<rparr>)"

lemma mem_onlyI: "s' = s\<lparr>mem := m, phys := p, lheap := l, arenas := a\<rparr> \<Longrightarrow> mem_only s s'"
  unfolding mem_only_def by blast

lemma mem_only_refl [simp]: "mem_only s s"
  by (rule mem_onlyI [where m = "mem s" and p = "phys s" and l = "lheap s" and a = "arenas s"]) simp

lemma mem_only_trans [trans]: "mem_only s s1 \<Longrightarrow> mem_only s1 s2 \<Longrightarrow> mem_only s s2"
  by (unfold mem_only_def, elim exE, hypsubst) (simp, blast)

lemma mem_only_upd [simp]: "mem_only s (s\<lparr>mem := m\<rparr>)" "mem_only s (s\<lparr>phys := p\<rparr>)" "mem_only s (clear_typed s va n)"
  by (rule mem_onlyI [where m = m and p = "phys s" and l = "lheap s" and a = "arenas s"], simp,
      rule mem_onlyI [where m = "mem s" and p = p and l = "lheap s" and a = "arenas s"], simp,
      rule mem_onlyI [where p = "phys s"], simp add: clear_typed_def)

lemma mem_only_palloc: "palloc s pf = Inr (p, s1) \<Longrightarrow> mem_only s s1"
  by (erule palloc_Inr) simp

lemma mem_only_store32: "store32 s a v = Inr s1 \<Longrightarrow> mem_only s s1"
  by (drule store32_phys) auto

lemma mem_only_zero_words: "zero_words s va n = Inr s1 \<Longrightarrow> mem_only s s1"
  by (induction s va n rule: zero_words.induct) (auto simp: bindR_Inr_iff intro: mem_only_trans mem_only_store32)

lemma mem_only_kmemset0: "kmemset0 s va n = Inr s1 \<Longrightarrow> mem_only s s1"
  by (auto simp: kmemset0_def assertR_Inr_iff bindR_Inr_iff
      intro: mem_only_trans [OF mem_only_zero_words])

lemmas mem_only_steps = mem_only_palloc mem_only_store32 mem_only_kmemset0

lemma mem_only_page_table_add: "page_table_add s v p = Inr s1 \<Longrightarrow> mem_only s s1"
  by (auto simp: page_table_add_def Let_def assertR_Inr_iff bindR_Inr_iff split: if_splits prod.splits
      intro: mem_only_steps mem_only_trans [OF mem_only_palloc mem_only_trans [OF mem_only_store32
          mem_only_trans [OF mem_only_kmemset0 mem_only_store32]]])

lemma mem_only_map_pages: "map_pages n pf v s = Inr (b, s1) \<Longrightarrow> mem_only s s1"
  by (induction n pf v s rule: map_pages.induct)
    (auto simp: assertR_Inr_iff bindR_Inr_iff split: if_splits prod.splits
      intro: mem_only_trans [OF mem_only_palloc mem_only_trans [OF mem_only_page_table_add]])

lemma mem_only_vaddr_get: "vaddr_get s pf n = Inr (v, s1) \<Longrightarrow> mem_only s s1"
  by (auto simp: vaddr_get_def Let_def assertR_Inr_iff bindR_Inr_iff split: if_splits)

lemma mem_only_malloc_page: "malloc_page s pf n = Inr (v, s1) \<Longrightarrow> mem_only s s1"
  by (auto simp: malloc_page_def assertR_Inr_iff bindR_Inr_iff split: if_splits prod.splits
      intro: mem_only_trans [OF mem_only_vaddr_get mem_only_map_pages])

lemma mem_only_sel:
  assumes "mem_only s s'"
  shows "tasks s' = tasks s" "cur s' = cur s" "descs s' = descs s" "cr3 s' = cr3 s" "eflags s' = eflags s"
    "lock_holder s' = lock_holder s" "holder_repeat_nr s' = holder_repeat_nr s" "sema_value s' = sema_value s"
    "kernel_pool s' = kernel_pool s" "user_pool s' = user_pool s" "kernel_vaddr s' = kernel_vaddr s"
    "next_pid s' = next_pid s" "main_thread s' = main_thread s" "thread_stacks s' = thread_stacks s"
    "intr_stacks s' = intr_stacks s" "tss s' = tss s" "screen s' = screen s" "ticks s' = ticks s"
    "gdt s' = gdt s" "idt s' = idt s" "idt_table s' = idt_table s" "ioqs s' = ioqs s" "ptrs s' = ptrs s"
  using assms unfolding mem_only_def by auto

section \<open>Writing the words of a mapped page\<close>

lemma page_word:
  assumes "page_frame v = v" "unat i < 1024"
  shows "page_frame (v + i * 4) = v" "page_offset (v + i * 4) = i * 4" "PDE_IDX (v + i * 4) = PDE_IDX v"
    "PTE_IDX (v + i * 4) = PTE_IDX v"
proof -
  show f: "page_frame (v + i * 4) = v" using frame_word_frame [OF assms(2), of v] assms(1) by simp
  then show "page_offset (v + i * 4) = i * 4" using page_frame_add_offset [of "v + i * 4"] by simp
  show "PDE_IDX (v + i * 4) = PDE_IDX v" "PTE_IDX (v + i * 4) = PTE_IDX v"
    using f assms(1) page_frame_idx [of "v + i * 4" v] by simp_all
qed

lemma vmap_word:
  assumes "page_frame v = v" "unat i < 1024" "mmu_walk m dir v = Some f"
  shows "mmu_walk m dir (v + i * 4) = Some (f + i * 4)"
  using assms(3) page_word [OF assms(1,2)] page_offset_frame [OF assms(1)]
  by (auto simp: mmu_walk_def Let_def pde_addr_def pte_addr_def split: if_splits)

text \<open>Words \<open>lo\<close> to \<open>lo + n - 1\<close> of frame \<open>f\<close> now hold \<open>g 0\<close>, \<open>g 1\<close>, and so on; nothing else changed.\<close>

definition words_put :: "(u32 \<Rightarrow> u32) \<Rightarrow> (u32 \<Rightarrow> u32) \<Rightarrow> u32 \<Rightarrow> nat \<Rightarrow> nat \<Rightarrow> (nat \<Rightarrow> u32) \<Rightarrow> bool" where
  "words_put m m' f lo n g \<longleftrightarrow> (\<forall>a. page_frame a \<noteq> f \<longrightarrow> m' a = m a) \<and>
     (\<forall>i. unat i < 1024 \<longrightarrow> m' (f + i * 4) =
        (if lo \<le> unat i \<and> unat i < lo + n then g (unat i - lo) else m (f + i * 4)))"

lemma words_put_out: "words_put m m' f lo n g \<Longrightarrow> page_frame a \<noteq> f \<Longrightarrow> m' a = m a"
  by (simp add: words_put_def)

lemma words_put_word: "words_put m m' f lo n g \<Longrightarrow> unat i < 1024 \<Longrightarrow>
    m' (f + i * 4) = (if lo \<le> unat i \<and> unat i < lo + n then g (unat i - lo) else m (f + i * 4))"
  by (simp add: words_put_def)

lemma words_put_0: "words_put m m f lo 0 g"
  by (auto simp: words_put_def)

lemma words_put_Suc:
  assumes f: "page_frame f = f" and lo: "lo < 1024"
    and rest: "words_put (m(f + of_nat lo * 4 := g 0)) m' f (Suc lo) n (\<lambda>k. g (Suc k))"
  shows "words_put m m' f lo (Suc n) g"
  unfolding words_put_def
proof (intro conjI allI impI)
  let ?l = "of_nat lo :: u32"
  have ul: "unat ?l = lo" using lo by (simp add: unat_of_nat)
  have fl: "page_frame (f + ?l * 4) = f" using page_word(1) [OF f, of ?l] ul lo by simp
  fix a assume "page_frame a \<noteq> f"
  then show "m' a = m a" using words_put_out [OF rest, of a] fl by auto
next
  let ?l = "of_nat lo :: u32"
  have ul: "unat ?l = lo" using lo by (simp add: unat_of_nat)
  fix i :: u32 assume i: "unat i < 1024"
  have inj: "f + i * 4 = f + ?l * 4 \<longleftrightarrow> unat i = lo"
    using frame_word_inject [OF i, of ?l f f] ul lo f by (auto simp: word_unat_eq_iff)
  show "m' (f + i * 4) = (if lo \<le> unat i \<and> unat i < lo + Suc n then g (unat i - lo) else m (f + i * 4))"
  proof (cases "unat i = lo")
    case True
    then show ?thesis using words_put_word [OF rest i] inj by simp
  next
    case False
    then have "Suc (unat i - Suc lo) = unat i - lo" if "Suc lo \<le> unat i" using that by simp
    then show ?thesis using words_put_word [OF rest i] inj False by auto
  qed
qed

lemma word_step: "v + of_nat lo * 4 + 4 = v + of_nat (Suc lo) * (4 :: u32)"
  by (simp add: algebra_simps)

text \<open>One store into the page, after which the tables and the page's mapping are as before.\<close>

lemma store_page_word:
  fixes s x
  assumes wf: "pt_wf (phys s) (cr3 s)" and f: "fresh_table (phys s) (cr3 s) f"
    and v: "page_frame v = v" "vmap s v = Some f" and lo: "lo < 1024"
  defines "m \<equiv> (phys s)(f + of_nat lo * 4 := x)"
  shows "store32 s (v + of_nat lo * 4) x = Inr (s\<lparr>phys := m\<rparr>)" "pt_wf m (cr3 s)" "fresh_table m (cr3 s) f"
    "mmu_walk m (cr3 s) v = Some f"
proof -
  have ul: "unat (of_nat lo :: u32) < 1024" using lo by (simp add: unat_of_nat)
  have pf: "page_frame f = f" using f by (simp add: fresh_table_def)
  show "store32 s (v + of_nat lo * 4) x = Inr (s\<lparr>phys := m\<rparr>)"
    using vmap_word [OF v(1) ul v(2)] by (simp add: store32_def m_def)
  have out: "m a = phys s a" if "page_frame a \<noteq> f" for a
    using that page_word(1) [OF pf ul] by (auto simp: m_def)
  note keep = outside_tables [OF wf f out]
  show "pt_wf m (cr3 s)" "fresh_table m (cr3 s) f" "mmu_walk m (cr3 s) v = Some f"
    using keep(2-4) v(2) by simp_all
qed

lemma zero_words_page:
  assumes "pt_wf (phys s) (cr3 s)" "fresh_table (phys s) (cr3 s) f" "page_frame v = v" "vmap s v = Some f"
    "lo + n \<le> 1024"
  shows "\<exists>ph. zero_words s (v + of_nat lo * 4) n = Inr (s\<lparr>phys := ph\<rparr>) \<and> words_put (phys s) ph f lo n (\<lambda>_. 0)"
  using assms
proof (induction n arbitrary: s lo)
  case 0
  then show ?case by (intro exI [of _ "phys s"]) (simp add: words_put_0)
next
  case (Suc n)
  have lo: "lo < 1024" and le: "Suc lo + n \<le> 1024" using Suc.prems(5) by simp_all
  note st = store_page_word [OF Suc.prems(1-4) lo, where x = 0]
  define s1 where "s1 = s\<lparr>phys := (phys s)(f + of_nat lo * 4 := 0)\<rparr>"
  have "pt_wf (phys s1) (cr3 s1)" "fresh_table (phys s1) (cr3 s1) f" "vmap s1 v = Some f"
    using st(2-4) by (simp_all add: s1_def)
  from Suc.IH [OF this(1,2) Suc.prems(3) this(3) le] obtain ph where
    ph: "zero_words s1 (v + of_nat (Suc lo) * 4) n = Inr (s1\<lparr>phys := ph\<rparr>)"
    "words_put (phys s1) ph f (Suc lo) n (\<lambda>_. 0)" by blast
  have "zero_words s (v + of_nat lo * 4) (Suc n) = Inr (s\<lparr>phys := ph\<rparr>)"
    using ph(1) by (simp add: st(1) s1_def [symmetric] word_step del: of_nat_Suc) (simp add: s1_def)
  moreover have "words_put (phys s) ph f lo (Suc n) (\<lambda>_. 0)"
    by (rule words_put_Suc [OF _ lo]) (use Suc.prems(2) ph(2) in \<open>simp_all add: fresh_table_def s1_def\<close>)
  ultimately show ?case by blast
qed

text \<open>A run of pages, each mapped to a frame that holds no table.\<close>

definition run_frames :: "(u32 \<Rightarrow> u32) \<Rightarrow> u32 \<Rightarrow> u32 \<Rightarrow> u32 list \<Rightarrow> bool" where
  "run_frames m dir v fs \<longleftrightarrow> run_ok v (length fs) \<and> distinct fs \<and>
     (\<forall>k < length fs. fresh_table m dir (fs ! k) \<and> mmu_walk m dir (run_page v k) = Some (fs ! k))"

definition frames_zero :: "(u32 \<Rightarrow> u32) \<Rightarrow> u32 list \<Rightarrow> bool" where
  "frames_zero m fs \<longleftrightarrow> (\<forall>f \<in> set fs. \<forall>i. unat i < 1024 \<longrightarrow> m (f + i * 4) = 0)"

lemma zero_words_append:
  "zero_words s va (a + b) = bindR (zero_words s va a) (\<lambda>s1. zero_words s1 (va + of_nat a * 4) b)"
  by (induction a arbitrary: s va) (simp_all add: bindR_assoc algebra_simps)

lemma run_frames_tl:
  assumes "run_frames m dir v (f # fs)"
  shows "fresh_table m dir f" "page_frame v = v" "mmu_walk m dir v = Some f" "run_frames m dir (v + PG_SIZE) fs" "f \<notin> set fs"
proof -
  have v0: "run_page v 0 = v" by (simp add: run_page_def)
  from assms have run: "run_ok v (Suc (length fs))" by (simp add: run_frames_def)
  then show "page_frame v = v" by (simp add: run_ok_def)
  from assms show "fresh_table m dir f" "mmu_walk m dir v = Some f" "f \<notin> set fs"
    by (auto simp: run_frames_def v0 dest: spec [of _ 0])
  have "run_ok (v + PG_SIZE) (length fs)" by (rule run_ok_next [OF run])
  moreover have "fresh_table m dir (fs ! k) \<and> mmu_walk m dir (run_page (v + PG_SIZE) k) = Some (fs ! k)"
    if "k < length fs" for k
    using assms that by (auto simp: run_frames_def run_page_next dest: spec [of _ "Suc k"])
  ultimately show "run_frames m dir (v + PG_SIZE) fs" using assms by (simp add: run_frames_def)
qed

lemma run_frames_outside:
  assumes wf: "pt_wf m dir" and f: "fresh_table m dir f" and out: "\<And>a. page_frame a \<noteq> f \<Longrightarrow> m' a = m a"
    and run: "run_frames m dir v fs"
  shows "run_frames m' dir v fs"
proof -
  note keep = outside_tables [OF wf f out]
  show ?thesis using run by (simp add: run_frames_def fresh_table_def keep(1,2))
qed

lemma zero_words_run:
  assumes "pt_wf (phys s) (cr3 s)" "run_frames (phys s) (cr3 s) v fs"
  shows "\<exists>ph. zero_words s v (length fs * 1024) = Inr (s\<lparr>phys := ph\<rparr>) \<and>
    (\<forall>a. page_frame a \<notin> set fs \<longrightarrow> ph a = phys s a) \<and> frames_zero ph fs \<and>
    pt_wf ph (cr3 s) \<and> (\<forall>w. mmu_walk ph (cr3 s) w = vmap s w) \<and>
    (\<forall>w. ph (pde_addr (cr3 s) w) = phys s (pde_addr (cr3 s) w))"
  using assms
proof (induction fs arbitrary: s v)
  case Nil
  then show ?case by (intro exI [of _ "phys s"]) (simp add: frames_zero_def)
next
  case (Cons f fs)
  note tl = run_frames_tl [OF Cons.prems(2)]
  obtain p1 where p1: "zero_words s v 1024 = Inr (s\<lparr>phys := p1\<rparr>)" "words_put (phys s) p1 f 0 1024 (\<lambda>_. 0)"
    using zero_words_page [OF Cons.prems(1) tl(1-3), of 0 1024] by auto
  have out: "p1 a = phys s a" if "page_frame a \<noteq> f" for a by (rule words_put_out [OF p1(2) that])
  note keep = outside_tables [OF Cons.prems(1) tl(1) out]
  have z1: "p1 (f + i * 4) = 0" if "unat i < 1024" for i using words_put_word [OF p1(2) that] that by simp
  have "run_frames p1 (cr3 s) (v + PG_SIZE) fs" by (rule run_frames_outside [OF Cons.prems(1) tl(1) out tl(4)])
  with Cons.IH [of "s\<lparr>phys := p1\<rparr>" "v + PG_SIZE"] keep(3) obtain ph where
    ph: "zero_words (s\<lparr>phys := p1\<rparr>) (v + PG_SIZE) (length fs * 1024) = Inr (s\<lparr>phys := ph\<rparr>)"
    "\<And>a. page_frame a \<notin> set fs \<Longrightarrow> ph a = p1 a" "frames_zero ph fs" "pt_wf ph (cr3 s)"
    "\<And>w. mmu_walk ph (cr3 s) w = mmu_walk p1 (cr3 s) w"
    "\<And>w. ph (pde_addr (cr3 s) w) = p1 (pde_addr (cr3 s) w)" by auto
  have "zero_words s v (length (f # fs) * 1024) = Inr (s\<lparr>phys := ph\<rparr>)"
    using ph(1) zero_words_append [of s v 1024 "length fs * 1024"] by (simp add: p1(1) PG_SIZE_def)
  moreover have "ph (f + i * 4) = 0" if "unat i < 1024" for i
  proof -
    have "page_frame f = f" using tl(1) by (simp add: fresh_table_def)
    then have "page_frame (f + i * 4) \<notin> set fs" using page_word(1) [of f i] that tl(5) by simp
    then show ?thesis using ph(2) z1 [OF that] by simp
  qed
  then have "frames_zero ph (f # fs)" using ph(3) by (simp add: frames_zero_def)
  ultimately show ?case using ph(2,4,5,6) keep(1,2) out by (intro exI [of _ ph]) simp
qed

section \<open>States that agree on the page allocator\<close>

definition pool_bytes :: "kstate \<Rightarrow> u32 set" where
  "pool_bytes s = map_bytes (pool_bitmap (kernel_pool s)) \<union> map_bytes (pool_bitmap (user_pool s)) \<union>
     map_bytes (vaddr_bitmap (kernel_vaddr s))"

definition quiet :: "kstate \<Rightarrow> kstate \<Rightarrow> bool" where
  "quiet s s' \<longleftrightarrow> cr3 s' = cr3 s \<and> kernel_pool s' = kernel_pool s \<and> user_pool s' = user_pool s \<and>
     kernel_vaddr s' = kernel_vaddr s \<and> (\<forall>a \<in> pool_bytes s. mem s' a = mem s a) \<and>
     (\<forall>w. mmu_walk (phys s') (cr3 s) w = vmap s w) \<and> (\<forall>w. phys s' (pde_addr (cr3 s) w) = phys s (pde_addr (cr3 s) w))"

lemma quiet_same:
  "phys s' = phys s \<Longrightarrow> cr3 s' = cr3 s \<Longrightarrow> mem s' = mem s \<Longrightarrow> kernel_pool s' = kernel_pool s \<Longrightarrow>
    user_pool s' = user_pool s \<Longrightarrow> kernel_vaddr s' = kernel_vaddr s \<Longrightarrow> quiet s s'"
  by (simp add: quiet_def)

lemma quiet_bytes: "quiet s s' \<Longrightarrow> pool_bytes s' = pool_bytes s"
  by (simp add: quiet_def pool_bytes_def)

lemma quiet_trans: "quiet s s1 \<Longrightarrow> quiet s1 s2 \<Longrightarrow> quiet s s2"
  by (frule quiet_bytes) (auto simp: quiet_def)

lemma quiet_vmap: "quiet s s' \<Longrightarrow> vmap s' w = vmap s w"
  by (simp add: quiet_def)

lemma quiet_sym: "quiet s s' \<Longrightarrow> quiet s' s"
  by (frule quiet_bytes) (auto simp: quiet_def)

lemma quiet_locked: "quiet s (locked l s)" "quiet s (unlocked l s)"
  by (rule quiet_same; simp)+

lemma quiet_test:
  assumes "quiet s s'" "map_bytes b \<subseteq> pool_bytes s" "unat i < 8 * unat (btmp_bytes_len b)"
  shows "bitmap_scan_test (mem s') b i = bitmap_scan_test (mem s) b i"
  by (rule test_frame [OF assms(3)]) (use assms(1,2) in \<open>auto simp: quiet_def\<close>)

lemma quiet_pool:
  assumes "quiet s s'"
  shows "pool_of q s' = pool_of q s" "vaddr_pool PF_KERNEL s' = vaddr_pool PF_KERNEL s" "pool_idx s' q i = pool_idx s q i"
    "pool_idx s q i \<Longrightarrow> pool_bit s' q i = pool_bit s q i"
proof -
  show po: "pool_of q s' = pool_of q s" using assms by (cases q) (simp_all add: pool_of_def quiet_def)
  then show "pool_idx s' q i = pool_idx s q i" by (simp add: pool_idx_def)
  show "vaddr_pool PF_KERNEL s' = vaddr_pool PF_KERNEL s" using assms by (simp add: vaddr_pool_def quiet_def)
  have "map_bytes (pool_bitmap (pool_of q s)) \<subseteq> pool_bytes s" by (cases q) (auto simp: pool_of_def pool_bytes_def)
  then show "pool_bit s' q i = pool_bit s q i" if "pool_idx s q i"
    using quiet_test [OF assms] that by (simp add: pool_bit_def pool_idx_def po)
qed

lemma quiet_vbit:
  assumes "quiet s s'" "unat i < 8 * unat (btmp_bytes_len (vaddr_bitmap (kernel_vaddr s)))"
  shows "bitmap_scan_test (mem s') (vaddr_bitmap (kernel_vaddr s)) i = bitmap_scan_test (mem s) (vaddr_bitmap (kernel_vaddr s)) i"
  by (rule quiet_test [OF assms(1) _ assms(2)]) (simp add: pool_bytes_def)

lemma quiet_phys_inv:
  assumes q: "quiet s s'" and inv: "phys_inv s"
  shows "phys_inv s'"
proof -
  have c: "cr3 s' = cr3 s" "kernel_pool s' = kernel_pool s" "user_pool s' = user_pool s"
    and vm: "mmu_walk (phys s') (cr3 s) w = vmap s w" and dw: "phys s' (pde_addr (cr3 s) w) = phys s (pde_addr (cr3 s) w)" for w
    using q by (simp_all add: quiet_def)
  have "pt_wf (phys s') (cr3 s')"
    using inv dw [of "0xffffffff"] by (simp add: phys_inv_def pt_wf_def rec_slot_def Let_def c dw flip: pde_addr_last)
  moreover have "unused_page s' p = unused_page s p" for p
    by (simp add: unused_page_def fresh_table_def dw c(1) vm)
  ultimately show ?thesis
    using inv quiet_pool [OF q] by (simp add: phys_inv_def pools_wf_def c)
qed

lemma quiet_vpool_inv:
  assumes q: "quiet s s'" and inv: "vpool_inv s PF_KERNEL"
  shows "vpool_inv s' PF_KERNEL"
proof -
  let ?b = "vaddr_bitmap (kernel_vaddr s)"
  note vm = quiet_vmap [OF q]
  have c: "kernel_pool s' = kernel_pool s" "user_pool s' = user_pool s" "kernel_vaddr s' = kernel_vaddr s"
    using q by (simp_all add: quiet_def)
  have "bitmap_scan_test (mem s') ?b (of_nat i) = bitmap_scan_test (mem s) ?b (of_nat i)"
    if "i < unat (btmp_bytes_len ?b)" for i
  proof (rule quiet_vbit [OF q])
    have "unat (of_nat i :: u32) = i" using that unat_u32_bound [of "btmp_bytes_len ?b"] by (simp add: unat_of_nat)
    then show "unat (of_nat i :: u32) < 8 * unat (btmp_bytes_len ?b)" using that by simp
  qed
  then show ?thesis
    using inv unfolding vpool_inv_def Let_def vm by (auto simp: vaddr_pool_def c)
qed

lemma quiet_window:
  assumes "quiet s s'"
  defines "b \<equiv> vaddr_bitmap (kernel_vaddr s)"
  assumes "k + n < unat (btmp_bytes_len b)"
  shows "window_free (mem s') b k n = window_free (mem s) b k n"
proof -
  have "bit_free (mem s') b i = bit_free (mem s) b i" if "i < unat (btmp_bytes_len b)" for i
  proof -
    have "unat (of_nat i :: u32) = i" using that unat_u32_bound [of "btmp_bytes_len b"] by (simp add: unat_of_nat)
    then show ?thesis using quiet_vbit [OF assms(1), of "of_nat i"] that by (simp add: bit_free_def b_def)
  qed
  then show ?thesis using assms(3) by (auto simp: window_free_def)
qed

lemma quiet_no_window:
  assumes "quiet s s'"
  shows "no_window s' PF_KERNEL n = no_window s PF_KERNEL n"
  using assms quiet_window [OF assms] by (auto simp: no_window_def bitmap_scan_none vaddr_pool_def quiet_def)

lemma quiet_free_pages: "quiet s s' \<Longrightarrow> free_pages s' q = free_pages s q"
  using quiet_pool by (auto simp: free_pages_def pool_idx_def)

lemma quiet_few_pages:
  assumes "quiet s s'"
  shows "few_pages s' pf n = few_pages s pf n"
  by (simp add: few_pages_def quiet_free_pages [OF assms])

text \<open>What an allocation has done is also there in a state that agrees with its result.\<close>

lemma quiet_taken:
  assumes q: "quiet s2 s'" and same: "kernel_pool s2 = kernel_pool s" "user_pool s2 = user_pool s"
    "kernel_vaddr s2 = kernel_vaddr s"
  shows "fresh_pages s s2 PF_KERNEL fs \<Longrightarrow> fresh_pages s s' PF_KERNEL fs"
    "window_taken s s2 PF_KERNEL v n \<Longrightarrow> window_taken s s' PF_KERNEL v n"
    "run_mapped s s2 v fs \<Longrightarrow> run_mapped s s' v fs"
proof -
  have "pool_bit s' PF_KERNEL i = pool_bit s2 PF_KERNEL i" if "pool_idx s PF_KERNEL i" for i
    using quiet_pool(4) [OF q, of PF_KERNEL i] that same by (simp add: pool_idx_def pool_of_def)
  then show "fresh_pages s s2 PF_KERNEL fs \<Longrightarrow> fresh_pages s s' PF_KERNEL fs"
    unfolding fresh_pages_def by metis
  have "kernel_vaddr s' = kernel_vaddr s" using q same by (simp add: quiet_def)
  then show "window_taken s s2 PF_KERNEL v n \<Longrightarrow> window_taken s s' PF_KERNEL v n"
    using quiet_vbit [OF q] by (auto simp: window_taken_def Let_def vaddr_pool_def same)
  show "run_mapped s s2 v fs \<Longrightarrow> run_mapped s s' v fs" using q by (simp add: run_mapped_def quiet_def)
qed

lemma quiet_taken_from:
  assumes q: "quiet s s1"
  shows "fresh_pages s1 s' PF_KERNEL fs = fresh_pages s s' PF_KERNEL fs"
    "window_taken s1 s' PF_KERNEL v n = window_taken s s' PF_KERNEL v n" "run_mapped s1 s' v fs = run_mapped s s' v fs"
proof -
  have "pool_idx s PF_KERNEL i \<and> \<not> pool_bit s1 PF_KERNEL i \<longleftrightarrow> pool_idx s PF_KERNEL i \<and> \<not> pool_bit s PF_KERNEL i" for i
    using quiet_pool(4) [OF q] by blast
  then show "fresh_pages s1 s' PF_KERNEL fs = fresh_pages s s' PF_KERNEL fs"
    by (simp add: fresh_pages_def quiet_pool [OF q]) metis
  show "run_mapped s1 s' v fs = run_mapped s s' v fs" using q by (simp add: run_mapped_def quiet_def)
  have kv: "kernel_vaddr s1 = kernel_vaddr s" using q by (simp add: quiet_def)
  have span: "unat a < 8 * unat (btmp_bytes_len b)" if sp: "a \<in> span i n" and lt: "unat i + n < unat (btmp_bytes_len b)" for a i n b
  proof -
    obtain k where k: "k < n" "a = i + of_nat k" using sp by (auto simp: span_def)
    then have "unat a = unat i + k"
      using lt unat_u32_bound [of "btmp_bytes_len b"] by (simp add: unat_add_of_nat_u32)
    then show ?thesis using k lt by simp
  qed
  show "window_taken s1 s' PF_KERNEL v n = window_taken s s' PF_KERNEL v n"
    unfolding window_taken_def Let_def vaddr_pool_def kv if_P [OF refl]
    by (intro conj_cong refl ex_cong ball_cong all_cong) (auto simp: quiet_vbit [OF q] dest: span)
qed

lemma space_frame_same:
  assumes "quiet s s'" "phys s' = phys s"
  shows "space_frame s s'"
  by (rule space_frame_write [OF space_frame_refl, where X = "{}"])
    (use assms in \<open>simp_all add: quiet_pool [OF assms(1)]\<close>, use assms in \<open>simp add: quiet_def\<close>)

lemma space_frame_quiet:
  assumes sf: "space_frame s s1" and q: "quiet s1 s2" and out: "\<And>a. page_frame a \<notin> set fs \<Longrightarrow> phys s2 a = phys s1 a"
    and inv: "phys_inv s" and fs: "fresh_pages s s' pf fs"
  shows "space_frame s s2"
proof (rule space_frame_write [OF sf, where X = "set fs"])
  fix q i assume i: "pool_idx s q i" "pool_bit s q i"
  have wf: "pools_wf s" using inv by (simp add: phys_inv_def)
  show "pool_page (pool_of q s) i \<notin> set fs"
  proof
    assume "pool_page (pool_of q s) i \<in> set fs"
    then obtain j where j: "pool_page (pool_of q s) i = pool_page (pool_of pf s) j" "pool_idx s pf j" "\<not> pool_bit s pf j"
      using fs unfolding fresh_pages_def by blast
    then show False using pool_page_inject [OF wf i(1) j(2,1)] i(2) by blast
  qed
qed (use q out in \<open>simp_all add: quiet_pool [OF q]\<close>, use q in \<open>simp_all add: quiet_def\<close>)

section \<open>get_kernel_pages\<close>

text \<open>Addresses in use: mapped, by a directory entry with a table of its own.\<close>

definition held :: "kstate \<Rightarrow> u32 set \<Rightarrow> bool" where
  "held s A \<longleftrightarrow> (\<forall>a \<in> A. own_pde a \<and> vmap s a \<noteq> None)"

lemma own_pde_below: "own_pde a \<Longrightarrow> below_window a"
proof (rule ccontr)
  assume a: "own_pde a" "\<not> below_window a"
  then have "1023 \<le> unat (PDE_IDX a)"
    using div_le_mono [of "1023 * 4194304" "unat a" 4194304] by (simp add: below_window_def unat_PDE_IDX)
  then have "unat (PDE_IDX a) = 1023" using idx_lt(1) [of a] by linarith
  then have "PDE_IDX a = 1023" by (intro u32_eqI) simp
  then show False using a(1) by (simp add: own_pde_def)
qed

lemma held_quiet: "quiet s s' \<Longrightarrow> held s' A = held s A"
  by (simp add: held_def quiet_def)

lemma held_mono: "held s B \<Longrightarrow> A \<subseteq> B \<Longrightarrow> held s A"
  by (auto simp: held_def)

lemma held_Un: "held s (A \<union> B) \<longleftrightarrow> held s A \<and> held s B"
  by (auto simp: held_def)

lemma run_range:
  assumes "run_ok v n" "in_range a v (n * 4096)"
  shows "\<exists>k < n. page_frame a = run_page v k"
proof -
  define d where "d = unat (a - v)"
  have d: "d < n * 4096" using assms(2) by (simp add: in_range_def d_def)
  have a: "a = v + of_nat d" by (simp add: d_def)
  have "unat v + d < 4294967296" using assms(1) d by (simp add: run_ok_def)
  then have ua: "unat a = unat v + d" unfolding a by (rule unat_add_of_nat_u32)
  have v: "unat v = unat v div 4096 * 4096" using assms(1) unat_page_frame [of v] by (simp add: run_ok_def)
  have "(unat v div 4096 * 4096 + d) div 4096 * 4096 = unat v div 4096 * 4096 + d div 4096 * 4096" by simp
  then have "unat a div 4096 * 4096 = unat v + d div 4096 * 4096" unfolding ua v [symmetric] .
  moreover have k: "d div 4096 < n" using d by (rule less_mult_imp_div_less)
  ultimately have "page_frame a = run_page v (d div 4096)"
    by (intro u32_eqI) (simp add: unat_page_frame run_page_unat [OF assms(1) k])
  with k show ?thesis by blast
qed

lemma held_outside:
  assumes "held s A" "a \<in> A" "run_ok v n" "\<And>k. k < n \<Longrightarrow> vmap s (run_page v k) = None"
  shows "\<forall>k < n. page_frame a \<noteq> run_page v k" "\<not> in_range a v (n * 4096)"
proof -
  show "\<forall>k < n. page_frame a \<noteq> run_page v k"
  proof (intro allI impI notI)
    fix k assume k: "k < n" "page_frame a = run_page v k"
    then have "page_frame a = page_frame (run_page v k)" using run_page_frame(1) [OF assms(3)] by simp
    then have "vmap s a = None" using assms(4) [OF k(1)] mmu_walk_None_frame by blast
    then show False using assms(1,2) by (auto simp: held_def)
  qed
  then show "\<not> in_range a v (n * 4096)" using run_range [OF assms(3), of a] by blast
qed

definition got_pages :: "kstate \<Rightarrow> kstate \<Rightarrow> u32 \<Rightarrow> u32 list \<Rightarrow> bool" where
  "got_pages s s' v fs \<longleftrightarrow> v \<noteq> NULL \<and> mem_only s s' \<and> phys_inv s' \<and> vpool_inv s' PF_KERNEL \<and>
     fresh_pages s s' PF_KERNEL fs \<and> window_taken s s' PF_KERNEL v (length fs) \<and>
     run_frames (phys s') (cr3 s') v fs \<and> frames_zero (phys s') fs \<and>
     (\<forall>k < length fs. vmap s (run_page v k) = None) \<and> run_mapped s s' v fs \<and>
     (\<forall>A. held s A \<longrightarrow> (\<forall>a \<in> A. lheap s' a = lheap s a \<and> arenas s' a = arenas s a \<and>
        (a \<notin> pool_bytes s \<longrightarrow> mem s' a = mem s a))) \<and>
     lowest_window s PF_KERNEL v (length fs) \<and> space_frame s s' \<and>
     (\<forall>q. card (free_pages s q) \<le> 2 * length fs + card (free_pages s' q))"

lemma malloc_page_frames:
  assumes inv: "vpool_inv s pf" and ok: "malloc_page_ok s pf n v s' fs"
  shows "run_frames (phys s') (cr3 s') v fs" "\<And>k. k < unat n \<Longrightarrow> vmap s (run_page v k) = None"
proof -
  have run: "run_ok v (length fs)" "length fs = unat n" and fresh: "fresh_pages s s' pf fs"
    and nt: "\<forall>f \<in> set fs. not_table s' f" and mp: "run_mapped s s' v fs"
    using ok by (simp_all add: malloc_page_ok_def)
  have "vmap s' (run_page v k) = Some (fs ! k)" if "k < length fs" for k
    using mp run_page_frame(1) [OF run(1) that] that page_offset_frame unfolding run_mapped_def by fastforce
  then show "run_frames (phys s') (cr3 s') v fs"
    using run fresh nt by (simp add: run_frames_def fresh_pages_def not_table_def)
  fix k assume k: "k < unat n"
  let ?b = "vaddr_bitmap (vaddr_pool pf s)" and ?start = "Kernel_State.vaddr_start (vaddr_pool pf s)"
  obtain i where i: "v = run_page ?start (unat i)" "unat i + unat n < unat (btmp_bytes_len ?b)"
    "\<forall>a \<in> span i (unat n). \<not> bitmap_scan_test (mem s) ?b a"
    using ok unfolding malloc_page_ok_def window_taken_def Let_def by blast
  have "i + of_nat k \<in> span i (unat n)" using k by (auto simp: span_def)
  then have "\<not> bitmap_scan_test (mem s) ?b (of_nat (unat i + k))" using i(3) by simp
  moreover have "unat i + k < unat (btmp_bytes_len ?b)" using k i(2) by simp
  ultimately have "vmap s (run_page ?start (unat i + k)) = None" using inv unfolding vpool_inv_def Let_def by blast
  then show "vmap s (run_page v k) = None" unfolding i(1) by (simp add: run_page_def algebra_simps)
qed

lemma got_held:
  assumes g: "got_pages s s' v fs" and h: "held s A"
  shows "held s' A"
proof -
  have "vmap s' a = vmap s a" if "a \<in> A" for a
    using held_outside(1) [OF h that, of v "length fs"] g h that
    by (auto simp: got_pages_def run_frames_def run_mapped_def held_def)
  then show ?thesis using h by (simp add: held_def)
qed

lemma got_run_held:
  assumes g: "got_pages s s' v fs" and k: "k < length fs" "page_frame a = run_page v k"
  shows "own_pde a" "vmap s' a \<noteq> None" "vmap s' a = Some (fs ! k + page_offset a)"
proof -
  have "run_ok v (length fs)" using g by (simp add: got_pages_def run_frames_def)
  then show "own_pde a" using run_page_frame [OF _ k(1)] own_pde_frame [of a "run_page v k"] k(2) by simp
  show "vmap s' a = Some (fs ! k + page_offset a)" using g k by (simp add: got_pages_def run_mapped_def)
  then show "vmap s' a \<noteq> None" by simp
qed

text \<open>The memory filled with zeros under the lock: only the pages of the run change.\<close>

lemma zeroed_pages:
  assumes inv: "phys_inv s" and held: "held s0 (pool_bytes s)"
    and run: "run_frames (phys s) (cr3 s) v fs" "\<And>k. k < length fs \<Longrightarrow> vmap s0 (run_page v k) = None"
    and n: "unat n = length fs" "length fs < 3840" and v0: "v \<noteq> NULL"
  obtains ph where "kmemset0 s v (n * PG_SIZE) = Inr ((clear_typed s v (length fs * 4096))\<lparr>phys := ph\<rparr>)"
    "frames_zero ph fs" "run_frames ph (cr3 s) v fs" "quiet s ((clear_typed s v (length fs * 4096))\<lparr>phys := ph\<rparr>)"
    "\<And>a. page_frame a \<notin> set fs \<Longrightarrow> ph a = phys s a"
proof -
  have wf: "pt_wf (phys s) (cr3 s)" and okv: "run_ok v (length fs)"
    using inv run(1) by (simp_all add: phys_inv_def run_frames_def)
  have size: "unat (n * PG_SIZE) = length fs * 4096" using n by (simp add: PG_SIZE_def unat_mult_u32)
  obtain ph where ph: "zero_words s v (length fs * 1024) = Inr (s\<lparr>phys := ph\<rparr>)" "frames_zero ph fs"
    "\<And>w. mmu_walk ph (cr3 s) w = vmap s w" "\<And>w. ph (pde_addr (cr3 s) w) = phys s (pde_addr (cr3 s) w)"
    "\<And>a. page_frame a \<notin> set fs \<Longrightarrow> ph a = phys s a"
    using zero_words_run [OF wf run(1)] by blast
  have "wipe v (length fs * 4096) 0 (mem s) a = mem s a" if "a \<in> pool_bytes s" for a
    using held_outside(2) [OF held that okv run(2)] by (simp add: wipe_def)
  then have "quiet s ((clear_typed s v (length fs * 4096))\<lparr>phys := ph\<rparr>)"
    by (simp add: quiet_def clear_typed_def ph(3,4))
  moreover have "kmemset0 s v (n * PG_SIZE) = Inr ((clear_typed s v (length fs * 4096))\<lparr>phys := ph\<rparr>)"
    using ph(1) v0 by (simp add: kmemset0_def size clear_typed_phys mult.commute [of 1024])
  moreover have "run_frames ph (cr3 s) v fs" using run(1) by (simp add: run_frames_def fresh_table_def ph(3,4))
  ultimately show thesis using that ph(2,5) by blast
qed

lemma lock_ready_free: "lock_ready s l F \<Longrightarrow> lock_free s l"
  unfolding lock_ready_def lock_free_def by blast

lemma mem_only_unlocked:
  assumes "lock_free s l" "mem_only (locked l s) s'"
  shows "mem_only s (unlocked l s')"
proof -
  from assms(2) obtain m p h a where s': "s' = (locked l s)\<lparr>mem := m, phys := p, lheap := h, arenas := a\<rparr>"
    by (auto simp: mem_only_def)
  have "unlocked l s' = (unlocked l (locked l s))\<lparr>mem := m, phys := p, lheap := h, arenas := a\<rparr>"
    by (simp add: s' unlocked_def set_sema_value_def set_repeat_def set_holder_def)
  then show ?thesis using unlocked_locked [OF assms(1)] by (intro mem_onlyI) simp
qed

text \<open>Pages mapped and filled with zeros under the lock: what the state is once it is given back.\<close>

lemma locked_pages:
  assumes inv: "phys_inv s" "vpool_inv s PF_KERNEL" and lock: "lock_ready s KERNEL_POOL_LOCK F"
    and n: "0 < n" "n < 3840" and room: "\<not> no_window s PF_KERNEL n" "\<not> few_pages s PF_KERNEL n"
    and held: "held s (pool_bytes s)" "held s (fam_nodes F)"
  obtains v s2 s3 fs where "malloc_page (locked KERNEL_POOL_LOCK s) PF_KERNEL n = Inr (v, s2)" "v \<noteq> NULL"
    "kmemset0 s2 v (n * PG_SIZE) = Inr s3" "lock_kept (locked KERNEL_POOL_LOCK s) s3" "k_family s3 F"
    "got_pages s (unlocked KERNEL_POOL_LOCK s3) v fs" "length fs = unat n"
proof -
  let ?l = KERNEL_POOL_LOCK and ?s1 = "locked KERNEL_POOL_LOCK s"
  note q1 = quiet_locked(1) [of s ?l]
  obtain v s2 fs where m: "malloc_page ?s1 PF_KERNEL n = Inr (v, s2)" and ok: "malloc_page_ok ?s1 PF_KERNEL n v s2 fs"
    using malloc_page_run [OF quiet_phys_inv [OF q1 inv(1)] quiet_vpool_inv [OF q1 inv(2)], of n] n room
      quiet_no_window [OF q1] quiet_few_pages [OF q1] by auto
  have mo: "mem_only ?s1 s2" by (rule mem_only_malloc_page [OF m])
  note sel = mem_only_sel [OF mo]
  have okf: "v \<noteq> NULL" "length fs = unat n" "phys_inv s2" "vpool_inv s2 PF_KERNEL" "fresh_pages ?s1 s2 PF_KERNEL fs"
    "run_mapped ?s1 s2 v fs" "window_taken ?s1 s2 PF_KERNEL v (unat n)"
    "\<And>a. below_window a \<Longrightarrow> lheap s2 a = lheap s a \<and> arenas s2 a = arenas s a"
    "lowest_window ?s1 PF_KERNEL v (unat n)" "\<And>q. card (free_pages ?s1 q) \<le> 2 * unat n + card (free_pages s2 q)"
    "\<And>a. below_window a \<Longrightarrow> a \<notin> pool_bytes s \<Longrightarrow> mem s2 a = mem s a" "space_frame ?s1 s2"
    using ok by (simp_all add: malloc_page_ok_def pool_bytes_def vaddr_pool_def)
  note fr = malloc_page_frames [OF quiet_vpool_inv [OF q1 inv(2)] ok]
  have new: "vmap s (run_page v k) = None" if "k < length fs" for k using fr(2) that okf(2) by simp
  have len: "unat n = length fs" "length fs < 3840" using okf(2) n(2) by (simp_all add: word_less_nat_alt)
  have held2: "held s (pool_bytes s2)" using held(1) by (simp add: pool_bytes_def sel)
  let ?n = "length fs * 4096"
  obtain ph where ph: "kmemset0 s2 v (n * PG_SIZE) = Inr ((clear_typed s2 v ?n)\<lparr>phys := ph\<rparr>)"
    "frames_zero ph fs" "run_frames ph (cr3 s2) v fs" "quiet s2 ((clear_typed s2 v ?n)\<lparr>phys := ph\<rparr>)"
    "\<And>a. page_frame a \<notin> set fs \<Longrightarrow> ph a = phys s2 a"
    using zeroed_pages [OF okf(3) held2 fr(1) new len okf(1)] by blast
  define s3 where "s3 = (clear_typed s2 v ?n)\<lparr>phys := ph\<rparr>"
  have mo3: "mem_only ?s1 s3" unfolding s3_def by (rule mem_only_trans [OF mo mem_only_trans [OF mem_only_upd(3) mem_only_upd(2)]])
  note sel3 = mem_only_sel [OF mo3]
  have typed: "lheap s3 a = lheap s a \<and> arenas s3 a = arenas s a \<and> (a \<notin> pool_bytes s \<longrightarrow> mem s3 a = mem s a)" if "held s A" "a \<in> A" for a A
  proof -
    have "run_ok v (length fs)" using fr(1) by (simp add: run_frames_def)
    then have "\<not> in_range a v ?n" using held_outside(2) [OF that] new by blast
    moreover have "below_window a" using own_pde_below that by (simp add: held_def)
    ultimately show ?thesis using okf(8,11) [of a] by (simp add: s3_def clear_typed_def wipe_def)
  qed
  have fam: "k_family s3 F"
    by (rule k_family_cong [of s]) (use lock typed [OF held(2)] in \<open>auto simp: lock_ready_def\<close>)
  have "lock_kept ?s1 s3" by (simp add: lock_kept_def sel3)
  note kept = this
  let ?s' = "unlocked ?l s3"
  have q3: "quiet s2 ?s'" using quiet_trans [OF ph(4) quiet_locked(2) [of _ ?l]] by (simp add: s3_def)
  have "got_pages s ?s' v fs"
  proof -
    have "kernel_pool s2 = kernel_pool s" "user_pool s2 = user_pool s" "kernel_vaddr s2 = kernel_vaddr s"
      by (simp_all add: sel)
    note tk = quiet_taken [OF q3 this]
    have "mem_only s ?s'" by (rule mem_only_unlocked [OF lock_ready_free [OF lock] mo3])
    moreover have "phys_inv ?s'" "vpool_inv ?s' PF_KERNEL"
      by (rule quiet_phys_inv [OF q3 okf(3)], rule quiet_vpool_inv [OF q3 okf(4)])
    moreover have "run_frames (phys ?s') (cr3 ?s') v fs" "frames_zero (phys ?s') fs"
      using ph(2,3) by (simp_all add: s3_def clear_typed_def)
    moreover have fresh: "fresh_pages s ?s' PF_KERNEL fs" and "window_taken s ?s' PF_KERNEL v (length fs)" "run_mapped s ?s' v fs"
      using tk okf(5-7) len(1) by (simp_all add: quiet_taken_from [OF q1])
    moreover have "lheap ?s' a = lheap s a \<and> arenas ?s' a = arenas s a \<and> (a \<notin> pool_bytes s \<longrightarrow> mem ?s' a = mem s a)" if "held s A" "a \<in> A" for a A
      using typed [OF that] by simp
    moreover have "lowest_window s PF_KERNEL v (length fs)" using okf(9) len(1) by (simp add: lowest_window_def vaddr_pool_def)
    moreover have "card (free_pages s q) \<le> 2 * length fs + card (free_pages ?s' q)" for q
      using okf(10) [of q] len(1) quiet_free_pages [OF q1, of q] quiet_free_pages [OF q3, of q] by simp
    moreover have "space_frame s ?s'"
    proof (rule space_frame_quiet [OF space_frame_trans [OF space_frame_same [OF q1] okf(12)] q3])
      show "phys ?s' a = phys s2 a" if "page_frame a \<notin> set fs" for a
        using ph(5) [OF that] by (simp add: s3_def)
      show "fresh_pages s ?s' PF_KERNEL fs" by (rule fresh)
    qed (simp, rule inv)
    ultimately show ?thesis using okf(1) new unfolding got_pages_def by blast
  qed
  then show thesis using that [OF m okf(1) ph(1) [folded s3_def] kept fam] okf(2) by blast
qed

lemma get_kernel_pages_ok:
  assumes inv: "phys_inv s" "vpool_inv s PF_KERNEL" and lock: "lock_ready s KERNEL_POOL_LOCK F"
    and n: "0 < n" "n < 3840" and room: "\<not> no_window s PF_KERNEL n" "\<not> few_pages s PF_KERNEL n"
    and held: "held s (pool_bytes s)" "held s (fam_nodes F)"
  shows "\<exists>v s' fs. get_kernel_pages s n = Inr (v, s') \<and> got_pages s s' v fs \<and> length fs = unat n"
proof -
  obtain v s2 s3 fs where g: "malloc_page (locked KERNEL_POOL_LOCK s) PF_KERNEL n = Inr (v, s2)" "v \<noteq> NULL"
    "kmemset0 s2 v (n * PG_SIZE) = Inr s3" "lock_kept (locked KERNEL_POOL_LOCK s) s3" "k_family s3 F"
    "got_pages s (unlocked KERNEL_POOL_LOCK s3) v fs" "length fs = unat n"
    by (rule locked_pages [OF assms])
  have w: "F (sema_waiters (lock_semaphore KERNEL_POOL_LOCK)) = Some []" using lock by (simp add: lock_ready_def)
  have "get_kernel_pages s n = Inr (v, unlocked KERNEL_POOL_LOCK s3)"
    using lock_ready_acquire [OF lock] g(1-3) lock_ready_release(1) [OF lock g(4,5) w] by (simp add: get_kernel_pages_def)
  then show ?thesis using g(6,7) by blast
qed

lemma got_lock_ready:
  assumes g: "got_pages s s' v fs" and lock: "lock_ready s l F" and held: "held s (fam_nodes F)"
  shows "lock_ready s' l F"
proof -
  have mo: "mem_only s s'" using g by (simp add: got_pages_def)
  have "k_family s' F"
    by (rule k_family_cong [of s]) (use lock g held in \<open>auto simp: lock_ready_def got_pages_def\<close>)
  then show ?thesis using lock by (simp add: lock_ready_def mem_only_sel [OF mo])
qed

end
