(* ===== verification/Spaces.thy ===== *)
theory Spaces
  imports Kernel_Pages
begin

text \<open>
  Address spaces side by side: the directory of a process shares the entries of the kernel, from 768
  on, with the directory of the kernel threads, so that its own page and every page of the kernel
  are where they are in all other spaces. What allocates pages keeps this for the spaces there are.
\<close>

text \<open>The entry with which page_table_add and create_page_dir enter frame \<open>f\<close>.\<close>

abbreviation self_entry :: "u32 \<Rightarrow> u32" where
  "self_entry f \<equiv> f OR PG_US_U OR PG_RW_W OR PG_P_1"

definition kernel_half :: "kstate \<Rightarrow> bool" where
  "kernel_half s \<longleftrightarrow> (\<forall>w. 768 \<le> unat (PDE_IDX w) \<longrightarrow> present (phys s (pde_addr (cr3 s) w)))"

definition shares_kernel :: "(u32 \<Rightarrow> u32) \<Rightarrow> u32 \<Rightarrow> u32 \<Rightarrow> bool" where
  "shares_kernel m dir f \<longleftrightarrow> page_frame f = f \<and> (\<forall>w. 768 \<le> unat (PDE_IDX w) \<longrightarrow>
     m (pde_addr f w) = (if PDE_IDX w = 1023 then self_entry f else m (pde_addr dir w)))"

text \<open>\<open>d\<close> is the page of a directory in frame \<open>f\<close>, which the pool has given away and no table uses.\<close>

definition own_space :: "kstate \<Rightarrow> u32 \<Rightarrow> u32 \<Rightarrow> bool" where
  "own_space s d f \<longleftrightarrow> own_pde d \<and> 768 \<le> unat (PDE_IDX d) \<and> vmap s d = Some f \<and>
     shares_kernel (phys s) (cr3 s) f \<and> not_table s f \<and>
     (\<exists>j. pool_idx s PF_KERNEL j \<and> pool_bit s PF_KERNEL j \<and> f = pool_page (pool_of PF_KERNEL s) j)"

definition spaces :: "kstate \<Rightarrow> u32 set \<Rightarrow> (u32 \<Rightarrow> u32) \<Rightarrow> bool" where
  "spaces s Ts D \<longleftrightarrow> cr3 s = 0x100000 \<and> kernel_half s \<and>
     (\<forall>t \<in> Ts. if pgdir (tasks s t) = NULL then D t = 0x100000 else own_space s (pgdir (tasks s t)) (D t))"

lemma shares_walk:
  assumes "shares_kernel m dir f"
  shows "rec_slot m f" "768 \<le> unat (PDE_IDX w) \<Longrightarrow> PDE_IDX w \<noteq> 1023 \<Longrightarrow> mmu_walk m f w = mmu_walk m dir w"
proof -
  have ff: "page_frame f = f" using assms by (simp add: shares_kernel_def)
  have "m (pde_addr f 0xffffffff) = self_entry f" using assms by (simp add: shares_kernel_def PDE_IDX_last)
  then show "rec_slot m f" using ff by (simp add: rec_slot_def Let_def pde_addr_last entry_fields)
  show "768 \<le> unat (PDE_IDX w) \<Longrightarrow> PDE_IDX w \<noteq> 1023 \<Longrightarrow> mmu_walk m f w = mmu_walk m dir w"
    using assms by (simp add: shares_kernel_def mmu_walk_def)
qed

text \<open>Every space translates the page of every directory to the same frame.\<close>

lemma own_space_v2p:
  assumes s: "own_space s d f" and rec: "rec_slot (phys s) (cr3 s)" and c: "c = cr3 s \<or> own_space s d' c"
  shows "addr_v2p (s\<lparr>cr3 := c\<rparr>) d = Inr f"
proof (rule addr_v2p_walk)
  have d: "768 \<le> unat (PDE_IDX d)" "PDE_IDX d \<noteq> 1023" "vmap s d = Some f" using s by (simp_all add: own_space_def own_pde_def)
  show "rec_slot (phys (s\<lparr>cr3 := c\<rparr>)) (cr3 (s\<lparr>cr3 := c\<rparr>))"
    using c rec shares_walk(1) by (auto simp: own_space_def)
  show "vmap (s\<lparr>cr3 := c\<rparr>) d = Some f"
    using c d shares_walk(2) [of "phys s" "cr3 s" c d] by (auto simp: own_space_def)
qed

lemma spaces_dirs:
  assumes sp: "spaces s Ts D" and wf: "pt_wf (phys s) (cr3 s)" and c: "cr3 s = D (cur s)"
  shows "dirs_ok s Ts D"
  unfolding dirs_ok_def
proof (intro conjI ballI)
  have rec: "rec_slot (phys s) (cr3 s)" using wf by (simp add: pt_wf_def)
  have dir: "D u = cr3 s \<or> own_space s (pgdir (tasks s u)) (D u)" if "u \<in> Ts" for u
    using sp that unfolding spaces_def by (metis (full_types))
  fix t assume t: "t \<in> Ts"
  show "if pgdir (tasks s t) = NULL then D t = 0x100000
    else \<forall>u\<in>Ts. addr_v2p (s\<lparr>cr3 := D u\<rparr>) (pgdir (tasks s t)) = Inr (D t)"
  proof (cases "pgdir (tasks s t) = NULL")
    case True
    then show ?thesis using sp t by (simp add: spaces_def)
  next
    case False
    then have "own_space s (pgdir (tasks s t)) (D t)" using sp t unfolding spaces_def by metis
    from own_space_v2p [OF this rec dir] False show ?thesis by simp
  qed
qed (rule c)

text \<open>The entries of the kernel, once present, never change; nor does a directory's page.\<close>

lemma space_frame_half:
  assumes sf: "space_frame s s'" and h: "kernel_half s"
  shows "kernel_half s'" "768 \<le> unat (PDE_IDX w) \<Longrightarrow> phys s' (pde_addr (cr3 s) w) = phys s (pde_addr (cr3 s) w)"
proof -
  have same: "phys s' (pde_addr (cr3 s) w) = phys s (pde_addr (cr3 s) w)" if "768 \<le> unat (PDE_IDX w)" for w
    using sf h that unfolding space_frame_def tables_frame_def kernel_half_def by blast
  then show "768 \<le> unat (PDE_IDX w) \<Longrightarrow> phys s' (pde_addr (cr3 s) w) = phys s (pde_addr (cr3 s) w)" by blast
  have "cr3 s' = cr3 s" using sf by (simp add: space_frame_def)
  then show "kernel_half s'" using same h by (simp add: kernel_half_def)
qed

lemma own_space_frame:
  assumes sf: "space_frame s s'" and h: "kernel_half s" and own: "own_space s d f"
  shows "own_space s' d f"
proof -
  obtain j where j: "pool_idx s PF_KERNEL j" "pool_bit s PF_KERNEL j" "f = pool_page (pool_of PF_KERNEL s) j"
    using own unfolding own_space_def by blast
  have c: "cr3 s' = cr3 s" "pool_of q s' = pool_of q s" "pool_idx s' q i = pool_idx s q i" for q i
    using sf by (simp_all add: space_frame_def pool_idx_def)
  have sh: "shares_kernel (phys s) (cr3 s) f" and nt: "not_table s f" using own by (simp_all add: own_space_def)
  have tf: "not_table s' f \<and> (\<forall>a. page_frame a = f \<longrightarrow> phys s' a = phys s a)"
    using sf j(1,2) nt unfolding space_frame_def tables_frame_def j(3) by blast
  then have keep: "phys s' a = phys s a" if "page_frame a = f" for a using that by blast
  have "not_table s' f" using tf by blast
  moreover have "pool_bit s' PF_KERNEL j" using sf j(1,2) by (simp add: space_frame_def)
  moreover have "vmap s' d = Some f"
  proof -
    have "own_pde d" "vmap s d = Some f" using own by (simp_all add: own_space_def)
    moreover have "own_pde d \<longrightarrow> vmap s d \<noteq> None \<longrightarrow> vmap s' d = vmap s d" using sf unfolding space_frame_def by blast
    ultimately show ?thesis by (simp only: option.simps not_False_eq_True simp_thms)
  qed
  moreover have "shares_kernel (phys s') (cr3 s) f"
  proof -
    have ff: "page_frame f = f" using sh by (simp add: shares_kernel_def)
    have "phys s' (pde_addr f w) = phys s (pde_addr f w)" for w
      by (rule keep) (use frame_word_frame [OF idx_lt(1) [of w], of f] in \<open>simp add: pde_addr_def ff\<close>)
    then show ?thesis using sh space_frame_half(2) [OF sf h] by (simp add: shares_kernel_def)
  qed
  ultimately show ?thesis using own j(1,3) by (auto simp: own_space_def c)
qed

lemma spaces_frame:
  assumes sf: "space_frame s s'" and sp: "spaces s Ts D" and t: "\<And>t. t \<in> Ts \<Longrightarrow> pgdir (tasks s' t) = pgdir (tasks s t)"
  shows "spaces s' Ts D"
proof -
  have h: "kernel_half s" using sp by (simp add: spaces_def)
  have "cr3 s' = cr3 s" using sf by (simp add: space_frame_def)
  then show ?thesis using sp space_frame_half(1) [OF sf h] own_space_frame [OF sf h] t by (simp add: spaces_def)
qed

lemma spaces_insert:
  assumes sp: "spaces s Ts D" and v: "v \<notin> Ts"
    and new: "if pgdir (tasks s v) = NULL then f = 0x100000 else own_space s (pgdir (tasks s v)) f"
  shows "spaces s (insert v Ts) (D(v := f))"
proof -
  have "(D(v := f)) t = D t" if "t \<in> Ts" for t using that v by auto
  then show ?thesis using sp new by (simp add: spaces_def)
qed

end
