(* ===== verification/Thread_Props.thy ===== *)
theory Thread_Props
  imports Spaces
begin

text \<open>
  What the creation of threads promises (init_thread, thread_create and thread_start of
  thread/thread.c): a new page holds the PCB and the stack with the first frame, and the thread is
  the last of the ready threads. \<open>kernel_inv\<close> is the invariant of memory and locks these functions
  need and keep.
\<close>

section \<open>The invariant\<close>

definition kernel_inv :: "kstate \<Rightarrow> (u32 \<Rightarrow> u32 list option) \<Rightarrow> bool" where
  "kernel_inv s F \<longleftrightarrow> phys_inv s \<and> vpool_inv s PF_KERNEL \<and> held s (pool_bytes s) \<and> held s (fam_nodes F) \<and>
     lock_ready s KERNEL_POOL_LOCK F \<and> lock_ready s USER_POOL_LOCK F \<and> lock_ready s PID_LOCK F \<and>
     0xc0000000 \<le> unat (Kernel_State.vaddr_start (kernel_vaddr s))"

definition room_for :: "kstate \<Rightarrow> u32 \<Rightarrow> bool" where
  "room_for s n \<longleftrightarrow> 0 < n \<and> n < 3840 \<and> \<not> no_window s PF_KERNEL n \<and> \<not> few_pages s PF_KERNEL n"

definition same_locks :: "kstate \<Rightarrow> kstate \<Rightarrow> bool" where
  "same_locks s s' \<longleftrightarrow> lock_holder s' = lock_holder s \<and> holder_repeat_nr s' = holder_repeat_nr s \<and>
     sema_value s' = sema_value s \<and> cur s' = cur s"

lemma lock_ready_same:
  "lock_ready s l F \<Longrightarrow> same_locks s s' \<Longrightarrow> k_family s' F' \<Longrightarrow>
    F' (sema_waiters (lock_semaphore l)) = Some [] \<Longrightarrow> lock_ready s' l F'"
  by (simp add: lock_ready_def same_locks_def)

lemma kernel_inv_lists:
  assumes inv: "kernel_inv s F" and q: "quiet s s'" and l: "same_locks s s'" and fam: "k_family s' F'"
    and held: "held s (fam_nodes F')"
    and w: "\<And>l. l \<in> {KERNEL_POOL_LOCK, USER_POOL_LOCK, PID_LOCK} \<Longrightarrow> F (sema_waiters (lock_semaphore l)) = Some [] \<Longrightarrow>
      F' (sema_waiters (lock_semaphore l)) = Some []"
  shows "kernel_inv s' F'"
proof -
  have "lock_ready s' l F'" if "l \<in> {KERNEL_POOL_LOCK, USER_POOL_LOCK, PID_LOCK}" "lock_ready s l F" for l
    using lock_ready_same [OF that(2) l fam] w [OF that(1)] that(2) by (simp add: lock_ready_def)
  then show ?thesis
    using inv quiet_phys_inv [OF q] quiet_vpool_inv [OF q] held
    by (simp add: kernel_inv_def held_quiet [OF q] quiet_bytes [OF q]) (use q in \<open>simp add: quiet_def\<close>)
qed

lemma kernel_inv_step:
  assumes inv: "kernel_inv s F" and q: "quiet s s'" and l: "same_locks s s'" and fam: "k_family s' F'"
    and held: "held s (fam_nodes F')" and w: "\<And>l. F l = Some [] \<Longrightarrow> l \<notin> {THREAD_READY_LIST, THREAD_ALL_LIST} \<Longrightarrow> F' l = Some []"
  shows "kernel_inv s' F'"
proof (rule kernel_inv_lists [OF inv q l fam held])
  fix l assume l: "l \<in> {KERNEL_POOL_LOCK, USER_POOL_LOCK, PID_LOCK}" "F (sema_waiters (lock_semaphore l)) = Some []"
  have "sema_waiters (lock_semaphore l) \<notin> {THREAD_READY_LIST, THREAD_ALL_LIST}"
    using l(1) by (auto simp: sema_waiters_def lock_semaphore_def KERNEL_POOL_LOCK_def USER_POOL_LOCK_def PID_LOCK_def
        THREAD_READY_LIST_def THREAD_ALL_LIST_def)
  then show "F' (sema_waiters (lock_semaphore l)) = Some []" by (rule w [OF l(2)])
qed

text \<open>
  Room for \<open>n\<close> more pages, however they are asked for: a run of \<open>n\<close> clear bits which the scan can
  see, and two free frames for each page, one of them for a table. Because the scan takes the lowest
  window, what is left after \<open>n\<close> of \<open>n + m\<close> pages is room for \<open>m\<close>.
\<close>

definition roomy :: "kstate \<Rightarrow> nat \<Rightarrow> bool" where
  "roomy s n \<longleftrightarrow> (let b = vaddr_bitmap (kernel_vaddr s) in
     \<exists>k. k + n < unat (btmp_bytes_len b) \<and> window_free (mem s) b k n) \<and> 2 * n \<le> card (free_pages s PF_KERNEL)"

lemma window_free_sub: "window_free m b k n \<Longrightarrow> k \<le> k' \<Longrightarrow> k' + n' \<le> k + n \<Longrightarrow> window_free m b k' n'"
  by (auto simp: window_free_def)

lemma roomy_mono: "roomy s n \<Longrightarrow> m \<le> n \<Longrightarrow> roomy s m"
  unfolding roomy_def Let_def
proof (elim conjE exE, intro conjI)
  fix k assume k: "k + n < unat (btmp_bytes_len (vaddr_bitmap (kernel_vaddr s)))" "window_free (mem s) (vaddr_bitmap (kernel_vaddr s)) k n" "m \<le> n"
  then have "window_free (mem s) (vaddr_bitmap (kernel_vaddr s)) k m" by (intro window_free_sub [OF k(2)]) simp_all
  with k show "\<exists>k. k + m < unat (btmp_bytes_len (vaddr_bitmap (kernel_vaddr s))) \<and> window_free (mem s) (vaddr_bitmap (kernel_vaddr s)) k m"
    by (intro exI [of _ k]) simp
qed simp

lemma roomy_room: "roomy s (unat n) \<Longrightarrow> 0 < n \<Longrightarrow> n < 3840 \<Longrightarrow> room_for s n"
  by (auto simp: roomy_def room_for_def no_window_def few_pages_def bitmap_scan_none vaddr_pool_def Let_def)

lemma roomy_quiet:
  assumes "quiet s s'"
  shows "roomy s' n = roomy s n"
proof -
  let ?b = "vaddr_bitmap (kernel_vaddr s)"
  have "window_free (mem s') ?b k n = window_free (mem s) ?b k n" if "k + n < unat (btmp_bytes_len ?b)" for k
    using quiet_window [OF assms that] .
  moreover have "kernel_vaddr s' = kernel_vaddr s" using assms by (simp add: quiet_def)
  ultimately show ?thesis by (auto simp: roomy_def Let_def quiet_free_pages [OF assms])
qed

lemma roomy_got:
  assumes room: "roomy s (length fs + m)" and g: "got_pages s s1 v fs" and inv: "vpool_inv s PF_KERNEL"
  shows "roomy s1 m"
proof -
  let ?b = "vaddr_bitmap (kernel_vaddr s)" and ?start = "Kernel_State.vaddr_start (kernel_vaddr s)" and ?n = "length fs"
  let ?L = "unat (btmp_bytes_len ?b)"
  obtain k where k: "k + (?n + m) < ?L" "window_free (mem s) ?b k (?n + m)" using room by (auto simp: roomy_def Let_def)
  have wt: "window_taken s s1 PF_KERNEL v ?n" and low: "lowest_window s PF_KERNEL v ?n" and mo: "mem_only s s1"
    and cnt: "card (free_pages s PF_KERNEL) \<le> 2 * ?n + card (free_pages s1 PF_KERNEL)"
    using g by (simp_all add: got_pages_def)
  obtain i where i: "v = run_page ?start (unat i)" "unat i + ?n < ?L"
    "\<And>j. unat j < 8 * ?L \<Longrightarrow> bitmap_scan_test (mem s1) ?b j = (j \<in> span i ?n \<or> bitmap_scan_test (mem s) ?b j)"
    using wt by (auto simp: window_taken_def Let_def vaddr_pool_def)
  have ok: "run_ok ?start ?L" using inv by (simp add: vpool_inv_def Let_def run_ok_def vaddr_pool_def)
  have "unat v = unat ?start + unat i * 4096" unfolding i(1) by (rule run_page_unat [OF ok]) (use i(2) in simp)
  then have ik: "unat i \<le> k"
    using low window_free_sub [OF k(2), of k ?n] by (auto simp: lowest_window_def vaddr_pool_def not_less [symmetric])
  have "bit_free (mem s1) ?b j" if j: "k + ?n \<le> j" "j < k + ?n + m" for j
  proof -
    have uj: "unat (of_nat j :: u32) = j" using j k(1) unat_u32_bound [of "btmp_bytes_len ?b"] by (simp add: unat_of_nat)
    have "of_nat j \<notin> span i ?n"
    proof
      assume "of_nat j \<in> span i ?n"
      then obtain q where q: "q < ?n" "of_nat j = i + of_nat q" by (auto simp: span_def)
      have "unat (i + of_nat q) = unat i + q"
        by (rule unat_add_of_nat_u32) (use q(1) i(2) unat_u32_bound [of "btmp_bytes_len ?b"] in simp)
      then show False using uj q j(1) ik by simp
    qed
    moreover have "bit_free (mem s) ?b j" using k(2) j by (simp add: window_free_def)
    ultimately show ?thesis using i(3) [of "of_nat j"] uj j k(1) by (simp add: bit_free_def)
  qed
  then have "window_free (mem s1) ?b (k + ?n) m" by (simp add: window_free_def)
  moreover have "2 * m \<le> card (free_pages s1 PF_KERNEL)" using cnt room by (simp add: roomy_def)
  ultimately show ?thesis using k(1) by (auto simp: roomy_def Let_def mem_only_sel [OF mo] add.assoc intro!: exI [of _ "k + ?n"])
qed

lemma got_kernel_inv:
  assumes inv: "kernel_inv s F" and g: "got_pages s s1 v fs"
  shows "kernel_inv s1 F"
proof -
  have mo: "mem_only s s1" using g by (simp add: got_pages_def)
  have "pool_bytes s1 = pool_bytes s" by (simp add: pool_bytes_def mem_only_sel [OF mo])
  then show ?thesis
    using inv g got_held [OF g] got_lock_ready [OF g]
    by (simp add: kernel_inv_def got_pages_def mem_only_sel [OF mo])
qed

text \<open>Pages from get_kernel_pages.\<close>

lemma get_pages:
  assumes inv: "kernel_inv s F" and room: "room_for s n"
  obtains v s1 fs where "get_kernel_pages s n = Inr (v, s1)" "got_pages s s1 v fs" "length fs = unat n" "kernel_inv s1 F"
proof -
  obtain v s1 fs where g: "get_kernel_pages s n = Inr (v, s1)" "got_pages s s1 v fs" "length fs = unat n"
    using get_kernel_pages_ok [of s F n] inv room by (auto simp: kernel_inv_def room_for_def)
  then show thesis using got_kernel_inv [OF inv g(2)] using that by blast
qed

section \<open>Process ids\<close>

lemma allocate_pid_ok:
  assumes "lock_ready s PID_LOCK F"
  shows "allocate_pid s = Inr (next_pid s + 1, s\<lparr>next_pid := next_pid s + 1\<rparr>)"
proof -
  let ?l = PID_LOCK and ?s1 = "(locked PID_LOCK s)\<lparr>next_pid := next_pid s + 1\<rparr>"
  have np: "next_pid (locked ?l s) = next_pid s"
    by (simp add: locked_def set_repeat_def set_holder_def set_sema_value_def)
  have "lock_release ?s1 ?l = Inr (unlocked ?l ?s1)"
    by (rule lock_ready_release(1) [OF assms, where F' = F])
      (use assms in \<open>simp_all add: lock_kept_def lock_ready_def k_family_def\<close>)
  moreover have "unlocked ?l ?s1 = (unlocked ?l (locked ?l s))\<lparr>next_pid := next_pid s + 1\<rparr>"
    by (simp add: unlocked_def set_repeat_def set_holder_def set_sema_value_def)
  ultimately show ?thesis
    using lock_ready_acquire [OF assms] unlocked_locked [OF lock_ready_free [OF assms]]
    by (simp add: allocate_pid_def np)
qed

section \<open>A page for a PCB\<close>

text \<open>The page at \<open>v\<close> is mapped to a frame that holds no table, and nothing the kernel uses lies in it.\<close>

definition pcb_page :: "kstate \<Rightarrow> (u32 \<Rightarrow> u32 list option) \<Rightarrow> u32 \<Rightarrow> bool" where
  "pcb_page s F v \<longleftrightarrow> page_frame v = v \<and> v \<noteq> NULL \<and> own_pde v \<and>
     (\<exists>f. fresh_table (phys s) (cr3 s) f \<and> vmap s v = Some f) \<and>
     (\<forall>a \<in> fam_nodes F \<union> pool_bytes s. page_frame a \<noteq> v)"

text \<open>The part of it that stays true when the page has been filled and other pages are mapped.\<close>

definition page_held :: "kstate \<Rightarrow> (u32 \<Rightarrow> u32 list option) \<Rightarrow> u32 \<Rightarrow> bool" where
  "page_held s F v \<longleftrightarrow> page_frame v = v \<and> v \<noteq> NULL \<and> own_pde v \<and> vmap s v \<noteq> None \<and>
     (\<forall>a \<in> fam_nodes F \<union> pool_bytes s. page_frame a \<noteq> v)"

lemma pcb_page_held: "pcb_page s F v \<Longrightarrow> page_held s F v"
  by (auto simp: pcb_page_def page_held_def)

lemma page_held_keep:
  "page_held s F v \<Longrightarrow> vmap s' v \<noteq> None \<Longrightarrow> pool_bytes s' = pool_bytes s \<Longrightarrow> page_held s' F v"
  by (simp add: page_held_def)

lemma got_pcb_page:
  assumes g: "got_pages s s1 v fs" and inv: "kernel_inv s F" and fs: "0 < length fs"
  shows "pcb_page s1 F v"
proof -
  have run: "run_ok v (length fs)" and rf: "run_frames (phys s1) (cr3 s1) v fs" and mo: "mem_only s s1"
    and v0: "v \<noteq> NULL" and new: "\<forall>k < length fs. vmap s (run_page v k) = None"
    using g by (simp_all add: got_pages_def run_frames_def)
  have r0: "run_page v 0 = v" by (simp add: run_page_def)
  note vf = run_page_frame [OF run fs, unfolded r0]
  have "fresh_table (phys s1) (cr3 s1) (fs ! 0) \<and> vmap s1 v = Some (fs ! 0)"
    using rf fs unfolding run_frames_def by (metis r0)
  moreover have "page_frame a \<noteq> v" if "a \<in> fam_nodes F \<union> pool_bytes s1" for a
  proof -
    have "held s (fam_nodes F \<union> pool_bytes s)" using inv by (simp add: kernel_inv_def held_Un)
    moreover have "pool_bytes s1 = pool_bytes s" by (simp add: pool_bytes_def mem_only_sel [OF mo])
    ultimately show ?thesis using held_outside(1) [OF _ _ run, of s "fam_nodes F \<union> pool_bytes s" a] that new fs r0 by metis
  qed
  ultimately show ?thesis using vf v0 unfolding pcb_page_def by blast
qed

lemma page_range:
  assumes "page_frame v = v" "in_range a v n" "n \<le> 4096"
  shows "page_frame a = v"
proof -
  have k: "unat (page_offset v) + unat (a - v) < 4096"
    using assms page_offset_frame [OF assms(1)] by (simp add: in_range_def)
  have "a = v + of_nat (unat (a - v))" by simp
  then show ?thesis using page_offset_add(1) [OF k] assms(1) by metis
qed

text \<open>memset over the start of such a page.\<close>

lemma kmemset0_pcb:
  assumes inv: "kernel_inv s F" and p: "pcb_page s F v" and n: "unat n \<le> 4096"
  shows "\<exists>ph. kmemset0 s v n = Inr ((clear_typed s v (unat n))\<lparr>phys := ph\<rparr>) \<and>
    quiet s ((clear_typed s v (unat n))\<lparr>phys := ph\<rparr>) \<and> (\<forall>x \<in> fam_nodes F. \<not> in_range x v (unat n)) \<and>
    (\<forall>f. vmap s v = Some f \<longrightarrow> (\<forall>a. page_frame a \<noteq> f \<longrightarrow> ph a = phys s a))"
proof -
  obtain f where f: "fresh_table (phys s) (cr3 s) f" "vmap s v = Some f" using p by (auto simp: pcb_page_def)
  have v: "page_frame v = v" "v \<noteq> NULL" using p by (simp_all add: pcb_page_def)
  have wf: "pt_wf (phys s) (cr3 s)" using inv by (simp add: kernel_inv_def phys_inv_def)
  have "unat n div 4 \<le> 1024" using n by simp
  then obtain ph where ph: "zero_words s v (unat n div 4) = Inr (s\<lparr>phys := ph\<rparr>)"
    "words_put (phys s) ph f 0 (unat n div 4) (\<lambda>_. 0)"
    using zero_words_page [OF wf f(1) v(1) f(2), of 0 "unat n div 4"] by auto
  have out: "ph a = phys s a" if "page_frame a \<noteq> f" for a by (rule words_put_out [OF ph(2) that])
  note keep = outside_tables [OF wf f(1) out]
  have away: "\<not> in_range a v (unat n)" if "a \<in> fam_nodes F \<union> pool_bytes s" for a
    using page_range [OF v(1) _ n] p that by (auto simp: pcb_page_def)
  then have "quiet s ((clear_typed s v (unat n))\<lparr>phys := ph\<rparr>)"
    by (simp add: quiet_def clear_typed_def keep(1,2) wipe_def)
  then show ?thesis
    using ph(1) v(2) away out f(2) by (intro exI [of _ ph]) (simp add: kmemset0_def clear_typed_phys)
qed

section \<open>init_thread\<close>

definition new_pcb :: "kstate \<Rightarrow> u32 \<Rightarrow> string \<Rightarrow> u32 \<Rightarrow> task_struct" where
  "new_pcb s v name prio = zero_task\<lparr>self_kstack := v + PG_SIZE, pid := next_pid s + 1,
     status := if v = main_thread s then TASK_RUNNING else TASK_READY, task_name := name,
     priority := ucast prio, task_ticks := ucast prio, stack_magic := 0x19980906\<rparr>"

definition pcb_made :: "kstate \<Rightarrow> kstate \<Rightarrow> u32 \<Rightarrow> task_struct \<Rightarrow> bool" where
  "pcb_made s s' v t \<longleftrightarrow> tasks s' = (tasks s)(v := t) \<and> next_pid s' = next_pid s + 1 \<and>
     main_thread s' = main_thread s \<and> eflags s' = eflags s \<and> thread_stacks s' = thread_stacks s \<and>
     intr_stacks s' = intr_stacks s \<and> quiet s s' \<and> same_locks s s' \<and> (\<forall>x. page_frame x \<noteq> v \<longrightarrow> lheap s' x = lheap s x) \<and>
     (\<forall>x. page_frame x \<noteq> v \<longrightarrow> descs s' x = descs s x) \<and>
     (\<forall>f. vmap s v = Some f \<longrightarrow> (\<forall>a. page_frame a \<noteq> f \<longrightarrow> phys s' a = phys s a))"

lemma SIZEOF_TASK_240: "unat SIZEOF_TASK_STRUCT = 240"
  by (simp add: SIZEOF_TASK_STRUCT_def)

lemma update_task_const: "update_task v f s = update_task v (\<lambda>_. f (tasks s v)) s"
  by (simp add: update_task_def)

lemma update_task_update: "update_task v (\<lambda>_. t) (update_task v f s) = update_task v (\<lambda>_. t) s"
  by (simp add: update_task_def)

lemma init_thread_ok:
  assumes inv: "kernel_inv s F" and p: "pcb_page s F v" and name: "length name < 16"
  obtains s' where "init_thread s v name prio = Inr s'" "pcb_made s s' v (new_pcb s v name prio)" "kernel_inv s' F"
proof -
  obtain ph where ph: "kmemset0 s v SIZEOF_TASK_STRUCT = Inr ((clear_typed s v 240)\<lparr>phys := ph\<rparr>)"
    "quiet s ((clear_typed s v 240)\<lparr>phys := ph\<rparr>)" "\<forall>x \<in> fam_nodes F. \<not> in_range x v 240"
    "\<forall>f. vmap s v = Some f \<longrightarrow> (\<forall>a. page_frame a \<noteq> f \<longrightarrow> ph a = phys s a)"
    using kmemset0_pcb [OF inv p, of SIZEOF_TASK_STRUCT] by (auto simp: SIZEOF_TASK_240)
  define s1 where "s1 = (clear_typed s v 240)\<lparr>phys := ph, tasks := (tasks s)(v := zero_task\<lparr>task_name := name\<rparr>),
    descs := wipe v 240 \<lparr>block_size = 0, blocks_per_arena = 0\<rparr> (descs s)\<rparr>"
  have q1: "quiet s s1" using ph(2) by (auto simp: s1_def quiet_def clear_typed_def)
  have locks1: "same_locks s s1" by (simp add: same_locks_def s1_def clear_typed_def)
  have fam: "k_family s F" and held: "held s (fam_nodes F)" using inv by (simp_all add: kernel_inv_def lock_ready_def)
  have fam1: "k_family s1 F"
    by (rule k_family_cong [OF fam]) (use ph(3) in \<open>simp add: s1_def clear_typed_def wipe_def\<close>)
  have inv1: "kernel_inv s1 F" by (rule kernel_inv_step [OF inv q1 locks1 fam1 held])
  define s' where "s' = update_task v (\<lambda>_. new_pcb s v name prio) (s1\<lparr>next_pid := next_pid s + 1\<rparr>)"
  have sel: "tasks s1 v = zero_task\<lparr>task_name := name\<rparr>" "main_thread s1 = main_thread s" "next_pid s1 = next_pid s"
    "main_thread (s1\<lparr>next_pid := np\<rparr>) = main_thread s" for np
    by (simp_all add: s1_def clear_typed_def)
  have "memset_pcb s v = Inr (s1\<lparr>tasks := (tasks s)(v := zero_task)\<rparr>)"
    by (simp add: memset_pcb_def ph(1) SIZEOF_TASK_240) (simp add: s1_def clear_typed_def)
  moreover have "copy_name (s1\<lparr>tasks := (tasks s)(v := zero_task)\<rparr>) v name = Inr s1"
    using name by (simp add: copy_name_def update_task_def) (simp add: s1_def clear_typed_def)
  moreover have "allocate_pid s1 = Inr (next_pid s + 1, s1\<lparr>next_pid := next_pid s + 1\<rparr>)"
    using allocate_pid_ok [of s1 F] inv1 by (simp add: kernel_inv_def sel)
  ultimately have "init_thread s v name prio = Inr (update_task v (\<lambda>t. t\<lparr>priority := ucast prio, task_ticks := ucast prio,
      elapsed_ticks := 0, pgdir := NULL, self_kstack := v + PG_SIZE, stack_magic := 0x19980906\<rparr>)
      (update_task v (\<lambda>t. t\<lparr>status := if v = main_thread s then TASK_RUNNING else TASK_READY\<rparr>)
        (update_task v (\<lambda>t. t\<lparr>pid := next_pid s + 1\<rparr>) (s1\<lparr>next_pid := next_pid s + 1\<rparr>))))"
    by (simp only: init_thread_def bindR.simps case_prod_conv Let_def update_task_sel kstate.simps sel)
  moreover have "\<dots> = Inr s'"
    unfolding s'_def update_task_const [of v _ "update_task v _ _"] update_task_update
    by (simp add: sel new_pcb_def zero_task_def)
  ultimately have "init_thread s v name prio = Inr s'" by simp
  moreover have "pcb_made s s' v (new_pcb s v name prio)"
  proof -
    have vf: "page_frame v = v" using p by (simp add: pcb_page_def)
    have "\<not> in_range x v 240" if "page_frame x \<noteq> v" for x using page_range [OF vf, of x 240] that by auto
    then have "lheap s' x = lheap s x \<and> descs s' x = descs s x" if "page_frame x \<noteq> v" for x
      using that by (simp add: s'_def update_task_def s1_def clear_typed_def wipe_def)
    moreover have "quiet s s'" by (rule quiet_trans [OF q1 quiet_same]) (simp_all add: s'_def update_task_def)
    moreover have "same_locks s s'" using locks1 by (simp add: same_locks_def s'_def)
    moreover have "tasks s' = (tasks s)(v := new_pcb s v name prio)" "next_pid s' = next_pid s + 1"
      "main_thread s' = main_thread s" "eflags s' = eflags s" "thread_stacks s' = thread_stacks s" "intr_stacks s' = intr_stacks s"
      by (simp_all add: s'_def update_task_def s1_def clear_typed_def)
    moreover have "phys s' = ph" by (simp add: s'_def update_task_def s1_def)
    ultimately show ?thesis using ph(4) unfolding pcb_made_def by blast
  qed
  moreover have "kernel_inv s' F"
  proof (rule kernel_inv_step [OF inv1])
    show "quiet s1 s'" by (rule quiet_same) (simp_all add: s'_def update_task_def)
    show "same_locks s1 s'" by (simp add: same_locks_def s'_def)
    show "k_family s' F" using fam1 by (simp add: k_family_def s'_def)
    show "held s1 (fam_nodes F)" using held held_quiet [OF q1] by simp
  qed
  ultimately show thesis using that by blast
qed

text \<open>A PCB is written in a page that was free, so other address spaces do not notice.\<close>

lemma pcb_made_space:
  assumes g: "got_pages s s1 v fs" "length fs = 1" and inv: "phys_inv s" and p: "pcb_made s1 s2 v t"
  shows "space_frame s s2"
proof -
  obtain f where fs: "fs = [f]" using g(2) by (auto simp: length_Suc_conv)
  have "run_frames (phys s1) (cr3 s1) v [f]" and sf: "space_frame s s1" and new: "fresh_pages s s1 PF_KERNEL fs"
    using g(1) by (simp_all add: got_pages_def fs)
  then have "vmap s1 v = Some f" by (metis run_frames_tl(3))
  then have "phys s2 a = phys s1 a" if "page_frame a \<notin> set fs" for a using p that by (simp add: pcb_made_def fs)
  moreover have "quiet s1 s2" using p by (simp add: pcb_made_def)
  ultimately show ?thesis by (intro space_frame_quiet [OF sf _ _ inv new])
qed

section \<open>The lists of threads\<close>

lemma tag_page:
  assumes "page_frame v = v"
  shows "page_frame (general_tag v) = v" "page_frame (all_list_tag v) = v" "all_list_tag v \<noteq> general_tag v"
proof -
  have "page_frame (v + of_nat k) = v" if "k < 4096" for k
    using page_offset_add(1) [of v k] page_offset_frame [OF assms] that assms by simp
  from this [of 36] this [of 44] show "page_frame (general_tag v) = v" "page_frame (all_list_tag v) = v"
    by (simp_all add: general_tag_def all_list_tag_def)
  show "all_list_tag v \<noteq> general_tag v" by (simp add: general_tag_def all_list_tag_def)
qed

lemma add_ready_ok:
  assumes "k_family s F" "F THREAD_READY_LIST = Some rs" "general_tag v \<notin> fam_nodes F"
  shows "add_ready s v = Inr (list_append s THREAD_READY_LIST (general_tag v))"
    "k_family (list_append s THREAD_READY_LIST (general_tag v)) (F(THREAD_READY_LIST \<mapsto> rs @ [general_tag v]))"
proof -
  have "general_tag v \<notin> set rs" using assms(2,3) by (auto simp: fam_nodes_def dl_nodes_def)
  then show "add_ready s v = Inr (list_append s THREAD_READY_LIST (general_tag v))"
    using elem_find_family [OF assms(1,2)] by (simp add: add_ready_def)
qed (rule kl.append_law [OF assms])

lemma add_all_ok:
  assumes "k_family s F" "F THREAD_ALL_LIST = Some ts" "all_list_tag v \<notin> fam_nodes F"
  shows "add_all s v = Inr (list_append s THREAD_ALL_LIST (all_list_tag v))"
    "k_family (list_append s THREAD_ALL_LIST (all_list_tag v)) (F(THREAD_ALL_LIST \<mapsto> ts @ [all_list_tag v]))"
proof -
  have "all_list_tag v \<notin> set ts" using assms(2,3) by (auto simp: fam_nodes_def dl_nodes_def)
  then show "add_all s v = Inr (list_append s THREAD_ALL_LIST (all_list_tag v))"
    using elem_find_family [OF assms(1,2)] by (simp add: add_all_def)
qed (rule kl.append_law [OF assms])

text \<open>Both lists get the new thread at their ends, and the invariant holds for them.\<close>

definition listed :: "(u32 \<Rightarrow> u32 list option) \<Rightarrow> u32 list \<Rightarrow> u32 list \<Rightarrow> u32 \<Rightarrow> u32 \<Rightarrow> u32 list option" where
  "listed F rs ts v = F(THREAD_READY_LIST \<mapsto> rs @ [general_tag v], THREAD_ALL_LIST \<mapsto> ts @ [all_list_tag v])"

lemma listed_nodes:
  assumes "F THREAD_READY_LIST = Some rs" "F THREAD_ALL_LIST = Some ts"
  shows "fam_nodes (listed F rs ts v) = insert (all_list_tag v) (insert (general_tag v) (fam_nodes F))"
proof -
  have "THREAD_ALL_LIST \<noteq> THREAD_READY_LIST" by (simp add: THREAD_ALL_LIST_def THREAD_READY_LIST_def)
  then show ?thesis
    using kl.fam_nodes_append [of "F(THREAD_READY_LIST \<mapsto> rs @ [general_tag v])" THREAD_ALL_LIST ts "[all_list_tag v]"]
      kl.fam_nodes_append [of F THREAD_READY_LIST rs "[general_tag v]"] assms by (simp add: listed_def)
qed

lemma add_both:
  assumes inv: "kernel_inv s F" and p: "page_held s F v"
    and R: "F THREAD_READY_LIST = Some rs" and A: "F THREAD_ALL_LIST = Some ts"
  defines "s' \<equiv> list_append (list_append s THREAD_READY_LIST (general_tag v)) THREAD_ALL_LIST (all_list_tag v)"
  shows "bindR (add_ready s v) (\<lambda>s1. add_all s1 v) = Inr s'" "kernel_inv s' (listed F rs ts v)" "quiet s s'"
    "general_tag v \<notin> fam_nodes F"
proof -
  have vf: "page_frame v = v" using p by (simp add: page_held_def)
  note tags = tag_page [OF vf]
  show fresh: "general_tag v \<notin> fam_nodes F" using p tags by (auto simp: page_held_def)
  have fresh': "all_list_tag v \<notin> fam_nodes F" using p tags by (auto simp: page_held_def)
  have fam: "k_family s F" using inv by (simp add: kernel_inv_def lock_ready_def)
  have ne: "THREAD_ALL_LIST \<noteq> THREAD_READY_LIST" by (simp add: THREAD_ALL_LIST_def THREAD_READY_LIST_def)
  let ?F1 = "F(THREAD_READY_LIST \<mapsto> rs @ [general_tag v])"
  note r1 = add_ready_ok [OF fam R fresh]
  have nodes1: "fam_nodes ?F1 = fam_nodes F \<union> {general_tag v}" using kl.fam_nodes_append [of F THREAD_READY_LIST rs "[general_tag v]"] R by simp
  have A1: "?F1 THREAD_ALL_LIST = Some ts" using A ne by simp
  have "all_list_tag v \<notin> fam_nodes ?F1" using fresh' tags(3) by (simp add: nodes1)
  note r2 = add_all_ok [OF r1(2) A1 this]
  show "bindR (add_ready s v) (\<lambda>s1. add_all s1 v) = Inr s'" by (simp add: r1(1) r2(1) s'_def)
  show q: "quiet s s'" by (rule quiet_same) (simp_all add: s'_def list_append_eq)
  note nodes = listed_nodes [OF R A, of v]
  have f: "vmap s v \<noteq> None" "own_pde v" using p by (simp_all add: page_held_def)
  have "own_pde a \<and> vmap s a \<noteq> None" if "page_frame a = v" for a
    using mmu_walk_None_frame [of v a "phys s" "cr3 s"] own_pde_frame [of a v] that f vf by auto
  then have "held s (fam_nodes (listed F rs ts v))"
    using inv tags by (auto simp: nodes held_def kernel_inv_def)
  then show "kernel_inv s' (listed F rs ts v)"
    by (intro kernel_inv_step [OF inv q])
      (use r2(2) in \<open>simp_all add: s'_def same_locks_def list_append_eq listed_def\<close>)
qed

section \<open>thread_start\<close>

definition first_frame :: "fptr \<Rightarrow> u32 \<Rightarrow> thread_stack \<Rightarrow> thread_stack" where
  "first_frame f arg st = st\<lparr>ts_ebp := 0, ts_ebx := 0, ts_edi := 0, ts_esi := 0, ts_eip := ''kernel_thread'',
     ts_function := f, ts_func_arg := arg\<rparr>"

lemma thread_create_eq:
  assumes "self_kstack (tasks s v) = v + PG_SIZE"
  shows "thread_create s v f arg = s\<lparr>tasks := (tasks s)(v := (tasks s v)\<lparr>self_kstack := v + 0xe50\<rparr>),
    thread_stacks := (thread_stacks s)(v + 0xe50 := first_frame f arg (thread_stacks s (v + 0xe50)))\<rparr>"
  using assms
  by (simp add: thread_create_def Let_def update_task_def ptr_sub_def SIZEOF_INTR_STACK_def
      SIZEOF_THREAD_STACK_def PG_SIZE_def first_frame_def add.commute [of _ v])

definition started :: "kstate \<Rightarrow> kstate \<Rightarrow> u32 \<Rightarrow> string \<Rightarrow> u32 \<Rightarrow> fptr \<Rightarrow> u32 \<Rightarrow> bool" where
  "started s s' v name prio f arg \<longleftrightarrow> page_frame v = v \<and> v \<noteq> NULL \<and> own_pde v \<and> vmap s v = None \<and> vmap s' v \<noteq> None \<and>
     tasks s' = (tasks s)(v := (new_pcb s v name prio)\<lparr>self_kstack := v + 0xe50\<rparr>) \<and>
     thread_stacks s' = (thread_stacks s)(v + 0xe50 := first_frame f arg (thread_stacks s (v + 0xe50))) \<and>
     next_pid s' = next_pid s + 1 \<and> main_thread s' = main_thread s \<and> cr3 s' = cr3 s \<and> cur s' = cur s \<and> eflags s' = eflags s \<and>
     space_frame s s'"

lemma thread_start_run:
  assumes inv: "kernel_inv s F" and room: "roomy s (Suc n)" and name: "length name < 16"
    and R: "F THREAD_READY_LIST = Some rs" and A: "F THREAD_ALL_LIST = Some ts"
  shows "\<exists>v s'. thread_start s name prio f arg = Inr (v, s') \<and> started s s' v name prio f arg \<and>
    kernel_inv s' (listed F rs ts v) \<and> general_tag v \<notin> fam_nodes F \<and> roomy s' n \<and> (\<forall>A. held s A \<longrightarrow> held s' A)"
proof -
  have room1: "room_for s 1" by (rule roomy_room [OF roomy_mono [OF room]]) simp_all
  obtain v s1 fs where g: "get_kernel_pages s 1 = Inr (v, s1)" "got_pages s s1 v fs" "length fs = 1" "kernel_inv s1 F"
    using get_pages [OF inv room1] by (metis unsigned_1)
  have mo: "mem_only s s1" using g(2) by (simp add: got_pages_def)
  note sel1 = mem_only_sel [OF mo]
  have p1: "pcb_page s1 F v" by (rule got_pcb_page [OF g(2) inv]) (simp add: g(3))
  have vf: "page_frame v = v" using p1 by (simp add: pcb_page_def)
  obtain s2 where s2: "init_thread s1 v name prio = Inr s2" "pcb_made s1 s2 v (new_pcb s1 v name prio)" "kernel_inv s2 F"
    using init_thread_ok [OF g(4) p1 name] by blast
  have new: "new_pcb s1 v name prio = new_pcb s v name prio" by (simp add: new_pcb_def sel1)
  define s3 where "s3 = thread_create s2 v f arg"
  have s3: "s3 = s2\<lparr>tasks := (tasks s2)(v := (tasks s2 v)\<lparr>self_kstack := v + 0xe50\<rparr>),
    thread_stacks := (thread_stacks s2)(v + 0xe50 := first_frame f arg (thread_stacks s2 (v + 0xe50)))\<rparr>"
    unfolding s3_def by (rule thread_create_eq) (use s2(2) in \<open>simp add: pcb_made_def new_pcb_def\<close>)
  have q13: "quiet s1 s3" by (rule quiet_trans [of _ s2]) (use s2(2) in \<open>simp_all add: pcb_made_def s3 quiet_same\<close>)
  have inv3: "kernel_inv s3 F"
    by (rule kernel_inv_step [OF s2(3)])
      (use s2(3) in \<open>simp_all add: s3 quiet_same same_locks_def k_family_def kernel_inv_def lock_ready_def\<close>)
  have p3: "pcb_page s3 F v"
    using p1 q13 quiet_bytes [OF q13] by (simp add: pcb_page_def quiet_def fresh_table_def)
  note ab = add_both [OF inv3 pcb_page_held [OF p3] R A]
  let ?s' = "list_append (list_append s3 THREAD_READY_LIST (general_tag v)) THREAD_ALL_LIST (all_list_tag v)"
  have "thread_start s name prio f arg = bindR (bindR (add_ready s3 v) (\<lambda>s4. add_all s4 v)) (\<lambda>s5. Inr (v, s5))"
    by (simp add: thread_start_def g(1) s2(1) s3_def [symmetric] bindR_assoc)
  then have run: "thread_start s name prio f arg = Inr (v, ?s')" by (simp add: ab(1))
  have q: "quiet s1 ?s'" by (rule quiet_trans [OF q13 ab(3)])
  have q23: "quiet s2 ?s'" by (rule quiet_trans [of _ s3]) (use ab(3) in \<open>simp_all add: s3 quiet_same\<close>)
  have "phys ?s' = phys s2" by (simp add: s3 list_append_eq)
  then have "space_frame s2 ?s'" by (rule space_frame_same [OF q23])
  moreover have "phys_inv s" using inv by (simp add: kernel_inv_def)
  note pcb_made_space [OF g(2,3) this s2(2)]
  ultimately have sf: "space_frame s ?s'" using space_frame_trans by blast
  have "vmap s1 v \<noteq> None" using p1 by (auto simp: pcb_page_def)
  moreover have "vmap s v = None" using g(2,3) by (auto simp: got_pages_def run_page_def dest: spec [of _ 0])
  ultimately have "started s ?s' v name prio f arg"
    using s2(2) p1 sf by (simp add: started_def pcb_page_def quiet_vmap [OF q] pcb_made_def s3 new sel1 list_append_eq same_locks_def quiet_def)
  moreover have "roomy ?s' n"
  proof -
    have "vpool_inv s PF_KERNEL" using inv by (simp add: kernel_inv_def)
    then have "roomy s1 n" using roomy_got [OF _ g(2), of n] room g(3) by simp
    then show ?thesis by (simp add: roomy_quiet [OF q])
  qed
  moreover have "held ?s' A" if "held s A" for A using got_held [OF g(2) that] held_quiet [OF q] by simp
  ultimately show ?thesis using run ab(2,4) by blast
qed

text \<open>A page that was not mapped holds none of the addresses in use.\<close>

lemma held_not_in_page:
  assumes "held s A" "vmap s v = None" "page_frame v = v" "page_frame a = v"
  shows "a \<notin> A"
proof
  assume "a \<in> A"
  moreover have "vmap s a = None" by (rule mmu_walk_None_frame [of a v]) (use assms in simp_all)
  ultimately show False using assms(1) by (auto simp: held_def)
qed

lemma new_thread_sched:
  assumes v: "page_frame v = v" "v \<noteq> NULL" "vmap s v = None" and cur': "cur s' = cur s"
    and tasks': "tasks s' = (tasks s)(v := t)" and ready: "status t = TASK_READY"
    and inv': "kernel_inv s' (listed F (map general_tag rs) ts v)"
    and A: "F THREAD_ALL_LIST = Some ts" and held: "held s Ts"
    and inv: "sched_inv s F rs Ts D" and dirs: "dirs_ok s' (insert v Ts) D'"
  shows "v \<notin> Ts" "sched_inv s' (listed F (map general_tag rs) ts v) (rs @ [v]) (insert v Ts) D'"
proof -
  have core: "sched_core s F rs Ts D" and run: "status (tasks s (cur s)) = TASK_RUNNING"
    and tag: "general_tag (cur s) \<notin> fam_nodes F" using inv by (simp_all add: sched_inv_def)
  note out = held_not_in_page [OF held v(3,1)]
  show new: "v \<notin> Ts" by (rule out) (rule v(1))
  have pcb: "status (tasks s' v) = TASK_READY" by (simp add: tasks' ready)
  have old: "tasks s' t = tasks s t" if "t \<in> Ts" for t using that new by (auto simp: tasks')
  let ?F = "listed F (map general_tag rs) ts v"
  have ne: "THREAD_ALL_LIST \<noteq> THREAD_READY_LIST" by (simp add: THREAD_ALL_LIST_def THREAD_READY_LIST_def)
  have R: "F THREAD_READY_LIST = Some (map general_tag rs)" and cT: "cur s \<in> Ts" using core by (simp_all add: sched_core_def)
  have "k_family s' ?F" using inv' by (simp add: kernel_inv_def lock_ready_def)
  moreover have "\<forall>t \<in> insert v Ts. t \<in> set (rs @ [v]) \<longleftrightarrow> status (tasks s' t) = TASK_READY"
  proof
    fix t assume that: "t \<in> insert v Ts"
    show "t \<in> set (rs @ [v]) \<longleftrightarrow> status (tasks s' t) = TASK_READY"
    proof (cases "t = v")
      case False
      then have "t \<in> Ts" "tasks s' t = tasks s t" using that old by simp_all
      then show ?thesis using core False unfolding sched_core_def by simp
    qed (simp add: pcb)
  qed
  moreover have "\<forall>t \<in> insert v Ts. status (tasks s' t) = TASK_RUNNING \<longrightarrow> t = cur s"
  proof (intro ballI impI)
    fix t assume that: "t \<in> insert v Ts" "status (tasks s' t) = TASK_RUNNING"
    show "t = cur s"
    proof (cases "t = v")
      case False
      then have "t \<in> Ts" "tasks s' t = tasks s t" using that old by simp_all
      then show ?thesis using core that(2) unfolding sched_core_def by simp
    qed (use that(2) pcb in simp)
  qed
  moreover have "?F THREAD_READY_LIST = Some (map general_tag (rs @ [v]))" using ne by (simp add: listed_def)
  moreover have "cur s \<in> insert v Ts" "NULL \<notin> insert v Ts" "set (rs @ [v]) \<subseteq> insert v Ts"
    using cT v(2) core by (auto simp: sched_core_def)
  ultimately have core': "sched_core s' ?F (rs @ [v]) (insert v Ts) D'"
    using dirs unfolding sched_core_def cur' by (intro conjI)
  note listed_nodes [OF R A, of v]
  moreover have "general_tag (cur s) \<noteq> all_list_tag v"
  proof
    assume "general_tag (cur s) = all_list_tag v"
    then have "cur s = v + of_nat 8" by (simp add: general_tag_def all_list_tag_def algebra_simps)
    then have "page_frame (cur s) = v"
      using page_offset_add(1) [of v 8] page_offset_frame [OF v(1)] v(1) by simp
    then show False using out cT by blast
  qed
  ultimately have "general_tag (cur s') \<notin> fam_nodes ?F" using tag new cT by (auto simp: cur')
  then show "sched_inv s' ?F (rs @ [v]) (insert v Ts) D'"
    using core' run old [OF cT] by (simp add: sched_inv_def cur')
qed

section \<open>The state of the whole kernel\<close>

text \<open>
  The invariants of memory, locks, lists, address spaces and scheduler at once, while a kernel thread
  runs: \<open>rs\<close> are the ready threads in order, \<open>Ts\<close> all threads, \<open>D\<close> their directories.
\<close>

definition system_inv ::
  "kstate \<Rightarrow> (u32 \<Rightarrow> u32 list option) \<Rightarrow> u32 list \<Rightarrow> u32 set \<Rightarrow> (u32 \<Rightarrow> u32) \<Rightarrow> bool" where
  "system_inv s F rs Ts D \<longleftrightarrow> kernel_inv s F \<and> sched_inv s F rs Ts D \<and> spaces s Ts D \<and> held s Ts \<and>
     main_thread s \<in> Ts \<and> F THREAD_ALL_LIST \<noteq> None"

text \<open>A new thread, in a page of its own, whose directory is that of the kernel or one just made.\<close>

lemma new_thread_system:
  assumes inv: "system_inv s F rs Ts D" and A: "F THREAD_ALL_LIST = Some ts"
    and v: "page_frame v = v" "v \<noteq> NULL" "vmap s v = None" and same: "cur s' = cur s" "main_thread s' = main_thread s"
    and tasks': "tasks s' = (tasks s)(v := t)" and ready: "v \<noteq> main_thread s \<Longrightarrow> status t = TASK_READY"
    and inv': "kernel_inv s' (listed F (map general_tag rs) ts v)"
    and sf: "space_frame s s'" and dir: "if pgdir t = NULL then f = 0x100000 else own_space s' (pgdir t) f"
    and held: "held s' (insert v Ts)"
  shows "v \<notin> Ts" "status (tasks s' v) = TASK_READY"
    "system_inv s' (listed F (map general_tag rs) ts v) (rs @ [v]) (insert v Ts) (D(v := f))"
proof -
  have inv0: "held s Ts" "sched_inv s F rs Ts D" "spaces s Ts D" and main: "main_thread s \<in> Ts"
    using inv by (simp_all add: system_inv_def)
  then have cT: "cur s \<in> Ts" and c: "cr3 s = D (cur s)" by (simp_all add: sched_inv_def sched_core_def dirs_ok_def)
  show new: "v \<notin> Ts" by (rule held_not_in_page [OF inv0(1) v(3,1) v(1)])
  have st: "status t = TASK_READY" by (rule ready) (use main new in auto)
  then show "status (tasks s' v) = TASK_READY" by (simp add: tasks')
  have "spaces s' Ts D" by (rule spaces_frame [OF sf inv0(3)]) (use new in \<open>auto simp: tasks'\<close>)
  then have sp: "spaces s' (insert v Ts) (D(v := f))" by (rule spaces_insert [OF _ new]) (use dir in \<open>simp add: tasks'\<close>)
  have cr: "cr3 s' = cr3 s" using sf by (simp add: space_frame_def)
  have "dirs_ok s' (insert v Ts) (D(v := f))"
    by (rule spaces_dirs [OF sp]) (use inv' c cT new in \<open>auto simp: kernel_inv_def phys_inv_def same cr\<close>)
  from new_thread_sched(2) [OF v same(1) tasks' st inv' A inv0(1,2) this] inv' sp held main
  show "system_inv s' (listed F (map general_tag rs) ts v) (rs @ [v]) (insert v Ts) (D(v := f))"
    by (simp add: system_inv_def same listed_def)
qed

lemma thread_start_system:
  assumes "system_inv s F rs Ts D" "roomy s (Suc n)" "length name < 16"
  shows "\<exists>v s' F'. thread_start s name prio f arg = Inr (v, s') \<and> started s s' v name prio f arg \<and>
    v \<notin> Ts \<and> status (tasks s' v) = TASK_READY \<and> roomy s' n \<and>
    system_inv s' F' (rs @ [v]) (insert v Ts) (D(v := 0x100000))"
proof -
  have inv: "kernel_inv s F" "F THREAD_READY_LIST = Some (map general_tag rs)" "held s Ts"
    using assms(1) by (simp_all add: system_inv_def sched_inv_def sched_core_def)
  obtain ts where A: "F THREAD_ALL_LIST = Some ts" using assms(1) by (auto simp: system_inv_def)
  obtain v s' where v: "thread_start s name prio f arg = Inr (v, s')" "started s s' v name prio f arg"
    "kernel_inv s' (listed F (map general_tag rs) ts v)" "\<And>A. held s A \<Longrightarrow> held s' A" "roomy s' n"
    using thread_start_run [OF inv(1) assms(2,3) inv(2) A] by blast
  have "held s' (insert v Ts)" using v(4) [OF inv(3)] v(2) by (auto simp: held_def started_def)
  from new_thread_system [OF assms(1) A _ _ _ _ _ _ _ v(3) _ _ this, of "(new_pcb s v name prio)\<lparr>self_kstack := v + 0xe50\<rparr>" "0x100000"] v(2)
  have "v \<notin> Ts" "status (tasks s' v) = TASK_READY"
    "system_inv s' (listed F (map general_tag rs) ts v) (rs @ [v]) (insert v Ts) (D(v := 0x100000))"
    by (simp_all add: started_def new_pcb_def zero_task_def)
  then show ?thesis using v(1,2,5) by blast
qed

text \<open>
  C9. thread_start works: when a page can be had, it maps a fresh zeroed page, makes it the PCB of a
  READY thread with the next process id, puts the first frame for kernel_thread on the thread's
  stack, 432 bytes below the end of the page, and puts the thread at the end of the ready queue. Whatever
  threads and processes there are, the invariants of the whole kernel are kept, so that thread_start
  can be called again and the scheduler will run the thread, in the address space of the kernel.
  Room for one page more than \<open>n\<close> leaves room for \<open>n\<close>.
\<close>

theorem thread_start_ready:
  assumes "system_inv s F rs Ts D" "roomy s (Suc n)" "length name < 16"
  shows "\<exists>v s' F'. thread_start s name prio f arg = Inr (v, s') \<and> started s s' v name prio f arg \<and>
    v \<notin> Ts \<and> status (tasks s' v) = TASK_READY \<and> roomy s' n \<and>
    system_inv s' F' (rs @ [v]) (insert v Ts) (D(v := 0x100000))"
  by (rule thread_start_system [OF assms])

end
