(* ===== verification/Boot.thy ===== *)
theory Boot
  imports Thread_Props
begin

text \<open>
  The start: the page tables that boot/loader.S leaves, and mem_init and thread_init of kernel/memory.c
  and thread/thread.c on them. Together they establish the invariants on which the rest of the
  kernel relies.
\<close>

section \<open>The page tables of the boot loader\<close>

text \<open>
  Directory entries 0 and 768 name the table at 0x101000, which maps the first megabyte, entries 769
  to 1022 the tables from 0x102000 on, and the last entry the directory itself, at 0x100000. The
  loader clears the directory only; the tables are taken to be zero otherwise, as memory is when
  the machine is switched on. The word at 0xb00 is the size of the memory.
\<close>

definition boot_table :: "nat \<Rightarrow> nat" where
  "boot_table i = (if i = 0 \<or> i = 768 then 0x101 else if i = 1023 then 0x100 else 0x102 + (i - 769))"

definition boot_pde :: "nat \<Rightarrow> u32" where
  "boot_pde i = (if i = 0 \<or> 768 \<le> i then of_nat (boot_table i * 4096 + 7) else 0)"

definition boot_phys :: "u32 \<Rightarrow> u32 \<Rightarrow> u32" where
  "boot_phys all_mem a =
     (if a = 0xb00 then all_mem
      else if page_frame a = 0x100000 then boot_pde (unat (page_offset a) div 4)
      else if page_frame a = 0x101000 \<and> unat (page_offset a) < 0x400 then of_nat (unat (page_offset a) div 4 * 4096 + 7)
      else 0)"

lemma entry_frame:
  assumes "k < 1048576"
  shows "page_frame (of_nat (k * 4096 + 7)) = of_nat (k * 4096)" "present (of_nat (k * 4096 + 7))"
    "unat (of_nat (k * 4096) :: u32) = k * 4096" "page_frame (of_nat (k * 4096)) = of_nat (k * 4096)"
proof -
  have u: "unat (of_nat (k * 4096 + 7) :: u32) = k * 4096 + 7" "unat (of_nat (k * 4096) :: u32) = k * 4096"
    using assms by (simp_all only: unat_of_nat) simp_all
  then show "unat (of_nat (k * 4096) :: u32) = k * 4096" by blast
  show "page_frame (of_nat (k * 4096 + 7)) = of_nat (k * 4096)" "page_frame (of_nat (k * 4096)) = of_nat (k * 4096)"
    using u by (intro u32_eqI, simp add: unat_page_frame)+
  have "odd (of_nat (k * 4096 + 7) :: u32)" by simp
  then show "present (of_nat (k * 4096 + 7))" by (simp add: present_bit bit_0)
qed

lemma boot_table_lt: "i < 1024 \<Longrightarrow> i = 0 \<or> 768 \<le> i \<Longrightarrow> boot_table i < 0x200 \<and> 0x100 \<le> boot_table i"
  by (auto simp: boot_table_def)

lemma unat_word_offset: "unat (i :: u32) < 1024 \<Longrightarrow> unat (i * 4) = unat i * 4"
  by (simp add: unat_mult_u32)

lemma boot_word:
  assumes "page_frame T = T" "unat i < 1024" "T \<noteq> 0"
  shows "boot_phys M (T + i * 4) = (if T = 0x100000 then boot_pde (unat i)
    else if T = 0x101000 \<and> unat i < 256 then of_nat (unat i * 4096 + 7) else 0)"
proof -
  define a where "a = T + i * 4"
  have a: "page_frame a = T" "page_offset a = i * 4" unfolding a_def by (rule page_word [OF assms(1,2)])+
  have u: "unat (i * 4) = unat i * 4" by (rule unat_word_offset [OF assms(2)])
  have "page_frame (0xb00 :: u32) = 0" by (simp add: page_frame_def)
  then have "a \<noteq> 0xb00" using a(1) assms(3) by auto
  then show ?thesis by (simp add: a_def [symmetric] boot_phys_def a u)
qed

lemma boot_dir: "boot_phys M (pde_addr 0x100000 w) = boot_pde (unat (PDE_IDX w))"
proof -
  have f: "page_frame (0x100000 :: u32) = 0x100000" by (simp add: page_frame_def)
  show ?thesis using boot_word [OF f idx_lt(1) [of w]] by (simp add: pde_addr_def f)
qed

lemma boot_present:
  "present (boot_phys M (pde_addr 0x100000 w)) \<longleftrightarrow> PDE_IDX w = 0 \<or> 768 \<le> unat (PDE_IDX w)"
  "present (boot_phys M (pde_addr 0x100000 w)) \<Longrightarrow>
    page_frame (boot_phys M (pde_addr 0x100000 w)) = of_nat (boot_table (unat (PDE_IDX w)) * 4096)"
proof -
  let ?i = "unat (PDE_IDX w)"
  have lt: "?i < 1024" by simp
  have ent: "page_frame (boot_pde ?i) = of_nat (boot_table ?i * 4096)" "present (boot_pde ?i)" if "?i = 0 \<or> 768 \<le> ?i"
    using entry_frame [of "boot_table ?i"] boot_table_lt [OF lt that] that by (simp_all add: boot_pde_def)
  have no: "\<not> present (boot_pde ?i)" if "\<not> (?i = 0 \<or> 768 \<le> ?i)" using that by (simp add: boot_pde_def present_def)
  have z: "PDE_IDX w = 0 \<longleftrightarrow> ?i = 0" by (simp add: unat_eq_0)
  show "present (boot_phys M (pde_addr 0x100000 w)) \<longleftrightarrow> PDE_IDX w = 0 \<or> 768 \<le> ?i"
    unfolding boot_dir z using ent(2) no by blast
  show "page_frame (boot_phys M (pde_addr 0x100000 w)) = of_nat (boot_table ?i * 4096)"
    if "present (boot_phys M (pde_addr 0x100000 w))"
    using that ent(1) no unfolding boot_dir by blast
qed

lemma boot_pt_wf: "pt_wf (boot_phys M) 0x100000"
proof -
  have last: "boot_phys M (page_frame 0x100000 + 4092) = boot_pde 1023"
    using boot_dir [of M "0xffffffff"] by (simp add: pde_addr_last PDE_IDX_last)
  have "page_frame (boot_pde 1023) = page_frame 0x100000 \<and> present (boot_pde 1023)"
    by (simp add: boot_pde_def boot_table_def page_frame_def present_def)
  then have "rec_slot (boot_phys M) 0x100000" by (simp add: rec_slot_def Let_def last)
  moreover have "PDE_IDX v = PDE_IDX w"
    if n0: "PDE_IDX v \<noteq> 0" "PDE_IDX w \<noteq> 0" and P: "present (boot_phys M (pde_addr 0x100000 v))" "present (boot_phys M (pde_addr 0x100000 w))"
      and eq: "page_frame (boot_phys M (pde_addr 0x100000 v)) = page_frame (boot_phys M (pde_addr 0x100000 w))" for v w
  proof -
    let ?i = "unat (PDE_IDX v)" and ?j = "unat (PDE_IDX w)"
    have ge: "768 \<le> ?i" "768 \<le> ?j" "?i < 1024" "?j < 1024" using boot_present(1) P n0 by simp_all
    have t: "boot_table ?i < 1048576" "boot_table ?j < 1048576" using boot_table_lt ge by fastforce+
    have "of_nat (boot_table ?i * 4096) = (of_nat (boot_table ?j * 4096) :: u32)"
      using boot_present(2) [OF P(1)] boot_present(2) [OF P(2)] eq by simp
    then have "boot_table ?i * 4096 = boot_table ?j * 4096" using entry_frame(3) t by metis
    then have "?i = ?j" using ge by (auto simp: boot_table_def split: if_splits)
    then show ?thesis by (rule u32_eqI)
  qed
  ultimately show ?thesis unfolding pt_wf_def by blast
qed

lemma boot_walk:
  assumes "own_pde w"
  shows "mmu_walk (boot_phys M) 0x100000 w =
    (if PDE_IDX w = 768 \<and> unat (PTE_IDX w) < 256 then Some (PTE_IDX w * 4096 + page_offset w) else None)"
proof (cases "present (boot_phys M (pde_addr 0x100000 w))")
  case False
  then show ?thesis using boot_present(1) [of M w] by (auto simp: mmu_walk_def Let_def)
next
  case True
  let ?i = "unat (PDE_IDX w)" and ?j = "PTE_IDX w"
  define T where "T = (of_nat (boot_table ?i * 4096) :: u32)"
  have ge: "768 \<le> ?i" "?i < 1024" using True boot_present(1) assms by (auto simp: own_pde_def)
  have ne: "?i \<noteq> 1023" "?i = 768 \<longleftrightarrow> PDE_IDX w = 768" using assms by (auto simp: own_pde_def word_unat_eq_iff)
  have bt: "boot_table ?i < 0x200" "boot_table ?i = (if ?i = 768 then 0x101 else 0x102 + (?i - 769))"
    using boot_table_lt [OF ge(2)] ge(1) ne(1) by (simp, simp add: boot_table_def)
  have uT: "unat T = boot_table ?i * 4096" "page_frame T = T" using entry_frame(3,4) [of "boot_table ?i"] bt(1) by (simp_all add: T_def)
  have fT: "page_frame (boot_phys M (pde_addr 0x100000 w)) = T" using boot_present(2) [OF True] by (simp add: T_def)
  have T0: "T \<noteq> 0" "T \<noteq> 0x100000"
    using uT(1) ge ne(1) bt(2) by (auto simp: word_unat_eq_iff split: if_splits)
  note val = boot_word [OF uT(2) idx_lt(2) [of w] T0(1), where M = M]
  have T768: "T = 0x101000 \<longleftrightarrow> ?i = 768"
    using uT(1) bt(2) by (auto simp: word_unat_eq_iff split: if_splits)
  have "of_nat (unat ?j * 4096) = ?j * 4096" by simp
  then show ?thesis
    using True entry_frame(1,2) [of "unat ?j"] idx_lt(2) [of w] ne(2)
    by (simp add: mmu_walk_def Let_def pte_addr_def fT val T0(2) T768) (simp add: present_def)
qed

text \<open>The first megabyte above 0xc0000000.\<close>

definition low_mb :: "u32 \<Rightarrow> bool" where
  "low_mb w \<longleftrightarrow> 0xc0000000 \<le> unat w \<and> unat w < 0xc0100000"

lemma low_mb_idx: "low_mb w \<longleftrightarrow> PDE_IDX w = 768 \<and> unat (PTE_IDX w) < 256"
proof -
  define q where "q = unat w div 4096"
  have q: "unat w div 4194304 = q div 1024" by (simp add: q_def div_mult2_eq [of _ 4096 1024, simplified])
  have "low_mb w \<longleftrightarrow> 786432 \<le> q \<and> q < 786688"
    unfolding low_mb_def q_def using less_eq_div_iff_mult_less_eq [of 4096 786432 "unat w"] div_less_iff_less_mult [of 4096 "unat w" 786688] by simp
  also have "\<dots> \<longleftrightarrow> q div 1024 = 768 \<and> q mod 1024 < 256"
  proof
    assume "786432 \<le> q \<and> q < 786688"
    then have q': "786432 \<le> q" "q < 786688" by blast+
    define r where "r = q - 786432"
    have "q = r + 768 * 1024" "r < 256" unfolding r_def using q' by linarith+
    then show "q div 1024 = 768 \<and> q mod 1024 < 256" by (simp only: div_mult_self1 mod_mult_self1) simp
  next
    assume "q div 1024 = 768 \<and> q mod 1024 < 256"
    then show "786432 \<le> q \<and> q < 786688" using div_mult_mod_eq [of q 1024] by linarith
  qed
  also have "q div 1024 = 768 \<longleftrightarrow> PDE_IDX w = 768"
    unfolding q [symmetric] by (simp add: word_unat_eq_iff unat_PDE_IDX)
  finally show ?thesis by (simp add: unat_PTE_IDX q_def)
qed

lemma boot_map:
  assumes "phys s = boot_phys M" "cr3 s = 0x100000"
  shows "own_pde w \<Longrightarrow> vmap s w = (if low_mb w then Some (PTE_IDX w * 4096 + page_offset w) else None)"
    and "low_mb w \<Longrightarrow> own_pde w"
  unfolding low_mb_idx by (simp_all add: assms boot_walk) (simp add: own_pde_def)

text \<open>The tables lie in the second megabyte, and the pages of the pools, from 2 MB on, are not in use.\<close>

lemma boot_fresh:
  assumes p: "page_frame p = p" "unat p < 0x100000 \<or> 0x200000 \<le> unat p"
  shows "fresh_table (boot_phys M) 0x100000 p"
proof -
  have "page_frame (boot_phys M (pde_addr 0x100000 w)) \<noteq> p" if "present (boot_phys M (pde_addr 0x100000 w))" for w
  proof
    assume eq: "page_frame (boot_phys M (pde_addr 0x100000 w)) = p"
    let ?t = "boot_table (unat (PDE_IDX w))"
    have i: "unat (PDE_IDX w) = 0 \<or> 768 \<le> unat (PDE_IDX w)" using that boot_present(1) [of M w] by (auto simp: unat_eq_0)
    have t: "?t < 0x200" "0x100 \<le> ?t" using boot_table_lt [OF _ i] by simp_all
    moreover have "unat p = ?t * 4096" using boot_present(2) [OF that] entry_frame(3) [of ?t] t eq by simp
    ultimately show False using p(2) by simp
  qed
  moreover have "p \<noteq> page_frame 0x100000"
  proof
    assume "p = page_frame 0x100000"
    then have "unat p = 0x100000" by (simp add: page_frame_def)
    then show False using p(2) by simp
  qed
  ultimately show ?thesis using p(1) by (simp add: fresh_table_def)
qed

lemma boot_unused:
  assumes s: "phys s = boot_phys M" "cr3 s = 0x100000" and p: "page_frame p = p" "0x200000 \<le> unat p"
  shows "unused_page s p"
  unfolding unused_page_def
proof (intro conjI allI impI)
  show "fresh_table (phys s) (cr3 s) p" unfolding s by (rule boot_fresh) (simp_all add: p)
  fix w assume w: "own_pde w"
  show "vmap s w \<noteq> Some (p + page_offset w)"
  proof
    assume "vmap s w = Some (p + page_offset w)"
    then have "low_mb w" "PTE_IDX w * 4096 = p" using boot_map(1) [OF s w] by (auto split: if_splits)
    then have "unat (PTE_IDX w) < 256" by (simp add: low_mb_idx)
    moreover have "unat (PTE_IDX w * 4096) = unat (PTE_IDX w) * 4096"
      using \<open>unat (PTE_IDX w) < 256\<close> by (simp add: unat_mult_u32)
    ultimately show False using \<open>PTE_IDX w * 4096 = p\<close> p(2) by simp
  qed
qed

section \<open>mem_init\<close>

abbreviation "KERNEL_POOL_WAITERS \<equiv> sema_waiters (lock_semaphore KERNEL_POOL_LOCK)"
abbreviation "USER_POOL_WAITERS \<equiv> sema_waiters (lock_semaphore USER_POOL_LOCK)"
abbreviation "PID_WAITERS \<equiv> sema_waiters (lock_semaphore PID_LOCK)"

lemma free_pages_bound: "unat (kernel_free_pages m) \<le> 32767" "unat (user_free_pages m) \<le> 32768"
proof -
  have "unat (all_free_pages m) < 65536" using unsigned_less [of "all_free_pages m"] by simp
  then show "unat (kernel_free_pages m) \<le> 32767" "unat (user_free_pages m) \<le> 32768"
    by (simp_all add: unat_kernel_free_pages unat_user_free_pages)
qed

lemma page_frame_aligned: "unat p mod 4096 = 0 \<Longrightarrow> page_frame p = p"
  using div_mult_mod_eq [of "unat p" 4096] by (intro u32_eqI) (simp add: unat_page_frame)

text \<open>
  After mem_pool_init the pages of both pools are out of use, the maps are in the first megabyte,
  and so the page allocator has its invariants.
\<close>

lemma boot_pools:
  assumes b: "phys s = boot_phys M" "cr3 s = 0x100000" and run: "mem_pool_init s m = Inr s'"
  shows "phys_inv s'" "vpool_inv s' PF_KERNEL" "held s' (pool_bytes s')"
proof -
  obtain k u v where km: "layout_maps m = (k, u, v)" by (metis prod_cases3)
  note place = layout_maps_place [OF km]
  have kp: "kernel_pool s' = \<lparr>pool_bitmap = k, phy_addr_start = 0x200000, pool_size = ucast (kernel_free_pages m) * PG_SIZE\<rparr>"
    "user_pool s' = \<lparr>pool_bitmap = u, phy_addr_start = 0x200000 + ucast (kernel_free_pages m) * PG_SIZE,
      pool_size = ucast (user_free_pages m) * PG_SIZE\<rparr>"
    "kernel_vaddr s' = \<lparr>vaddr_bitmap = v, vaddr_start = K_HEAP_START\<rparr>" "phys s' = phys s" "cr3 s' = cr3 s"
    using mem_pool_init_eq [of s m] run unfolding km fst_conv snd_conv by auto
  have b': "phys s' = boot_phys M" "cr3 s' = 0x100000" by (simp_all add: kp b)
  have wf: "pools_wf s'" and disj: "map_bytes v \<inter> map_bytes k = {}" "map_bytes v \<inter> map_bytes u = {}"
    using mem_pool_init_maps [of s m] run by (auto simp: kp)
  note kfp = free_pages_bound(1) [of m]
  have "unat (ucast (kernel_free_pages m) * PG_SIZE) = unat (kernel_free_pages m) * 4096"
    using kfp by (simp add: PG_SIZE_def unat_mult_u32 ucast16)
  then have ustart: "unat (phy_addr_start (user_pool s')) = 0x200000 + unat (kernel_free_pages m) * 4096"
    using kfp by (simp add: kp unat_add_u32)
  have start: "0x200000 \<le> unat (phy_addr_start (pool_of q s'))" "unat (phy_addr_start (pool_of q s')) mod 4096 = 0" for q
    using ustart by (cases q; simp add: pool_of_def kp(1))+
  have low: "low_map (pool_bitmap (pool_of q s'))" for q
    by (rule bytes_low) (use place in \<open>cases q; simp add: pool_of_def kp\<close>)
  have "unused_page s' (pool_page (pool_of q s') i)" if "pool_idx s' q i" for q i
  proof -
    have u: "unat (pool_page (pool_of q s') i) = unat (phy_addr_start (pool_of q s')) + unat i * 4096"
      by (rule pools_wf_no_wrap [OF wf]) (use that in \<open>simp add: pool_idx_def\<close>)
    have "(unat (phy_addr_start (pool_of q s')) + unat i * 4096) mod 4096 = 0" using start(2) [of q] by simp
    then show ?thesis using boot_unused [OF b' page_frame_aligned] start(1) [of q] by (simp add: u)
  qed
  moreover have "phy_addr_start (pool_of q s') \<noteq> 0" for q using start(1) [of q] by auto
  ultimately show "phys_inv s'" using wf low boot_pt_wf [of M] by (simp add: phys_inv_def b')
  have vl: "unat (btmp_bytes_len v) \<le> 4095" using place(2,5) kfp by simp
  have heap: "vmap s' (run_page K_HEAP_START i) = None" if "i < unat (btmp_bytes_len v)" for i
  proof -
    have rok: "run_ok K_HEAP_START (unat (btmp_bytes_len v))"
      using vl by (simp add: run_ok_def K_HEAP_START_def page_frame_def)
    have "unat (run_page K_HEAP_START i) = 0xc0100000 + i * 4096"
      using run_page_unat [OF rok that] by (simp add: K_HEAP_START_def)
    then have "\<not> low_mb (run_page K_HEAP_START i)" by (simp add: low_mb_def)
    then show ?thesis using boot_map(1) [OF b' run_page_frame(2) [OF rok that]] by simp
  qed
  have "low_map v" by (rule bytes_low) (use place in simp)
  then show "vpool_inv s' PF_KERNEL"
    using disj heap vl by (simp add: vpool_inv_def Let_def vaddr_pool_def kp K_HEAP_START_def page_frame_def)
  have "low_mb a" if "a \<in> pool_bytes s'" for a
  proof -
    have "a \<in> map_bytes k \<or> a \<in> map_bytes u \<or> a \<in> map_bytes v" using that by (auto simp: pool_bytes_def kp)
    then obtain bm where "bm \<in> {k, u, v}" "a \<in> map_bytes bm" by blast
    then show ?thesis using map_bytes_range [of bm] place by (fastforce simp: low_mb_def)
  qed
  then show "held s' (pool_bytes s')"
    using boot_map [OF b'] by (auto simp: held_def)
qed

lemma boot_free:
  assumes "pool_bitmap (pool_of q s) = b" "maps_clear s b"
  shows "unat (btmp_bytes_len b) - 1 \<le> card (free_pages s q)"
proof -
  let ?L = "unat (btmp_bytes_len b)"
  have "\<not> bitmap_scan_test (mem s) b i" if "unat i < ?L" for i
    using that assms(2) by (simp add: maps_clear_def)
  then have "of_nat ` {..< ?L - 1} \<subseteq> free_pages s q"
    using unat_u32_bound [of "btmp_bytes_len b"] by (auto simp: free_pages_def pool_bit_def assms(1) unat_of_nat)
  moreover have "inj_on (of_nat :: nat \<Rightarrow> u32) {..< ?L - 1}"
    using unat_u32_bound [of "btmp_bytes_len b"] by (intro inj_onI) (auto simp: word_of_nat_eq_iff take_bit_eq_mod)
  ultimately show ?thesis by (metis card_image card_lessThan card_mono finite)
qed

text \<open>There is room for \<open>n\<close> pages when the map of the kernel's pool has more than \<open>2 * n\<close> bytes.\<close>

lemma boot_room:
  assumes run: "mem_pool_init s m = Inr s'" and n: "2 * n < unat (kernel_free_pages m) div 8"
  shows "roomy s' n"
proof -
  obtain k u v where km: "layout_maps m = (k, u, v)" by (metis prod_cases3)
  note place = layout_maps_place [OF km]
  have kp: "pool_bitmap (kernel_pool s') = k" "vaddr_bitmap (kernel_vaddr s') = v"
    using mem_pool_init_eq [of s m] run unfolding km fst_conv snd_conv by auto
  have clear: "maps_clear s' k" "maps_clear s' v" using mem_pool_init_maps [of s m] run by (auto simp: kp)
  let ?L = "unat (btmp_bytes_len k)"
  have L: "?L = unat (kernel_free_pages m) div 8" "unat (btmp_bytes_len v) = ?L" using place(2,5) by simp_all
  have bit: "\<not> bitmap_scan_test (mem s') b i" if "maps_clear s' b" "unat i < unat (btmp_bytes_len b)" for b i
    using that by (simp add: maps_clear_def)
  have "bit_free (mem s') v i" if "i < ?L" for i
    using bit [OF clear(2), of "of_nat i"] that unat_u32_bound [of "btmp_bytes_len k"] L
    by (simp add: bit_free_def unat_of_nat)
  then have win: "window_free (mem s') v 0 n" using n L by (simp add: window_free_def)
  have "?L - 1 \<le> card (free_pages s' PF_KERNEL)" by (rule boot_free [OF _ clear(1)]) (simp add: pool_of_def kp)
  then have "2 * n \<le> card (free_pages s' PF_KERNEL)" using n L(1) by simp
  then show ?thesis using win n L by (auto simp: roomy_def Let_def kp intro!: exI [of _ 0])
qed

lemma boot_users:
  assumes run: "mem_pool_init s m = Inr s'"
  shows "unat (user_free_pages m) div 8 - 1 \<le> card (free_pages s' PF_USER)"
proof -
  obtain k u v where km: "layout_maps m = (k, u, v)" by (metis prod_cases3)
  have up: "pool_bitmap (user_pool s') = u" using mem_pool_init_eq [of s m] run unfolding km fst_conv snd_conv by auto
  then have "maps_clear s' u" using mem_pool_init_maps [of s m] run by auto
  then have "unat (btmp_bytes_len u) - 1 \<le> card (free_pages s' PF_USER)"
    by (rule boot_free [rotated]) (simp add: pool_of_def up)
  then show ?thesis using layout_maps_place [OF km] by simp
qed

section \<open>The lists\<close>

text \<open>The empty lists with the given heads.\<close>

definition empty_lists :: "u32 list \<Rightarrow> u32 \<Rightarrow> u32 list option" where
  "empty_lists L l = (if l \<in> set L then Some [] else None)"

lemma empty_nodes: "fam_nodes (empty_lists L) = (\<Union>l \<in> set L. {l, tail_of l})"
  by (auto simp: fam_nodes_def empty_lists_def dl_nodes_def split: if_splits)

lemma init_lists:
  assumes "distinct (concat (map (\<lambda>l. [l, tail_of l]) L))"
  shows "dl_family (fold (\<lambda>l h. dl_init h l) L h) (empty_lists L)"
  using assms
proof (induction L rule: rev_induct)
  case Nil
  then show ?case by (simp add: dl_family_def empty_lists_def)
next
  case (snoc l L)
  let ?h = "fold (\<lambda>l h. dl_init h l) L h"
  have new: "l \<notin> set L" "l \<notin> fam_nodes (empty_lists L)" "tail_of l \<notin> fam_nodes (empty_lists L)"
    using snoc.prems by (auto simp: empty_nodes)
  have F: "(empty_lists L)(l := None) = empty_lists L" "empty_lists (L @ [l]) = (empty_lists L)(l \<mapsto> [])"
    using new(1) by (auto simp: empty_lists_def fun_eq_iff)
  have "dl_family ?h (empty_lists L)" using snoc by simp
  then have "dl_family (dl_init ?h l) ((empty_lists L)(l \<mapsto> []))"
    using new(2,3) by (intro dl_family_init) (simp_all add: F(1))
  then show ?case by (simp add: F(2) fun_upd_def)
qed

text \<open>The lists that mem_init and thread_init make, in that order.\<close>

definition boot_heads :: "u32 list" where
  "boot_heads = [KERNEL_POOL_WAITERS, USER_POOL_WAITERS] @
     map (\<lambda>i. free_list (desc_at K_BLOCK_DESC i)) [0, 1, 2, 3, 4, 5, 6] @ [THREAD_READY_LIST, THREAD_ALL_LIST, PID_WAITERS]"

lemmas boot_addrs = boot_heads_def sema_waiters_def lock_semaphore_def KERNEL_POOL_LOCK_def USER_POOL_LOCK_def PID_LOCK_def
  K_BLOCK_DESC_def desc_at_def free_list_def SIZEOF_MEM_BLOCK_DESC_def THREAD_READY_LIST_def THREAD_ALL_LIST_def

lemma boot_heads_eq: "boot_heads = [0xc000ac38, 0xc000ab38, 0xc000ab68, 0xc000ab80, 0xc000ab98, 0xc000abb0,
    0xc000abc8, 0xc000abe0, 0xc000abf8, 0xc000ac4c, 0xc000ac5c, 0xc000ac78]"
  by (simp add: boot_addrs)

lemma boot_heads_distinct: "distinct (concat (map (\<lambda>l. [l, tail_of l]) boot_heads))"
  by (simp add: boot_heads_eq tail_of_def)

lemma boot_nodes_range: "a \<in> fam_nodes (empty_lists boot_heads) \<Longrightarrow> 0xc0000000 \<le> unat a \<and> unat a < 0xc0010000"
  by (auto simp: empty_nodes boot_heads_eq tail_of_def)

lemma block_desc_init_sel:
  defines "s' s \<equiv> block_desc_init s K_BLOCK_DESC"
  shows "phys (s' s) = phys s" "cr3 (s' s) = cr3 s" "cur (s' s) = cur s" "mem (s' s) = mem s"
    "kernel_pool (s' s) = kernel_pool s" "user_pool (s' s) = user_pool s" "kernel_vaddr (s' s) = kernel_vaddr s"
    "lock_holder (s' s) = lock_holder s" "holder_repeat_nr (s' s) = holder_repeat_nr s" "sema_value (s' s) = sema_value s"
    "lheap (s' s) = fold (\<lambda>l h. dl_init h l) (map (\<lambda>i. free_list (desc_at K_BLOCK_DESC i)) [0, 1, 2, 3, 4, 5, 6]) (lheap s)"
  unfolding s'_def block_desc_init_eq by (simp_all add: list_init_def boot_addrs)

section \<open>mem_init and thread_init\<close>

text \<open>The word at 0xb00, where the loader keeps the size of the memory.\<close>

lemma boot_all_mem: "phys s = boot_phys M \<Longrightarrow> cr3 s = 0x100000 \<Longrightarrow> load32 s 0xb00 = Inr M"
proof -
  assume s: "phys s = boot_phys M" "cr3 s = 0x100000"
  have "pde_addr 0x100000 0xb00 = 0x100000" "pte_addr 0x101007 0xb00 = 0x101000"
    by (simp_all add: pde_addr_def pte_addr_def PDE_IDX_def PTE_IDX_def page_frame_def)
  moreover have "boot_phys M 0x100000 = 0x101007" "boot_phys M 0x101000 = 7" "boot_phys M 0xb00 = M"
    by (simp_all add: boot_phys_def boot_pde_def boot_table_def page_frame_def page_offset_def)
  ultimately show ?thesis
    by (simp add: load32_def mmu_walk_def Let_def s present_def) (simp add: page_frame_def page_offset_def)
qed

text \<open>What mem_init leaves.\<close>

definition memory_ready :: "u32 \<Rightarrow> kstate \<Rightarrow> kstate \<Rightarrow> bool" where
  "memory_ready M s s' \<longleftrightarrow> phys s' = boot_phys M \<and> cr3 s' = 0x100000 \<and> cur s' = cur s \<and>
     lheap s' = fold (\<lambda>l h. dl_init h l) (take 9 boot_heads) (lheap s) \<and>
     Kernel_State.vaddr_start (kernel_vaddr s') = K_HEAP_START \<and>
     (\<forall>l \<in> {KERNEL_POOL_LOCK, USER_POOL_LOCK}. lock_holder s' l = 0 \<and> holder_repeat_nr s' l = 0 \<and>
       sema_value s' (lock_semaphore l) = 1) \<and> phys_inv s' \<and> vpool_inv s' PF_KERNEL \<and>
     held s' (pool_bytes s') \<and> (\<forall>a \<in> pool_bytes s'. unat a < 0xc009e000) \<and>
     (\<forall>n. 2 * n < unat (kernel_free_pages M) div 8 \<longrightarrow> roomy s' n) \<and>
     unat (user_free_pages M) div 8 - 1 \<le> card (free_pages s' PF_USER) \<and>
     desc_table s' K_BLOCK_DESC = desc_sizes \<and> phy_addr_start (kernel_pool s') = 0x200000 \<and>
     pool_size (kernel_pool s') = ucast (kernel_free_pages M) * PG_SIZE"

lemma mem_init_ready:
  assumes b: "phys s = boot_phys M" "cr3 s = 0x100000"
  obtains s' where "mem_init s = Inr s'" "memory_ready M s s'"
proof -
  let ?s = "put_str s ''mem_init start\<newline>''"
  have b': "phys ?s = boot_phys M" "cr3 ?s = 0x100000" "cur ?s = cur s" by (simp_all add: put_str_def b)
  obtain k u v where km: "layout_maps M = (k, u, v)" by (metis prod_cases3)
  note place = layout_maps_place [OF km]
  obtain s1 where s1: "mem_pool_init ?s M = Inr s1" "phys s1 = phys ?s" "cr3 s1 = cr3 ?s" "cur s1 = cur ?s"
    "lheap s1 = dl_init (dl_init (lheap ?s) KERNEL_POOL_WAITERS) USER_POOL_WAITERS"
    "lock_holder s1 = (lock_holder ?s)(KERNEL_POOL_LOCK := 0, USER_POOL_LOCK := 0)"
    "holder_repeat_nr s1 = (holder_repeat_nr ?s)(KERNEL_POOL_LOCK := 0, USER_POOL_LOCK := 0)"
    "sema_value s1 = (sema_value ?s)(lock_semaphore KERNEL_POOL_LOCK := 1, lock_semaphore USER_POOL_LOCK := 1)"
    "pool_bitmap (kernel_pool s1) = k" "pool_bitmap (user_pool s1) = u" "vaddr_bitmap (kernel_vaddr s1) = v"
    "Kernel_State.vaddr_start (kernel_vaddr s1) = K_HEAP_START" "phy_addr_start (kernel_pool s1) = 0x200000"
    "pool_size (kernel_pool s1) = ucast (kernel_free_pages M) * PG_SIZE"
    using mem_pool_init_eq [of ?s M] unfolding km fst_conv snd_conv by auto
  define s' where "s' = put_str (block_desc_init s1 K_BLOCK_DESC) ''mem_init done\<newline>''"
  have run: "mem_init s = Inr s'" by (simp add: mem_init_def boot_all_mem [OF b'(1,2)] s1(1) s'_def)
  have sel: "phys s' = phys s1" "cr3 s' = cr3 s1" "cur s' = cur s1" "mem s' = mem s1" "kernel_pool s' = kernel_pool s1"
    "user_pool s' = user_pool s1" "kernel_vaddr s' = kernel_vaddr s1" "lock_holder s' = lock_holder s1"
    "holder_repeat_nr s' = holder_repeat_nr s1" "sema_value s' = sema_value s1"
    "lheap s' = fold (\<lambda>l h. dl_init h l) (map (\<lambda>i. free_list (desc_at K_BLOCK_DESC i)) [0, 1, 2, 3, 4, 5, 6]) (lheap s1)"
    by (simp_all add: s'_def put_str_def block_desc_init_sel)
  have q: "quiet s1 s'" by (rule quiet_same) (simp_all add: sel)
  note pools = boot_pools [OF b'(1,2) s1(1)]
  have end_maps: "unat (bits v) + unat (btmp_bytes_len v) < 0xc009e000"
    using free_pages_bound [of M] place by simp
  have below: "unat a < 0xc009e000" if "a \<in> pool_bytes s'" for a
  proof -
    have "a \<in> map_bytes k \<or> a \<in> map_bytes u \<or> a \<in> map_bytes v" using that by (auto simp: pool_bytes_def sel s1)
    then obtain bm where "bm \<in> {k, u, v}" "a \<in> map_bytes bm" by blast
    then show ?thesis using map_bytes_range [of bm] place end_maps by fastforce
  qed
  have "lheap s' = fold (\<lambda>l h. dl_init h l) (take 9 boot_heads) (lheap s)"
    by (simp add: sel(11) s1(5) boot_heads_def)
  moreover have "KERNEL_POOL_LOCK \<noteq> USER_POOL_LOCK" "lock_semaphore KERNEL_POOL_LOCK \<noteq> lock_semaphore USER_POOL_LOCK"
    by (simp_all add: boot_addrs)
  moreover have "roomy s' n" if "2 * n < unat (kernel_free_pages M) div 8" for n
    using boot_room [OF s1(1) that] roomy_quiet [OF q] by simp
  moreover have "unat (user_free_pages M) div 8 - 1 \<le> card (free_pages s' PF_USER)"
    using boot_users [OF s1(1)] by (simp only: quiet_free_pages [OF q])
  moreover have "phys_inv s'" "vpool_inv s' PF_KERNEL" "held s' (pool_bytes s')"
    using pools q by (simp_all add: quiet_phys_inv quiet_vpool_inv held_quiet quiet_bytes)
  moreover have "desc_table s' K_BLOCK_DESC = desc_sizes"
    using block_desc_init_table [of s1 K_BLOCK_DESC] by (simp add: s'_def put_str_def desc_table_def)
  ultimately have "memory_ready M s s'"
    using below by (simp add: memory_ready_def sel s1(2-4,6-8,12-14) b')
  with run show thesis by (rule that)
qed

text \<open>The state in which thread_init makes the main thread.\<close>

lemma lock_init_more:
  "mem (lock_init s l) = mem s" "kernel_pool (lock_init s l) = kernel_pool s" "user_pool (lock_init s l) = user_pool s"
  "kernel_vaddr (lock_init s l) = kernel_vaddr s" "next_pid (lock_init s l) = next_pid s"
  "l' \<noteq> l \<Longrightarrow> lock_holder (lock_init s l) l' = lock_holder s l'"
  "l' \<noteq> l \<Longrightarrow> holder_repeat_nr (lock_init s l) l' = holder_repeat_nr s l'"
  "x \<noteq> lock_semaphore l \<Longrightarrow> sema_value (lock_init s l) x = sema_value s x"
  by (simp_all add: lock_init_def sema_init_def list_init_def set_sema_value_def set_repeat_def set_holder_def)

lemma lists_ready:
  fixes msg
  assumes r: "memory_ready M s0 s" and c: "cur s \<noteq> 0"
  defines "t \<equiv> (lock_init (list_init (list_init (put_str s msg) THREAD_READY_LIST) THREAD_ALL_LIST) PID_LOCK)\<lparr>main_thread := cur s\<rparr>"
  shows "kernel_inv t (empty_lists boot_heads)" "quiet s t" "phys t = phys s" "cr3 t = cr3 s" "cur t = cur s"
    "main_thread t = cur s" "eflags t = eflags s" "next_pid t = next_pid s" "descs t = descs s"
proof -
  show sel: "phys t = phys s" "cr3 t = cr3 s" "cur t = cur s" "main_thread t = cur s" "eflags t = eflags s" "next_pid t = next_pid s"
    by (simp_all add: t_def lock_init_sel lock_init_more list_init_def put_str_def)
  show "descs t = descs s"
    by (simp add: t_def lock_init_def sema_init_def list_init_def put_str_def set_sema_value_def set_repeat_def set_holder_def)
  have lists: "lheap t = fold (\<lambda>l h. dl_init h l) (drop 9 boot_heads) (lheap s)"
    by (simp add: t_def lock_init_sel list_init_def put_str_def boot_heads_def)
  also have "\<dots> = fold (\<lambda>l h. dl_init h l) boot_heads (lheap s0)"
    using r fold_append [of "\<lambda>l h. dl_init h l" "take 9 boot_heads" "drop 9 boot_heads"]
    by (simp add: memory_ready_def)
  finally have fam: "k_family t (empty_lists boot_heads)"
    using init_lists [OF boot_heads_distinct] by (simp add: k_family_def)
  show q: "quiet s t" by (rule quiet_same) (simp_all add: t_def lock_init_sel lock_init_more list_init_def put_str_def)
  have W: "empty_lists boot_heads KERNEL_POOL_WAITERS = Some []" "empty_lists boot_heads USER_POOL_WAITERS = Some []" "empty_lists boot_heads PID_WAITERS = Some []"
    by (simp_all add: empty_lists_def boot_heads_def)
  have ne: "l \<noteq> PID_LOCK" "lock_semaphore l \<noteq> lock_semaphore PID_LOCK" if "l \<in> {KERNEL_POOL_LOCK, USER_POOL_LOCK}" for l
    using that by (auto simp: boot_addrs)
  have "lock_ready t KERNEL_POOL_LOCK (empty_lists boot_heads)" "lock_ready t USER_POOL_LOCK (empty_lists boot_heads)"
    "lock_ready t PID_LOCK (empty_lists boot_heads)"
    unfolding lock_ready_def sel using fam W c r ne
    by (simp_all add: t_def lock_init_sel lock_init_more list_init_def put_str_def memory_ready_def)
  moreover have "held t (fam_nodes (empty_lists boot_heads))"
  proof -
    have "low_mb a" if "a \<in> fam_nodes (empty_lists boot_heads)" for a
      using boot_nodes_range [OF that] by (simp add: low_mb_def)
    then show ?thesis using boot_map [of t M] r by (auto simp: held_def sel memory_ready_def)
  qed
  moreover have "0xc0000000 \<le> unat (Kernel_State.vaddr_start (kernel_vaddr t))"
    using r q by (simp add: memory_ready_def quiet_def K_HEAP_START_def)
  ultimately show "kernel_inv t (empty_lists boot_heads)"
    using r q by (simp add: kernel_inv_def memory_ready_def quiet_phys_inv quiet_vpool_inv held_quiet quiet_bytes)
qed

text \<open>The PCB and the stack of the main thread, at the end of the low memory.\<close>

definition MAIN_PCB :: u32 where "MAIN_PCB = 0xc009e000"

definition main_lists :: "u32 \<Rightarrow> u32 list option" where
  "main_lists = (empty_lists boot_heads)(THREAD_ALL_LIST \<mapsto> [all_list_tag MAIN_PCB])"

lemma main_page:
  assumes r: "memory_ready M s0 s" and q: "quiet s t" "phys t = phys s" "cr3 t = cr3 s"
  shows "pcb_page t (empty_lists boot_heads) MAIN_PCB"
proof -
  have b: "phys t = boot_phys M" "cr3 t = 0x100000" using r q by (simp_all add: memory_ready_def)
  have p: "page_frame MAIN_PCB = MAIN_PCB" "MAIN_PCB \<noteq> 0" "low_mb MAIN_PCB" "unat MAIN_PCB = 0xc009e000"
    "PTE_IDX MAIN_PCB * 4096 + page_offset MAIN_PCB = 0x9e000"
    by (simp_all add: MAIN_PCB_def page_frame_def low_mb_def PTE_IDX_def page_offset_def)
  have "fresh_table (phys t) (cr3 t) 0x9e000" unfolding b by (rule boot_fresh) (simp_all add: page_frame_def)
  moreover have "own_pde MAIN_PCB" "vmap t MAIN_PCB = Some 0x9e000" using boot_map [OF b] p(3,5) by simp_all
  moreover have "page_frame a \<noteq> MAIN_PCB" if "a \<in> fam_nodes (empty_lists boot_heads) \<union> pool_bytes t" for a
  proof
    assume "page_frame a = MAIN_PCB"
    then have "unat a div 4096 * 4096 = 0xc009e000" using unat_page_frame [of a] p(4) by simp
    then have "0xc009e000 \<le> unat a" using div_mult_mod_eq [of "unat a" 4096] by linarith
    moreover have "unat a < 0xc009e000"
      using that r boot_nodes_range [of a] by (auto simp: quiet_bytes [OF q(1)] memory_ready_def)
    ultimately show False by simp
  qed
  ultimately show ?thesis using p(1,2) unfolding pcb_page_def by blast
qed

definition main_ready :: "kstate \<Rightarrow> kstate \<Rightarrow> bool" where
  "main_ready s s' \<longleftrightarrow> main_thread s' = MAIN_PCB \<and> cur s' = MAIN_PCB \<and> cr3 s' = 0x100000 \<and> next_pid s' = next_pid s + 1 \<and>
     tasks s' MAIN_PCB = zero_task\<lparr>self_kstack := 0xc009f000, pid := next_pid s + 1, status := TASK_RUNNING,
       task_name := ''main'', priority := 1, task_ticks := 1, stack_magic := 0x19980906\<rparr>"

lemma thread_init_ready:
  assumes r: "memory_ready M s0 s" and c: "cur s = MAIN_PCB"
  obtains s' where "thread_init s = Inr s'" "main_ready s s'" "quiet s s'" "kernel_inv s' main_lists"
    "desc_table s' K_BLOCK_DESC = desc_sizes"
proof -
  let ?F = "empty_lists boot_heads"
  define t where "t = (lock_init (list_init (list_init (put_str s ''thread_init start\<newline>'') THREAD_READY_LIST)
    THREAD_ALL_LIST) PID_LOCK)\<lparr>main_thread := cur s\<rparr>"
  have "cur s \<noteq> 0" by (simp add: c MAIN_PCB_def)
  note t = lists_ready [OF r this, of "''thread_init start\<newline>''", folded t_def, unfolded c]
  note p = main_page [OF r t(2-4)]
  obtain u where u: "init_thread t MAIN_PCB ''main'' 1 = Inr u" "pcb_made t u MAIN_PCB (new_pcb t MAIN_PCB ''main'' 1)"
    "kernel_inv u ?F"
    by (rule init_thread_ok [OF t(1) p, of "''main''" 1]) simp_all
  have tag: "all_list_tag MAIN_PCB \<notin> fam_nodes ?F" "page_frame (all_list_tag MAIN_PCB) = MAIN_PCB"
    using p tag_page [of MAIN_PCB] by (auto simp: pcb_page_def)
  have fam: "k_family u ?F" using u(3) by (simp add: kernel_inv_def lock_ready_def)
  have A: "?F THREAD_ALL_LIST = Some []" by (simp add: empty_lists_def boot_heads_def)
  note all = add_all_ok [OF fam A tag(1)]
  let ?v = "list_append u THREAD_ALL_LIST (all_list_tag MAIN_PCB)"
  define s' where "s' = put_str ?v ''thread_init done\<newline>''"
  have eq: "?F(THREAD_ALL_LIST \<mapsto> [] @ [all_list_tag MAIN_PCB]) = main_lists" by (simp add: main_lists_def)
  have q: "quiet u s'" by (rule quiet_same) (simp_all add: s'_def put_str_def list_append_eq)
  have nodes: "fam_nodes main_lists = insert (all_list_tag MAIN_PCB) (fam_nodes ?F)"
    using kl.fam_nodes_append [of ?F THREAD_ALL_LIST "[]" "[all_list_tag MAIN_PCB]"] A by (simp add: main_lists_def)
  have "low_mb (all_list_tag MAIN_PCB)" by (simp add: low_mb_def all_list_tag_def MAIN_PCB_def)
  moreover have b: "phys t = boot_phys M" "cr3 t = 0x100000" using r t(3,4) by (simp_all add: memory_ready_def)
  ultimately have "held t {all_list_tag MAIN_PCB}" using boot_map [OF b] by (simp add: held_def)
  then have "held t (fam_nodes main_lists)" using t(1) by (auto simp: nodes held_def kernel_inv_def)
  moreover have tu: "quiet t u" using u(2) by (simp add: pcb_made_def)
  ultimately have held: "held u (fam_nodes main_lists)" by (simp add: held_quiet)
  have "k_family ?v main_lists" using all(2) unfolding eq .
  then have fam': "k_family s' main_lists" by (simp add: s'_def k_family_def)
  have same: "same_locks u s'" by (simp add: same_locks_def s'_def put_str_def list_append_eq)
  have inv: "kernel_inv s' main_lists"
    by (rule kernel_inv_step [OF u(3) q same fam' held]) (simp add: main_lists_def)
  have "quiet s s'" by (rule quiet_trans [OF t(2) quiet_trans [OF tu q]])
  have run: "thread_init s = Inr s'"
  proof -
    have c': "cur (lock_init (list_init (list_init (put_str s ''thread_init start\<newline>'') THREAD_READY_LIST)
      THREAD_ALL_LIST) PID_LOCK) = MAIN_PCB"
      by (simp add: lock_init_sel list_init_def put_str_def c)
    have "thread_init s = bindR (bindR (init_thread t MAIN_PCB ''main'' 1) (\<lambda>s2. add_all s2 (main_thread s2)))
      (\<lambda>s3. Inr (put_str s3 ''thread_init done\<newline>''))"
      unfolding thread_init_def make_main_thread_def running_thread_def Let_def c' t_def c by simp
    also have "\<dots> = Inr s'" using u(1,2) all(1) t(6) by (simp add: pcb_made_def s'_def)
    finally show ?thesis .
  qed
  have "cr3 s = 0x100000" "MAIN_PCB + PG_SIZE = 0xc009f000"
    using r by (simp_all add: memory_ready_def MAIN_PCB_def PG_SIZE_def)
  then have "main_ready s s'"
    using u(2) t by (simp add: main_ready_def s'_def put_str_def list_append_eq pcb_made_def same_locks_def new_pcb_def quiet_def)
  moreover have "desc_table s' K_BLOCK_DESC = desc_sizes"
  proof -
    have "page_frame (desc_at K_BLOCK_DESC i) \<noteq> MAIN_PCB" if "i < 7" for i
    proof -
      have "i \<in> {0, 1, 2, 3, 4, 5, 6}" using that by auto
      then show ?thesis by (auto simp: desc_at_def K_BLOCK_DESC_def SIZEOF_MEM_BLOCK_DESC_def MAIN_PCB_def page_frame_def)
    qed
    then have "descs s' (desc_at K_BLOCK_DESC i) = descs s (desc_at K_BLOCK_DESC i)" if "i < 7" for i
      using u(2) t(9) that by (simp add: pcb_made_def s'_def put_str_def list_append_eq)
    then have "desc_table s' K_BLOCK_DESC = desc_table s K_BLOCK_DESC" by (simp add: desc_table_def DESC_CNT_def)
    then show ?thesis using r by (simp add: memory_ready_def)
  qed
  ultimately show thesis by (intro that [OF run _ \<open>quiet s s'\<close> inv])
qed

lemma main_system:
  assumes m: "main_ready s0 s" and inv: "kernel_inv s main_lists" and half: "kernel_half s"
  shows "system_inv s main_lists [] {MAIN_PCB} (\<lambda>_. 0x100000)"
proof -
  have "main_lists THREAD_READY_LIST = Some []"
    by (simp add: main_lists_def empty_lists_def boot_heads_eq THREAD_READY_LIST_def THREAD_ALL_LIST_def)
  moreover have "k_family s main_lists" using inv by (simp add: kernel_inv_def lock_ready_def)
  moreover have main: "pgdir (tasks s MAIN_PCB) = NULL" "status (tasks s MAIN_PCB) = TASK_RUNNING"
    using m by (simp_all add: main_ready_def zero_task_def)
  ultimately have "sched_core s main_lists [] {MAIN_PCB} (\<lambda>_. 0x100000)"
    using m by (simp add: sched_core_def dirs_ok_def main_ready_def) (simp add: MAIN_PCB_def)
  moreover have "general_tag MAIN_PCB \<notin> fam_nodes main_lists"
    by (auto simp: fam_nodes_def main_lists_def empty_lists_def dl_nodes_def boot_heads_eq tail_of_def MAIN_PCB_def
      general_tag_def all_list_tag_def THREAD_ALL_LIST_def split: if_splits)
  ultimately have sched: "sched_inv s main_lists [] {MAIN_PCB} (\<lambda>_. 0x100000)"
    using m by (simp add: sched_inv_def main_ready_def zero_task_def)
  have "all_list_tag MAIN_PCB \<in> fam_nodes main_lists"
    by (auto simp: fam_nodes_def main_lists_def dl_nodes_def)
  then have "own_pde (all_list_tag MAIN_PCB)" "vmap s (all_list_tag MAIN_PCB) \<noteq> None"
    using inv by (auto simp: kernel_inv_def held_def)
  moreover have "page_frame (all_list_tag MAIN_PCB) = page_frame MAIN_PCB"
    by (simp add: MAIN_PCB_def all_list_tag_def page_frame_def)
  ultimately have "held s {MAIN_PCB}"
    using mmu_walk_None_frame [of "all_list_tag MAIN_PCB" MAIN_PCB "phys s" "cr3 s"] own_pde_frame [of MAIN_PCB "all_list_tag MAIN_PCB"]
    by (auto simp: held_def simp del: not_None_eq)
  moreover have "spaces s {MAIN_PCB} (\<lambda>_. 0x100000)" using half main(1) m by (simp add: spaces_def main_ready_def)
  moreover have "main_lists THREAD_ALL_LIST \<noteq> None" by (simp add: main_lists_def)
  ultimately show ?thesis using inv m sched by (simp add: system_inv_def main_ready_def)
qed

definition machine_started :: "u32 \<Rightarrow> kstate \<Rightarrow> bool" where
  "machine_started M s \<longleftrightarrow> phys s = boot_phys M \<and> cr3 s = 0x100000 \<and> cur s = MAIN_PCB"

lemma kernel_start:
  assumes "machine_started M s"
  obtains s1 s2 where "mem_init s = Inr s1" "thread_init s1 = Inr s2" "main_ready s1 s2" "system_inv s2 main_lists [] {MAIN_PCB} (\<lambda>_. 0x100000)"
    "\<And>n. 2 * n < unat (kernel_free_pages M) div 8 \<Longrightarrow> roomy s2 n"
    "unat (user_free_pages M) div 8 - 1 \<le> card (free_pages s2 PF_USER)"
proof -
  have s: "phys s = boot_phys M" "cr3 s = 0x100000" "cur s = MAIN_PCB" using assms by (simp_all add: machine_started_def)
  obtain s1 where s1: "mem_init s = Inr s1" "memory_ready M s s1" by (rule mem_init_ready [OF s(1,2)])
  then have "cur s1 = MAIN_PCB" by (simp add: memory_ready_def s)
  then obtain s2 where s2: "thread_init s1 = Inr s2" "main_ready s1 s2" "quiet s1 s2" "kernel_inv s2 main_lists"
    by (rule thread_init_ready [OF s1(2)]) (rule that)
  have "roomy s2 n" if "2 * n < unat (kernel_free_pages M) div 8" for n
    using s1(2) that by (simp add: memory_ready_def roomy_quiet [OF s2(3)])
  moreover have "unat (user_free_pages M) div 8 - 1 \<le> card (free_pages s2 PF_USER)"
    using s1(2) by (simp add: memory_ready_def quiet_free_pages [OF s2(3)])
  moreover have "kernel_half s2"
    using s1(2) s2(3) boot_present(1) by (simp add: kernel_half_def quiet_def memory_ready_def)
  ultimately show thesis by (intro that [OF s1(1) s2(1,2) main_system [OF s2(2,4)]])
qed

text \<open>The machine with 32 MB.\<close>

definition machine :: kstate where
  "machine = demo_state\<lparr>phys := boot_phys 0x2000000, cr3 := 0x100000, cur := MAIN_PCB\<rparr>"

lemma machine_starts: "machine_started 0x2000000 machine"
  by (simp add: machine_started_def machine_def)

lemma machine_pages: "unat (kernel_free_pages 0x2000000) div 8 = 480" "unat (user_free_pages 0x2000000) div 8 = 480"
  by (simp_all add: unat_kernel_free_pages unat_user_free_pages unat_all_free_pages)

lemma thread_start_ready_witness:
  "\<exists>s1 s2 v s' F'. mem_init machine = Inr s1 \<and> thread_init s1 = Inr s2 \<and>
    thread_start s2 ''kernel_thread_a'' 31 ''k_thread_a'' 0 = Inr (v, s') \<and> status (tasks s' v) = TASK_READY \<and>
    system_inv s' F' [v] {v, MAIN_PCB} ((\<lambda>_. 0x100000)(v := 0x100000))"
proof -
  obtain s1 s2 where s: "mem_init machine = Inr s1" "thread_init s1 = Inr s2"
    "system_inv s2 main_lists [] {MAIN_PCB} (\<lambda>_. 0x100000)" and room: "\<And>n. 2 * n < 480 \<Longrightarrow> roomy s2 n"
    by (rule kernel_start [OF machine_starts, unfolded machine_pages]) blast
  have "roomy s2 (Suc 0)" by (rule room) simp
  moreover have "length ''kernel_thread_a'' < 16" by simp
  ultimately obtain v s' F' where "thread_start s2 ''kernel_thread_a'' 31 ''k_thread_a'' 0 = Inr (v, s')"
    "status (tasks s' v) = TASK_READY" "system_inv s' F' ([] @ [v]) (insert v {MAIN_PCB}) ((\<lambda>_. 0x100000)(v := 0x100000))"
    using thread_start_ready [OF s(3)] by blast
  then show ?thesis using s(1,2) by (metis append_Nil)
qed

end
