(* ===== verification/Process_Props.thy ===== *)
theory Process_Props
  imports Process Boot
begin

text \<open>
  What the creation of a process promises (userprog/process.c): its page directory shares the tables
  of the kernel, has nothing mapped below 0xc0000000 and names itself in the last entry, so that the
  functions of memory.c work on it when it is loaded; its map of virtual pages is clear.
\<close>

section \<open>create_page_dir\<close>

text \<open>Copying entries of the current directory into a fresh page.\<close>

lemma dir_word:
  assumes "rec_slot (phys s) (cr3 s)" "k < 1024"
  shows "load32 s (0xfffff000 + of_nat k * 4) = Inr (phys s (page_frame (cr3 s) + of_nat k * 4))"
proof -
  define w :: u32 where "w = of_nat k * 4194304"
  have "unat w = k * 4194304" using assms(2) by (simp add: w_def unat_mult_u32 unat_of_nat)
  then have "PDE_IDX w = of_nat k" using assms(2) by (intro u32_eqI) (simp add: unat_PDE_IDX unat_of_nat)
  then show ?thesis using load32_pde_ptr [OF assms(1), of w] by (simp add: pde_ptr_def pde_addr_def)
qed

lemma words_put_cong:
  assumes "words_put m m' f lo n g" "\<And>k. k < n \<Longrightarrow> g k = g' k"
  shows "words_put m m' f lo n g'"
proof -
  have "g (unat i - lo) = g' (unat i - lo)" if "lo \<le> unat i" "unat i < lo + n" for i :: u32
    by (rule assms(2)) (use that in simp)
  then show ?thesis using assms(1) unfolding words_put_def by auto
qed

lemma copy_dir_words:
  assumes "pt_wf (phys s) (cr3 s)" "fresh_table (phys s) (cr3 s) f" "page_frame v = v" "vmap s v = Some f"
    "lo + n \<le> 1024"
  shows "\<exists>ph. copy_words s (v + of_nat lo * 4) (0xfffff000 + of_nat lo * 4) n = Inr (s\<lparr>phys := ph\<rparr>) \<and>
    words_put (phys s) ph f lo n (\<lambda>k. phys s (page_frame (cr3 s) + of_nat (lo + k) * 4))"
  using assms
proof (induction n arbitrary: s lo)
  case 0
  then show ?case by (intro exI [of _ "phys s"]) (simp add: words_put_0)
next
  case (Suc n)
  let ?x = "phys s (page_frame (cr3 s) + of_nat lo * 4)"
  have lo: "lo < 1024" and le: "Suc lo + n \<le> 1024" using Suc.prems(5) by simp_all
  have rec: "rec_slot (phys s) (cr3 s)" using Suc.prems(1) by (simp add: pt_wf_def)
  note st = store_page_word [OF Suc.prems(1-4) lo, where x = ?x]
  define s1 where "s1 = s\<lparr>phys := (phys s)(f + of_nat lo * 4 := ?x)\<rparr>"
  have ff: "page_frame f = f" "f \<noteq> page_frame (cr3 s)" using Suc.prems(2) by (simp_all add: fresh_table_def)
  have "unat (of_nat lo :: u32) = lo" using lo by (simp add: unat_of_nat)
  then have w: "page_frame (f + of_nat lo * 4) = f" using page_word(1) [OF ff(1), of "of_nat lo"] lo by simp
  have same: "phys s1 (page_frame (cr3 s) + of_nat (lo + Suc k) * 4) = phys s (page_frame (cr3 s) + of_nat (lo + Suc k) * 4)"
    if "lo + Suc k < 1024" for k
  proof -
    have "unat (of_nat (lo + Suc k) :: u32) < 1024" using that by (simp only: unat_of_nat) simp
    then have "page_frame (page_frame (cr3 s) + of_nat (lo + Suc k) * 4) = page_frame (cr3 s)" by (rule frame_word_frame)
    then have "page_frame (cr3 s) + of_nat (lo + Suc k) * 4 \<noteq> f + of_nat lo * 4" using w ff(2) by metis
    then show ?thesis by (simp add: s1_def del: of_nat_add of_nat_Suc)
  qed
  have "pt_wf (phys s1) (cr3 s1)" "fresh_table (phys s1) (cr3 s1) f" "vmap s1 v = Some f"
    using st(2-4) by (simp_all add: s1_def)
  from Suc.IH [OF this(1,2) Suc.prems(3) this(3) le] obtain ph where
    ph: "copy_words s1 (v + of_nat (Suc lo) * 4) (0xfffff000 + of_nat (Suc lo) * 4) n = Inr (s1\<lparr>phys := ph\<rparr>)"
    "words_put (phys s1) ph f (Suc lo) n (\<lambda>k. phys s1 (page_frame (cr3 s1) + of_nat (Suc lo + k) * 4))" by blast
  have "copy_words s (v + of_nat lo * 4) (0xfffff000 + of_nat lo * 4) (Suc n) = Inr (s\<lparr>phys := ph\<rparr>)"
    using ph(1) by (simp add: dir_word [OF rec lo] st(1) s1_def [symmetric] word_step del: of_nat_Suc) (simp add: s1_def)
  moreover have "words_put (phys s) ph f lo (Suc n) (\<lambda>k. phys s (page_frame (cr3 s) + of_nat (lo + k) * 4))"
  proof (rule words_put_Suc [OF ff(1) lo])
    have "words_put (phys s1) ph f (Suc lo) n (\<lambda>k. phys s (page_frame (cr3 s) + of_nat (lo + Suc k) * 4))"
      by (rule words_put_cong [OF ph(2)]) (use same le in \<open>simp add: s1_def del: of_nat_add of_nat_Suc\<close>)
    then show "words_put ((phys s)(f + of_nat lo * 4 := phys s (page_frame (cr3 s) + of_nat (lo + 0) * 4))) ph f (Suc lo) n
        (\<lambda>k. phys s (page_frame (cr3 s) + of_nat (lo + Suc k) * 4))"
      by (simp add: s1_def del: of_nat_Suc)
  qed
  ultimately show ?case by blast
qed

text \<open>
  The directory in frame \<open>f\<close>: empty below entry 768, the current directory's entries from there on,
  and itself in the last.
\<close>

definition kernel_dir :: "(u32 \<Rightarrow> u32) \<Rightarrow> u32 \<Rightarrow> u32 \<Rightarrow> bool" where
  "kernel_dir m dir f \<longleftrightarrow> page_frame f = f \<and> f \<noteq> page_frame dir \<and>
     (\<forall>w. m (pde_addr f w) = (if unat (PDE_IDX w) < 768 then 0 else if PDE_IDX w = 1023 then self_entry f else m (pde_addr dir w)))"

lemma kernel_dir_shares: "kernel_dir m dir f \<Longrightarrow> shares_kernel m dir f"
  by (auto simp: kernel_dir_def shares_kernel_def)

lemma kernel_dir_wf:
  assumes d: "kernel_dir m dir f" and wf: "pt_wf m dir" and f: "fresh_table m dir f"
  shows "pt_wf m f" "unat (PDE_IDX w) < 768 \<Longrightarrow> mmu_walk m f w = None"
    "768 \<le> unat (PDE_IDX w) \<Longrightarrow> PDE_IDX w \<noteq> 1023 \<Longrightarrow> mmu_walk m f w = mmu_walk m dir w"
proof -
  have ff: "page_frame f = f" using d by (simp add: kernel_dir_def)
  have e: "m (pde_addr f w) = (if unat (PDE_IDX w) < 768 then 0 else if PDE_IDX w = 1023 then self_entry f else m (pde_addr dir w))" for w
    using d unfolding kernel_dir_def by blast
  show "unat (PDE_IDX w) < 768 \<Longrightarrow> mmu_walk m f w = None" by (simp add: mmu_walk_def e present_def)
  show "768 \<le> unat (PDE_IDX w) \<Longrightarrow> PDE_IDX w \<noteq> 1023 \<Longrightarrow> mmu_walk m f w = mmu_walk m dir w"
    by (simp add: mmu_walk_def e)
  have ef: "page_frame (self_entry f) = f" "present (self_entry f)" using entry_fields [of f] ff by simp_all
  have "m (page_frame f + 4092) = self_entry f" using e [of "0xffffffff"] by (simp add: pde_addr_last PDE_IDX_last)
  then have "rec_slot m f" using ef ff by (simp add: rec_slot_def Let_def)
  moreover have "PDE_IDX v = PDE_IDX w"
    if n: "PDE_IDX v \<noteq> 0" "PDE_IDX w \<noteq> 0" and P: "present (m (pde_addr f v))" "present (m (pde_addr f w))"
      and eq: "page_frame (m (pde_addr f v)) = page_frame (m (pde_addr f w))" for v w
  proof -
    have ge: "768 \<le> unat (PDE_IDX v)" "768 \<le> unat (PDE_IDX w)"
      using P e [of v] e [of w] by (auto simp: present_def not_less split: if_splits)
    have own: "page_frame (m (pde_addr dir x)) \<noteq> f" if "present (m (pde_addr dir x))" for x
      using f that by (simp add: fresh_table_def)
    show ?thesis
    proof (cases "PDE_IDX v = 1023 \<or> PDE_IDX w = 1023")
      case True
      then show ?thesis using eq P ge own [of v] own [of w] ef by (auto simp: e split: if_splits)
    next
      case False
      then have "present (m (pde_addr dir v))" "present (m (pde_addr dir w))"
        "page_frame (m (pde_addr dir v)) = page_frame (m (pde_addr dir w))"
        using eq P ge by (simp_all add: e)
      then show ?thesis using wf n unfolding pt_wf_def by blast
    qed
  qed
  ultimately show "pt_wf m f" unfolding pt_wf_def by blast
qed

lemma create_page_dir_ok:
  assumes inv: "kernel_inv s F" and room: "roomy s (Suc n)"
  obtains v s1 s' f where "get_kernel_pages s 1 = Inr (v, s1)" "create_page_dir s = Inr (v, s')"
    "got_pages s s1 v [f]" "quiet s1 s'" "\<exists>ph. s' = s1\<lparr>phys := ph\<rparr>" "kernel_inv s' F"
    "kernel_dir (phys s') (cr3 s) f" "fresh_table (phys s') (cr3 s) f" "vmap s' v = Some f" "roomy s' n"
    "space_frame s s'"
proof -
  have room1: "room_for s 1" by (rule roomy_room [OF roomy_mono [OF room]]) simp_all
  obtain v s1 fs where g: "get_kernel_pages s 1 = Inr (v, s1)" "got_pages s s1 v fs" "length fs = 1" "kernel_inv s1 F"
    using get_pages [OF inv room1] by (metis unsigned_1)
  then obtain f where fs: "fs = [f]" by (auto simp: length_Suc_conv)
  have mo: "mem_only s s1" and rf: "run_frames (phys s1) (cr3 s1) v [f]" and z: "frames_zero (phys s1) [f]" and v0: "v \<noteq> NULL"
    using g(2) by (simp_all add: got_pages_def fs)
  have c: "cr3 s1 = cr3 s" using mem_only_sel [OF mo] by simp
  note tl = run_frames_tl [OF rf]
  have wf: "pt_wf (phys s1) (cr3 s1)" using g(4) by (simp add: kernel_inv_def phys_inv_def)
  have ff: "page_frame f = f" "f \<noteq> page_frame (cr3 s)" using tl(1) by (simp_all add: fresh_table_def c)
  obtain p1 where p1: "copy_words s1 (v + of_nat 768 * 4) (0xfffff000 + of_nat 768 * 4) 256 = Inr (s1\<lparr>phys := p1\<rparr>)"
    "words_put (phys s1) p1 f 768 256 (\<lambda>k. phys s1 (page_frame (cr3 s1) + of_nat (768 + k) * 4))"
    using copy_dir_words [OF wf tl(1-3), of 768 256] by auto
  have out1: "p1 a = phys s1 a" if "page_frame a \<noteq> f" for a by (rule words_put_out [OF p1(2) that])
  note keep1 = outside_tables [OF wf tl(1) out1]
  let ?s2 = "s1\<lparr>phys := p1\<rparr>"
  have t2: "pt_wf (phys ?s2) (cr3 ?s2)" "fresh_table (phys ?s2) (cr3 ?s2) f" "vmap ?s2 v = Some f"
    using keep1 tl by simp_all
  note st = store_page_word [OF t2(1,2) tl(2) t2(3), of 1023 "self_entry f"]
  define s' where "s' = s1\<lparr>phys := p1(f + 4092 := self_entry f)\<rparr>"
  have copy: "kmemcpy s1 (v + 0x300 * 4) (0xfffff000 + 0x300 * 4) 1024 = Inr ?s2"
  proof -
    have "v + 0x300 * 4 \<noteq> NULL"
    proof
      assume "v + 0x300 * 4 = NULL"
      then have "page_frame (v + 768 * 4) = 0" by (simp add: page_frame_def)
      then show False using page_word(1) [OF tl(2), of 768] v0 by simp
    qed
    then show ?thesis using p1(1) by (simp add: kmemcpy_def)
  qed
  have v2p: "addr_v2p ?s2 v = Inr f"
    by (rule addr_v2p_walk) (use t2 in \<open>simp_all add: pt_wf_def\<close>)
  have run: "create_page_dir s = Inr (v, s')"
    using g(1) v0 copy v2p st(1) by (simp add: create_page_dir_def s'_def)
  have w4092: "page_frame (f + 4092) = f" using page_word(1) [OF ff(1), of 1023] by simp
  have out: "phys s' a = phys s1 a" if "page_frame a \<noteq> f" for a
    using that out1 [OF that] w4092 by (auto simp: s'_def)
  note keep = outside_tables [OF wf tl(1) out]
  have sel': "cr3 s' = cr3 s1" "mem s' = mem s1" "kernel_pool s' = kernel_pool s1" "user_pool s' = user_pool s1"
    "kernel_vaddr s' = kernel_vaddr s1" "lheap s' = lheap s1" "same_locks s1 s'"
    by (simp_all add: s'_def same_locks_def)
  have q: "quiet s1 s'" by (simp add: quiet_def sel' keep(1,2))
  have dir: "kernel_dir (phys s') (cr3 s) f"
    unfolding kernel_dir_def
  proof (intro conjI allI ff)
    fix w
    let ?i = "PDE_IDX w"
    have at: "pde_addr f w = f + ?i * 4" by (simp add: pde_addr_def ff(1))
    have "f + ?i * 4 = f + 1023 * 4 \<longleftrightarrow> ?i = 1023"
      using frame_word_inject [of ?i 1023 f f] idx_lt(1) [of w] ff(1) by simp
    then have put: "phys s' (f + ?i * 4) = (if ?i = 1023 then self_entry f else p1 (f + ?i * 4))" by (simp add: s'_def)
    have "p1 (f + ?i * 4) = (if 768 \<le> unat ?i then phys s1 (page_frame (cr3 s) + ?i * 4) else phys s1 (f + ?i * 4))"
      using words_put_word [OF p1(2) idx_lt(1) [of w]] idx_lt(1) [of w] by (simp add: c)
    moreover have "phys s1 (f + ?i * 4) = 0" using z idx_lt(1) [of w] by (simp add: frames_zero_def)
    moreover have "phys s1 (page_frame (cr3 s) + ?i * 4) = phys s' (pde_addr (cr3 s) w)"
      using keep(1) [of w] by (simp add: c pde_addr_def)
    ultimately show "phys s' (pde_addr f w) =
        (if unat ?i < 768 then 0 else if ?i = 1023 then self_entry f else phys s' (pde_addr (cr3 s) w))"
      unfolding at put by auto
  qed
  have inv': "kernel_inv s' F"
    by (rule kernel_inv_step [OF g(4) q sel'(7)])
      (use g(4) in \<open>simp_all add: sel' k_family_def kernel_inv_def lock_ready_def\<close>)
  have "fresh_table (phys s') (cr3 s) f" "vmap s' v = Some f"
    using tl(1,3) keep(1,2) by (simp_all add: fresh_table_def c sel')
  moreover have g1: "got_pages s s1 v [f]" using g(2) by (simp add: fs)
  moreover have "roomy s' n"
    using roomy_got [OF _ g1, of n] room inv by (simp add: roomy_quiet [OF q] kernel_inv_def)
  moreover have "\<exists>ph. s' = s1\<lparr>phys := ph\<rparr>" unfolding s'_def by blast
  moreover have "space_frame s s'"
  proof (rule space_frame_quiet [OF _ q])
    show "fresh_pages s s1 PF_KERNEL [f]" using g1 by (simp add: got_pages_def)
    show "phys s' a = phys s1 a" if "page_frame a \<notin> set [f]" for a using out that by simp
  qed (use g1 inv in \<open>simp_all add: got_pages_def kernel_inv_def\<close>)
  ultimately show thesis using that g(1) run q inv' dir by blast
qed

text \<open>
  C12. create_page_dir makes an address space. It returns a page in which it has built a directory
  whose physical address is the one addr_v2p finds; with that directory loaded nothing below
  0xc0000000 is mapped, every address of the kernel translates as before, and the directory is well
  formed, recursive slot included, so that page_table_add and the other functions work on it. The
  invariants of the kernel are kept.
\<close>

theorem create_page_dir_address_space:
  assumes "kernel_inv s F" "roomy s 1"
  shows "\<exists>v s' f. create_page_dir s = Inr (v, s') \<and> addr_v2p s' v = Inr f \<and> pt_wf (phys s') f \<and>
    (\<forall>w. unat w < 0xc0000000 \<longrightarrow> mmu_walk (phys s') f w = None) \<and>
    (\<forall>w. 0xc0000000 \<le> unat w \<longrightarrow> unat w < 0xffc00000 \<longrightarrow> mmu_walk (phys s') f w = vmap s' w) \<and> kernel_inv s' F"
proof -
  obtain v s1 s' f where r: "create_page_dir s = Inr (v, s')" "kernel_inv s' F" "kernel_dir (phys s') (cr3 s) f"
    "fresh_table (phys s') (cr3 s) f" "vmap s' v = Some f" "got_pages s s1 v [f]" "quiet s1 s'"
    using create_page_dir_ok [OF assms(1), of 0] assms(2) by (metis One_nat_def)
  have c: "cr3 s' = cr3 s" using r(6,7) mem_only_sel [of s s1] by (simp add: got_pages_def quiet_def)
  have wf: "pt_wf (phys s') (cr3 s)" using r(2) by (simp add: kernel_inv_def phys_inv_def c)
  note d = kernel_dir_wf [OF r(3) wf r(4)]
  have "addr_v2p s' v = Inr f" by (rule addr_v2p_walk) (use wf r(5) in \<open>simp_all add: pt_wf_def c\<close>)
  moreover have "mmu_walk (phys s') f w = None" if "unat w < 0xc0000000" for w
  proof (rule d(2))
    have "unat w < 768 * 4194304" using that by simp
    then show "unat (PDE_IDX w) < 768" unfolding unat_PDE_IDX by (rule less_mult_imp_div_less)
  qed
  moreover have "mmu_walk (phys s') f w = vmap s' w" if "0xc0000000 \<le> unat w" "unat w < 0xffc00000" for w
    unfolding c
  proof (rule d(3))
    show "768 \<le> unat (PDE_IDX w)" using div_le_mono [OF that(1), of 4194304] by (simp add: unat_PDE_IDX)
    have "unat w < 1023 * 4194304" using that by simp
    then have "unat (PDE_IDX w) < 1023" unfolding unat_PDE_IDX by (rule less_mult_imp_div_less)
    then show "PDE_IDX w \<noteq> 1023" by auto
  qed
  ultimately show ?thesis using r(1,2) d(1) by blast
qed

lemma create_page_dir_address_space_witness:
  "\<exists>s1 s2 v s' f. mem_init machine = Inr s1 \<and> thread_init s1 = Inr s2 \<and> create_page_dir s2 = Inr (v, s') \<and>
    addr_v2p s' v = Inr f \<and> mmu_walk (phys s') f USER_VADDR_START = None"
proof -
  obtain s1 s2 where s: "mem_init machine = Inr s1" "thread_init s1 = Inr s2" "kernel_inv s2 main_lists"
    and room: "\<And>n. 2 * n < 480 \<Longrightarrow> roomy s2 n"
    by (rule kernel_start [OF machine_starts, unfolded machine_pages]) (auto simp: system_inv_def)
  have "roomy s2 1" by (rule room) simp
  moreover have "unat USER_VADDR_START < 0xc0000000" by (simp add: USER_VADDR_START_def)
  ultimately show ?thesis using create_page_dir_address_space [OF s(3)] s(1,2) by blast
qed

section \<open>create_user_vaddr_bitmap\<close>

lemma user_bitmap_size: "unat user_bitmap_len = 94199" "user_bitmap_pages = 23" "unat USER_VADDR_START = 0x8048000"
  by (simp_all add: user_bitmap_len_def user_bitmap_pages_def USER_VADDR_START_def PG_SIZE_def unat_div)

lemma set_uvaddr_inv:
  assumes "kernel_inv s F"
  shows "kernel_inv (set_uvaddr p f s) F" "quiet s (set_uvaddr p f s)"
proof -
  show q: "quiet s (set_uvaddr p f s)" by (rule quiet_same) (simp_all add: set_uvaddr_def update_task_def)
  show "kernel_inv (set_uvaddr p f s) F"
    by (rule kernel_inv_step [OF assms q])
      (use assms in \<open>simp_all add: set_uvaddr_def update_task_def same_locks_def k_family_def kernel_inv_def lock_ready_def\<close>)
qed

text \<open>The map of a process at \<open>b\<close>: its bits are clear, and it lies in pages of its own.\<close>

definition user_map :: "kstate \<Rightarrow> u32 \<Rightarrow> virtual_addr \<Rightarrow> bool" where
  "user_map s b va \<longleftrightarrow> va = \<lparr>vaddr_bitmap = \<lparr>btmp_bytes_len = user_bitmap_len, bits = b\<rparr>, vaddr_start = USER_VADDR_START\<rparr> \<and>
     maps_clear s (vaddr_bitmap va) \<and> map_bytes (vaddr_bitmap va) \<inter> pool_bytes s = {} \<and> held s (map_bytes (vaddr_bitmap va))"

text \<open>The fields that the creation of a process changes only at the end, if at all.\<close>

definition same_rest :: "kstate \<Rightarrow> kstate \<Rightarrow> bool" where
  "same_rest s s' \<longleftrightarrow> same_locks s s' \<and> cr3 s' = cr3 s \<and> cur s' = cur s \<and> main_thread s' = main_thread s \<and> next_pid s' = next_pid s \<and>
     eflags s' = eflags s \<and> kernel_pool s' = kernel_pool s \<and>
     user_pool s' = user_pool s \<and> kernel_vaddr s' = kernel_vaddr s"

lemma mem_only_rest: "mem_only s s' \<Longrightarrow> same_rest s s'"
  by (simp add: same_rest_def same_locks_def mem_only_sel)

lemma same_rest_trans: "same_rest s s1 \<Longrightarrow> same_rest s1 s2 \<Longrightarrow> same_rest s s2"
  by (simp add: same_rest_def same_locks_def)

lemma same_rest_bytes: "same_rest s s' \<Longrightarrow> pool_bytes s' = pool_bytes s"
  by (simp add: same_rest_def same_locks_def pool_bytes_def)

lemma create_user_vaddr_bitmap_ok:
  assumes inv: "kernel_inv s F" and room: "roomy s (23 + n)"
  obtains b s1 s' fs where "get_kernel_pages (set_uvaddr p (\<lambda>v. v\<lparr>Kernel_State.vaddr_start := USER_VADDR_START\<rparr>) s) 23 = Inr (b, s1)"
    "create_user_vaddr_bitmap s p = Inr s'" "kernel_inv s' F" "roomy s' n" "user_map s' b (userprog_vaddr (tasks s' p))"
    "tasks s' = (tasks s)(p := (tasks s p)\<lparr>userprog_vaddr := userprog_vaddr (tasks s' p)\<rparr>)"
    "same_locks s s'" "\<And>A. held s A \<Longrightarrow> held s' A" "same_rest s s'" "thread_stacks s' = thread_stacks s"
    "\<And>q. card (free_pages s q) \<le> 46 + card (free_pages s' q)" "space_frame s s'"
proof -
  let ?f = "\<lambda>v. v\<lparr>Kernel_State.vaddr_start := USER_VADDR_START\<rparr>"
  define s0 where "s0 = set_uvaddr p ?f s"
  have inv0: "kernel_inv s0 F" and q0: "quiet s s0" using set_uvaddr_inv [OF inv] by (simp_all add: s0_def)
  have room0: "roomy s0 (23 + n)" using room by (simp add: roomy_quiet [OF q0])
  have "room_for s0 23" by (rule roomy_room [OF roomy_mono [OF room0]]) simp_all
  then obtain b s1 fs where g: "get_kernel_pages s0 23 = Inr (b, s1)" "got_pages s0 s1 b fs" "length fs = unat (23 :: u32)" "kernel_inv s1 F"
    using get_pages [OF inv0] by metis
  have g3: "length fs = 23" using g(3) by simp
  have mo: "mem_only s0 s1" and rf: "run_ok b 23" and b0: "b \<noteq> NULL" and new: "\<And>k. k < 23 \<Longrightarrow> vmap s0 (run_page b k) = None"
    using g(2) g3 by (simp_all add: got_pages_def run_frames_def)
  note sel1 = mem_only_sel [OF mo]
  let ?bm = "\<lparr>btmp_bytes_len = user_bitmap_len, bits = b\<rparr>" and ?g = "\<lambda>v. v\<lparr>vaddr_bitmap := \<lparr>btmp_bytes_len = user_bitmap_len, bits = b\<rparr>\<rparr>"
  define s2 where "s2 = set_uvaddr p ?g s1"
  have inv2: "kernel_inv s2 F" and q2: "quiet s1 s2" using set_uvaddr_inv [OF g(4)] by (simp_all add: s2_def)
  have va: "userprog_vaddr (tasks s2 p) = \<lparr>vaddr_bitmap = ?bm, vaddr_start = USER_VADDR_START\<rparr>"
    by (simp add: s2_def set_uvaddr_def update_task_def sel1 s0_def)
  define s' where "s' = s2\<lparr>mem := memset_loop (mem s2) b 0 user_bitmap_len\<rparr>"
  have run: "create_user_vaddr_bitmap s p = Inr s'"
    using g(1) va b0 by (simp add: create_user_vaddr_bitmap_def Let_def s0_def [symmetric] user_bitmap_size s2_def [symmetric]
        bitmap_init_def memset_def s'_def)
  have pages: "\<exists>k < 23. page_frame a = run_page b k" if "a - b < user_bitmap_len" for a
  proof (rule run_range [OF rf])
    have "unat (a - b) < 94199" using that by (simp add: word_less_nat_alt user_bitmap_size)
    then show "in_range a b (23 * 4096)" by (simp add: in_range_def)
  qed
  have bytes: "a - b < user_bitmap_len" if "a \<in> map_bytes ?bm" for a
    using that user_bitmap_size(1) by (auto simp: map_bytes_def word_less_nat_alt unat_of_nat)
  have out: "\<not> a - b < user_bitmap_len" if "a \<in> pool_bytes s0" for a
    using pages [of a] held_outside(1) [OF _ that rf new] inv0 by (auto simp: kernel_inv_def)
  have pb: "pool_bytes s2 = pool_bytes s0" "pool_bytes s' = pool_bytes s0"
    using quiet_bytes [OF q2] by (simp_all add: pool_bytes_def sel1 s'_def)
  have q': "quiet s2 s'" using out by (simp add: quiet_def s'_def pb memset_loop_eq)
  have inv': "kernel_inv s' F"
    by (rule kernel_inv_step [OF inv2 q']) (use inv2 in \<open>simp_all add: s'_def same_locks_def k_family_def kernel_inv_def lock_ready_def\<close>)
  have "roomy s1 n" using roomy_got [OF _ g(2), of n] room0 inv0 g3 by (simp add: kernel_inv_def)
  then have room': "roomy s' n" by (simp add: roomy_quiet [OF quiet_trans [OF q2 q']])
  have same: "same_locks s s'"
    by (simp add: same_locks_def s'_def s2_def set_uvaddr_def update_task_def sel1 s0_def)
  have va': "userprog_vaddr (tasks s' p) = \<lparr>vaddr_bitmap = ?bm, vaddr_start = USER_VADDR_START\<rparr>" by (simp add: s'_def va)
  have "map_bytes ?bm \<inter> pool_bytes s' = {}" using bytes out pb(2) by auto
  moreover have "maps_clear s' ?bm" by (rule maps_clear_zero) (simp add: s'_def memset_loop_eq)
  moreover have "held s1 (map_bytes ?bm)"
    unfolding held_def
  proof
    fix a assume "a \<in> map_bytes ?bm"
    then obtain k where "k < length fs" "page_frame a = run_page b k" using pages bytes g3 by metis
    then show "own_pde a \<and> vmap s1 a \<noteq> None" using got_run_held(1,2) [OF g(2)] by blast
  qed
  then have "held s' (map_bytes ?bm)" by (simp add: held_quiet [OF quiet_trans [OF q2 q']])
  ultimately have um: "user_map s' b (userprog_vaddr (tasks s' p))" by (simp add: user_map_def va')
  have tk: "tasks s' = (tasks s)(p := (tasks s p)\<lparr>userprog_vaddr := userprog_vaddr (tasks s' p)\<rparr>)"
  proof -
    have eq: "va\<lparr>Kernel_State.vaddr_start := x, vaddr_bitmap := y\<rparr> = \<lparr>vaddr_bitmap = y, vaddr_start = x\<rparr>" for va :: virtual_addr and x y
      by (rule virtual_addr.equality) simp_all
    show ?thesis unfolding va' by (simp add: s'_def s2_def set_uvaddr_def update_task_def sel1 s0_def) (simp only: eq)
  qed
  have held: "held s' A" if "held s A" for A
    using got_held [OF g(2), of A] that by (simp add: held_quiet [OF q0] held_quiet [OF quiet_trans [OF q2 q']])
  have rest: "same_rest s s'" and st: "thread_stacks s' = thread_stacks s"
    by (simp_all add: same_rest_def same_locks_def s'_def s2_def set_uvaddr_def update_task_def sel1 s0_def)
  have cnt: "card (free_pages s q) \<le> 46 + card (free_pages s' q)" for q
  proof -
    have "card (free_pages s0 q) \<le> 46 + card (free_pages s1 q)" using g(2) g3 by (simp add: got_pages_def)
    then show ?thesis by (simp only: quiet_free_pages [OF q0] quiet_free_pages [OF quiet_trans [OF q2 q']])
  qed
  have "space_frame s s0" "space_frame s1 s'"
    by (rule space_frame_same [OF q0], simp add: s0_def set_uvaddr_def,
      rule space_frame_same [OF quiet_trans [OF q2 q']], simp add: s'_def s2_def set_uvaddr_def)
  moreover have "space_frame s0 s1" using g(2) by (simp add: got_pages_def)
  ultimately have sf: "space_frame s s'" using space_frame_trans by blast
  show thesis by (rule that [OF g(1) [unfolded s0_def] run inv' room' um tk same held rest st cnt sf])
qed

section \<open>The address space of a process\<close>

text \<open>
  With the new directory loaded and the process running, the invariants of page allocation hold
  again, so that malloc_page works for the process; its pool of virtual pages is empty.
\<close>

lemma user_half:
  assumes "unat w < 0xc0000000"
  shows "unat (PDE_IDX w) < 768"
proof -
  have "unat w < 768 * 4194304" using assms by simp
  then show ?thesis unfolding unat_PDE_IDX by (rule less_mult_imp_div_less)
qed

lemma new_space_phys_inv:
  assumes inv: "phys_inv s" and d: "kernel_dir (phys s) (cr3 s) f" and fr: "fresh_table (phys s) (cr3 s) f"
    and j: "pool_idx s q j" "pool_bit s q j" "f = pool_page (pool_of q s) j"
  shows "phys_inv (s\<lparr>cur := v, cr3 := f\<rparr>)"
proof -
  let ?s = "s\<lparr>cur := v, cr3 := f\<rparr>"
  have wf: "pt_wf (phys s) (cr3 s)" and pw: "pools_wf s" using inv by (simp_all add: phys_inv_def)
  note dir = kernel_dir_wf [OF d wf fr]
  have ff: "page_frame f = f" using d by (simp add: kernel_dir_def)
  have unused: "unused_page ?s (pool_page (pool_of p s) i)" if i: "pool_idx s p i" "\<not> pool_bit s p i" for p i
  proof -
    let ?p = "pool_page (pool_of p s) i"
    have u: "fresh_table (phys s) (cr3 s) ?p" "\<And>w. own_pde w \<Longrightarrow> vmap s w \<noteq> Some (?p + page_offset w)"
      using inv i by (simp_all add: phys_inv_def unused_page_def)
    have ne: "?p \<noteq> f"
    proof
      assume "?p = f"
      then have "p = q \<and> i = j" using pool_page_inject [OF pw] i(1) j(1,3) by (simp add: pool_idx_def)
      then show False using i(2) j(2) by simp
    qed
    have "page_frame (phys s (pde_addr f w)) \<noteq> ?p" if P: "present (phys s (pde_addr f w))" for w
    proof -
      have e: "phys s (pde_addr f w) = (if unat (PDE_IDX w) < 768 then 0 else if PDE_IDX w = 1023 then self_entry f else phys s (pde_addr (cr3 s) w))"
        using d unfolding kernel_dir_def by blast
      have ef: "page_frame (self_entry f) = f" using entry_fields(1) [of f] ff by simp
      show ?thesis
        using P u(1) ne by (auto simp: e ef fresh_table_def present_def split: if_splits)
    qed
    moreover have "mmu_walk (phys s) f w \<noteq> Some (?p + page_offset w)" if "own_pde w" for w
      using dir(2,3) [of w] u(2) [OF that] that by (cases "unat (PDE_IDX w) < 768") (simp_all add: own_pde_def)
    ultimately show ?thesis using u(1) ne ff by (simp add: unused_page_def fresh_table_def)
  qed
  have same: "pools_wf ?s = pools_wf s" "pool_of p ?s = pool_of p s" "pool_idx ?s p i = pool_idx s p i" "pool_bit ?s p i = pool_bit s p i" for p i
    by (simp_all add: pools_wf_def pool_of_def pool_idx_def pool_bit_def)
  show ?thesis unfolding phys_inv_def same using inv dir(1) unused by (simp add: phys_inv_def)
qed

lemma new_space_vpool_inv:
  assumes d: "kernel_dir (phys s) (cr3 s) f" and wf: "pt_wf (phys s) (cr3 s)" and fr: "fresh_table (phys s) (cr3 s) f"
    and um: "user_map s b (userprog_vaddr (tasks s v))"
  shows "vpool_inv (s\<lparr>cur := v, cr3 := f\<rparr>) PF_USER"
proof -
  let ?bm = "\<lparr>btmp_bytes_len = user_bitmap_len, bits = b\<rparr>"
  have va: "userprog_vaddr (tasks s v) = \<lparr>vaddr_bitmap = ?bm, vaddr_start = USER_VADDR_START\<rparr>"
    and disj: "map_bytes ?bm \<inter> pool_bytes s = {}" and held: "held s (map_bytes ?bm)"
    using um by (auto simp: user_map_def)
  have start: "page_frame USER_VADDR_START = USER_VADDR_START" by (simp add: USER_VADDR_START_def page_frame_def)
  have low: "low_map ?bm" using held own_pde_below by (auto simp: low_map_def held_def)
  have "mmu_walk (phys s) f (run_page USER_VADDR_START i) = None" if "i < 94199" for i
  proof (rule kernel_dir_wf(2) [OF d wf fr])
    have "run_ok USER_VADDR_START 94199" by (simp add: run_ok_def start user_bitmap_size)
    from run_page_unat [OF this that] have "unat (run_page USER_VADDR_START i) < 0xc0000000"
      using that by (simp add: user_bitmap_size)
    then show "unat (PDE_IDX (run_page USER_VADDR_START i)) < 768" by (rule user_half)
  qed
  then show ?thesis
    using disj low by (auto simp: vpool_inv_def Let_def vaddr_pool_def running_thread_def va start user_bitmap_size pool_bytes_def)
qed

section \<open>process_execute\<close>

lemma block_desc_init_out:
  assumes "\<And>k. k < 168 \<Longrightarrow> x \<noteq> arr + of_nat k"
  shows "lheap (block_desc_init s arr) x = lheap s x"
proof -
  have h: "lheap (list_init t l) x = lheap t x" if "x \<noteq> l" "x \<noteq> tail_of l" for t l
    using that by (simp add: list_init_def dl_init_def Let_def set_next_def set_prev_def)
  have k: "x \<noteq> arr + 8" "x \<noteq> arr + 16" "x \<noteq> arr + 32" "x \<noteq> arr + 40" "x \<noteq> arr + 56" "x \<noteq> arr + 64" "x \<noteq> arr + 80"
    "x \<noteq> arr + 88" "x \<noteq> arr + 104" "x \<noteq> arr + 112" "x \<noteq> arr + 128" "x \<noteq> arr + 136" "x \<noteq> arr + 152" "x \<noteq> arr + 160"
    using assms [of 8] assms [of 16] assms [of 32] assms [of 40] assms [of 56] assms [of 64] assms [of 80]
      assms [of 88] assms [of 104] assms [of 112] assms [of 128] assms [of 136] assms [of 152] assms [of 160] by simp_all
  show ?thesis unfolding block_desc_init_eq using k by (simp add: h tail_of_def add.assoc)
qed

lemma list_init_only: "\<exists>h. list_init s l = s\<lparr>lheap := h\<rparr>"
  unfolding list_init_def by blast

lemma block_desc_init_only: "\<exists>h d. block_desc_init s arr = s\<lparr>lheap := h, descs := d\<rparr>"
proof -
  have "\<exists>h d. fold (\<lambda>(i, b, n) s. list_init (s\<lparr>descs := (descs s)(arr + i * 24 := \<lparr>block_size = b, blocks_per_arena = n\<rparr>)\<rparr>)
      (arr + i * 24 + 8)) xs s = s\<lparr>lheap := h, descs := d\<rparr>" for xs
  proof (induction xs arbitrary: s)
    case Nil
    then show ?case by (intro exI [of _ "lheap s"] exI [of _ "descs s"]) simp
  next
    case (Cons x xs)
    obtain i b n where x: "x = (i, b, n)" by (cases x)
    let ?d = "(descs s)(arr + i * 24 := \<lparr>block_size = b, blocks_per_arena = n\<rparr>)"
    obtain h' where h': "list_init (s\<lparr>descs := ?d\<rparr>) (arr + i * 24 + 8) = s\<lparr>descs := ?d, lheap := h'\<rparr>"
      using list_init_only by blast
    obtain h d where "fold (\<lambda>(i, b, n) s. list_init (s\<lparr>descs := (descs s)(arr + i * 24 := \<lparr>block_size = b, blocks_per_arena = n\<rparr>)\<rparr>)
      (arr + i * 24 + 8)) xs (s\<lparr>descs := ?d, lheap := h'\<rparr>) = (s\<lparr>descs := ?d, lheap := h'\<rparr>)\<lparr>lheap := h, descs := d\<rparr>"
      using Cons.IH by blast
    then show ?case by (intro exI [of _ h] exI [of _ d]) (simp add: x h' del: fun_upd_apply)
  qed
  then show ?thesis unfolding block_desc_init_eq .
qed

text \<open>The PCB's own table of descriptors: it lies in the page of the PCB.\<close>

lemma pcb_descs:
  assumes inv: "kernel_inv s F" and p: "page_held s F v"
  defines "s' \<equiv> block_desc_init s (u_block_desc v)"
  shows "kernel_inv s' F" "quiet s s'" "same_locks s s'" "same_rest s s'" "tasks s' = tasks s" "phys s' = phys s" "mem s' = mem s"
    "page_held s' F v"
proof -
  obtain h d where s': "s' = s\<lparr>lheap := h, descs := d\<rparr>" unfolding s'_def using block_desc_init_only by blast
  show sel: "same_locks s s'" "same_rest s s'" "tasks s' = tasks s" "phys s' = phys s" "mem s' = mem s"
    by (simp_all add: s' same_locks_def same_rest_def same_locks_def)
  show q: "quiet s s'" by (rule quiet_same) (simp_all add: s')
  have v: "page_frame v = v" using p by (simp add: page_held_def)
  have "lheap s' x = lheap s x" if x: "x \<in> fam_nodes F" for x
    unfolding s'_def
  proof (rule block_desc_init_out)
    fix k :: nat assume "k < 168"
    then have "page_frame (v + of_nat (68 + k)) = v"
      using page_offset_add(1) [of v "68 + k"] page_offset_frame [OF v] v by simp
    moreover have "u_block_desc v + of_nat k = v + of_nat (68 + k)" by (simp add: u_block_desc_def)
    ultimately have at: "page_frame (u_block_desc v + of_nat k) = v" by (simp only:)
    show "x \<noteq> u_block_desc v + of_nat k"
    proof
      assume "x = u_block_desc v + of_nat k"
      then have "page_frame x = v" by (simp only: at)
      then show False using p x unfolding page_held_def by blast
    qed
  qed
  note heap = this
  have fam: "k_family s F" "held s (fam_nodes F)" using inv by (simp_all add: kernel_inv_def lock_ready_def)
  have "k_family s' F" by (rule k_family_cong [OF fam(1) heap])
  then show "kernel_inv s' F" using fam(2) by (rule kernel_inv_step [OF inv q sel(1)])
  have "vmap s' v \<noteq> None" using p quiet_vmap [OF q] unfolding page_held_def by metis
  then show "page_held s' F v" using quiet_bytes [OF q] by (rule page_held_keep [OF p])
qed

text \<open>The pages that the kernel's pool gives lie in the kernel's part of the address space.\<close>

lemma got_high:
  assumes inv: "kernel_inv s F" and g: "got_pages s s' v fs" and n: "0 < length fs"
  shows "0xc0000000 \<le> unat v" "own_pde v" "768 \<le> unat (PDE_IDX v)"
proof -
  have run: "run_ok v (length fs)" using g by (simp add: got_pages_def run_frames_def)
  have r0: "run_page v 0 = v" by (simp add: run_page_def)
  show "own_pde v" using run_page_frame(2) [OF run n] by (simp add: r0)
  let ?start = "Kernel_State.vaddr_start (kernel_vaddr s)" and ?L = "unat (btmp_bytes_len (vaddr_bitmap (kernel_vaddr s)))"
  have "run_ok ?start ?L" "0xc0000000 \<le> unat ?start"
    using inv by (simp_all add: kernel_inv_def vpool_inv_def vaddr_pool_def Let_def run_ok_def)
  moreover have "\<exists>k. v = run_page ?start k \<and> k < ?L"
    using g unfolding got_pages_def window_taken_def vaddr_pool_def Let_def by (auto intro: less_imp_le)
  then obtain k where "v = run_page ?start k" "k < ?L" by blast
  ultimately show high: "0xc0000000 \<le> unat v" using run_page_unat [of ?start ?L k] by simp
  show "768 \<le> unat (PDE_IDX v)" using div_le_mono [OF high, of 4194304] by (simp add: unat_PDE_IDX)
qed

text \<open>A new process: its PCB is in the page at \<open>v\<close>, and what the process does not own is as before.\<close>

definition new_process :: "kstate \<Rightarrow> kstate \<Rightarrow> (u32 \<Rightarrow> u32 list option) \<Rightarrow> u32 \<Rightarrow> task_struct \<Rightarrow> bool" where
  "new_process s s' F v t \<longleftrightarrow> page_held s' F v \<and> 768 \<le> unat (PDE_IDX v) \<and> vmap s v = None \<and> tasks s' = (tasks s)(v := t) \<and>
     next_pid s' = next_pid s + 1 \<and> cr3 s' = cr3 s \<and> cur s' = cur s \<and> same_locks s s' \<and> main_thread s' = main_thread s \<and>
     eflags s' = eflags s \<and> pool_bytes s' = pool_bytes s \<and> (\<forall>A. held s A \<longrightarrow> held s' A) \<and>
     space_frame s s'"

lemma new_process_step:
  assumes n: "new_process s s1 F v t1" and t: "tasks s2 = (tasks s1)(v := t2)" and r: "same_rest s1 s2"
    and h: "\<And>A. held s1 A \<Longrightarrow> held s2 A" and sf: "space_frame s1 s2"
  shows "new_process s s2 F v t2"
proof -
  have p1: "page_held s1 F v" using n by (simp add: new_process_def)
  then have "held s1 {v}" by (simp add: held_def page_held_def)
  from h [OF this] have "vmap s2 v \<noteq> None" by (simp add: held_def)
  then have "page_held s2 F v" using same_rest_bytes [OF r] by (rule page_held_keep [OF p1])
  moreover have "tasks s2 = (tasks s)(v := t2)" using n t by (simp add: new_process_def)
  moreover have "space_frame s s2" using n sf space_frame_trans by (simp add: new_process_def) blast
  ultimately show ?thesis using n r h same_rest_bytes [OF r] by (simp add: new_process_def same_rest_def same_locks_def)
qed

lemma new_pcb_ok:
  assumes inv: "kernel_inv s F" and room: "roomy s (Suc n)" and name: "length name < 16"
  obtains v s1 s2 where "get_kernel_pages s 1 = Inr (v, s1)" "init_thread s1 v name prio = Inr s2"
    "kernel_inv s2 F" "roomy s2 n" "new_process s s2 F v (new_pcb s v name prio)" "thread_stacks s2 = thread_stacks s"
    "\<And>q. card (free_pages s q) \<le> 2 + card (free_pages s2 q)"
proof -
  have room1: "room_for s 1" by (rule roomy_room [OF roomy_mono [OF room]]) simp_all
  obtain v s1 fs where g: "get_kernel_pages s 1 = Inr (v, s1)" "got_pages s s1 v fs" "length fs = 1" "kernel_inv s1 F"
    using get_pages [OF inv room1] by (metis unsigned_1)
  have mo: "mem_only s s1" using g(2) by (simp add: got_pages_def)
  note sel1 = mem_only_sel [OF mo]
  have p1: "pcb_page s1 F v" by (rule got_pcb_page [OF g(2) inv]) (simp add: g(3))
  obtain s2 where s2: "init_thread s1 v name prio = Inr s2" "pcb_made s1 s2 v (new_pcb s1 v name prio)" "kernel_inv s2 F"
    using init_thread_ok [OF g(4) p1 name] by blast
  have new: "new_pcb s1 v name prio = new_pcb s v name prio" by (simp add: new_pcb_def sel1)
  have q: "quiet s1 s2" using s2(2) by (simp add: pcb_made_def)
  have "roomy s1 n" using roomy_got [OF _ g(2), of n] room inv g(3) by (simp add: kernel_inv_def)
  then have room2: "roomy s2 n" by (simp add: roomy_quiet [OF q])
  have pb: "pool_bytes s2 = pool_bytes s" using quiet_bytes [OF q] by (simp add: pool_bytes_def sel1)
  have h1: "page_held s1 F v" by (rule pcb_page_held [OF p1])
  have "vmap s2 v \<noteq> None" using h1 quiet_vmap [OF q] unfolding page_held_def by metis
  then have p2: "page_held s2 F v" using quiet_bytes [OF q] by (rule page_held_keep [OF h1])
  have "vmap s v = None" using g(2,3) by (auto simp: got_pages_def run_page_def dest: spec [of _ 0])
  moreover have "held s2 A" if "held s A" for A using got_held [OF g(2) that] held_quiet [OF q] by simp
  moreover have "cr3 s2 = cr3 s" "cur s2 = cur s" "same_locks s s2"
    using q s2(2) by (simp_all add: quiet_def pcb_made_def same_locks_def sel1)
  moreover have "768 \<le> unat (PDE_IDX v)" by (rule got_high(3) [OF inv g(2)]) (simp add: g(3))
  moreover have "space_frame s s2" by (rule pcb_made_space [OF g(2,3) _ s2(2)]) (use inv in \<open>simp add: kernel_inv_def\<close>)
  ultimately have "new_process s s2 F v (new_pcb s v name prio)"
    using s2(2) p2 pb by (simp add: new_process_def pcb_made_def sel1 new)
  moreover have "thread_stacks s2 = thread_stacks s" using s2(2) by (simp add: pcb_made_def sel1)
  moreover have "card (free_pages s q) \<le> 2 + card (free_pages s2 q)" for q
    using g(2,3) by (simp add: got_pages_def quiet_free_pages [OF q])
  ultimately show thesis using that g(1) s2(1,3) room2 by blast
qed

text \<open>The last step: interrupts off, both lists, interrupts as they were.\<close>

lemma enlist_ok:
  assumes inv: "kernel_inv s F" and p: "page_held s F v"
    and R: "F THREAD_READY_LIST = Some rs" and A: "F THREAD_ALL_LIST = Some ts"
  defines "s' \<equiv> list_append (list_append s THREAD_READY_LIST (general_tag v)) THREAD_ALL_LIST (all_list_tag v)"
  shows "(let (s6, old) = intr_disable s in bindR (add_ready s6 v) (\<lambda>s7. bindR (add_all s7 v) (\<lambda>s8.
      Inr (fst (intr_set_status s8 old))))) = Inr s'"
    "kernel_inv s' (listed F rs ts v)" "quiet s s'"
proof -
  let ?c = "cli s" and ?e = "\<lambda>t. list_append (list_append t THREAD_READY_LIST (general_tag v)) THREAD_ALL_LIST (all_list_tag v)"
  have q: "quiet s ?c" by (rule quiet_same) (simp_all add: cli_def)
  have "k_family ?c F" using inv by (simp add: k_family_def kernel_inv_def lock_ready_def)
  moreover have "same_locks s ?c" by (simp add: same_locks_def cli_def)
  moreover have "held s (fam_nodes F)" using inv by (simp add: kernel_inv_def)
  ultimately have inv': "kernel_inv ?c F" by (intro kernel_inv_step [OF inv q])
  have "vmap ?c v \<noteq> None" using p quiet_vmap [OF q] unfolding page_held_def by metis
  then have p': "page_held ?c F v" using quiet_bytes [OF q] by (rule page_held_keep [OF p])
  have id: "intr_disable s = (?c, intr_get_status s)"
    using fst_intr_disable [of s] snd_intr_disable [of s] by (metis prod.collapse)
  have "eflags (?e ?c) = eflags ?c" by (simp add: list_append_eq)
  then have "fst (intr_set_status (?e ?c) (intr_get_status s)) = (?e ?c)\<lparr>eflags := eflags s\<rparr>" by (rule intr_restore)
  also have "\<dots> = s'" by (simp add: s'_def list_append_eq cli_def)
  finally have restore: "fst (intr_set_status (?e ?c) (intr_get_status s)) = s'" .
  have "(let (s6, old) = intr_disable s in bindR (add_ready s6 v) (\<lambda>s7. bindR (add_all s7 v) (\<lambda>s8.
      Inr (fst (intr_set_status s8 old))))) =
    bindR (bindR (add_ready ?c v) (\<lambda>s7. add_all s7 v)) (\<lambda>s8. Inr (fst (intr_set_status s8 (intr_get_status s))))"
    by (simp add: id bindR_assoc)
  also have "\<dots> = Inr s'" by (simp only: add_both(1) [OF inv' p' R A] bindR.simps restore)
  finally show "(let (s6, old) = intr_disable s in bindR (add_ready s6 v) (\<lambda>s7. bindR (add_all s7 v) (\<lambda>s8.
      Inr (fst (intr_set_status s8 old))))) = Inr s'" .
  show "kernel_inv s' (listed F rs ts v)" "quiet s s'" unfolding s'_def using add_both(2,3) [OF inv p R A] by blast+
qed

lemma user_map_step:
  assumes u: "user_map s b va" and m: "\<And>a. a \<in> map_bytes (vaddr_bitmap va) \<Longrightarrow> mem s' a = mem s a"
    and pb: "pool_bytes s' = pool_bytes s" and h: "\<And>A. held s A \<Longrightarrow> held s' A"
  shows "user_map s' b va"
proof -
  have "bitmap_scan_test (mem s') (vaddr_bitmap va) i = bitmap_scan_test (mem s) (vaddr_bitmap va) i"
    if "unat i < 8 * unat (btmp_bytes_len (vaddr_bitmap va))" for i
    by (rule test_frame) (use that m in auto)
  then have "maps_clear s (vaddr_bitmap va) \<Longrightarrow> maps_clear s' (vaddr_bitmap va)" by (simp add: maps_clear_def)
  then show ?thesis using u h unfolding user_map_def pb by blast
qed

lemma got_user_map:
  assumes u: "user_map s b va" and g: "got_pages s s' v fs"
  shows "user_map s' b va"
proof (rule user_map_step [OF u])
  have h: "held s (map_bytes (vaddr_bitmap va))" and d: "map_bytes (vaddr_bitmap va) \<inter> pool_bytes s = {}"
    using u by (auto simp: user_map_def)
  have "\<forall>A. held s A \<longrightarrow> (\<forall>a \<in> A. a \<notin> pool_bytes s \<longrightarrow> mem s' a = mem s a)"
    using g unfolding got_pages_def by blast
  then show "mem s' a = mem s a" if "a \<in> map_bytes (vaddr_bitmap va)" for a using that h d by blast
  have "mem_only s s'" using g by (simp add: got_pages_def)
  then show "pool_bytes s' = pool_bytes s" by (simp add: pool_bytes_def mem_only_sel)
  show "held s' A" if "held s A" for A by (rule got_held [OF g that])
qed

text \<open>What process_execute leaves behind: the PCB at \<open>v\<close>, the directory at \<open>dir\<close>, in frame \<open>f\<close>.\<close>

definition executed :: "kstate \<Rightarrow> kstate \<Rightarrow> (u32 \<Rightarrow> u32 list option) \<Rightarrow> u32 \<Rightarrow> u32 \<Rightarrow> u32 \<Rightarrow> u32 \<Rightarrow> string \<Rightarrow> bool" where
  "executed s s' F v dir f filename name \<longleftrightarrow>
     (\<exists>va b. new_process s s' F v ((new_pcb s v name default_prio)\<lparr>userprog_vaddr := va, self_kstack := v + 0xe50, pgdir := dir\<rparr>) \<and>
        user_map s' b va) \<and>
     thread_stacks s' = (thread_stacks s)(v + 0xe50 := first_frame ''start_process'' filename (thread_stacks s (v + 0xe50))) \<and>
     dir \<noteq> NULL \<and> own_pde dir \<and> 768 \<le> unat (PDE_IDX dir) \<and> vmap s' dir = Some f \<and>
     kernel_dir (phys s') (cr3 s) f \<and> fresh_table (phys s') (cr3 s) f \<and>
     (\<exists>j. pool_idx s' PF_KERNEL j \<and> pool_bit s' PF_KERNEL j \<and> f = pool_page (pool_of PF_KERNEL s') j) \<and>
     (\<forall>j. pool_idx s PF_KERNEL j \<longrightarrow> pool_bit s PF_KERNEL j \<longrightarrow> f \<noteq> pool_page (pool_of PF_KERNEL s) j) \<and>
     (\<forall>q. card (free_pages s q) \<le> 50 + card (free_pages s' q))"

lemma frame_taken:
  assumes "fresh_pages s s1 PF_KERNEL [f]" "kernel_pool s1 = kernel_pool s" "kernel_pool s' = kernel_pool s" "mem s' = mem s1"
  shows "\<exists>j. pool_idx s' PF_KERNEL j \<and> pool_bit s' PF_KERNEL j \<and> f = pool_page (pool_of PF_KERNEL s') j"
  using assms by (auto simp: fresh_pages_def pool_idx_def pool_bit_def pool_of_def)

lemma frame_was_free:
  assumes sf: "space_frame s s1" and wf: "pools_wf s" and new: "fresh_pages s1 s2 PF_KERNEL [f]"
    and j: "pool_idx s PF_KERNEL j" "pool_bit s PF_KERNEL j"
  shows "f \<noteq> pool_page (pool_of PF_KERNEL s) j"
proof
  assume f: "f = pool_page (pool_of PF_KERNEL s) j"
  have c: "pool_of q s1 = pool_of q s" "pool_idx s1 q i = pool_idx s q i" for q i
    using sf by (simp_all add: space_frame_def pool_idx_def)
  obtain i where i: "f = pool_page (pool_of PF_KERNEL s) i" "pool_idx s PF_KERNEL i" "\<not> pool_bit s1 PF_KERNEL i"
    using new by (auto simp: fresh_pages_def c)
  have "i = j" using pool_page_inject [OF wf i(2) j(1)] f i(1) by simp
  moreover have "pool_bit s1 PF_KERNEL j" using sf j by (simp add: space_frame_def)
  ultimately show False using i(3) by simp
qed

lemma process_execute_ok:
  assumes inv: "kernel_inv s F" and room: "roomy s (25 + n)" and name: "length name < 16"
    and R: "F THREAD_READY_LIST = Some rs" and A: "F THREAD_ALL_LIST = Some ts"
  obtains v dir f s' where "process_execute s filename name = Inr s'" "executed s s' F v dir f filename name"
    "kernel_inv s' (listed F rs ts v)" "roomy s' n"
proof -
  have room24: "roomy s (Suc (24 + n))" using room by simp
  obtain v s1 s2 where p2: "get_kernel_pages s 1 = Inr (v, s1)" "init_thread s1 v name default_prio = Inr s2"
    "kernel_inv s2 F" "roomy s2 (24 + n)" "new_process s s2 F v (new_pcb s v name default_prio)" "thread_stacks s2 = thread_stacks s"
    "\<And>q. card (free_pages s q) \<le> 2 + card (free_pages s2 q)"
    by (rule new_pcb_ok [OF inv room24 name, where prio = default_prio]) (rule that)
  have room23: "roomy s2 (23 + Suc n)" using p2(4) by simp
  obtain b s3 where p3: "create_user_vaddr_bitmap s2 v = Inr s3" "kernel_inv s3 F" "roomy s3 (Suc n)"
    "user_map s3 b (userprog_vaddr (tasks s3 v))" "tasks s3 = (tasks s2)(v := (tasks s2 v)\<lparr>userprog_vaddr := userprog_vaddr (tasks s3 v)\<rparr>)"
    "\<And>A. held s2 A \<Longrightarrow> held s3 A" "same_rest s2 s3" "thread_stacks s3 = thread_stacks s2"
    "\<And>q. card (free_pages s2 q) \<le> 46 + card (free_pages s3 q)" "space_frame s2 s3"
    by (rule create_user_vaddr_bitmap_ok [OF p2(3) room23, where p = v]) (rule that)
  define va where "va = userprog_vaddr (tasks s3 v)"
  let ?t3 = "(new_pcb s v name default_prio)\<lparr>userprog_vaddr := va\<rparr>"
  have t2: "tasks s2 v = new_pcb s v name default_prio" using p2(5) by (simp add: new_process_def)
  have n3: "new_process s s3 F v ?t3"
    by (rule new_process_step [OF p2(5) _ p3(7,6,10)]) (use p3(5) t2 in \<open>simp add: va_def\<close>)
  define s3' where "s3' = thread_create s3 v ''start_process'' filename"
  have t3: "tasks s3 v = ?t3" using n3 by (simp add: new_process_def)
  have s3': "s3' = s3\<lparr>tasks := (tasks s3)(v := ?t3\<lparr>self_kstack := v + 0xe50\<rparr>),
    thread_stacks := (thread_stacks s3)(v + 0xe50 := first_frame ''start_process'' filename (thread_stacks s3 (v + 0xe50)))\<rparr>"
    unfolding s3'_def t3 [symmetric] by (rule thread_create_eq) (simp add: t3 new_pcb_def)
  have q3: "quiet s3 s3'" by (rule quiet_same) (simp_all add: s3')
  have inv3': "kernel_inv s3' F"
    by (rule kernel_inv_step [OF p3(2) q3])
      (use p3(2) in \<open>simp_all add: s3' same_locks_def k_family_def kernel_inv_def lock_ready_def\<close>)
  have "roomy s3' (Suc n)" using p3(3) by (simp add: roomy_quiet [OF q3])
  then obtain dir s4' s4 f where p4: "create_page_dir s3' = Inr (dir, s4)"
    "got_pages s3' s4' dir [f]" "quiet s4' s4" "\<exists>ph. s4 = s4'\<lparr>phys := ph\<rparr>" "kernel_inv s4 F"
    "kernel_dir (phys s4) (cr3 s3') f" "fresh_table (phys s4) (cr3 s3') f" "vmap s4 dir = Some f" "roomy s4 n"
    "space_frame s3' s4"
    using create_page_dir_ok [OF inv3'] by metis
  have mo: "mem_only s3' s4'" using p4(2) by (simp add: got_pages_def)
  obtain ph where ph: "s4 = s4'\<lparr>phys := ph\<rparr>" using p4(4) by blast
  note sel4 = mem_only_sel [OF mo]
  have um3: "user_map s3' b va" by (rule user_map_step [OF p3(4) [folded va_def]])
    (simp_all add: s3' pool_bytes_def held_quiet [OF q3, unfolded s3'])
  have um4: "user_map s4 b va"
    by (rule user_map_step [OF got_user_map [OF um3 p4(2)]])
      (simp_all add: ph pool_bytes_def held_quiet [OF p4(3), unfolded ph])
  let ?t4 = "?t3\<lparr>self_kstack := v + 0xe50\<rparr>"
  have n4: "new_process s s4 F v ?t4"
  proof (rule new_process_step [OF n3])
    show "tasks s4 = (tasks s3)(v := ?t4)" by (simp add: ph sel4) (simp add: s3')
    show "same_rest s3 s4" by (simp add: same_rest_def same_locks_def ph sel4) (simp add: s3')
    show "held s4 A" if "held s3 A" for A
      using got_held [OF p4(2), of A] that by (simp add: held_quiet [OF q3] held_quiet [OF p4(3)])
    have "space_frame s3 s3'" by (rule space_frame_same [OF q3]) (simp add: s3')
    then show "space_frame s3 s4" by (rule space_frame_trans [OF _ p4(10)])
  qed
  define s5 where "s5 = update_task v (\<lambda>t. t\<lparr>pgdir := dir\<rparr>) s4"
  let ?t5 = "?t4\<lparr>pgdir := dir\<rparr>"
  have q5: "quiet s4 s5" by (rule quiet_same) (simp_all add: s5_def update_task_def)
  have inv5: "kernel_inv s5 F"
    by (rule kernel_inv_step [OF p4(5) q5])
      (use p4(5) in \<open>simp_all add: s5_def same_locks_def k_family_def kernel_inv_def lock_ready_def\<close>)
  have n5: "new_process s s5 F v ?t5"
  proof (rule new_process_step [OF n4])
    show "tasks s5 = (tasks s4)(v := ?t5)" using n4 by (simp add: new_process_def s5_def)
    show "same_rest s4 s5" by (simp add: same_rest_def same_locks_def s5_def update_task_def)
    show "held s5 A" if "held s4 A" for A using that by (simp add: held_quiet [OF q5])
    show "space_frame s4 s5" by (rule space_frame_same [OF q5]) (simp add: s5_def update_task_def)
  qed
  define s6 where "s6 = block_desc_init s5 (u_block_desc v)"
  have "page_held s5 F v" using n5 by (simp add: new_process_def)
  note p6 = pcb_descs [OF inv5 this, folded s6_def]
  note p7 = enlist_ok [OF p6(1,8) R A]
  define s' where "s' = list_append (list_append s6 THREAD_READY_LIST (general_tag v)) THREAD_ALL_LIST (all_list_tag v)"
  have q: "quiet s4 s'" using quiet_trans [OF q5 quiet_trans [OF p6(2) p7(3)]] by (simp add: s'_def)
  have sel': "phys s' = phys s4" "mem s' = mem s4" "kernel_pool s' = kernel_pool s4" "cr3 s' = cr3 s4"
    "thread_stacks s' = thread_stacks s4" "same_rest s5 s'" "tasks s' = tasks s5"
  proof -
    obtain h d where "s6 = s5\<lparr>lheap := h, descs := d\<rparr>" unfolding s6_def using block_desc_init_only by blast
    then show "phys s' = phys s4" "mem s' = mem s4" "kernel_pool s' = kernel_pool s4" "cr3 s' = cr3 s4"
      "thread_stacks s' = thread_stacks s4" "same_rest s5 s'" "tasks s' = tasks s5"
      by (simp_all add: s'_def list_append_eq s5_def update_task_def same_rest_def same_locks_def)
  qed
  have n': "new_process s s' F v ?t5"
  proof (rule new_process_step [OF n5 _ sel'(6)])
    show "tasks s' = (tasks s5)(v := ?t5)" using n5 by (simp add: new_process_def sel')
    show "held s' A" if "held s5 A" for A using that held_quiet [OF q] held_quiet [OF q5] by simp
    show "space_frame s5 s'"
      by (rule space_frame_same [OF quiet_trans [OF p6(2) p7(3), folded s'_def]]) (simp add: sel'(1) s5_def update_task_def)
  qed
  have "process_execute s filename name = Inr s'"
    using p7(1) by (simp only: process_execute_def p2(1,2) p3(1) p4(1) s3'_def [symmetric] s5_def [symmetric] s6_def [symmetric]
        s'_def [symmetric] bindR.simps case_prod_conv Let_def)
  moreover have "executed s s' F v dir f filename name"
    unfolding executed_def
  proof (intro conjI)
    have "user_map s' b va"
      by (rule user_map_step [OF um4]) (simp_all add: sel'(2) quiet_bytes [OF q] held_quiet [OF q])
    then show "\<exists>va b. new_process s s' F v ((new_pcb s v name default_prio)\<lparr>userprog_vaddr := va, self_kstack := v + 0xe50, pgdir := dir\<rparr>) \<and>
        user_map s' b va" using n' by blast
    show "thread_stacks s' = (thread_stacks s)(v + 0xe50 := first_frame ''start_process'' filename (thread_stacks s (v + 0xe50)))"
      by (simp add: sel'(5) ph sel4) (simp add: s3' p3(8) p2(6))
    have g: "dir \<noteq> NULL" "fresh_pages s3' s4' PF_KERNEL [f]" using p4(2) by (simp_all add: got_pages_def)
    then show "dir \<noteq> NULL" by blast
    show "own_pde dir" "768 \<le> unat (PDE_IDX dir)" using got_high [OF inv3' p4(2)] by simp_all
    show "vmap s' dir = Some f" using p4(8) by (simp only: sel'(1,4))
    have "cr3 s3' = cr3 s" using n3 by (simp add: s3' new_process_def)
    then show "kernel_dir (phys s') (cr3 s) f" "fresh_table (phys s') (cr3 s) f" using p4(6,7) by (simp_all only: sel'(1))
    show "\<exists>j. pool_idx s' PF_KERNEL j \<and> pool_bit s' PF_KERNEL j \<and> f = pool_page (pool_of PF_KERNEL s') j"
      by (rule frame_taken [OF g(2) sel4(9)]) (simp_all add: sel' ph sel4)
    have "space_frame s s3'" by (rule space_frame_trans [of _ s3])
      (use n3 in \<open>simp add: new_process_def\<close>, rule space_frame_same [OF q3], simp add: s3')
    moreover have "pools_wf s" using inv by (simp add: kernel_inv_def phys_inv_def)
    ultimately show "\<forall>j. pool_idx s PF_KERNEL j \<longrightarrow> pool_bit s PF_KERNEL j \<longrightarrow> f \<noteq> pool_page (pool_of PF_KERNEL s) j"
      using frame_was_free g(2) by blast
    show "\<forall>q. card (free_pages s q) \<le> 50 + card (free_pages s' q)"
    proof
      fix q
      have "card (free_pages s3' q) \<le> 2 + card (free_pages s4' q)" using p4(2) by (simp add: got_pages_def)
      then have "card (free_pages s3 q) \<le> 2 + card (free_pages s' q)"
        by (simp only: quiet_free_pages [OF q3] quiet_free_pages [OF quiet_trans [OF p4(3) q]])
      then show "card (free_pages s q) \<le> 50 + card (free_pages s' q)" using p2(7) [of q] p3(9) [of q] by linarith
    qed
  qed
  moreover have "kernel_inv s' (listed F rs ts v)" using p7(2) by (simp add: s'_def)
  moreover have "roomy s' n" using p4(9) by (simp add: roomy_quiet [OF q])
  ultimately show thesis by (rule that)
qed

lemma executed_space:
  assumes "executed s s' F v dir f filename name"
  shows "own_space s' dir f" "space_frame s s'" "spaces s Ts D \<Longrightarrow> f \<notin> D ` Ts"
proof -
  show "space_frame s s'" using assms by (auto simp: executed_def new_process_def)
  then have "cr3 s' = cr3 s" by (simp add: space_frame_def)
  then show "own_space s' dir f" using assms kernel_dir_shares by (simp add: own_space_def executed_def not_table_def)
  assume sp: "spaces s Ts D"
  show "f \<notin> D ` Ts"
  proof
    assume "f \<in> D ` Ts"
    then obtain t where t: "t \<in> Ts" "f = D t" by blast
    have "f \<noteq> 0x100000"
      using assms sp by (auto simp: executed_def kernel_dir_def spaces_def page_frame_def)
    then have "own_space s (pgdir (tasks s t)) f" using sp t unfolding spaces_def by metis
    then show False using assms unfolding own_space_def executed_def by blast
  qed
qed

lemma process_execute_system:
  assumes "system_inv s F rs Ts D" "roomy s (25 + n)" "length name < 16"
  shows "\<exists>v dir f s' F'. process_execute s filename name = Inr s' \<and> executed s s' F v dir f filename name \<and>
    v \<notin> Ts \<and> f \<notin> D ` Ts \<and> status (tasks s' v) = TASK_READY \<and> roomy s' n \<and>
    system_inv s' F' (rs @ [v]) (insert v Ts) (D(v := f))"
proof -
  have inv: "kernel_inv s F" "F THREAD_READY_LIST = Some (map general_tag rs)" "held s Ts"
    using assms(1) by (simp_all add: system_inv_def sched_inv_def sched_core_def)
  obtain ts where A: "F THREAD_ALL_LIST = Some ts" using assms(1) by (auto simp: system_inv_def)
  obtain v dir f s' where p: "process_execute s filename name = Inr s'" "executed s s' F v dir f filename name"
    "kernel_inv s' (listed F (map general_tag rs) ts v)" "roomy s' n"
    by (rule process_execute_ok [OF inv(1) assms(2,3) inv(2) A])
  obtain va where va: "new_process s s' F v ((new_pcb s v name default_prio)\<lparr>userprog_vaddr := va, self_kstack := v + 0xe50, pgdir := dir\<rparr>)"
    (is "new_process s s' F v ?t") using p(2) by (auto simp: executed_def)
  then have pv: "page_held s' F v" by (simp add: new_process_def)
  have "held s' Ts" using va inv(3) by (simp add: new_process_def)
  then have "held s' (insert v Ts)" using pv by (auto simp: held_def page_held_def)
  moreover have "page_frame v = v" "v \<noteq> NULL" using pv by (simp_all add: page_held_def)
  ultimately have "v \<notin> Ts \<and> status (tasks s' v) = TASK_READY \<and>
      system_inv s' (listed F (map general_tag rs) ts v) (rs @ [v]) (insert v Ts) (D(v := f))"
    using new_thread_system [OF assms(1) A _ _ _ _ _ _ _ p(3) executed_space(2) [OF p(2)], of ?t f] va executed_space(1) [OF p(2)] p(2)
    by (simp add: new_process_def new_pcb_def executed_def)
  moreover have "spaces s Ts D" using assms(1) by (simp add: system_inv_def)
  note executed_space(3) [OF p(2) this]
  ultimately show ?thesis using p by blast
qed

text \<open>
  C10. process_execute works: when the name fits and 25 pages can be had (the PCB, 23 for the map of
  the process's pages, the directory), it makes a READY thread with the next process id that is
  last in the queue and will enter start_process with the program's address. Its pool of virtual
  pages is empty and starts at 0x8048000; its directory maps the kernel as before and nothing else.
  No other thread has that directory. Whatever threads and processes there are, the invariants of the whole kernel are kept: every
  directory is found at the same frame from every address space, so that the scheduler can go from
  any thread to any other.
\<close>

theorem process_execute_ready:
  assumes "system_inv s F rs Ts D" "roomy s (25 + n)" "length name < 16"
  shows "\<exists>v dir f s' F'. process_execute s filename name = Inr s' \<and> executed s s' F v dir f filename name \<and>
    v \<notin> Ts \<and> f \<notin> D ` Ts \<and> status (tasks s' v) = TASK_READY \<and> roomy s' n \<and>
    system_inv s' F' (rs @ [v]) (insert v Ts) (D(v := f))"
  by (rule process_execute_system [OF assms])

lemma process_execute_ready_witness:
  "\<exists>s1 s2 v f s' F'. mem_init machine = Inr s1 \<and> thread_init s1 = Inr s2 \<and>
    process_execute s2 0xc0001500 ''user_prog_a'' = Inr s' \<and> status (tasks s' v) = TASK_READY \<and>
    system_inv s' F' [v] {v, MAIN_PCB} ((\<lambda>_. 0x100000)(v := f))"
proof -
  obtain s1 s2 where s: "mem_init machine = Inr s1" "thread_init s1 = Inr s2"
    "system_inv s2 main_lists [] {MAIN_PCB} (\<lambda>_. 0x100000)" and room: "\<And>n. 2 * n < 480 \<Longrightarrow> roomy s2 n"
    by (rule kernel_start [OF machine_starts, unfolded machine_pages]) blast
  have room: "roomy s2 (25 + 0)" by (rule room) simp
  have "length ''user_prog_a'' < 16" by simp
  then obtain v f s' F' where "process_execute s2 0xc0001500 ''user_prog_a'' = Inr s'" "status (tasks s' v) = TASK_READY"
    "system_inv s' F' ([] @ [v]) (insert v {MAIN_PCB}) ((\<lambda>_. 0x100000)(v := f))"
    using process_execute_ready [OF s(3) room, of "''user_prog_a''" "0xc0001500"] by blast
  then show ?thesis using s(1,2) by auto
qed

end
