(* ===== verification/User_Start.thy ===== *)
theory User_Start
  imports Process_Props
begin

text \<open>
  The first steps of a process: get_a_page of kernel/memory.c, which maps one page at an address of
  the caller's choice, and start_process of userprog/process.c, which uses it for the user stack.
\<close>

section \<open>get_a_page\<close>

lemma mem_phys_inv:
  assumes inv: "phys_inv s"
    and m: "\<And>q a. a \<in> map_bytes (pool_bitmap (pool_of q s)) \<Longrightarrow> m a = mem s a"
  shows "phys_inv (s\<lparr>mem := m\<rparr>)" "pool_idx s q i \<Longrightarrow> pool_bit (s\<lparr>mem := m\<rparr>) q i = pool_bit s q i"
    "free_pages (s\<lparr>mem := m\<rparr>) q = free_pages s q"
proof -
  show bit: "pool_bit (s\<lparr>mem := m\<rparr>) q i = pool_bit s q i" if "pool_idx s q i" for q i
    unfolding pool_bit_def pool_of_mem by (rule test_frame) (use that m in \<open>auto simp: pool_idx_def\<close>)
  have idx: "pool_idx (s\<lparr>mem := m\<rparr>) q i = pool_idx s q i" "unused_page (s\<lparr>mem := m\<rparr>) p = unused_page s p" for q i p
    by (simp_all add: pool_idx_def unused_page_def)
  show "free_pages (s\<lparr>mem := m\<rparr>) q = free_pages s q"
    using bit by (auto simp: free_pages_def pool_idx_def)
  show "phys_inv (s\<lparr>mem := m\<rparr>)"
    using inv bit by (simp add: phys_inv_def idx)
qed

text \<open>The index that get_a_page computes for an address in a pool of virtual pages.\<close>

definition page_bit :: "kstate \<Rightarrow> pool_flags \<Rightarrow> u32 \<Rightarrow> u32" where
  "page_bit s pf v = (v - Kernel_State.vaddr_start (vaddr_pool pf s)) div PG_SIZE"

definition one_page :: "kstate \<Rightarrow> kstate \<Rightarrow> pool_flags \<Rightarrow> u32 \<Rightarrow> u32 \<Rightarrow> bool" where
  "one_page s s' pf v p \<longleftrightarrow> mem_only s s' \<and> phys_inv s' \<and> fresh_pages s s' pf [p] \<and>
     (\<forall>w. own_pde w \<longrightarrow> vmap s' w = (if page_frame w = page_frame v then Some (p + page_offset w) else vmap s w)) \<and>
     (let b = vaddr_bitmap (vaddr_pool pf s) in \<forall>i. unat i < 8 * unat (btmp_bytes_len b) \<longrightarrow>
        bitmap_scan_test (mem s') b i = (i = page_bit s pf v \<or> bitmap_scan_test (mem s) b i))"

lemma get_a_page_ok:
  assumes inv: "phys_inv s" and lock: "lock_ready s (pool_lock pf) F" and held: "held s (fam_nodes F)"
    and mine: "(pgdir (tasks s (cur s)) \<noteq> NULL) = (pf = PF_USER)"
    and idx: "0 <s page_bit s pf v" "unat (page_bit s pf v) < 8 * unat (btmp_bytes_len (vaddr_bitmap (vaddr_pool pf s)))"
    and sep: "\<And>q. map_bytes (vaddr_bitmap (vaddr_pool pf s)) \<inter> map_bytes (pool_bitmap (pool_of q s)) = {}"
      "low_map (vaddr_bitmap (vaddr_pool pf s))"
    and v: "own_pde v" "vmap s v = None" and room: "free_pages s pf \<noteq> {}" "2 \<le> card (free_pages s PF_KERNEL)"
  obtains p s' where "get_a_page s pf v = Inr (v, s')" "one_page s s' pf v p" "lock_ready s' (pool_lock pf) F"
proof -
  let ?l = "pool_lock pf" and ?b = "vaddr_bitmap (vaddr_pool pf s)" and ?i = "page_bit s pf v"
  define s1 where "s1 = locked ?l s"
  define m where "m = put_flag (mem s) ?b ?i True"
  define s2 where "s2 = s1\<lparr>mem := m\<rparr>"
  have q1: "quiet s s1" unfolding s1_def by (rule quiet_locked(1))
  have inv1: "phys_inv s1" by (rule quiet_phys_inv [OF q1 inv])
  have po1: "pool_of q s1 = pool_of q s" for q by (rule quiet_pool(1) [OF q1])
  have keep: "m a = mem s1 a" if "a \<in> map_bytes (pool_bitmap (pool_of q s1))" for q a
  proof -
    have "a \<notin> map_bytes ?b" using that sep(1) [of q] by (auto simp: po1)
    then show ?thesis unfolding m_def using put_flag_frame [OF idx(2)] by (simp add: s1_def)
  qed
  have m2: "phys_inv s2" "\<And>q j. pool_idx s1 q j \<Longrightarrow> pool_bit s2 q j = pool_bit s1 q j" "\<And>q. free_pages s2 q = free_pages s1 q"
    unfolding s2_def by (rule mem_phys_inv [OF inv1]; (erule keep | assumption))+
  have same2: "pool_of q s2 = pool_of q s" "pool_idx s2 q j = pool_idx s q j" for q j
    using po1 by (simp_all add: s2_def pool_idx_def)
  have bit2: "pool_bit s2 q j = pool_bit s q j" if "pool_idx s q j" for q j
    using m2(2) quiet_pool(3,4) [OF q1, of q j] that by simp
  have free2: "free_pages s2 q = free_pages s q" for q using m2(3) quiet_free_pages [OF q1] by simp
  obtain p s3 where pal: "palloc s2 pf = Inr (p, s3)"
    using palloc_fails(2) [of s2 pf] room(1) by (cases "palloc s2 pf") (auto simp: free2)
  note pi = palloc_inv [OF m2(1) pal]
  obtain j where j: "p = pool_page (pool_of pf s) j" "pool_idx s pf j" "\<not> pool_bit s pf j" "pool_bit s3 pf j"
    using pi(6) bit2 by (auto simp: same2)
  have pz: "p \<noteq> 0" using pool_page_nonzero [OF inv j(2)] j(1) by simp
  have pp: "page_frame p = p" using pi(3) by (simp add: unused_page_def fresh_table_def)
  note f3 = alloc_frame_sel [OF pi(2)] alloc_frame_pool [OF pi(2)] alloc_frame_idx [OF pi(2)]
  have vm3: "vmap s3 w = vmap s w" for w by (simp add: pi(4) f3 s2_def s1_def)
  have "free_pages s3 PF_KERNEL \<noteq> {}"
  proof
    assume "free_pages s3 PF_KERNEL = {}"
    then have "card (free_pages s PF_KERNEL) \<le> 1" using pi(7) [of PF_KERNEL] by (simp add: free2)
    then show False using room(2) by simp
  qed
  moreover have "vmap s3 v = None" "p = pool_page (pool_of pf s3) j" "pool_idx s3 pf j"
    using v(2) j(1,2) by (simp_all add: vm3, simp_all add: f3 same2)
  ultimately obtain s4 where s4: "page_table_add s3 v p = Inr s4" "phys_inv s4" "alloc_frame s3 s4"
    "\<And>w. own_pde w \<Longrightarrow> vmap s4 w = (if page_frame w = page_frame v then Some (p + page_offset w) else vmap s3 w)"
    using page_table_add_inv [OF pi(1) v(1) _ _ _ j(4) pp] by auto
  have af: "alloc_frame s2 s4" by (rule alloc_frame_trans [OF pi(2) s4(3)])
  have "mem_only s1 s2" by (simp add: s2_def)
  from mem_only_trans [OF mem_only_trans [OF this mem_only_palloc [OF pal]] mem_only_page_table_add [OF s4(1)]]
  have mo4: "mem_only s1 s4" .
  note sel4 = mem_only_sel [OF mo4]
  have "lheap s4 a = lheap s a" if "a \<in> fam_nodes F" for a
  proof -
    have "below_window a" using held own_pde_below that by (simp add: held_def)
    then show ?thesis using alloc_frame_typed [OF af] by (simp add: s2_def s1_def)
  qed
  then have fam4: "k_family s4 F" using lock by (intro k_family_cong [of s F s4]) (simp_all add: lock_ready_def)
  have "lock_kept (locked ?l s) s4" by (simp add: lock_kept_def sel4 s1_def)
  moreover have "F (sema_waiters (lock_semaphore ?l)) = Some []" using lock by (simp add: lock_ready_def)
  ultimately have rel: "lock_release s4 ?l = Inr (unlocked ?l s4)" "lock_ready (unlocked ?l s4) ?l F"
    using lock_ready_release [OF lock _ fam4] by simp_all
  let ?s' = "unlocked ?l s4"
  have run: "get_a_page s pf v = Inr (v, ?s')"
  proof -
    have "bindR (bitmap_set (mem s1) ?b ?i 1) (\<lambda>m1. Inr (s1\<lparr>mem := m1\<rparr>)) = (Inr s2 :: kstate kres)"
      by (simp add: bitmap_set_flag s2_def m_def s1_def)
    moreover have "vaddr_pool pf s1 = vaddr_pool pf s" "running_thread s1 = cur s" "tasks s1 = tasks s" "0 <s ?i"
      using idx(1) by (simp_all add: s1_def vaddr_pool_def running_thread_def)
    moreover have "lock_acquire s ?l = Inr s1" unfolding s1_def by (rule lock_ready_acquire [OF lock])
    moreover have "page_bit s pf v = (v - Kernel_State.vaddr_start (vaddr_pool pf s)) div PG_SIZE" by (simp add: page_bit_def)
    moreover have "pgdir (tasks s (cur s)) \<noteq> NULL \<and> pf = PF_USER \<or> pgdir (tasks s (cur s)) = NULL \<and> pf = PF_KERNEL"
      using mine by (cases pf) simp_all
    ultimately show ?thesis
      using pal pz s4(1) rel(1) by (simp add: get_a_page_def Let_def s2_def [symmetric])
  qed
  moreover have "one_page s ?s' pf v p"
    unfolding one_page_def
  proof (intro conjI)
    show "mem_only s ?s'" by (rule mem_only_unlocked [OF lock_ready_free [OF lock] mo4 [unfolded s1_def]])
    show "phys_inv ?s'" by (rule quiet_phys_inv [OF quiet_locked(2) s4(2)])
    have "pool_bit s4 pf j" using alloc_frame_bit [OF s4(3), of pf j] j(2,4) by (simp add: f3 same2)
    then have "pool_bit ?s' pf j" by (cases pf) (simp_all add: pool_bit_def pool_of_def)
    then show "fresh_pages s ?s' pf [p]" using j by (auto simp: fresh_pages_def)
    show "\<forall>w. own_pde w \<longrightarrow> vmap ?s' w = (if page_frame w = page_frame v then Some (p + page_offset w) else vmap s w)"
      using s4(4) vm3 by simp
    have "bitmap_scan_test (mem ?s') ?b i = (i = ?i \<or> bitmap_scan_test (mem s) ?b i)" if i: "unat i < 8 * unat (btmp_bytes_len ?b)" for i
    proof -
      have "mem s4 a = mem s2 a" if "a \<in> map_bytes ?b" for a
      proof (rule alloc_frame_mem [OF af])
        show "below_window a" using sep(2) that by (simp add: low_map_def)
        show "a \<notin> map_bytes (pool_bitmap (kernel_pool s2))" "a \<notin> map_bytes (pool_bitmap (user_pool s2))"
          using sep(1) [of PF_KERNEL] sep(1) [of PF_USER] that by (auto simp: s2_def s1_def pool_of_def)
      qed
      then have "bitmap_scan_test (mem s4) ?b i = bitmap_scan_test (mem s2) ?b i" by (intro test_frame [OF i]) simp
      then show ?thesis using bm.put_law by (simp add: s2_def m_def)
    qed
    then show "let b = ?b in \<forall>i. unat i < 8 * unat (btmp_bytes_len b) \<longrightarrow>
        bitmap_scan_test (mem ?s') b i = (i = page_bit s pf v \<or> bitmap_scan_test (mem s) b i)" by simp
  qed
  ultimately show thesis using rel(2) that by blast
qed

text \<open>
  C13. get_a_page maps one page. For an address that is not mapped, has a table of its own and a bit
  in the pool of the running thread (a user pool for a process, the kernel's for a kernel thread),
  with a free frame in that pool and two for the page tables, it returns the address, mapped to a
  frame that was free and now is taken; no other translation changes. Exactly the bit of the page is
  set in the map of the pool, the memory invariant holds again and the lock is free.
\<close>

theorem get_a_page_maps:
  assumes "phys_inv s" "lock_ready s (pool_lock pf) F" "held s (fam_nodes F)"
    and "(pgdir (tasks s (cur s)) \<noteq> NULL) = (pf = PF_USER)"
    and "0 <s page_bit s pf v" "unat (page_bit s pf v) < 8 * unat (btmp_bytes_len (vaddr_bitmap (vaddr_pool pf s)))"
    and "\<forall>q. map_bytes (vaddr_bitmap (vaddr_pool pf s)) \<inter> map_bytes (pool_bitmap (pool_of q s)) = {}"
    and "low_map (vaddr_bitmap (vaddr_pool pf s))" "own_pde v" "vmap s v = None"
    and "free_pages s pf \<noteq> {}" "2 \<le> card (free_pages s PF_KERNEL)"
  shows "\<exists>p s'. get_a_page s pf v = Inr (v, s') \<and> one_page s s' pf v p \<and> lock_ready s' (pool_lock pf) F"
  using get_a_page_ok [OF assms(1-6) _ assms(8-12)] assms(7) by metis

section \<open>A process switched to\<close>

text \<open>What the scheduler leaves as it was when it switches to the new process for the first time.\<close>

definition entered :: "kstate \<Rightarrow> kstate \<Rightarrow> u32 \<Rightarrow> u32 \<Rightarrow> bool" where
  "entered s t v f \<longleftrightarrow> cur t = v \<and> cr3 t = f \<and> phys t = phys s \<and> mem t = mem s \<and> kernel_pool t = kernel_pool s \<and>
     user_pool t = user_pool s \<and> kernel_vaddr t = kernel_vaddr s \<and> userprog_vaddr (tasks t v) = userprog_vaddr (tasks s v) \<and>
     pgdir (tasks t v) = pgdir (tasks s v) \<and> self_kstack (tasks t v) = self_kstack (tasks s v)"

lemma entered_space:
  assumes ex: "executed s0 s F v dir f filename name" and inv: "kernel_inv s F'" and en: "entered s t v f"
  shows "phys_inv t" "vpool_inv t PF_USER" "pgdir (tasks t v) \<noteq> NULL" "self_kstack (tasks t v) = v + 0xe50"
    "\<exists>b. userprog_vaddr (tasks t v) = \<lparr>vaddr_bitmap = \<lparr>btmp_bytes_len = user_bitmap_len, bits = b\<rparr>, vaddr_start = USER_VADDR_START\<rparr>"
    "\<And>w. unat w < 0xc0000000 \<Longrightarrow> vmap t w = None" "free_pages t q = free_pages s q"
proof -
  obtain va b where n: "new_process s0 s F v ((new_pcb s0 v name default_prio)\<lparr>userprog_vaddr := va, self_kstack := v + 0xe50, pgdir := dir\<rparr>)"
    and um: "user_map s b va" using ex unfolding executed_def by blast
  have c: "cr3 s = cr3 s0" and tv: "tasks s v = (new_pcb s0 v name default_prio)\<lparr>userprog_vaddr := va, self_kstack := v + 0xe50, pgdir := dir\<rparr>"
    using n by (simp_all add: new_process_def)
  have d: "kernel_dir (phys s) (cr3 s) f" "fresh_table (phys s) (cr3 s) f" "dir \<noteq> NULL"
    using ex by (simp_all add: executed_def c)
  obtain j where j: "pool_idx s PF_KERNEL j" "pool_bit s PF_KERNEL j" "f = pool_page (pool_of PF_KERNEL s) j"
    using ex by (auto simp: executed_def)
  have pinv: "phys_inv s" and wf: "pt_wf (phys s) (cr3 s)" using inv by (simp_all add: kernel_inv_def phys_inv_def)
  let ?u = "s\<lparr>cur := v, cr3 := f\<rparr>"
  have um': "user_map s b (userprog_vaddr (tasks s v))" using um by (simp add: tv)
  have q: "quiet ?u t" by (rule quiet_same) (use en in \<open>simp_all add: entered_def\<close>)
  show "phys_inv t" by (rule quiet_phys_inv [OF q new_space_phys_inv [OF pinv d(1,2) j]])
  have "vpool_inv ?u PF_USER" by (rule new_space_vpool_inv [OF d(1) wf d(2) um'])
  moreover have "vaddr_pool PF_USER t = vaddr_pool PF_USER ?u" "vmap t w = vmap ?u w" for w
    using en by (simp_all add: entered_def vaddr_pool_def running_thread_def)
  ultimately show "vpool_inv t PF_USER" using en by (simp add: vpool_inv_def Let_def entered_def)
  show "pgdir (tasks t v) \<noteq> NULL" "self_kstack (tasks t v) = v + 0xe50" using en d(3) by (simp_all add: entered_def tv)
  show "\<exists>b. userprog_vaddr (tasks t v) = \<lparr>vaddr_bitmap = \<lparr>btmp_bytes_len = user_bitmap_len, bits = b\<rparr>, vaddr_start = USER_VADDR_START\<rparr>"
    using um' en by (auto simp: user_map_def entered_def)
  show "vmap t w = None" if "unat w < 0xc0000000" for w
    using kernel_dir_wf(2) [OF d(1) wf d(2) user_half [OF that]] en by (simp add: entered_def)
  have "free_pages ?u q = free_pages s q" by (simp add: free_pages_def pool_bit_def pool_of_def)
  then show "free_pages t q = free_pages s q" using quiet_free_pages [OF q] by simp
qed

section \<open>The map of a process\<close>

lemma user_page_at:
  assumes "unat i < 8 * unat user_bitmap_len"
  shows "unat (USER_VADDR_START + i * PG_SIZE) = 0x8048000 + unat i * 4096"
proof -
  have lt: "unat i < 753592" using assms by (simp add: user_bitmap_size)
  then have "unat (i * PG_SIZE) = unat i * 4096" by (simp add: PG_SIZE_def unat_mult_u32)
  then show ?thesis using lt by (subst unat_add_u32) (simp_all add: user_bitmap_size)
qed

lemma user_page_bit:
  assumes "0x8048000 \<le> unat v" "unat v < 0xc0000000"
  defines "i \<equiv> (v - USER_VADDR_START) div PG_SIZE"
  shows "unat i < 8 * unat user_bitmap_len" "page_frame v = USER_VADDR_START + i * PG_SIZE"
proof -
  have "unat (v - USER_VADDR_START) = unat v - 0x8048000"
    using assms(1) by (subst unat_diff_u32) (simp_all add: user_bitmap_size word_le_nat_alt)
  then have i: "unat i = (unat v - 0x8048000) div 4096" by (simp add: i_def unat_div PG_SIZE_def)
  have "unat v - 0x8048000 < 753592 * 4096" using assms by simp
  then have "(unat v - 0x8048000) div 4096 < 753592" by (rule less_mult_imp_div_less)
  then show lt: "unat i < 8 * unat user_bitmap_len" using i by (simp add: user_bitmap_size)
  have "unat v div 4096 = 32840 + (unat v - 0x8048000) div 4096"
    using div_mult_self1 [of 4096 "unat v - 0x8048000" 32840] assms(1) by simp
  then show "page_frame v = USER_VADDR_START + i * PG_SIZE"
    by (intro u32_eqI) (simp add: unat_page_frame user_page_at [OF lt] i)
qed

text \<open>
  C14. The map of a process has exactly one bit for each page from 0x8048000 up to the kernel at
  0xc0000000: bit i is the page at 0x8048000 + 4096 * i, which ends at 0xc0000000 or below, and the
  bit that get_a_page computes for an address of that range is in the map and is the bit of its
  page. The pages asked for hold the map, and one page less would not.
\<close>

theorem user_map_bounds:
  "unat user_bitmap_len \<le> unat user_bitmap_pages * 4096 \<and> (unat user_bitmap_pages - 1) * 4096 < unat user_bitmap_len \<and>
   (\<forall>i :: u32. unat i < 8 * unat user_bitmap_len \<longrightarrow>
      unat (USER_VADDR_START + i * PG_SIZE) = 0x8048000 + unat i * 4096 \<and>
      unat (USER_VADDR_START + i * PG_SIZE) + 4096 \<le> 0xc0000000) \<and>
   (\<forall>v :: u32. 0x8048000 \<le> unat v \<and> unat v < 0xc0000000 \<longrightarrow>
      (let i = (v - USER_VADDR_START) div PG_SIZE in
       unat i < 8 * unat user_bitmap_len \<and> page_frame v = USER_VADDR_START + i * PG_SIZE))"
proof (intro conjI allI impI)
  fix i :: u32 assume i: "unat i < 8 * unat user_bitmap_len"
  note at = user_page_at [OF this]
  then show "unat (USER_VADDR_START + i * PG_SIZE) = 0x8048000 + unat i * 4096" .
  show "unat (USER_VADDR_START + i * PG_SIZE) + 4096 \<le> 0xc0000000" using i by (simp add: at user_bitmap_size)
next
  fix v :: u32 assume v: "0x8048000 \<le> unat v \<and> unat v < 0xc0000000"
  show "let i = (v - USER_VADDR_START) div PG_SIZE in
      unat i < 8 * unat user_bitmap_len \<and> page_frame v = USER_VADDR_START + i * PG_SIZE"
    using user_page_bit [of v] v by (simp add: Let_def)
qed (simp_all add: user_bitmap_size)

lemma user_map_bounds_witness:
  "unat (USER_VADDR_START + 753591 * PG_SIZE) + 4096 \<le> 0xc0000000 \<and>
   page_frame 0xbfffffff = USER_VADDR_START + (0xbfffffff - USER_VADDR_START) div PG_SIZE * PG_SIZE"
proof -
  note b = user_map_bounds [THEN conjunct2, THEN conjunct2]
  have "unat (753591 :: u32) < 8 * unat user_bitmap_len" by (simp add: user_bitmap_size)
  moreover have "0x8048000 \<le> unat (0xbfffffff :: u32) \<and> unat (0xbfffffff :: u32) < 0xc0000000" by simp
  ultimately show ?thesis using b unfolding Let_def by blast
qed

section \<open>The user stack\<close>

text \<open>The page of the user stack: the last bit of the map of a process.\<close>

lemma stack_bit:
  assumes "userprog_vaddr (tasks t (cur t)) = \<lparr>vaddr_bitmap = b, vaddr_start = USER_VADDR_START\<rparr>"
  shows "page_bit t PF_USER USER_STACK3_VADDR = 753591" "0 <s page_bit t PF_USER USER_STACK3_VADDR"
proof -
  have "(0xbffff000 - 0x8048000 :: u32) div 0x1000 = 753591" by (rule u32_eqI) (simp add: unat_div)
  then show bit: "page_bit t PF_USER USER_STACK3_VADDR = 753591"
    using assms by (simp add: page_bit_def vaddr_pool_def running_thread_def USER_STACK3_VADDR_def USER_VADDR_START_def PG_SIZE_def)
  show "0 <s page_bit t PF_USER USER_STACK3_VADDR" unfolding bit by (simp add: word_sless_alt)
qed

lemma user_stack_page:
  assumes inv: "vpool_inv t PF_USER"
    and va: "userprog_vaddr (tasks t (cur t)) = \<lparr>vaddr_bitmap = \<lparr>btmp_bytes_len = user_bitmap_len, bits = b\<rparr>, vaddr_start = USER_VADDR_START\<rparr>"
  shows "unat (page_bit t PF_USER USER_STACK3_VADDR) < 8 * unat (btmp_bytes_len (vaddr_bitmap (vaddr_pool PF_USER t)))"
    "\<forall>q. map_bytes (vaddr_bitmap (vaddr_pool PF_USER t)) \<inter> map_bytes (pool_bitmap (pool_of q t)) = {}"
    "low_map (vaddr_bitmap (vaddr_pool PF_USER t))" "own_pde USER_STACK3_VADDR"
proof -
  have vp: "vaddr_bitmap (vaddr_pool PF_USER t) = \<lparr>btmp_bytes_len = user_bitmap_len, bits = b\<rparr>"
    by (simp add: vaddr_pool_def running_thread_def va)
  show "unat (page_bit t PF_USER USER_STACK3_VADDR) < 8 * unat (btmp_bytes_len (vaddr_bitmap (vaddr_pool PF_USER t)))"
    by (simp add: stack_bit [OF va] vp user_bitmap_size)
  have "map_bytes (vaddr_bitmap (vaddr_pool PF_USER t)) \<inter> map_bytes (pool_bitmap (pool_of q t)) = {}" for q
    using inv by (cases q) (simp_all add: vpool_inv_def Let_def pool_of_def)
  then show "\<forall>q. map_bytes (vaddr_bitmap (vaddr_pool PF_USER t)) \<inter> map_bytes (pool_bitmap (pool_of q t)) = {}" by blast
  show "low_map (vaddr_bitmap (vaddr_pool PF_USER t))" using inv by (simp add: vpool_inv_def Let_def)
  show "own_pde USER_STACK3_VADDR" by (simp add: own_pde_def USER_STACK3_VADDR_def PDE_IDX_def)
qed

lemma user_stack_ok:
  assumes inv: "phys_inv t" "vpool_inv t PF_USER" and lock: "lock_ready t USER_POOL_LOCK F" and held: "held t (fam_nodes F)"
    and pd: "pgdir (tasks t (cur t)) \<noteq> NULL"
    and va: "userprog_vaddr (tasks t (cur t)) = \<lparr>vaddr_bitmap = \<lparr>btmp_bytes_len = user_bitmap_len, bits = b\<rparr>, vaddr_start = USER_VADDR_START\<rparr>"
    and free: "vmap t USER_STACK3_VADDR = None" and room: "free_pages t PF_USER \<noteq> {}" "2 \<le> card (free_pages t PF_KERNEL)"
  obtains p s' where "get_a_page t PF_USER USER_STACK3_VADDR = Inr (USER_STACK3_VADDR, s')"
    "one_page t s' PF_USER USER_STACK3_VADDR p" "lock_ready s' USER_POOL_LOCK F"
proof -
  have l: "pool_lock PF_USER = USER_POOL_LOCK" by (simp add: pool_lock_def)
  note u = user_stack_page [OF inv(2) va]
  have "(pgdir (tasks t (cur t)) \<noteq> NULL) = (PF_USER = PF_USER)" using pd by simp
  from get_a_page_ok [OF inv(1) lock [folded l] held this stack_bit(2) [OF va] u(1) u(2) [rule_format] u(3,4) free room]
  obtain p s' where "get_a_page t PF_USER USER_STACK3_VADDR = Inr (USER_STACK3_VADDR, s')"
    "one_page t s' PF_USER USER_STACK3_VADDR p" "lock_ready s' (pool_lock PF_USER) F" .
  then show thesis unfolding l by (rule that)
qed

lemma one_page_vpool:
  assumes inv: "vpool_inv t PF_USER" and o: "one_page t u PF_USER USER_STACK3_VADDR p"
    and va: "userprog_vaddr (tasks t (cur t)) = \<lparr>vaddr_bitmap = \<lparr>btmp_bytes_len = user_bitmap_len, bits = b\<rparr>, vaddr_start = USER_VADDR_START\<rparr>"
  shows "vpool_inv u PF_USER"
proof -
  have mo: "mem_only t u" using o by (simp add: one_page_def)
  note sel = mem_only_sel [OF mo]
  have vp: "vaddr_pool PF_USER t = \<lparr>vaddr_bitmap = \<lparr>btmp_bytes_len = user_bitmap_len, bits = b\<rparr>, vaddr_start = USER_VADDR_START\<rparr>"
    "vaddr_pool PF_USER u = vaddr_pool PF_USER t" by (simp_all add: vaddr_pool_def running_thread_def va sel)
  have ok: "run_ok USER_VADDR_START 94199" by (simp add: run_ok_def user_bitmap_size) (simp add: USER_VADDR_START_def page_frame_def)
  have "vmap u (run_page USER_VADDR_START i) = None"
    if i: "i < 94199" and nb: "\<not> bitmap_scan_test (mem u) \<lparr>btmp_bytes_len = user_bitmap_len, bits = b\<rparr> (of_nat i)" for i
  proof -
    have u: "unat (of_nat i :: u32) = i" using i by (simp add: unat_of_nat)
    have "bitmap_scan_test (mem u) \<lparr>btmp_bytes_len = user_bitmap_len, bits = b\<rparr> (of_nat i) =
        (of_nat i = page_bit t PF_USER USER_STACK3_VADDR \<or> bitmap_scan_test (mem t) \<lparr>btmp_bytes_len = user_bitmap_len, bits = b\<rparr> (of_nat i))"
      using o u i unfolding one_page_def Let_def vp by (simp add: user_bitmap_size)
    then have "\<not> bitmap_scan_test (mem t) \<lparr>btmp_bytes_len = user_bitmap_len, bits = b\<rparr> (of_nat i)" using nb by blast
    then have "vmap t (run_page USER_VADDR_START i) = None" using inv i by (simp add: vpool_inv_def Let_def vp user_bitmap_size)
    moreover have "page_frame (run_page USER_VADDR_START i) \<noteq> page_frame USER_STACK3_VADDR"
    proof
      assume "page_frame (run_page USER_VADDR_START i) = page_frame USER_STACK3_VADDR"
      then have "unat (run_page USER_VADDR_START i) = unat USER_STACK3_VADDR"
        using run_page_frame(1) [OF ok i] by (simp add: USER_STACK3_VADDR_def page_frame_def)
      then show False using run_page_unat [OF ok i] i by (simp add: user_bitmap_size USER_STACK3_VADDR_def)
    qed
    ultimately show ?thesis using o run_page_frame(2) [OF ok i] by (simp add: one_page_def)
  qed
  then show ?thesis using inv by (simp add: vpool_inv_def Let_def vp user_bitmap_size sel)
qed

section \<open>start_process\<close>

text \<open>The frame with which the program starts.\<close>

definition start_frame :: "u32 \<Rightarrow> intr_stack \<Rightarrow> bool" where
  "start_frame function st \<longleftrightarrow> is_eip st = function \<and> is_esp st = 0xc0000000 \<and> is_cs st = SELECTOR_U_CODE \<and>
     (\<forall>sel \<in> {is_ss st, is_ds st, is_es st, is_fs st}. sel = SELECTOR_U_DATA) \<and> is_gs st = 0 \<and>
     is_eflags st = EFLAGS_IOPL_0 OR EFLAGS_MBS OR EFLAGS_IF_1 \<and>
     (\<forall>r \<in> {is_edi st, is_esi st, is_ebp st, is_ebx st, is_edx st, is_ecx st, is_eax st}. r = 0)"

text \<open>
  C11. start_process gives a process its stack and its first frame. Run by a process that
  process_execute made and the scheduler switched to, with a free frame in the user pool and two in
  the kernel's, it maps the page below 0xc0000000 to a fresh user frame and builds the frame that
  intr_exit pops, 0xed0 bytes into the PCB's page: the program's address, the segments of ring 3,
  interrupts on, all other registers 0 and the stack pointer at 0xc0000000. No other address is
  mapped, the pool of virtual pages is consistent, and the pool's lock is free.
\<close>

theorem start_process_ready:
  assumes "executed s0 s F v dir f filename name" "kernel_inv s F'" "entered s t v f"
    and "lock_ready t USER_POOL_LOCK F''" "held t (fam_nodes F'')"
    and "free_pages s PF_USER \<noteq> {}" "2 \<le> card (free_pages s PF_KERNEL)"
  shows "\<exists>u p. start_process t filename = Inr (v + 0xed0, u) \<and> start_frame filename (intr_stacks u (v + 0xed0)) \<and>
    fresh_pages t u PF_USER [p] \<and> vmap u USER_STACK3_VADDR = Some p \<and>
    (\<forall>w. own_pde w \<longrightarrow> page_frame w \<noteq> USER_STACK3_VADDR \<longrightarrow> vmap u w = vmap t w) \<and>
    phys_inv u \<and> vpool_inv u PF_USER \<and> lock_ready u USER_POOL_LOCK F''"
proof -
  note sp = entered_space [OF assms(1-3)]
  have c: "cur t = v" using assms(3) by (simp add: entered_def)
  obtain b where va: "userprog_vaddr (tasks t v) = \<lparr>vaddr_bitmap = \<lparr>btmp_bytes_len = user_bitmap_len, bits = b\<rparr>, vaddr_start = USER_VADDR_START\<rparr>"
    using sp(5) by blast
  let ?k = "v + 0xed0"
  define t1 where "t1 = t\<lparr>tasks := (tasks t)(v := (tasks t v)\<lparr>self_kstack := ?k\<rparr>),
    intr_stacks := (intr_stacks t)(?k := user_frame filename (intr_stacks t ?k))\<rparr>"
  have q: "quiet t t1" by (rule quiet_same) (simp_all add: t1_def)
  have "phys_inv t1" by (rule quiet_phys_inv [OF q sp(1)])
  moreover have vp1: "vpool_inv t1 PF_USER"
    using sp(2) by (simp add: vpool_inv_def Let_def t1_def vaddr_pool_def running_thread_def c)
  moreover have "lock_ready t1 USER_POOL_LOCK F''" using assms(4) by (simp add: lock_ready_def t1_def k_family_def)
  moreover have "held t1 (fam_nodes F'')" using assms(5) by (simp add: held_quiet [OF q])
  moreover have "pgdir (tasks t1 (cur t1)) \<noteq> NULL" using sp(3) by (simp add: t1_def c)
  moreover have va1: "userprog_vaddr (tasks t1 (cur t1)) = \<lparr>vaddr_bitmap = \<lparr>btmp_bytes_len = user_bitmap_len, bits = b\<rparr>, vaddr_start = USER_VADDR_START\<rparr>"
    using va by (simp add: t1_def c)
  moreover have "vmap t1 USER_STACK3_VADDR = None" using sp(6) by (simp add: t1_def USER_STACK3_VADDR_def)
  moreover have "free_pages t1 PF_USER \<noteq> {}" "2 \<le> card (free_pages t1 PF_KERNEL)"
    using assms(6,7) by (simp_all add: quiet_free_pages [OF q] sp(7))
  ultimately obtain p u where u: "get_a_page t1 PF_USER USER_STACK3_VADDR = Inr (USER_STACK3_VADDR, u)"
    "one_page t1 u PF_USER USER_STACK3_VADDR p" "lock_ready u USER_POOL_LOCK F''"
    by (rule user_stack_ok)
  have mo: "mem_only t1 u" using u(2) by (simp add: one_page_def)
  note sel = mem_only_sel [OF mo]
  define u' where "u' = u\<lparr>intr_stacks := (intr_stacks u)(?k := (intr_stacks u ?k)\<lparr>is_esp := 0xc0000000\<rparr>)\<rparr>"
  have "v + 0xe50 + 0x80 = ?k" by simp
  then have st1: "ptr_add (self_kstack (tasks t v)) SIZEOF_THREAD_STACK = ?k"
    by (simp add: sp(4) ptr_add_def SIZEOF_THREAD_STACK_def add.assoc)
  have "start_process t filename = Inr (?k, u')"
    using u(1) by (simp add: start_process_def running_thread_def c update_task_def Let_def st1 t1_def [symmetric] u'_def
        USER_STACK3_VADDR_def PG_SIZE_def)
  moreover have "start_frame filename (intr_stacks u' ?k)"
    by (simp add: start_frame_def u'_def sel) (simp add: t1_def user_frame_def)
  moreover have q': "quiet u u'" by (rule quiet_same) (simp_all add: u'_def)
  moreover have "phys_inv u'" using u(2) by (simp add: one_page_def quiet_phys_inv [OF q'])
  moreover have "vpool_inv u' PF_USER"
    using one_page_vpool [OF vp1 u(2) va1] by (simp add: vpool_inv_def Let_def u'_def vaddr_pool_def running_thread_def)
  moreover have "lock_ready u' USER_POOL_LOCK F''" using u(3) by (simp add: lock_ready_def u'_def k_family_def)
  moreover have "fresh_pages t u' PF_USER [p]"
    using u(2) by (simp add: one_page_def fresh_pages_def pool_of_def pool_idx_def pool_bit_def t1_def u'_def)
  moreover have vm: "vmap u' w = (if page_frame w = USER_STACK3_VADDR then Some (p + page_offset w) else vmap t w)" if "own_pde w" for w
    using u(2) that by (simp add: one_page_def u'_def t1_def USER_STACK3_VADDR_def page_frame_def)
  moreover have "vmap u' USER_STACK3_VADDR = Some p"
    by (subst vm) (simp_all add: own_pde_def USER_STACK3_VADDR_def PDE_IDX_def page_frame_def page_offset_def)
  ultimately show ?thesis by (intro exI [of _ u'] exI [of _ p]) simp
qed

text \<open>The kernel's part of the address space is the same for the process.\<close>

lemma entered_held:
  assumes ex: "executed s0 s F v dir f filename name" and inv: "kernel_inv s F'" and en: "entered s t v f"
    and held: "held s A" and high: "\<And>a. a \<in> A \<Longrightarrow> 768 \<le> unat (PDE_IDX a)"
  shows "held t A"
proof -
  have c: "cr3 s = cr3 s0" using ex by (auto simp: executed_def new_process_def)
  have d: "kernel_dir (phys s) (cr3 s) f" "fresh_table (phys s) (cr3 s) f" using ex by (simp_all add: executed_def c)
  have wf: "pt_wf (phys s) (cr3 s)" using inv by (simp add: kernel_inv_def phys_inv_def)
  have "vmap t a = vmap s a" if "a \<in> A" for a
    using kernel_dir_wf(3) [OF d(1) wf d(2) high [OF that]] held that en by (simp add: held_def own_pde_def entered_def)
  then show ?thesis using held by (simp add: held_def)
qed

lemma main_nodes_high: "a \<in> fam_nodes main_lists \<Longrightarrow> 0xc0000000 \<le> unat a"
proof -
  assume a: "a \<in> fam_nodes main_lists"
  have "empty_lists boot_heads THREAD_ALL_LIST = Some []" by (simp add: empty_lists_def boot_heads_def)
  then have "fam_nodes main_lists = insert (all_list_tag MAIN_PCB) (fam_nodes (empty_lists boot_heads))"
    using kl.fam_nodes_append [of "empty_lists boot_heads" THREAD_ALL_LIST "[]" "[all_list_tag MAIN_PCB]"]
    by (simp add: main_lists_def)
  then show ?thesis using a boot_nodes_range [of a] by (auto simp: all_list_tag_def MAIN_PCB_def)
qed

text \<open>The first process of the machine with 32 MB, switched to.\<close>

lemma first_process:
  obtains s0 s v dir f F where "process_execute s0 0xc0001500 ''user_prog_a'' = Inr s" "kernel_inv s F"
    "executed s0 s main_lists v dir f 0xc0001500 ''user_prog_a''" "entered s (s\<lparr>cur := v, cr3 := f\<rparr>) v f"
    "lock_ready (s\<lparr>cur := v, cr3 := f\<rparr>) USER_POOL_LOCK F" "held (s\<lparr>cur := v, cr3 := f\<rparr>) (fam_nodes F)"
    "free_pages s PF_USER \<noteq> {}" "2 \<le> card (free_pages s PF_KERNEL)"
proof -
  obtain s1 s2 where s: "thread_init s1 = Inr s2" "main_ready s1 s2" "kernel_inv s2 main_lists"
    "sched_inv s2 main_lists [] {MAIN_PCB} (\<lambda>_. 0x100000)" and room: "\<And>n. 2 * n < 480 \<Longrightarrow> roomy s2 n"
    and user: "480 - 1 \<le> card (free_pages s2 PF_USER)"
    by (rule kernel_start [OF machine_starts, unfolded machine_pages]) (auto simp: system_inv_def)
  have room: "roomy s2 (25 + 1)" by (rule room) simp
  have lists: "main_lists THREAD_READY_LIST = Some []" "main_lists THREAD_ALL_LIST = Some [all_list_tag MAIN_PCB]"
    using s(4) by (simp_all add: sched_inv_def sched_core_def) (simp add: main_lists_def)
  have name: "length ''user_prog_a'' < 16" by simp
  obtain v dir f s' where p: "process_execute s2 0xc0001500 ''user_prog_a'' = Inr s'"
    "executed s2 s' main_lists v dir f 0xc0001500 ''user_prog_a''"
    "kernel_inv s' (listed main_lists [] [all_list_tag MAIN_PCB] v)" "roomy s' 1"
    by (rule process_execute_ok [OF s(3) room name lists])
  let ?F = "listed main_lists [] [all_list_tag MAIN_PCB] v" and ?t = "s'\<lparr>cur := v, cr3 := f\<rparr>"
  have en: "entered s' ?t v f" by (simp add: entered_def)
  have pv: "page_frame v = v" "v \<noteq> NULL" "768 \<le> unat (PDE_IDX v)"
    using p(2) by (auto simp: executed_def new_process_def page_held_def)
  have "lock_ready s' USER_POOL_LOCK ?F" using p(3) by (simp add: kernel_inv_def)
  then have lock: "lock_ready ?t USER_POOL_LOCK ?F" using pv(2) by (simp add: lock_ready_def k_family_def)
  have "768 \<le> unat (PDE_IDX a)" if "a \<in> fam_nodes ?F" for a
  proof (cases "a \<in> {all_list_tag v, general_tag v}")
    case True
    then have "page_frame a = page_frame v" using tag_page [OF pv(1)] pv(1) by auto
    then show ?thesis using pv(3) by (simp add: page_frame_idx)
  next
    case False
    then have "a \<in> fam_nodes main_lists" using that by (simp add: listed_nodes [OF lists])
    then have "0xc0000000 \<le> unat a" by (rule main_nodes_high)
    from div_le_mono [OF this, of 4194304] show ?thesis by (simp add: unat_PDE_IDX)
  qed
  moreover have "held s' (fam_nodes ?F)" using p(3) by (simp add: kernel_inv_def)
  ultimately have "held ?t (fam_nodes ?F)" by (intro entered_held [OF p(2,3) en])
  moreover have "free_pages s' PF_USER \<noteq> {}"
  proof
    assume "free_pages s' PF_USER = {}"
    moreover have "card (free_pages s2 PF_USER) \<le> 50 + card (free_pages s' PF_USER)"
      using p(2) by (auto simp: executed_def)
    ultimately show False using user by simp
  qed
  moreover have "2 \<le> card (free_pages s' PF_KERNEL)" using p(4) by (simp add: roomy_def Let_def)
  ultimately show thesis by (rule that [OF p(1,3,2) en lock])
qed

lemma get_a_page_maps_witness:
  "\<exists>t p s'. get_a_page t PF_USER 0xbffff000 = Inr (0xbffff000, s') \<and> one_page t s' PF_USER 0xbffff000 p"
proof -
  obtain s0 s v dir f F where s: "process_execute s0 0xc0001500 ''user_prog_a'' = Inr s" "kernel_inv s F"
    "executed s0 s main_lists v dir f 0xc0001500 ''user_prog_a''" "entered s (s\<lparr>cur := v, cr3 := f\<rparr>) v f"
    "lock_ready (s\<lparr>cur := v, cr3 := f\<rparr>) USER_POOL_LOCK F" "held (s\<lparr>cur := v, cr3 := f\<rparr>) (fam_nodes F)"
    "free_pages s PF_USER \<noteq> {}" "2 \<le> card (free_pages s PF_KERNEL)" by (rule first_process)
  let ?t = "s\<lparr>cur := v, cr3 := f\<rparr>"
  note sp = entered_space [OF s(3,2,4)]
  have c: "cur ?t = v" by simp
  have l: "pool_lock PF_USER = USER_POOL_LOCK" by (simp add: pool_lock_def)
  obtain b where va: "userprog_vaddr (tasks ?t (cur ?t)) = \<lparr>vaddr_bitmap = \<lparr>btmp_bytes_len = user_bitmap_len, bits = b\<rparr>, vaddr_start = USER_VADDR_START\<rparr>"
    using sp(5) by (auto simp: c)
  have "USER_STACK3_VADDR = 0xbffff000" by (simp add: USER_STACK3_VADDR_def)
  moreover have "(pgdir (tasks ?t (cur ?t)) \<noteq> NULL) = (PF_USER = PF_USER)" using sp(3) by simp
  moreover have "vmap ?t USER_STACK3_VADDR = None" by (rule sp(6)) (simp add: USER_STACK3_VADDR_def)
  moreover have "free_pages ?t PF_USER \<noteq> {}" "2 \<le> card (free_pages ?t PF_KERNEL)" using s(7,8) by (simp_all add: sp(7))
  ultimately show ?thesis
    using get_a_page_maps [OF sp(1) s(5) [folded l] s(6) _ stack_bit(2) [OF va] user_stack_page [OF sp(2) va]] by metis
qed

lemma start_process_ready_witness:
  "\<exists>s0 s v f u p. process_execute s0 0xc0001500 ''user_prog_a'' = Inr s \<and>
    start_process (s\<lparr>cur := v, cr3 := f\<rparr>) 0xc0001500 = Inr (v + 0xed0, u) \<and> vmap u USER_STACK3_VADDR = Some p"
proof -
  obtain s0 s v dir f F where s: "process_execute s0 0xc0001500 ''user_prog_a'' = Inr s" "kernel_inv s F"
    "executed s0 s main_lists v dir f 0xc0001500 ''user_prog_a''" "entered s (s\<lparr>cur := v, cr3 := f\<rparr>) v f"
    "lock_ready (s\<lparr>cur := v, cr3 := f\<rparr>) USER_POOL_LOCK F" "held (s\<lparr>cur := v, cr3 := f\<rparr>) (fam_nodes F)"
    "free_pages s PF_USER \<noteq> {}" "2 \<le> card (free_pages s PF_KERNEL)" by (rule first_process)
  from start_process_ready [OF s(3,2,4-8)] s(1) show ?thesis by blast
qed

end
