(* ===== verification/Start_Props.thy ===== *)
theory Start_Props
  imports Kernel_Init User_Start
begin

text \<open>
  What init_all of kernel/init.c promises: all parts together leave the kernel in a state where
  threads and processes can be made, the console and the keyboard's queue with free locks.
\<close>

section \<open>A new lock\<close>

text \<open>Changes to the parts of the state which the invariants do not speak of.\<close>

lemma system_inv_same:
  assumes inv: "system_inv s F rs Ts D" and same: "same_locks s s'" "lheap s' = lheap s" "tasks s' = tasks s"
    "main_thread s' = main_thread s" "phys s' = phys s" "cr3 s' = cr3 s" "mem s' = mem s" "kernel_pool s' = kernel_pool s"
    "user_pool s' = user_pool s" "kernel_vaddr s' = kernel_vaddr s"
  shows "system_inv s' F rs Ts D" "quiet s s'"
proof -
  show q: "quiet s s'" by (rule quiet_same) (simp_all add: same)
  have c: "cur s' = cur s" using same(1) by (simp add: same_locks_def)
  have k: "kernel_inv s F" and sp: "spaces s Ts D" using inv by (simp_all add: system_inv_def)
  have "k_family s' F" using k same(2) by (simp add: kernel_inv_def lock_ready_def k_family_def)
  moreover have "held s (fam_nodes F)" using k by (simp add: kernel_inv_def)
  ultimately have "kernel_inv s' F" by (rule kernel_inv_step [OF k q same(1)])
  moreover have "spaces s' Ts D" by (rule spaces_frame [OF space_frame_same [OF q same(5)] sp]) (simp add: same)
  ultimately show "system_inv s' F rs Ts D"
    using inv sched_inv_cong [of s' s, OF same(2,5,6) c same(3)] by (simp add: system_inv_def held_quiet [OF q] same(4))
qed

lemma fresh_lock_waiters:
  assumes "{W, tail_of W} \<inter> insert t (fam_nodes F) = {}"
  shows "F W = None" "fam_nodes (F(W \<mapsto> [])) = {W, tail_of W} \<union> fam_nodes F" "F k \<noteq> None \<Longrightarrow> k \<noteq> W"
proof -
  have key: "k \<in> fam_nodes F" if "F k = Some xs" for k xs
    unfolding fam_nodes_def mem_Collect_eq by (intro exI conjI, rule that) (simp add: dl_nodes_def)
  show N: "F W = None" using assms key [of W] by (cases "F W") auto
  then show "F k \<noteq> None \<Longrightarrow> k \<noteq> W" by auto
  have "F(W := None) = F" using N by (simp add: fun_upd_idem)
  then show "fam_nodes (F(W \<mapsto> [])) = {W, tail_of W} \<union> fam_nodes F" by (simp add: fam_nodes_upd dl_nodes_def)
qed

lemma lock_init_system:
  fixes l
  defines "W \<equiv> sema_waiters (lock_semaphore l)"
  assumes inv: "system_inv s F rs Ts D" and fresh: "{W, tail_of W} \<inter> insert (general_tag (cur s)) (fam_nodes F) = {}"
    and held: "held s {W, tail_of W}"
    and ne: "\<And>l'. l' \<in> {KERNEL_POOL_LOCK, USER_POOL_LOCK, PID_LOCK} \<Longrightarrow> l' \<noteq> l"
  shows "system_inv (lock_init s l) (F(W \<mapsto> [])) rs Ts D" "quiet s (lock_init s l)" "lock_ready (lock_init s l) l (F(W \<mapsto> []))"
proof -
  let ?s = "lock_init s l"
  have mt: "main_thread ?s = main_thread s"
    by (simp add: lock_init_def sema_init_def list_init_def set_sema_value_def set_repeat_def set_holder_def)
  have k: "kernel_inv s F" "sched_inv s F rs Ts D" and sp: "spaces s Ts D" using inv by (simp_all add: system_inv_def)
  show q: "quiet s ?s" by (rule quiet_same) (simp_all add: lock_init_sel lock_init_more)
  note fw = fresh_lock_waiters [OF fresh]
  note sched = lock_init_sched_inv [OF k(2) fresh [unfolded W_def], folded W_def]
  then have fam: "k_family ?s (F(W \<mapsto> []))" by (simp add: sched_inv_def sched_core_def)
  have cur: "cur s \<noteq> 0" using k(1) by (simp add: kernel_inv_def lock_ready_def)
  have ready: "lock_ready ?s l' (F(W \<mapsto> []))" if "l' \<in> {KERNEL_POOL_LOCK, USER_POOL_LOCK, PID_LOCK}" "lock_ready s l' F" for l'
  proof -
    have "l' \<noteq> l" by (rule ne [OF that(1)])
    then have "lock_semaphore l' \<noteq> lock_semaphore l" by (simp add: lock_semaphore_def)
    moreover have "sema_waiters (lock_semaphore l') \<noteq> W" by (rule fw(3)) (use that(2) in \<open>simp add: lock_ready_def\<close>)
    ultimately show ?thesis using that(2) \<open>l' \<noteq> l\<close> fam by (simp add: lock_ready_def lock_init_more lock_init_sel)
  qed
  have "held s (fam_nodes (F(W \<mapsto> [])))" unfolding fw(2) held_Un using held k(1) by (simp add: kernel_inv_def)
  then have "kernel_inv ?s (F(W \<mapsto> []))"
    using k(1) ready quiet_phys_inv [OF q] quiet_vpool_inv [OF q]
    by (simp add: kernel_inv_def held_quiet [OF q] quiet_bytes [OF q] lock_init_more)
  moreover have "spaces ?s Ts D" by (rule spaces_frame [OF space_frame_same [OF q] sp]) (simp_all add: lock_init_sel)
  ultimately show "system_inv ?s (F(W \<mapsto> [])) rs Ts D"
    using inv sched by (simp add: system_inv_def held_quiet [OF q] mt)
  show "lock_ready ?s l (F(W \<mapsto> []))" using fam cur by (simp add: lock_ready_def lock_init_sel W_def)
qed

text \<open>A lock that is ready stays so when another is initialised.\<close>

lemma lock_init_ready:
  assumes "lock_ready s l' F" "l' \<noteq> l" "k_family (lock_init s l) F'" "F' (sema_waiters (lock_semaphore l')) = Some []"
  shows "lock_ready (lock_init s l) l' F'"
  using assms by (simp add: lock_ready_def lock_init_more lock_init_sel lock_semaphore_def)

section \<open>init_all\<close>

lemma low_held:
  assumes "machine_started M s" "mem_init s = Inr s1" "thread_init s1 = Inr s2" "\<And>a. a \<in> A \<Longrightarrow> low_mb a"
  shows "held s2 A"
proof -
  have s: "phys s = boot_phys M" "cr3 s = 0x100000" "cur s = MAIN_PCB" using assms(1) by (simp_all add: machine_started_def)
  have r: "memory_ready M s s1" using mem_init_ready [OF s(1,2)] assms(2) by (metis sum.inject(2))
  then have "cur s1 = MAIN_PCB" by (simp add: memory_ready_def s)
  then have q: "quiet s1 s2" using thread_init_ready [OF r] assms(3) by (metis sum.inject(2))
  have "phys s1 = boot_phys M" "cr3 s1 = 0x100000" using r by (simp_all add: memory_ready_def)
  from boot_map [OF this] assms(4) show ?thesis by (simp add: held_quiet [OF q]) (simp add: held_def)
qed

lemma main_nodes: "fam_nodes main_lists = insert (all_list_tag MAIN_PCB) (fam_nodes (empty_lists boot_heads))"
  using kl.fam_nodes_append [of "empty_lists boot_heads" THREAD_ALL_LIST "[]" "[all_list_tag MAIN_PCB]"]
  by (simp add: main_lists_def empty_lists_def boot_heads_def)

text \<open>The lists after init_all: those of the threads, and the waiters of the console and of the keyboard's queue.\<close>

definition kernel_lists :: "u32 \<Rightarrow> u32 list option" where
  "kernel_lists = main_lists(sema_waiters (lock_semaphore CONSOLE_LOCK) \<mapsto> [], sema_waiters (lock_semaphore IOQUEUE) \<mapsto> [])"

lemmas late_addrs = sema_waiters_def lock_semaphore_def CONSOLE_LOCK_def IOQUEUE_def tail_of_def general_tag_def MAIN_PCB_def
  KERNEL_POOL_LOCK_def USER_POOL_LOCK_def PID_LOCK_def

lemma late_fresh:
  fixes l
  assumes "l \<in> {CONSOLE_LOCK, IOQUEUE}"
  defines "W \<equiv> sema_waiters (lock_semaphore l)"
  shows "{W, tail_of W} \<inter> insert (general_tag MAIN_PCB) (fam_nodes main_lists) = {}" "\<And>a. a \<in> {W, tail_of W} \<Longrightarrow> low_mb a"
    "\<And>l'. l' \<in> {KERNEL_POOL_LOCK, USER_POOL_LOCK, PID_LOCK} \<Longrightarrow> l' \<noteq> l"
  using assms by (auto simp: main_nodes empty_nodes boot_heads_eq late_addrs all_list_tag_def low_mb_def)

lemma idt_init_started: "machine_started M s \<Longrightarrow> machine_started M (idt_init (put_str s msg) entry h)"
  by (simp add: machine_started_def idt_init_def idt_desc_init_def exception_init_def pic_init_def Let_def
      idt_desc_loop_eq exception_loop_eq set_gate_def put_str_def outb_def)

lemma timer_init_system:
  assumes "system_inv s F rs Ts D"
  obtains s' where "timer_init s = Inr s'" "system_inv s' F rs Ts D" "quiet s s'" "cur s' = cur s" "eflags s' = eflags s"
    "idt_table s' = (idt_table s)(0x20 := ''intr_timer_handler'')" "tasks s' = tasks s" "next_pid s' = next_pid s"
proof -
  define s' where "s' = put_str ((frequency_set COUNTER0_PORT COUNTER0_NO READ_WRITE_LATCH COUNTER_MODE (ucast COUNTER0_VALUE)
    (put_str s ''timer_init start!\<newline>''))\<lparr>idt_table := (idt_table s)(0x20 := ''intr_timer_handler'')\<rparr>) ''timer_init done!\<newline>''"
  have sel: "same_locks s s'" "lheap s' = lheap s" "tasks s' = tasks s" "main_thread s' = main_thread s" "phys s' = phys s"
    "cr3 s' = cr3 s" "mem s' = mem s" "kernel_pool s' = kernel_pool s" "user_pool s' = user_pool s" "kernel_vaddr s' = kernel_vaddr s"
    "cur s' = cur s" "idt_table s' = (idt_table s)(0x20 := ''intr_timer_handler'')" "next_pid s' = next_pid s" "eflags s' = eflags s"
    by (simp_all add: s'_def frequency_set_def put_str_def outb_def Let_def same_locks_def)
  have "timer_init s = Inr s'"
    by (simp add: timer_init_def register_handler_def Let_def IDT_DESC_CNT_def s'_def)
      (simp add: frequency_set_def put_str_def outb_def Let_def)
  then show thesis using that system_inv_same [OF assms sel(1-10)] sel by blast
qed

lemma kernel_lists_eq:
  "kernel_lists = (main_lists(sema_waiters (lock_semaphore CONSOLE_LOCK) \<mapsto> []))(sema_waiters (lock_semaphore IOQUEUE) \<mapsto> [])"
  by (simp add: kernel_lists_def)

text \<open>The console's lock and the keyboard's queue.\<close>

lemma devices_system:
  assumes inv: "system_inv s main_lists [] {MAIN_PCB} D" and c: "cur s = MAIN_PCB"
    and low: "\<And>A. (\<And>a. a \<in> A \<Longrightarrow> low_mb a) \<Longrightarrow> held s A"
  obtains s' where "keyboard_init (console_init s) = Inr s'" "system_inv s' kernel_lists [] {MAIN_PCB} D" "quiet s s'"
    "lock_ready s' CONSOLE_LOCK kernel_lists" "lock_ready s' IOQUEUE kernel_lists" "ring_empty (ioqs s' IOQUEUE)"
    "idt_table s' = (idt_table s)(0x21 := ''intr_keyboard_handler'')" "cur s' = cur s" "tasks s' = tasks s"
    "next_pid s' = next_pid s" "eflags s' = eflags s"
proof -
  let ?F1 = "main_lists(sema_waiters (lock_semaphore CONSOLE_LOCK) \<mapsto> [])" and ?WI = "sema_waiters (lock_semaphore IOQUEUE)"
  define s1 where "s1 = lock_init s CONSOLE_LOCK"
  have k: "CONSOLE_LOCK \<in> {CONSOLE_LOCK, IOQUEUE}" "IOQUEUE \<in> {CONSOLE_LOCK, IOQUEUE}" by simp_all
  note f1 = late_fresh [OF k(1)] and f2 = late_fresh [OF k(2)]
  note r1 = lock_init_system [OF inv f1(1) [folded c] low [OF f1(2)] f1(3), folded s1_def]
  define s2 where "s2 = (put_str s1 ''keyboard init start\<newline>'')\<lparr>idt_table := (idt_table s)(0x21 := ''intr_keyboard_handler'')\<rparr>"
  have sel2: "same_locks s1 s2" "lheap s2 = lheap s1" "tasks s2 = tasks s1" "main_thread s2 = main_thread s1" "phys s2 = phys s1"
    "cr3 s2 = cr3 s1" "mem s2 = mem s1" "kernel_pool s2 = kernel_pool s1" "user_pool s2 = user_pool s1" "kernel_vaddr s2 = kernel_vaddr s1"
    by (simp_all add: s2_def put_str_def same_locks_def)
  note r2 = system_inv_same [OF r1(1) sel2]
  have c2: "cur s2 = MAIN_PCB" by (simp add: s2_def put_str_def s1_def lock_init_sel c)
  have "held s {?WI, tail_of ?WI}" by (rule low) (erule f2(2))
  then have held2: "held s2 {?WI, tail_of ?WI}" using held_quiet [OF r2(2)] held_quiet [OF r1(2)] by blast
  have "{?WI, tail_of ?WI} \<inter> {sema_waiters (lock_semaphore CONSOLE_LOCK), tail_of (sema_waiters (lock_semaphore CONSOLE_LOCK))} = {}"
    by (simp add: late_addrs)
  moreover have "fam_nodes ?F1 = {sema_waiters (lock_semaphore CONSOLE_LOCK), tail_of (sema_waiters (lock_semaphore CONSOLE_LOCK))} \<union> fam_nodes main_lists"
    by (rule fresh_lock_waiters(2) [OF f1(1)])
  ultimately have fresh2: "{?WI, tail_of ?WI} \<inter> insert (general_tag (cur s2)) (fam_nodes ?F1) = {}"
    using f2(1) unfolding c2 by auto
  note r3 = lock_init_system [OF r2(1) fresh2 held2 f2(3), folded kernel_lists_eq]
  define s' where "s' = put_str (init_ioqueue s2 IOQUEUE) ''keyboard init done\<newline>''"
  have sel': "same_locks (lock_init s2 IOQUEUE) s'" "lheap s' = lheap (lock_init s2 IOQUEUE)" "tasks s' = tasks (lock_init s2 IOQUEUE)"
    "main_thread s' = main_thread (lock_init s2 IOQUEUE)" "phys s' = phys (lock_init s2 IOQUEUE)"
    "cr3 s' = cr3 (lock_init s2 IOQUEUE)" "mem s' = mem (lock_init s2 IOQUEUE)" "kernel_pool s' = kernel_pool (lock_init s2 IOQUEUE)"
    "user_pool s' = user_pool (lock_init s2 IOQUEUE)" "kernel_vaddr s' = kernel_vaddr (lock_init s2 IOQUEUE)"
    by (simp_all add: s'_def put_str_def same_locks_def init_ioqueue_def Let_def set_ioq_def set_ptr_def)
  note r4 = system_inv_same [OF r3(1) sel']
  have fam3: "k_family (lock_init s2 IOQUEUE) kernel_lists" using r3(3) by (simp add: lock_ready_def)
  have fam': "k_family s' kernel_lists" using r4(1) by (simp add: system_inv_def kernel_inv_def lock_ready_def)
  have W: "kernel_lists (sema_waiters (lock_semaphore CONSOLE_LOCK)) = Some []" "CONSOLE_LOCK \<noteq> IOQUEUE"
    by (simp_all add: kernel_lists_def CONSOLE_LOCK_def IOQUEUE_def)
  have "k_family s2 ?F1" using r2(1) by (simp add: system_inv_def kernel_inv_def lock_ready_def)
  then have "lock_ready s2 CONSOLE_LOCK ?F1" using lock_ready_same [OF r1(3) sel2(1)] by simp
  from lock_init_ready [OF this W(2) fam3 W(1)] have con: "lock_ready s' CONSOLE_LOCK kernel_lists"
    using lock_ready_same [OF _ sel'(1) fam' W(1)] by simp
  have "kernel_lists ?WI = Some []" by (simp add: kernel_lists_def)
  then have ioq: "lock_ready s' IOQUEUE kernel_lists" using lock_ready_same [OF r3(3) sel'(1) fam'] by simp
  have run: "keyboard_init (console_init s) = Inr s'"
    by (simp add: keyboard_init_def console_init_def register_handler_def IDT_DESC_CNT_def s'_def s1_def [symmetric] s2_def)
      (simp add: put_str_def s1_def lock_init_def sema_init_def list_init_def set_sema_value_def set_repeat_def set_holder_def)
  have q: "quiet s s'" by (rule quiet_trans [OF r1(2) quiet_trans [OF r2(2) quiet_trans [OF r3(2) r4(2)]]])
  have "ring_empty (ioqs s' IOQUEUE)" "cur s' = cur s" "tasks s' = tasks s" "eflags s' = eflags s"
    by (simp_all add: s'_def put_str_def init_ioqueue_sel) (simp_all add: s2_def put_str_def s1_def lock_init_sel)
  moreover have "idt_table s' = (idt_table s)(0x21 := ''intr_keyboard_handler'')" "next_pid s' = next_pid s"
    by (simp_all add: s'_def put_str_def init_ioqueue_def Let_def set_ioq_def set_ptr_def lock_init_def sema_init_def
        list_init_def set_sema_value_def set_repeat_def set_holder_def s2_def s1_def)
  ultimately show thesis using that run r4(1) q con ioq by blast
qed

definition main_running :: "kstate \<Rightarrow> bool" where
  "main_running s \<longleftrightarrow> main_thread s = MAIN_PCB \<and> cur s = MAIN_PCB \<and>
     tasks s MAIN_PCB = zero_task\<lparr>self_kstack := 0xc009f000, pid := next_pid s, status := TASK_RUNNING,
       task_name := ''main'', priority := 1, task_ticks := 1, stack_magic := 0x19980906\<rparr>"

lemma init_all_system:
  assumes "machine_started M s"
  shows "\<exists>s'. init_all s entry h = Inr s' \<and> system_inv s' kernel_lists [] {MAIN_PCB} (\<lambda>_. 0x100000) \<and>
    lock_ready s' CONSOLE_LOCK kernel_lists \<and> lock_ready s' IOQUEUE kernel_lists \<and> ring_empty (ioqs s' IOQUEUE) \<and>
    idt_table s' 0x20 = ''intr_timer_handler'' \<and> idt_table s' 0x21 = ''intr_keyboard_handler'' \<and> syscalls_ready s' \<and>
    main_running s' \<and> (\<forall>n. 2 * n < unat (kernel_free_pages M) div 8 \<longrightarrow> roomy s' n)"
proof -
  let ?s0 = "idt_init (put_str s ''init_all\<newline>'') entry h"
  have m0: "machine_started M ?s0" by (rule idt_init_started [OF assms])
  obtain s1 s2 where s2: "mem_init ?s0 = Inr s1" "thread_init s1 = Inr s2" "main_ready s1 s2"
    "system_inv s2 main_lists [] {MAIN_PCB} (\<lambda>_. 0x100000)"
    and room: "\<And>n. 2 * n < unat (kernel_free_pages M) div 8 \<Longrightarrow> roomy s2 n"
    by (rule kernel_start [OF m0]) blast
  obtain s3 where s3: "timer_init s2 = Inr s3" "system_inv s3 main_lists [] {MAIN_PCB} (\<lambda>_. 0x100000)" "quiet s2 s3" "cur s3 = cur s2"
    "idt_table s3 = (idt_table s2)(0x20 := ''intr_timer_handler'')" "tasks s3 = tasks s2" "next_pid s3 = next_pid s2"
    by (rule timer_init_system [OF s2(4)])
  have c: "cur s3 = MAIN_PCB" using s2(3) s3(4) by (simp add: main_ready_def)
  have low: "held s3 A" if "\<And>a. a \<in> A \<Longrightarrow> low_mb a" for A
    using low_held [OF m0 s2(1,2) that] by (simp add: held_quiet [OF s3(3)])
  obtain s4 where s4: "keyboard_init (console_init s3) = Inr s4" "system_inv s4 kernel_lists [] {MAIN_PCB} (\<lambda>_. 0x100000)" "quiet s3 s4"
    "lock_ready s4 CONSOLE_LOCK kernel_lists" "lock_ready s4 IOQUEUE kernel_lists" "ring_empty (ioqs s4 IOQUEUE)"
    "idt_table s4 = (idt_table s3)(0x21 := ''intr_keyboard_handler'')" "cur s4 = cur s3" "tasks s4 = tasks s3" "next_pid s4 = next_pid s3"
    by (rule devices_system [OF s3(2) c low])
  let ?s' = "syscall_init (tss_init s4)"
  have sel: "same_locks s4 ?s'" "lheap ?s' = lheap s4" "tasks ?s' = tasks s4" "main_thread ?s' = main_thread s4" "phys ?s' = phys s4"
    "cr3 ?s' = cr3 s4" "mem ?s' = mem s4" "kernel_pool ?s' = kernel_pool s4" "user_pool ?s' = user_pool s4" "kernel_vaddr ?s' = kernel_vaddr s4"
    "ioqs ?s' = ioqs s4" "idt_table ?s' = idt_table s4" "cur ?s' = cur s4" "next_pid ?s' = next_pid s4"
    by (simp_all add: syscall_init_def tss_init_def put_str_def set_gdt_def Let_def same_locks_def)
  note r = system_inv_same [OF s4(2) sel(1-10)]
  have q: "quiet s2 ?s'" by (rule quiet_trans [OF s3(3) quiet_trans [OF s4(3) r(2)]])
  have "k_family ?s' kernel_lists" using r(1) by (simp add: system_inv_def kernel_inv_def lock_ready_def)
  then have "lock_ready ?s' l kernel_lists" if "lock_ready s4 l kernel_lists" for l
    using lock_ready_same [OF that sel(1)] that by (simp add: lock_ready_def)
  moreover have "init_all s entry h = Inr ?s'" using s2(1,2) s3(1) s4(1) by (simp add: init_all_def Let_def)
  moreover have "main_running ?s'"
    using s2(3) r(1) by (simp add: main_ready_def main_running_def sel s4 s3 system_inv_def)
  moreover have "roomy ?s' n" if "2 * n < unat (kernel_free_pages M) div 8" for n
    using room [OF that] by (simp add: roomy_quiet [OF q])
  ultimately show ?thesis
    using r(1) s4(4-6) syscall_init_ready by (intro exI [of _ ?s']) (simp add: sel s4(7) s3(5))
qed

text \<open>
  C8. init_all establishes the invariants of the whole kernel. On the page tables the loader leaves,
  with the stack in the page at 0xc009e000, it returns; then the page allocator and the kernel's
  pool of virtual pages are consistent, every list of the kernel is well formed and mapped, the
  locks of the pools, of the process ids, of the console and of the keyboard's queue are free, that
  queue is empty, the timer and the keyboard have their handlers, the four system calls are in their
  table, and main is the one thread: it is RUNNING, has the last process id
  that was given, its PCB is at the start of its stack's page, and no thread is ready. As many pages as half the bytes of the
  kernel pool's map can be had.
\<close>

theorem init_all_ready:
  assumes "machine_started M s"
  shows "\<exists>s'. init_all s entry h = Inr s' \<and> system_inv s' kernel_lists [] {MAIN_PCB} (\<lambda>_. 0x100000) \<and>
    lock_ready s' CONSOLE_LOCK kernel_lists \<and> lock_ready s' IOQUEUE kernel_lists \<and> ring_empty (ioqs s' IOQUEUE) \<and>
    idt_table s' 0x20 = ''intr_timer_handler'' \<and> idt_table s' 0x21 = ''intr_keyboard_handler'' \<and> syscalls_ready s' \<and>
    main_running s' \<and> (\<forall>n. 2 * n < unat (kernel_free_pages M) div 8 \<longrightarrow> roomy s' n)"
  by (rule init_all_system [OF assms])

lemma init_all_ready_witness:
  "\<exists>s'. init_all machine (\<lambda>_. 0) 0 = Inr s' \<and> system_inv s' kernel_lists [] {MAIN_PCB} (\<lambda>_. 0x100000) \<and> roomy s' 239"
  using init_all_ready [OF machine_starts, of "\<lambda>_. 0" 0] machine_pages by (auto 4 4)

end
