(* ===== verification/Heap_Inv.thy ===== *)
theory Heap_Inv
  imports Start_Props
begin

text \<open>
  The kernel's heap as its callers see it: an invariant of arenas, blocks and free lists which every
  sys_malloc of at most 1024 bytes and every sys_free of a kernel thread keeps, together with the
  invariant of memory and locks. No call fails while there is room, and no block is given twice.
\<close>

section \<open>Arenas\<close>

text \<open>Size and number of the blocks of descriptor \<open>i\<close>, its address and its free list.\<close>

definition bsz :: "nat \<Rightarrow> nat" where "bsz i = 16 * 2 ^ i"
definition bcnt :: "nat \<Rightarrow> nat" where "bcnt i = [255, 127, 63, 31, 15, 7, 3] ! i"

abbreviation k_desc :: "nat \<Rightarrow> u32" where "k_desc i \<equiv> desc_at K_BLOCK_DESC i"
abbreviation k_free :: "nat \<Rightarrow> u32" where "k_free i \<equiv> free_list (k_desc i)"

definition blk :: "nat \<Rightarrow> u32 \<Rightarrow> nat \<Rightarrow> u32" where "blk i a k = a + of_nat (12 + k * bsz i)"
definition blks :: "nat \<Rightarrow> u32 \<Rightarrow> u32 list" where "blks i a = map (blk i a) [0..<bcnt i]"

lemma lt7: "i < 7 \<longleftrightarrow> i \<in> {0, 1, 2, 3, 4, 5, 6 :: nat}"
  by auto

lemma block_bounds: "i < 7 \<Longrightarrow> 12 + bcnt i * bsz i \<le> 4096" "i < 7 \<Longrightarrow> 0 < bcnt i \<and> bcnt i < 256"
  "i < 7 \<Longrightarrow> 16 \<le> bsz i \<and> bsz i \<le> 1024"
  by (auto simp: lt7 bcnt_def bsz_def)

lemma k_desc_inject: "i < 7 \<Longrightarrow> j < 7 \<Longrightarrow> k_desc i = k_desc j \<Longrightarrow> i = j"
  by (auto simp: lt7 desc_at_def K_BLOCK_DESC_def SIZEOF_MEM_BLOCK_DESC_def)

lemma k_free_inject: "i < 7 \<Longrightarrow> j < 7 \<Longrightarrow> k_free i = k_free j \<Longrightarrow> i = j"
  using k_desc_inject [of i j] by (simp add: free_list_def)

lemma k_free_waiters:
  "i < 7 \<Longrightarrow> l \<in> {KERNEL_POOL_LOCK, USER_POOL_LOCK, PID_LOCK} \<Longrightarrow> k_free i \<noteq> sema_waiters (lock_semaphore l)"
  by (auto simp: lt7 desc_at_def K_BLOCK_DESC_def SIZEOF_MEM_BLOCK_DESC_def free_list_def sema_waiters_def lock_semaphore_def
      KERNEL_POOL_LOCK_def USER_POOL_LOCK_def PID_LOCK_def)

lemma blk_at:
  assumes "page_frame a = a" "i < 7" "k < bcnt i"
  shows "unat (blk i a k) = unat a + 12 + k * bsz i" "12 + k * bsz i + bsz i \<le> 4096" "page_frame (blk i a k) = a"
    "unat (page_offset (blk i a k)) = 12 + k * bsz i"
proof -
  have "Suc k * bsz i \<le> bcnt i * bsz i" by (rule mult_le_mono1) (use assms(3) in simp)
  then show le: "12 + k * bsz i + bsz i \<le> 4096" using block_bounds(1) [OF assms(2)] by simp
  have b: "0 < bsz i" by (simp add: bsz_def)
  have "unat a + 4096 \<le> 4294967296" by (rule unat_page_next [OF assms(1)])
  then have "unat a + (12 + k * bsz i) < 4294967296" using le b by linarith
  then show "unat (blk i a k) = unat a + 12 + k * bsz i" unfolding blk_def by (subst unat_add_of_nat_u32) simp_all
  have off: "unat (page_offset a) + (12 + k * bsz i) < 4096" using le b page_offset_frame [OF assms(1)] by simp
  show "page_frame (blk i a k) = a" "unat (page_offset (blk i a k)) = 12 + k * bsz i"
    unfolding blk_def using page_offset_add [OF off] page_offset_frame [OF assms(1)] assms(1) by simp_all
qed

lemma blk_inject:
  assumes "page_frame a = a" "i < 7" "j < bcnt i" "k < bcnt i" "blk i a j = blk i a k"
  shows "j = k"
proof -
  have "unat a + 12 + j * bsz i = unat a + 12 + k * bsz i"
    using blk_at(1) [OF assms(1,2,3)] blk_at(1) [OF assms(1,2,4)] assms(5) by metis
  then have "j * bsz i = k * bsz i" by linarith
  moreover have "0 < bsz i" by (simp add: bsz_def)
  ultimately show ?thesis by (simp only: mult_cancel2) linarith
qed

lemma blks_distinct: "page_frame a = a \<Longrightarrow> i < 7 \<Longrightarrow> distinct (blks i a)"
  by (auto simp: blks_def distinct_map inj_on_def dest: blk_inject)

lemma blks_page: "page_frame a = a \<Longrightarrow> i < 7 \<Longrightarrow> b \<in> set (blks i a) \<Longrightarrow> page_frame b = a"
  by (auto simp: blks_def blk_at)

text \<open>A block's range holds neither the arena's header nor another block.\<close>

lemma blks_apart:
  assumes a: "page_frame a = a" "i < 7" and b: "b \<in> set (blks i a)"
  shows "b \<noteq> 0" "\<not> in_range a b (bsz i)" "\<And>c. c \<in> set (blks i a) \<Longrightarrow> c \<noteq> b \<Longrightarrow> \<not> in_range c b (bsz i)"
    "\<And>x. in_range x b (bsz i) \<Longrightarrow> page_frame x = a"
    "unat (page_offset b) + bsz i \<le> 4096"
proof -
  obtain k where k: "k < bcnt i" "b = blk i a k" using b by (auto simp: blks_def)
  note at = blk_at [OF a k(1), folded k(2)]
  show "unat (page_offset b) + bsz i \<le> 4096" using at by simp
  show "b \<noteq> 0" using at(1) by auto
  have lt: "unat a < unat b" "unat a + 4096 \<le> 4294967296" using at(1) unat_page_next [OF a(1)] by simp_all
  show "\<not> in_range a b (bsz i)"
  proof
    assume "in_range a b (bsz i)"
    then have r: "unat (a - b) < bsz i" by (simp add: in_range_def)
    have "unat (a - b) = unat a + 4294967296 - unat b" using lt(1) by (simp add: unat_sub_if')
    then show False using r at(1,2) unat_u32_bound [of b] by linarith
  qed
  show "\<not> in_range c b (bsz i)" if c: "c \<in> set (blks i a)" "c \<noteq> b" for c
  proof
    assume "in_range c b (bsz i)"
    then have r: "unat (c - b) < bsz i" by (simp add: in_range_def)
    obtain j where j: "j < bcnt i" "c = blk i a j" using c(1) by (auto simp: blks_def)
    note cat = blk_at [OF a j(1), folded j(2)]
    show False
    proof (cases "j < k")
      case True
      then have "Suc j * bsz i \<le> k * bsz i" by (intro mult_le_mono1) simp
      moreover have "0 < bsz i" by (simp add: bsz_def)
      ultimately have "unat c < unat b" using cat(1) at(1) unfolding mult_Suc by linarith
      then have "unat (c - b) = unat c + 4294967296 - unat b" by (simp add: unat_sub_if')
      then show False using r at(1,2) cat(1) lt(2) by linarith
    next
      case False
      then have "Suc k * bsz i \<le> j * bsz i" using c(2) j(2) k(2) by (intro mult_le_mono1) (cases "j = k", simp_all)
      then have ge: "unat b + bsz i \<le> unat c" using cat(1) at(1) by simp
      then have "unat (c - b) = unat c - unat b" by (simp add: unat_sub_if')
      then show False using r ge by linarith
    qed
  qed
  show "page_frame x = a" if "in_range x b (bsz i)" for x
  proof -
    have "unat (page_offset b) + unat (x - b) < 4096" using that at(2,4) by (simp add: in_range_def)
    from page_offset_add(1) [OF this] show ?thesis using at(3) by simp
  qed
qed

section \<open>The invariant\<close>

text \<open>
  The page \<open>a\<close> of the kernel's heap is mapped to the frame \<open>j\<close> of the kernel pool: the frame is given
  away, holds no table and is mapped at no other page.
\<close>

definition heap_page :: "kstate \<Rightarrow> u32 \<Rightarrow> u32 \<Rightarrow> bool" where
  "heap_page s a j \<longleftrightarrow> own_pde a \<and>
     (\<exists>k :: u32. a = run_page K_HEAP_START (unat k) \<and> unat k + 1 < unat (btmp_bytes_len (vaddr_bitmap (kernel_vaddr s)))) \<and>
     pool_idx s PF_KERNEL j \<and> pool_bit s PF_KERNEL j \<and> not_table s (pool_page (pool_of PF_KERNEL s) j) \<and>
     vmap s a = Some (pool_page (pool_of PF_KERNEL s) j) \<and>
     (\<forall>w. own_pde w \<longrightarrow> vmap s w = Some (pool_page (pool_of PF_KERNEL s) j + page_offset w) \<longrightarrow> page_frame w = a)"

text \<open>
  The page \<open>a\<close> is an arena for blocks of descriptor \<open>i\<close>: every list node in it is the start of one of
  its blocks, it holds no bitmap, and its count is the number of its blocks that are free.
\<close>

definition heap_arena :: "kstate \<Rightarrow> (u32 \<Rightarrow> u32 list option) \<Rightarrow> nat \<Rightarrow> u32 \<Rightarrow> bool" where
  "heap_arena s F i a \<longleftrightarrow> i < 7 \<and> page_frame a = a \<and> (\<exists>j. heap_page s a j) \<and>
     arena_desc (arenas s a) = k_desc i \<and> \<not> arena_large (arenas s a) \<and>
     (\<forall>x \<in> fam_nodes F. page_frame x = a \<longrightarrow> x \<in> set (blks i a)) \<and> (\<forall>x \<in> pool_bytes s. page_frame x \<noteq> a) \<and>
     arena_cnt (arenas s a) = of_nat (length (filter (\<lambda>e. page_frame e = a) (the (F (k_free i)))))"

lemma heap_arenaD:
  assumes "heap_arena s F i a"
  shows "page_frame a = a" "i < 7" "own_pde a" "vmap s a \<noteq> None" "arena_desc (arenas s a) = k_desc i"
    "arena_cnt (arenas s a) = of_nat (length (filter (\<lambda>e. page_frame e = a) (the (F (k_free i)))))"
proof -
  obtain j where j: "heap_page s a j" using assms unfolding heap_arena_def by blast
  then have "own_pde a \<and> (\<exists>x. vmap s a = Some x)" unfolding heap_page_def by blast
  then show "own_pde a" "vmap s a \<noteq> None" by simp_all
qed (use assms in \<open>unfold heap_arena_def, blast+\<close>)

lemma heap_arena_mapped: "heap_arena s F i a \<Longrightarrow> \<exists>f. not_table s f \<and> vmap s a = Some f"
  unfolding heap_arena_def heap_page_def by blast

text \<open>The arenas \<open>A\<close>: every free block is one of an arena in \<open>A\<close>, in the list for its size.\<close>

definition heap_ok :: "kstate \<Rightarrow> (u32 \<Rightarrow> u32 list option) \<Rightarrow> u32 set \<Rightarrow> bool" where
  "heap_ok s F A \<longleftrightarrow> desc_table s K_BLOCK_DESC = desc_sizes \<and>
     Kernel_State.vaddr_start (kernel_vaddr s) = K_HEAP_START \<and> 0x102000 \<le> unat (phy_addr_start (kernel_pool s)) \<and>
     (\<forall>a \<in> A. \<exists>i. heap_arena s F i a) \<and>
     (\<forall>i < 7. \<exists>xs. F (k_free i) = Some xs \<and>
        (\<forall>e \<in> set xs. page_frame e \<in> A \<and> arena_desc (arenas s (page_frame e)) = k_desc i))"

lemma heap_ok_arena: "heap_ok s F A \<Longrightarrow> a \<in> A \<Longrightarrow> \<exists>i. heap_arena s F i a"
  by (simp add: heap_ok_def)

lemma heap_ok_free: "heap_ok s F A \<Longrightarrow> i < 7 \<Longrightarrow> \<exists>xs. F (k_free i) = Some xs \<and>
    (\<forall>e \<in> set xs. page_frame e \<in> A \<and> arena_desc (arenas s (page_frame e)) = k_desc i)"
  by (simp add: heap_ok_def)

lemma heap_desc_at:
  assumes "desc_table s K_BLOCK_DESC = desc_sizes" "i < 7"
  shows "descs s (k_desc i) = \<lparr>block_size = of_nat (bsz i), blocks_per_arena = of_nat (bcnt i)\<rparr>"
  using assms unfolding desc_table_def DESC_CNT_def upt_7
  by (auto simp: lt7 desc_sizes_def bsz_def bcnt_def)

lemma unat_bsz: "i < 7 \<Longrightarrow> unat (of_nat (bsz i) :: u32) = bsz i" "i < 7 \<Longrightarrow> unat (of_nat (bcnt i) :: u32) = bcnt i"
  using block_bounds(2,3) [of i] by (simp_all add: unat_of_nat)

lemma free_block_at:
  assumes h: "heap_ok s F A" and i: "i < 7" and e: "F (k_free i) = Some xs" "e \<in> set xs"
  shows "heap_arena s F i (page_frame e)" "e \<in> set (blks i (page_frame e))" "page_frame e \<in> A"
proof -
  have A: "page_frame e \<in> A" "arena_desc (arenas s (page_frame e)) = k_desc i" using h i e by (auto simp: heap_ok_def)
  then obtain i' where i': "heap_arena s F i' (page_frame e)" using h by (auto simp: heap_ok_def)
  then have "i' = i" using A(2) i k_desc_inject [of i' i] by (simp add: heap_arena_def)
  then show ha: "heap_arena s F i (page_frame e)" using i' by simp
  have "e \<in> fam_nodes F" using e by (auto simp: fam_nodes_def dl_nodes_def)
  then show "e \<in> set (blks i (page_frame e))" using ha by (simp add: heap_arena_def)
  show "page_frame e \<in> A" by (rule A(1))
qed

lemma vmap_in_page:
  assumes "mmu_walk m dir a = Some f" "page_frame a = a" "page_frame b = a"
  shows "mmu_walk m dir b = Some (f + page_offset b)"
proof -
  have "PDE_IDX b = PDE_IDX a" "PTE_IDX b = PTE_IDX a" using page_frame_idx [of b a] assms(2,3) by simp_all
  then show ?thesis using assms(1) page_offset_frame [OF assms(2)]
    by (auto simp: mmu_walk_def Let_def pde_addr_def pte_addr_def split: if_splits)
qed

text \<open>memset inside a page: nothing the page allocator uses changes.\<close>

lemma kmemset0_block:
  assumes wf: "pt_wf (phys s) (cr3 s)" and f: "fresh_table (phys s) (cr3 s) f" and v: "vmap s va = Some (f + page_offset va)"
    and n: "unat (page_offset va) + unat n \<le> 4096" "va \<noteq> 0" and pb: "\<And>x. x \<in> pool_bytes s \<Longrightarrow> \<not> in_range x va (unat n)"
  obtains ph where "kmemset0 s va n = Inr ((clear_typed s va (unat n))\<lparr>phys := ph\<rparr>)"
    "quiet s ((clear_typed s va (unat n))\<lparr>phys := ph\<rparr>)" "\<And>x. page_frame x \<noteq> f \<Longrightarrow> ph x = phys s x"
proof -
  have le: "unat (page_offset va) + 4 * (unat n div 4) \<le> 4096" using n(1) by simp
  obtain ph where ph: "zero_words s va (unat n div 4) = Inr (s\<lparr>phys := ph\<rparr>)"
    "\<And>a. page_frame a \<noteq> f \<Longrightarrow> ph a = phys s a"
    using zero_words_mapped [OF wf f v le] by blast
  note keep = outside_tables [OF wf f ph(2)]
  have "kmemset0 s va n = Inr ((clear_typed s va (unat n))\<lparr>phys := ph\<rparr>)"
    using ph(1) n(2) by (simp add: kmemset0_def clear_typed_phys)
  moreover have "quiet s ((clear_typed s va (unat n))\<lparr>phys := ph\<rparr>)"
    using pb keep(1,2) by (simp add: quiet_def clear_typed_def wipe_def)
  ultimately show thesis using that ph(2) by blast
qed

lemma heap_page_quiet:
  assumes q: "quiet s s'" and j: "heap_page s a j"
  shows "heap_page s' a j"
proof -
  have "not_table s' p = not_table s p" for p using q by (simp add: not_table_def fresh_table_def quiet_def)
  moreover have "kernel_vaddr s' = kernel_vaddr s" using q by (simp add: quiet_def)
  ultimately show ?thesis using j quiet_pool [OF q] unfolding heap_page_def quiet_vmap [OF q] by simp
qed

text \<open>Pages of the heap stay when others are allocated, and a new page is one.\<close>

lemma got_heap_page:
  assumes inv: "phys_inv s" and g: "got_pages s s' v fs" and j: "heap_page s a j"
  shows "heap_page s' a j"
proof -
  have sf: "space_frame s s'" and mo: "mem_only s s'" and fp: "fresh_pages s s' PF_KERNEL fs" and rm: "run_mapped s s' v fs"
    using g by (simp_all add: got_pages_def)
  have jj: "own_pde a" "pool_idx s PF_KERNEL j" "pool_bit s PF_KERNEL j" "not_table s (pool_page (pool_of PF_KERNEL s) j)"
    "vmap s a = Some (pool_page (pool_of PF_KERNEL s) j)" using j by (simp_all add: heap_page_def)
  have po: "pool_of PF_KERNEL s' = pool_of PF_KERNEL s" and "pool_bit s' PF_KERNEL j" "tables_frame s s'"
    using sf jj(2,3) unfolding space_frame_def by blast+
  moreover have "vmap s' a = vmap s a" using sf jj(1,5) unfolding space_frame_def by fastforce
  moreover have "page_frame w = a" if w: "own_pde w" "vmap s' w = Some (pool_page (pool_of PF_KERNEL s) j + page_offset w)" for w
  proof (cases "\<exists>k < length fs. page_frame w = run_page v k")
    case True
    then obtain k where k: "k < length fs" "page_frame w = run_page v k" by blast
    then have "vmap s' w = Some (fs ! k + page_offset w)" using rm unfolding run_mapped_def by blast
    then have "fs ! k = pool_page (pool_of PF_KERNEL s) j" using w(2) by simp
    then obtain n where "pool_page (pool_of PF_KERNEL s) j = pool_page (pool_of PF_KERNEL s) n" "pool_idx s PF_KERNEL n" "\<not> pool_bit s PF_KERNEL n"
      using fp k(1) unfolding fresh_pages_def by (metis nth_mem)
    then show ?thesis using pool_page_inject [OF _ jj(2), of PF_KERNEL n] jj(3) inv by (auto simp: phys_inv_def)
  next
    case False
    then have "vmap s' w = vmap s w" using rm w(1) unfolding run_mapped_def by blast
    then show ?thesis using j w unfolding heap_page_def by simp
  qed
  ultimately show ?thesis using j jj unfolding heap_page_def tables_frame_def pool_idx_def po mem_only_sel [OF mo] by simp
qed

lemma got_new_page:
  assumes inv: "phys_inv s" "vpool_inv s PF_KERNEL" and g: "got_pages s s' v [f]"
    and start: "Kernel_State.vaddr_start (kernel_vaddr s) = K_HEAP_START"
  shows "\<exists>j. heap_page s' v j"
proof -
  have mo: "mem_only s s'" and fp: "fresh_pages s s' PF_KERNEL [f]" and rm: "run_mapped s s' v [f]" and rf: "run_frames (phys s') (cr3 s') v [f]"
    and wt: "window_taken s s' PF_KERNEL v 1" using g by (simp_all add: got_pages_def)
  note sel = mem_only_sel [OF mo]
  have po: "pool_of PF_KERNEL s' = pool_of PF_KERNEL s" by (simp add: pool_of_def sel)
  have rv: "run_page v 0 = v" by (simp add: run_page_def)
  obtain j where j: "f = pool_page (pool_of PF_KERNEL s) j" "pool_idx s PF_KERNEL j" "\<not> pool_bit s PF_KERNEL j" "pool_bit s' PF_KERNEL j"
    using fp by (auto simp: fresh_pages_def)
  have v: "page_frame v = v" "not_table s' f" using rf by (simp_all add: run_frames_def run_ok_def not_table_def)
  have at: "vmap s' v = Some f" "own_pde v"
    using got_run_held [OF g, of 0 v] rv v(1) page_offset_frame [OF v(1)] by simp_all
  moreover have "page_frame w = v" if w: "own_pde w" "vmap s' w = Some (f + page_offset w)" for w
  proof (rule ccontr)
    assume "page_frame w \<noteq> v"
    then have "vmap s' w = vmap s w" using rm w(1) rv unfolding run_mapped_def by simp
    moreover have "unused_page s f" using inv(1) j unfolding phys_inv_def by blast
    ultimately show False using w unfolding unused_page_def by metis
  qed
  moreover have "\<exists>k :: u32. v = run_page K_HEAP_START (unat k) \<and> unat k + 1 < unat (btmp_bytes_len (vaddr_bitmap (kernel_vaddr s)))"
    using wt unfolding window_taken_def vaddr_pool_def Let_def if_P [OF refl] start by blast
  ultimately show ?thesis using j v(2) unfolding heap_page_def po pool_idx_def sel by (intro exI [of _ j]) simp
qed

lemma heap_arena_step:
  assumes h: "heap_arena s F i a" and q: "\<And>j. heap_page s a j \<Longrightarrow> heap_page s' a j" "pool_bytes s' = pool_bytes s"
    and d: "arena_desc (arenas s' a) = arena_desc (arenas s a)" "arena_large (arenas s' a) = arena_large (arenas s a)"
    and n: "\<And>x. x \<in> fam_nodes F' \<Longrightarrow> page_frame x = a \<Longrightarrow> x \<in> set (blks i a)"
    and c: "arena_cnt (arenas s' a) = of_nat (length (filter (\<lambda>e. page_frame e = a) (the (F' (k_free i)))))"
  shows "heap_arena s' F' i a"
proof -
  have b: "i < 7" "page_frame a = a" "arena_desc (arenas s a) = k_desc i"
    "\<not> arena_large (arenas s a)" "\<forall>x \<in> pool_bytes s. page_frame x \<noteq> a" using h unfolding heap_arena_def by blast+
  have bk: "\<exists>j. heap_page s' a j" using h q(1) unfolding heap_arena_def by blast
  show ?thesis unfolding heap_arena_def d q(2)
    by (intro conjI bk b c) (use n in blast)
qed

lemma heap_node_apart:
  assumes h: "heap_arena s F i a" and b: "b \<in> set (blks i a)" and x: "x \<in> fam_nodes F \<union> pool_bytes s" "x \<noteq> b"
  shows "\<not> in_range x b (bsz i)"
proof
  assume r: "in_range x b (bsz i)"
  have a: "page_frame a = a" "i < 7" using h by (simp_all add: heap_arena_def)
  have "page_frame x = a" by (rule blks_apart(4) [OF a b r])
  then have "x \<in> set (blks i a)" using h x(1) unfolding heap_arena_def by blast
  then show False using blks_apart(3) [OF a b _ x(2)] r by blast
qed

section \<open>Taking a free block\<close>

lemma take_block_heap:
  assumes inv: "kernel_inv s F" and h: "heap_ok s F A" and i: "i < 7" and fl: "F (k_free i) = Some (b # bs)"
  defines "F' \<equiv> F(k_free i \<mapsto> bs)"
  obtains s' where "take_block (locked KERNEL_POOL_LOCK s) PF_KERNEL (k_desc i) = Inr (b, s')" "kernel_inv s' F'" "heap_ok s' F' A"
    "quiet s s'" "mem_only s s'" "mem s' = wipe b (bsz i) 0 (mem s)"
    "arenas s' (page_frame b) = (arenas s (page_frame b))\<lparr>arena_cnt := arena_cnt (arenas s (page_frame b)) - 1\<rparr>"
    "\<And>x. page_frame x \<noteq> page_frame b \<Longrightarrow> arenas s' x = arenas s x"
proof -
  let ?l = KERNEL_POOL_LOCK and ?a = "page_frame b" and ?n = "of_nat (bsz i) :: u32"
  have ready: "lock_ready s ?l F" and held: "held s (fam_nodes F)" using inv by (simp_all add: kernel_inv_def)
  have "b \<in> set (b # bs)" by simp
  note at = free_block_at [OF h i fl this]
  have a: "page_frame ?a = ?a" using at(1) unfolding heap_arena_def by blast
  note ap = blks_apart [OF a i at(2)]
  have un: "unat ?n = bsz i" by (rule unat_bsz(1) [OF i])
  have dsz: "block_size (descs s (k_desc i)) = ?n" using h by (simp add: heap_ok_def heap_desc_at [OF _ i])
  define s0 where "s0 = locked ?l s"
  define s1 where "s1 = list_remove s0 b"
  have fam0: "k_family s0 F" using ready by (simp add: lock_ready_def s0_def)
  note pop = list_pop_family [OF fam0 fl]
  have fam1: "k_family s1 F'" using pop(2) by (simp add: s1_def F'_def)
  have sel1: "phys s1 = phys s" "cr3 s1 = cr3 s" "descs s1 = descs s" "arenas s1 = arenas s" "mem s1 = mem s"
    by (simp_all add: s1_def s0_def list_remove_eq)
  have q1: "quiet s s1" by (rule quiet_same) (simp_all add: s1_def s0_def list_remove_eq)
  obtain f where f: "fresh_table (phys s) (cr3 s) f" "vmap s ?a = Some f"
    using heap_arena_mapped [OF at(1)] by (auto simp: not_table_def)
  have wf: "pt_wf (phys s) (cr3 s)" using inv by (simp add: kernel_inv_def phys_inv_def)
  have pb: "\<not> in_range x b (unat ?n)" if "x \<in> pool_bytes s1" for x
  proof -
    have "x \<in> pool_bytes s" using that quiet_bytes [OF q1] by simp
    moreover from this have "x \<noteq> b" using at(1) by (auto simp: heap_arena_def)
    ultimately show ?thesis using heap_node_apart [OF at(1,2)] un by simp
  qed
  have vb: "vmap s1 b = Some (f + page_offset b)" using vmap_in_page [OF f(2) a refl] by (simp add: sel1)
  obtain ph where ph: "kmemset0 s1 b ?n = Inr ((clear_typed s1 b (unat ?n))\<lparr>phys := ph\<rparr>)"
    "quiet s1 ((clear_typed s1 b (unat ?n))\<lparr>phys := ph\<rparr>)"
    by (rule kmemset0_block [of s1 f b ?n]) (use wf f(1) vb ap(1,5) pb un in \<open>simp_all add: sel1\<close>)
  define s2 where "s2 = (clear_typed s1 b (unat ?n))\<lparr>phys := ph\<rparr>"
  define s3 where "s3 = add_cnt ?a (- 1) s2"
  have ar2: "arenas s2 x = arenas s x" if "\<not> in_range x b (bsz i)" for x
    using that by (simp add: s2_def clear_typed_def wipe_def sel1 un)
  have ar3: "arenas s3 ?a = (arenas s ?a)\<lparr>arena_cnt := arena_cnt (arenas s ?a) - 1\<rparr>"
    "page_frame x \<noteq> ?a \<Longrightarrow> arenas s3 x = arenas s x" for x
    using ar2 [OF ap(2)] ar2 [of x] ap(4) [of x] by (auto simp: s3_def add_cnt_def)
  have bF: "b \<notin> fam_nodes F'" using kl.removed_fresh [of s0 F "k_free i" "[]" b bs] fam0 fl by (simp add: F'_def)
  have sub: "fam_nodes F' \<subseteq> fam_nodes F" unfolding F'_def by (rule fam_nodes_subset [of F "k_free i" "b # bs"]) (use fl in auto)
  have "lheap s3 x = lheap s1 x" if "x \<in> fam_nodes F'" for x
  proof -
    have "x \<in> fam_nodes F" "x \<noteq> b" using that sub bF by blast+
    then have "\<not> in_range x b (bsz i)" using heap_node_apart [OF at(1,2)] by simp
    then show ?thesis by (simp add: s3_def s2_def add_cnt_def clear_typed_def wipe_def un)
  qed
  then have fam3: "k_family s3 F'" by (rule k_family_cong [OF fam1])
  have kept: "lock_kept s0 s3"
    by (simp add: lock_kept_def s3_def s2_def s1_def s0_def add_cnt_def clear_typed_def list_remove_eq)
  have w: "F' (sema_waiters (lock_semaphore l)) = F (sema_waiters (lock_semaphore l))" if "l \<in> {?l, USER_POOL_LOCK, PID_LOCK}" for l
    using k_free_waiters [OF i, of l] that by (auto simp: F'_def)
  then have w0: "F' (sema_waiters (lock_semaphore ?l)) = Some []" using ready by (simp add: lock_ready_def)
  define s' where "s' = unlocked ?l s3"
  note rel = lock_ready_release(1) [OF ready kept [unfolded s0_def] fam3 w0]
  have "take_block (locked ?l s) PF_KERNEL (k_desc i) = Inr (b, s')"
    using pop(1) ph(1) rel
    by (simp add: take_block_def pool_lock_def s0_def [symmetric] s1_def [symmetric] sel1(3) dsz s2_def [symmetric] block2arena_frame
        s3_def [symmetric] s'_def)
  moreover have q: "quiet s s'"
    by (rule quiet_trans [OF q1 quiet_trans [OF ph(2) [folded s2_def] quiet_trans [of _ s3]]])
      (simp_all add: s3_def add_cnt_def quiet_same s'_def quiet_locked)
  moreover have mo: "mem_only s s'"
    unfolding s'_def
  proof (rule mem_only_unlocked)
    show "lock_free s ?l" by (rule lock_ready_free [OF ready])
    show "mem_only (locked ?l s) s3"
      by (rule mem_onlyI [where m = "mem s3" and p = "phys s3" and l = "lheap s3" and a = "arenas s3"])
        (simp add: s3_def add_cnt_def s2_def clear_typed_def s1_def s0_def list_remove_eq)
  qed
  moreover have inv': "kernel_inv s' F'"
  proof (rule kernel_inv_lists [OF inv q])
    show "same_locks s s'" by (simp add: same_locks_def mem_only_sel [OF mo])
    show "k_family s' F'" using fam3 by (simp add: k_family_def s'_def)
    show "held s (fam_nodes F')" by (rule held_mono [OF held sub])
  qed (use w in simp)
  moreover have arenas: "arenas s' = arenas s3" by (simp add: s'_def)
  moreover have "heap_ok s' F' A"
    unfolding heap_ok_def
  proof (intro conjI ballI allI impI)
    fix c assume c: "c \<in> A"
    then obtain i' where i': "heap_arena s F i' c" using h by (auto simp: heap_ok_def)
    have "heap_arena s' F' i' c"
    proof (rule heap_arena_step [OF i' heap_page_quiet [OF q] quiet_bytes [OF q]])
      have pc: "page_frame c = c" using i' by (simp add: heap_arena_def)
      show "arena_desc (arenas s' c) = arena_desc (arenas s c)" "arena_large (arenas s' c) = arena_large (arenas s c)"
        using ar3(1) ar3(2) [of c] pc by (cases "c = ?a"; simp add: arenas)+
      show "x \<in> set (blks i' c)" if "x \<in> fam_nodes F'" "page_frame x = c" for x
        using i' that sub by (auto simp: heap_arena_def)
      have cnt: "arena_cnt (arenas s c) = of_nat (length (filter (\<lambda>e. page_frame e = c) (the (F (k_free i')))))"
        using i' by (simp add: heap_arena_def)
      show "arena_cnt (arenas s' c) = of_nat (length (filter (\<lambda>e. page_frame e = c) (the (F' (k_free i')))))"
      proof (cases "c = ?a")
        case True
        then have "k_desc i' = k_desc i" using i' at(1) by (simp add: heap_arena_def)
        then have "i' = i" using k_desc_inject [of i' i] i' i by (simp add: heap_arena_def)
        then show ?thesis using cnt ar3(1) True by (simp add: arenas F'_def fl)
      next
        case False
        moreover have "the (F' (k_free i')) = (if k_free i' = k_free i then bs else the (F (k_free i')))" by (simp add: F'_def)
        ultimately show ?thesis using cnt ar3(2) [of c] pc fl by (auto simp: arenas split: if_splits)
      qed
    qed
    then show "\<exists>i. heap_arena s' F' i c" by blast
  next
    fix k :: nat assume k: "k < 7"
    obtain xs where xs: "F (k_free k) = Some xs" "\<And>e. e \<in> set xs \<Longrightarrow> page_frame e \<in> A \<and> arena_desc (arenas s (page_frame e)) = k_desc k"
      using h k by (auto simp: heap_ok_def)
    have d: "arena_desc (arenas s' x) = arena_desc (arenas s x)" if "page_frame x = x" for x
      using ar3(1) ar3(2) [of x] that by (cases "x = ?a") (simp_all add: arenas)
    have pp: "page_frame (page_frame e) = page_frame e" for e
      by (rule u32_eqI) (simp add: unat_page_frame)
    show "\<exists>xs. F' (k_free k) = Some xs \<and> (\<forall>e \<in> set xs. page_frame e \<in> A \<and> arena_desc (arenas s' (page_frame e)) = k_desc k)"
      using xs fl k i k_free_inject [of k i] by (cases "k = i") (auto simp: F'_def d [OF pp])
  qed (use h mo in \<open>simp_all add: heap_ok_def desc_table_def mem_only_sel [OF mo]\<close>)
  moreover have "mem s' = wipe b (bsz i) 0 (mem s)" by (simp add: s'_def s3_def add_cnt_def s2_def clear_typed_def sel1 un)
  ultimately show thesis using that ar3 by simp
qed


section \<open>A new arena\<close>

lemma fold_append_lheap: "\<exists>h. fold (\<lambda>e s. list_append s l e) es s = s\<lparr>lheap := h\<rparr>"
proof (induction es arbitrary: s)
  case Nil
  show ?case by (intro exI [of _ "lheap s"]) simp
next
  case (Cons e es)
  obtain h where "fold (\<lambda>e s. list_append s l e) es (list_append s l e) = (list_append s l e)\<lparr>lheap := h\<rparr>" using Cons by blast
  then show ?case by (intro exI [of _ h]) (simp add: list_append_eq)
qed

lemma carve_run:
  assumes fam: "k_family s F" "F (free_list d) = Some xs" and d: "arena_desc (arenas s a) = d"
    "descs s d = \<lparr>block_size = of_nat (bsz i), blocks_per_arena = of_nat (bcnt i)\<rparr>"
    and i: "i < 7" and a: "page_frame a = a" and j: "j \<le> bcnt i" "set (drop j (blks i a)) \<inter> fam_nodes F = {}"
  shows "carve_loop a d (of_nat j) s = Inr (fold (\<lambda>e s. list_append s (free_list d) e) (drop j (blks i a)) s)"
  using fam d j
proof (induction "bcnt i - j" arbitrary: j s F xs)
  case 0
  then have "j = bcnt i" by simp
  moreover have "drop (bcnt i) (blks i a) = []" by (simp add: blks_def)
  ultimately show ?case by (subst carve_loop.simps) (simp add: 0(5))
next
  case (Suc k)
  let ?b = "blk i a j" and ?fl = "free_list d"
  have jl: "j < bcnt i" using Suc(2) by simp
  have dr: "drop j (blks i a) = ?b # drop (Suc j) (blks i a)" using jl by (simp add: blks_def Cons_nth_drop_Suc [symmetric])
  have dist: "distinct (?b # drop (Suc j) (blks i a))" using blks_distinct [OF a i] distinct_drop unfolding dr [symmetric] by blast
  have lt: "(of_nat j :: u32) < of_nat (bcnt i)" "(of_nat j :: u32) + 1 = of_nat (Suc j)"
    using jl unat_bsz(2) [OF i] block_bounds(2) [OF i] by (simp_all add: word_less_nat_alt unat_of_nat)
  have b: "arena2block s a (of_nat j) = ?b" using Suc(5,6) by (simp add: arena2block_def blk_def SIZEOF_ARENA_def)
  have new: "?b \<notin> fam_nodes F" using Suc(8) dr by auto
  have notin: "?b \<notin> set xs" using new Suc(4) by (auto simp: fam_nodes_def dl_nodes_def)
  have ef: "elem_find s ?fl ?b = Inr False" using elem_find_family [OF Suc(3,4), of ?b] notin by simp
  have "carve_loop a d (of_nat j + 1) (list_append s ?fl ?b) =
      Inr (fold (\<lambda>e s. list_append s ?fl e) (drop (Suc j) (blks i a)) (list_append s ?fl ?b))"
    unfolding lt(2)
  proof (rule Suc(1))
    show "k = bcnt i - Suc j" using Suc(2) by simp
    show "k_family (list_append s ?fl ?b) (F(?fl \<mapsto> xs @ [?b]))" by (rule kl.append_law [OF Suc(3,4) new])
    show "(F(?fl \<mapsto> xs @ [?b])) ?fl = Some (xs @ [?b])" by simp
    show "set (drop (Suc j) (blks i a)) \<inter> fam_nodes (F(?fl \<mapsto> xs @ [?b])) = {}"
      using kl.fam_nodes_append [of F ?fl xs "[?b]"] Suc(4,8) dr dist by auto
  qed (use Suc(5,6) jl in simp_all)
  then show ?case using lt(1) Suc(5,6) by (subst carve_loop.simps) (simp add: b ef dr Let_def)
qed

text \<open>Work between a lock_acquire and its lock_release, seen as work on the state without the lock.\<close>

lemma locked_unlocked:
  assumes "lock_kept (locked l s) s'"
  shows "locked l (unlocked l s') = s'"
  using assms
  by (simp add: lock_kept_def unlocked_def locked_def set_sema_value_def set_repeat_def set_holder_def fun_upd_idem)

lemma locked_upd: "(locked l s)\<lparr>lheap := h\<rparr> = locked l (s\<lparr>lheap := h\<rparr>)" "set_arena a v (locked l s) = locked l (set_arena a v s)"
  by (simp_all add: locked_def set_sema_value_def set_repeat_def set_holder_def set_arena_def)

lemma got_above:
  assumes g: "got_pages s s' v fs" and inv: "vpool_inv s PF_KERNEL"
  shows "unat (Kernel_State.vaddr_start (kernel_vaddr s)) \<le> unat v"
proof -
  let ?b = "vaddr_bitmap (kernel_vaddr s)" and ?start = "Kernel_State.vaddr_start (kernel_vaddr s)"
  have "window_taken s s' PF_KERNEL v (length fs)" using g by (simp add: got_pages_def)
  then obtain i :: u32 where i: "v = run_page ?start (unat i)" "unat i + length fs < unat (btmp_bytes_len ?b)"
    unfolding window_taken_def vaddr_pool_def Let_def if_P [OF refl] by blast
  have "run_ok ?start (unat (btmp_bytes_len ?b))" using inv by (simp add: vpool_inv_def Let_def run_ok_def vaddr_pool_def)
  then show ?thesis using run_page_unat [of ?start _ "unat i"] i by simp
qed

lemma heap_ok_new:
  assumes h: "heap_ok s F A" and i: "i < 7" and fl: "F (k_free i) = Some []" and v: "page_frame v = v"
    and hp: "\<And>a j. heap_page s a j \<Longrightarrow> heap_page s' a j" and mo: "mem_only s s'" and j: "\<exists>j. heap_page s' v j"
    and ar: "arenas s' v = \<lparr>arena_desc = k_desc i, arena_cnt = of_nat (bcnt i), arena_large = False\<rparr>"
    and keep: "\<And>x. own_pde x \<Longrightarrow> vmap s x \<noteq> None \<Longrightarrow> page_frame x = x \<Longrightarrow> x \<noteq> v \<and> arenas s' x = arenas s x"
    and off: "\<And>x. x \<in> fam_nodes F \<union> pool_bytes s \<Longrightarrow> page_frame x \<noteq> v"
  shows "v \<notin> A" "heap_ok s' (F(k_free i \<mapsto> blks i v)) (insert v A)"
proof -
  let ?F = "F(k_free i \<mapsto> blks i v)"
  have pb: "pool_bytes s' = pool_bytes s" by (simp add: pool_bytes_def mem_only_sel [OF mo])
  have nodes': "fam_nodes ?F = fam_nodes F \<union> set (blks i v)"
    using kl.fam_nodes_append [of F "k_free i" "[]" "blks i v"] fl by simp
  have old: "c \<noteq> v" "arenas s' c = arenas s c" "\<exists>k. heap_arena s' ?F k c" if cA: "c \<in> A" for c
  proof -
    obtain k where k: "heap_arena s F k c" using heap_ok_arena [OF h cA] by blast
    note c = heap_arenaD(1,3,4) [OF k]
    show ne: "c \<noteq> v" and same: "arenas s' c = arenas s c" using keep [OF c(2,3,1)] by blast+
    have "heap_arena s' ?F k c"
    proof (rule heap_arena_step [OF k])
      show "x \<in> set (blks k c)" if "x \<in> fam_nodes ?F" "page_frame x = c" for x
      proof -
        have "x \<in> fam_nodes F" using that ne blks_page [OF v(1) i, of x] unfolding nodes' by auto
        then show ?thesis using k that(2) unfolding heap_arena_def by blast
      qed
      have "filter (\<lambda>e. page_frame e = c) (blks i v) = []" using blks_page [OF v(1) i] ne by (auto simp: filter_empty_conv)
      moreover have "arena_cnt (arenas s c) = of_nat (length (filter (\<lambda>e. page_frame e = c) (the (F (k_free k)))))"
        using k unfolding heap_arena_def by blast
      ultimately show "arena_cnt (arenas s' c) = of_nat (length (filter (\<lambda>e. page_frame e = c) (the (?F (k_free k)))))"
        using fl by (cases "k_free k = k_free i") (simp_all add: same)
    qed (use hp pb same in simp_all)
    then show "\<exists>k. heap_arena s' ?F k c" by blast
  qed
  show "v \<notin> A" using old(1) by blast
  have new: "heap_arena s' ?F i v"
    unfolding heap_arena_def pb
  proof (intro conjI j i v)
    have "filter (\<lambda>e. page_frame e = v) (blks i v) = blks i v" using blks_page [OF v(1) i] by (simp add: filter_id_conv)
    then show "arena_cnt (arenas s' v) = of_nat (length (filter (\<lambda>e. page_frame e = v) (the (?F (k_free i)))))"
      by (simp add: ar) (simp add: blks_def)
    show "\<forall>x \<in> fam_nodes ?F. page_frame x = v \<longrightarrow> x \<in> set (blks i v)" unfolding nodes' using off by blast
  qed (use ar off in auto)
  show "heap_ok s' ?F (insert v A)"
    unfolding heap_ok_def
  proof (intro conjI ballI allI impI)
    fix c assume "c \<in> insert v A"
    then show "\<exists>k. heap_arena s' ?F k c" using new old(3) by blast
  next
    fix k :: nat assume k: "k < 7"
    obtain xs where xs: "F (k_free k) = Some xs" "\<And>e. e \<in> set xs \<Longrightarrow> page_frame e \<in> A \<and> arena_desc (arenas s (page_frame e)) = k_desc k"
      using heap_ok_free [OF h k] by blast
    show "\<exists>xs. ?F (k_free k) = Some xs \<and> (\<forall>e \<in> set xs. page_frame e \<in> insert v A \<and> arena_desc (arenas s' (page_frame e)) = k_desc k)"
    proof (cases "k = i")
      case True
      then show ?thesis using blks_page [OF v(1) i] ar by auto
    next
      case False
      then have "k_free k \<noteq> k_free i" using k_free_inject [OF k i] by blast
      then show ?thesis using xs old(2) by auto
    qed
  qed (use h in \<open>simp_all add: heap_ok_def desc_table_def mem_only_sel [OF mo]\<close>)
qed

lemma new_arena_heap:
  assumes inv: "kernel_inv s F" and h: "heap_ok s F A" and i: "i < 7" and fl: "F (k_free i) = Some []"
    and room: "roomy s (Suc m)"
  obtains v s' where "new_arena (locked KERNEL_POOL_LOCK s) PF_KERNEL (k_desc i) = Inr (True, locked KERNEL_POOL_LOCK s')"
    "kernel_inv s' (F(k_free i \<mapsto> blks i v))" "heap_ok s' (F(k_free i \<mapsto> blks i v)) (insert v A)" "roomy s' m" "v \<notin> A"
    "page_frame v = v" "mem_only s s'" "arena_desc (arenas s' v) = k_desc i" "\<And>x. x \<in> fam_nodes F \<Longrightarrow> page_frame x \<noteq> v"
    "\<And>x. own_pde x \<Longrightarrow> vmap s x \<noteq> None \<Longrightarrow> (page_frame x = x \<longrightarrow> arenas s' x = arenas s x) \<and>
      vmap s' x = vmap s x \<and> (x \<notin> pool_bytes s \<longrightarrow> mem s' x = mem s x)"
proof -
  let ?l = KERNEL_POOL_LOCK and ?F = "\<lambda>v. F(k_free i \<mapsto> blks i v)"
  have lock: "lock_ready s ?l F" and held: "held s (pool_bytes s)" "held s (fam_nodes F)" and vinv: "vpool_inv s PF_KERNEL"
    and pinv: "phys_inv s" using inv by (simp_all add: kernel_inv_def)
  have r1: "room_for s 1" by (rule roomy_room) (use roomy_mono [OF room, of 1] in simp_all)
  obtain v s2 s3 fs where g: "malloc_page (locked ?l s) PF_KERNEL 1 = Inr (v, s2)" "v \<noteq> NULL"
    "kmemset0 s2 v (1 * PG_SIZE) = Inr s3" "lock_kept (locked ?l s) s3" "k_family s3 F"
    "got_pages s (unlocked ?l s3) v fs" "length fs = unat (1 :: u32)"
    by (rule locked_pages [OF pinv vinv lock _ _ _ _ held, of 1]) (use r1 in \<open>simp_all add: room_for_def\<close>)
  define u where "u = unlocked ?l s3"
  have s3: "s3 = locked ?l u" using locked_unlocked [OF g(4)] by (simp add: u_def)
  have gu: "got_pages s u v fs" and len: "length fs = 1" using g(6,7) by (simp_all add: u_def)
  have ku: "kernel_inv u F" by (rule got_kernel_inv [OF inv gu])
  have mo: "mem_only s u" using gu by (simp add: got_pages_def)
  note sel = mem_only_sel [OF mo]
  define t where "t = set_arena v \<lparr>arena_desc = k_desc i, arena_cnt = of_nat (bcnt i), arena_large = False\<rparr> u"
  have dsc: "descs s (k_desc i) = \<lparr>block_size = of_nat (bsz i), blocks_per_arena = of_nat (bcnt i)\<rparr>"
    using h by (simp add: heap_ok_def heap_desc_at [OF _ i])
  have rv: "run_page v 0 = v" by (simp add: run_page_def)
  have "run_ok v 1" "vmap s v = None" using gu len rv by (auto simp: got_pages_def run_frames_def)
  then have v: "page_frame v = v" "vmap s v = None" by (simp_all add: run_ok_def)
  have off: "page_frame x \<noteq> v" if "own_pde x" "vmap s x \<noteq> None" for x
    using held_not_in_page [of s "{x}" v x] v that by (auto simp: held_def)
  have offF: "page_frame x \<noteq> v" if "x \<in> fam_nodes F" for x using off [of x] held(2) that by (simp add: held_def)
  have fresh: "set (drop 0 (blks i v)) \<inter> fam_nodes F = {}" using blks_page [OF v(1) i] offF by auto
  have famc: "k_family (cli (locked ?l t)) F" using g(5) by (simp add: k_family_def t_def u_def set_arena_def)
  obtain hp where hp: "fold (\<lambda>e s. list_append s (k_free i) e) (blks i v) (cli (locked ?l t)) = (cli (locked ?l t))\<lparr>lheap := hp\<rparr>"
    using fold_append_lheap by blast
  have carve: "carve_loop v (k_desc i) 0 (cli (locked ?l t)) = Inr ((cli (locked ?l t))\<lparr>lheap := hp\<rparr>)"
    using carve_run [OF famc fl _ _ i v(1) _ fresh] dsc hp by (simp add: t_def set_arena_def sel cli_def)
  define s' where "s' = t\<lparr>lheap := hp\<rparr>"
  have "fst (intr_set_status ((cli (locked ?l t))\<lparr>lheap := hp\<rparr>) (intr_get_status (locked ?l t))) = locked ?l s'"
    by (simp add: intr_restore s'_def locked_upd [symmetric]) (simp add: cli_def)
  then have na: "new_arena (locked ?l s) PF_KERNEL (k_desc i) = Inr (True, locked ?l s')"
    using g(1-3) carve dsc by (simp add: new_arena_def s3 intr_disable_eq locked_upd sel t_def)
  have nodes': "fam_nodes (?F v) = fam_nodes F \<union> set (blks i v)"
    using kl.fam_nodes_append [of F "k_free i" "[]" "blks i v"] fl by simp
  have fam': "k_family s' (?F v)"
    using kl.append_all [OF famc fl blks_distinct [OF v(1) i], of] fresh hp by (simp add: k_family_def s'_def)
  have qu: "quiet u s'" by (rule quiet_same) (simp_all add: s'_def t_def set_arena_def)
  have g0: "own_pde x" "vmap u x = Some (fs ! 0 + page_offset x)" if "page_frame x = v" for x
    using got_run_held [OF gu, of 0 x] len rv that by simp_all
  have inv': "kernel_inv s' (?F v)"
  proof (rule kernel_inv_lists [OF ku qu _ fam'])
    show "same_locks u s'" by (simp add: same_locks_def s'_def t_def set_arena_def)
    show "held u (fam_nodes (?F v))" unfolding nodes' held_Un
      using got_held [OF gu held(2)] g0 blks_page [OF v(1) i] by (simp add: held_def)
    fix l assume l: "l \<in> {?l, USER_POOL_LOCK, PID_LOCK}" "F (sema_waiters (lock_semaphore l)) = Some []"
    show "?F v (sema_waiters (lock_semaphore l)) = Some []" using l(2) k_free_waiters [OF i l(1)] by auto
  qed
  have mo': "mem_only s s'"
    by (rule mem_only_trans [OF mo], rule mem_onlyI [where m = "mem u" and p = "phys u" and l = hp and a = "arenas s'"])
      (simp add: s'_def t_def set_arena_def)
  have sf: "space_frame s s'"
    by (rule space_frame_trans [OF _ space_frame_same [OF qu]]) (use gu in \<open>simp_all add: got_pages_def s'_def t_def set_arena_def\<close>)
  have pb: "pool_bytes s' = pool_bytes s" by (simp add: pool_bytes_def mem_only_sel [OF mo'])
  have ar: "arenas s' x = (if x = v then \<lparr>arena_desc = k_desc i, arena_cnt = of_nat (bcnt i), arena_large = False\<rparr> else arenas u x)" for x
    by (simp add: s'_def t_def set_arena_def)
  have keep: "(page_frame x = x \<longrightarrow> arenas s' x = arenas s x) \<and> vmap s' x = vmap s x \<and> (x \<notin> pool_bytes s \<longrightarrow> mem s' x = mem s x)"
    if x: "own_pde x" "vmap s x \<noteq> None" for x
  proof -
    have "held s {x}" using x by (simp add: held_def)
    then have "arenas u x = arenas s x \<and> (x \<notin> pool_bytes s \<longrightarrow> mem u x = mem s x)" using gu unfolding got_pages_def by blast
    moreover have "vmap s' x = vmap s x" using sf x unfolding space_frame_def by blast
    moreover have "page_frame x = x \<longrightarrow> x \<noteq> v" using off [OF x] by auto
    moreover have "mem s' = mem u" by (simp add: s'_def t_def set_arena_def)
    ultimately show ?thesis using ar by simp
  qed
  have hp1: "heap_page s' a j" if "heap_page s a j" for a j by (rule heap_page_quiet [OF qu got_heap_page [OF pinv gu that]])
  obtain f where "fs = [f]" using len by (auto simp: length_Suc_conv)
  then obtain j where "heap_page u v j" using got_new_page [OF pinv vinv, of u v f] gu h unfolding heap_ok_def by blast
  then have pj: "\<exists>j. heap_page s' v j" using heap_page_quiet [OF qu] by blast
  have pool: "x \<in> fam_nodes F \<union> pool_bytes s \<Longrightarrow> page_frame x \<noteq> v" for x using held off [of x] by (auto simp: held_def)
  have kp: "x \<noteq> v \<and> arenas s' x = arenas s x" if "own_pde x" "vmap s x \<noteq> None" "page_frame x = x" for x
    using keep [OF that(1,2)] off [OF that(1,2)] that(3) by auto
  have av: "arenas s' v = \<lparr>arena_desc = k_desc i, arena_cnt = of_nat (bcnt i), arena_large = False\<rparr>" by (simp add: ar)
  have "v \<notin> A" "heap_ok s' (?F v) (insert v A)" by (rule heap_ok_new [OF h i fl v(1) _ mo' pj av], erule hp1, erule (2) kp, erule pool)+
  moreover have "roomy s' m" using roomy_got [of s fs m u v] room len gu vinv roomy_quiet [OF qu] by simp
  ultimately show thesis using that [OF na inv'] v(1) mo' ar offF keep by simp
qed

section \<open>sys_malloc\<close>

text \<open>The blocks in use: those of the arenas that are in no free list.\<close>

definition in_use :: "kstate \<Rightarrow> (u32 \<Rightarrow> u32 list option) \<Rightarrow> u32 set \<Rightarrow> u32 set" where
  "in_use s F A = {u. page_frame u \<in> A \<and> (\<exists>i < 7. arena_desc (arenas s (page_frame u)) = k_desc i \<and>
     u \<in> set (blks i (page_frame u))) \<and> u \<notin> fam_nodes F}"

text \<open>Mapped bytes outside the range, and translations, which an operation leaves alone.\<close>

definition left_alone :: "kstate \<Rightarrow> kstate \<Rightarrow> (u32 \<Rightarrow> bool) \<Rightarrow> bool" where
  "left_alone s s' R \<longleftrightarrow> (\<forall>x. own_pde x \<longrightarrow> vmap s x \<noteq> None \<longrightarrow> vmap s' x = vmap s x \<and>
     (x \<notin> pool_bytes s \<longrightarrow> \<not> R x \<longrightarrow> mem s' x = mem s x))"

lemma fam_nodes_Cons:
  assumes "F l = Some (b # bs)"
  shows "fam_nodes F = insert b (fam_nodes (F(l \<mapsto> bs)))"
proof (rule set_eqI)
  fix a
  have other: "(\<exists>l'. P l') \<longleftrightarrow> P l \<or> (\<exists>l'. l' \<noteq> l \<and> P l')" for P :: "u32 \<Rightarrow> bool"
    by metis
  show "a \<in> fam_nodes F \<longleftrightarrow> a \<in> insert b (fam_nodes (F(l \<mapsto> bs)))"
    unfolding fam_nodes_def mem_Collect_eq insert_iff
    by (subst (1 2) other) (use assms in \<open>auto simp: dl_nodes_def\<close>)
qed

lemma page_frame_twice: "page_frame (page_frame e) = page_frame e"
  by (rule u32_eqI) (simp add: unat_page_frame)

text \<open>The list of descriptor \<open>i\<close> has a block when sys_malloc comes to take one.\<close>

lemma refill:
  assumes inv: "kernel_inv s F" and h: "heap_ok s F A" and i: "i < 7" and room: "roomy s (Suc m)"
  obtains s1 F1 A1 b bs where "(if list_empty (locked KERNEL_POOL_LOCK s) (k_free i) then new_arena (locked KERNEL_POOL_LOCK s) PF_KERNEL (k_desc i)
      else Inr (True, locked KERNEL_POOL_LOCK s)) = Inr (True, locked KERNEL_POOL_LOCK s1)"
    "kernel_inv s1 F1" "heap_ok s1 F1 A1" "roomy s1 m" "F1 (k_free i) = Some (b # bs)" "mem_only s s1"
    "in_use s1 F1 A1 = in_use s F A" "left_alone s s1 (\<lambda>_. False)" "\<And>l. l \<noteq> k_free i \<Longrightarrow> F1 l = F l"
proof -
  obtain xs where xs: "F (k_free i) = Some xs" using heap_ok_free [OF h i] by blast
  have "k_family (locked KERNEL_POOL_LOCK s) F" using inv by (simp add: kernel_inv_def lock_ready_def)
  then have empty: "list_empty (locked KERNEL_POOL_LOCK s) (k_free i) \<longleftrightarrow> xs = []" using kl.empty_law [of _ F] xs by simp
  show thesis
  proof (cases xs)
    case (Cons b bs)
    then show thesis
      using that [OF _ inv h roomy_mono [OF room] _ mem_only_refl refl] xs empty by (simp add: left_alone_def)
  next
    case Nil
    then have fl: "F (k_free i) = Some []" using xs by simp
    obtain v s1 where n: "new_arena (locked KERNEL_POOL_LOCK s) PF_KERNEL (k_desc i) = Inr (True, locked KERNEL_POOL_LOCK s1)"
      "kernel_inv s1 (F(k_free i \<mapsto> blks i v))" "heap_ok s1 (F(k_free i \<mapsto> blks i v)) (insert v A)" "roomy s1 m" "v \<notin> A"
      "page_frame v = v" "mem_only s s1" "arena_desc (arenas s1 v) = k_desc i" "\<And>x. x \<in> fam_nodes F \<Longrightarrow> page_frame x \<noteq> v"
      "\<And>x. own_pde x \<Longrightarrow> vmap s x \<noteq> None \<Longrightarrow> (page_frame x = x \<longrightarrow> arenas s1 x = arenas s x) \<and>
        vmap s1 x = vmap s x \<and> (x \<notin> pool_bytes s \<longrightarrow> mem s1 x = mem s x)"
      by (rule new_arena_heap [OF inv h i fl room]) (rule that)
    have nodes: "fam_nodes (F(k_free i \<mapsto> blks i v)) = fam_nodes F \<union> set (blks i v)"
      using kl.fam_nodes_append [of F "k_free i" "[]" "blks i v"] fl by simp
    have "in_use s1 (F(k_free i \<mapsto> blks i v)) (insert v A) = in_use s F A"
    proof (intro set_eqI)
      fix u
      show "u \<in> in_use s1 (F(k_free i \<mapsto> blks i v)) (insert v A) \<longleftrightarrow> u \<in> in_use s F A"
      proof (cases "page_frame u = v")
        case True
        have "u \<in> set (blks i v)" if "k < 7" "arena_desc (arenas s1 v) = k_desc k" "u \<in> set (blks k v)" for k
          using that k_desc_inject [OF i that(1)] n(8) by simp
        then show ?thesis using True n(5) by (auto simp: in_use_def nodes)
      next
        case False
        then have u: "u \<notin> set (blks i v)" using blks_page [OF n(6) i] by blast
        have "arenas s1 (page_frame u) = arenas s (page_frame u)" if uA: "page_frame u \<in> A"
        proof -
          obtain k where "heap_arena s F k (page_frame u)" using heap_ok_arena [OF h uA] by blast
          note k = heap_arenaD [OF this]
          show ?thesis using n(10) [OF k(3,4)] k(1) by blast
        qed
        then show ?thesis using False u by (auto simp: in_use_def nodes)
      qed
    qed
    moreover have "blks i v \<noteq> []" using block_bounds(2) [OF i] by (simp add: blks_def)
    then obtain b bs where "blks i v = b # bs" by (cases "blks i v") blast+
    moreover have "left_alone s s1 (\<lambda>_. False)" using n(10) by (simp add: left_alone_def)
    ultimately show thesis using that [OF _ n(2-4) _ n(7), of b bs] n(1) empty Nil by simp
  qed
qed

lemma in_use_taken:
  assumes fam: "k_family s F" and h: "heap_ok s F A" and i: "i < 7" and fl: "F (k_free i) = Some (b # bs)"
    and d: "\<And>x. page_frame x = x \<Longrightarrow> arena_desc (arenas s' x) = arena_desc (arenas s x)"
  shows "in_use s' (F(k_free i \<mapsto> bs)) A = insert b (in_use s F A)" "b \<notin> in_use s F A"
proof -
  note nodes = fam_nodes_Cons [of F "k_free i" b bs, OF fl]
  have new: "b \<notin> fam_nodes (F(k_free i \<mapsto> bs))" using kl.removed_fresh [of s F "k_free i" "[]" b bs] fam fl by simp
  have "b \<in> set (b # bs)" by simp
  note at = free_block_at [OF h i fl this]
  have dsc: "arena_desc (arenas s (page_frame b)) = k_desc i" by (rule heap_arenaD(5) [OF at(1)])
  show "b \<notin> in_use s F A" by (simp add: in_use_def nodes)
  show "in_use s' (F(k_free i \<mapsto> bs)) A = insert b (in_use s F A)"
    using new at(2,3) i dsc by (auto simp: in_use_def d [OF page_frame_twice] nodes)
qed

lemma find_desc_heap:
  assumes d: "desc_table s K_BLOCK_DESC = desc_sizes" and sz: "sz \<le> 1024"
  obtains i where "find_desc s K_BLOCK_DESC sz 0 = i" "i < 7" "unat sz \<le> bsz i" "\<And>k. k < i \<Longrightarrow> bsz k < unat sz"
proof -
  let ?i = "find_desc s K_BLOCK_DESC sz 0"
  have bs: "block_size (descs s (k_desc k)) = of_nat (bsz k)" if "k < 7" for k using heap_desc_at [OF d that] by simp
  note least = find_desc_least [of 0 s K_BLOCK_DESC sz]
  have small: "bsz k < unat sz" if "k < ?i" "k < 7" for k
  proof -
    have "block_size (descs s (k_desc k)) < sz" using least(2) that(1) by simp
    then show ?thesis using bs [OF that(2)] unat_bsz(1) [OF that(2)] by (simp add: word_less_nat_alt)
  qed
  have i: "?i < 7"
  proof (rule ccontr)
    assume "\<not> ?i < 7"
    then have "bsz 6 < unat sz" using small [of 6] by simp
    then show False using sz by (simp add: bsz_def word_le_nat_alt)
  qed
  moreover have "unat sz \<le> bsz ?i"
    using least(3) i bs [OF i] unat_bsz(1) [OF i] by (simp add: DESC_CNT_def word_le_nat_alt)
  ultimately show thesis using that small by simp
qed

lemma sys_malloc_kernel:
  assumes inv: "kernel_inv s F" and h: "heap_ok s F A" and kt: "pgdir (tasks s (cur s)) = NULL" and room: "roomy s (Suc m)"
    and sz: "sz \<le> 1024" "sz \<le> pool_size (kernel_pool s)"
  shows "\<exists>b s' F' A' i. sys_malloc s sz = Inr (b, s') \<and> kernel_inv s' F' \<and> heap_ok s' F' A' \<and> roomy s' m \<and>
    i < 7 \<and> unat sz \<le> bsz i \<and> (\<forall>k < i. bsz k < unat sz) \<and> b \<in> set (blks i (page_frame b)) \<and>
    b \<notin> in_use s F A \<and> in_use s' F' A' = insert b (in_use s F A) \<and> (\<forall>x. in_range x b (bsz i) \<longrightarrow> mem s' x = 0) \<and>
    left_alone s s' (\<lambda>x. in_range x b (bsz i)) \<and> mem_only s s' \<and> (\<forall>l. (\<forall>k < 7. l \<noteq> k_free k) \<longrightarrow> F' l = F l)"
proof -
  have d: "desc_table s K_BLOCK_DESC = desc_sizes" using h by (simp add: heap_ok_def)
  obtain i where i: "find_desc s K_BLOCK_DESC sz 0 = i" "i < 7" "unat sz \<le> bsz i" "\<And>k. k < i \<Longrightarrow> bsz k < unat sz"
    by (rule find_desc_heap [OF d sz(1)]) (rule that)
  obtain s1 F1 A1 b bs where r: "(if list_empty (locked KERNEL_POOL_LOCK s) (k_free i) then new_arena (locked KERNEL_POOL_LOCK s) PF_KERNEL (k_desc i)
      else Inr (True, locked KERNEL_POOL_LOCK s)) = Inr (True, locked KERNEL_POOL_LOCK s1)"
    "kernel_inv s1 F1" "heap_ok s1 F1 A1" "roomy s1 m" "F1 (k_free i) = Some (b # bs)" "mem_only s s1"
    "in_use s1 F1 A1 = in_use s F A" "left_alone s s1 (\<lambda>_. False)" "\<And>l. l \<noteq> k_free i \<Longrightarrow> F1 l = F l"
    by (rule refill [OF inv h i(2) room]) (rule that)
  obtain s' where t: "take_block (locked KERNEL_POOL_LOCK s1) PF_KERNEL (k_desc i) = Inr (b, s')"
    "kernel_inv s' (F1(k_free i \<mapsto> bs))" "heap_ok s' (F1(k_free i \<mapsto> bs)) A1" "quiet s1 s'" "mem_only s1 s'"
    "mem s' = wipe b (bsz i) 0 (mem s1)"
    "arenas s' (page_frame b) = (arenas s1 (page_frame b))\<lparr>arena_cnt := arena_cnt (arenas s1 (page_frame b)) - 1\<rparr>"
    "\<And>x. page_frame x \<noteq> page_frame b \<Longrightarrow> arenas s' x = arenas s1 x"
    by (rule take_block_heap [OF r(2,3) i(2) r(5)]) (rule that)
  have lock: "lock_ready s KERNEL_POOL_LOCK F" using inv by (simp add: kernel_inv_def)
  have "k_family s1 F1" using r(2) by (simp add: kernel_inv_def lock_ready_def)
  moreover have "arena_desc (arenas s' x) = arena_desc (arenas s1 x)" if "page_frame x = x" for x
    using t(7) t(8) [of x] that by (cases "x = page_frame b") simp_all
  ultimately have use: "in_use s' (F1(k_free i \<mapsto> bs)) A1 = insert b (in_use s F A)" "b \<notin> in_use s F A"
    using in_use_taken [OF _ r(3) i(2) r(5)] r(7) by simp_all
  have "malloc_small (locked KERNEL_POOL_LOCK s) PF_KERNEL K_BLOCK_DESC sz = Inr (b, s')"
    using i(1) r(1) t(1) find_desc_cong [of "locked KERNEL_POOL_LOCK s" s] by (simp add: malloc_small_def)
  then have m: "sys_malloc s sz = Inr (b, s')"
    using sz kt lock_ready_acquire [OF lock]
    by (simp add: sys_malloc_def running_thread_def Let_def pool_of_def pool_lock_def not_less [symmetric])
  have "left_alone s s' (\<lambda>x. in_range x b (bsz i))"
    unfolding left_alone_def
  proof (intro allI impI)
    fix x assume x: "own_pde x" "vmap s x \<noteq> None"
    then have "vmap s1 x = vmap s x \<and> (x \<notin> pool_bytes s \<longrightarrow> mem s1 x = mem s x)" using r(8) by (simp add: left_alone_def)
    then show "vmap s' x = vmap s x \<and> (x \<notin> pool_bytes s \<longrightarrow> \<not> in_range x b (bsz i) \<longrightarrow> mem s' x = mem s x)"
      using quiet_vmap [OF t(4)] t(6) by (simp add: wipe_def)
  qed
  moreover have "b \<in> set (blks i (page_frame b))" using free_block_at(2) [OF r(3) i(2) r(5)] by simp
  moreover have "\<forall>x. in_range x b (bsz i) \<longrightarrow> mem s' x = 0" by (simp add: t(6) wipe_def)
  moreover have "roomy s' m" using r(4) roomy_quiet [OF t(4)] by simp
  moreover have "\<forall>l. (\<forall>k < 7. l \<noteq> k_free k) \<longrightarrow> (F1(k_free i \<mapsto> bs)) l = F l" using r(9) i(2) by auto
  ultimately show ?thesis
    using m t(2,3) i(2-4) use mem_only_trans [OF r(6) t(5)]
    by (intro exI [of _ b] exI [of _ s'] exI [of _ "F1(k_free i \<mapsto> bs)"] exI [of _ A1] exI [of _ i]) simp
qed

section \<open>Giving a page back\<close>

text \<open>
  Unmapping a page of the heap which holds no list node any more: its frame and its address are free
  again, everything else stays.
\<close>

definition page_gone :: "kstate \<Rightarrow> kstate \<Rightarrow> u32 \<Rightarrow> bool" where
  "page_gone s s' a \<longleftrightarrow> (\<forall>w. own_pde w \<longrightarrow> vmap s' w = (if page_frame w = a then None else vmap s w)) \<and>
     (\<forall>x. x \<notin> pool_bytes s \<longrightarrow> mem s' x = mem s x) \<and> (\<forall>c k. heap_page s c k \<longrightarrow> c \<noteq> a \<longrightarrow> heap_page s' c k) \<and>
     (\<forall>q i. pool_idx s q i \<longrightarrow> pool_bit s' q i = (vmap s a \<noteq> Some (pool_page (pool_of q s) i) \<and> pool_bit s q i)) \<and>
     (let v = vaddr_bitmap (kernel_vaddr s) in \<forall>i. unat i < unat (btmp_bytes_len v) \<longrightarrow>
       bitmap_scan_test (mem s') v i = (run_page K_HEAP_START (unat i) \<noteq> a \<and> bitmap_scan_test (mem s) v i))"

lemma page_gone_quiet:
  assumes q: "quiet s t" and m: "mem t = mem s" and g: "page_gone t s' a"
  shows "page_gone s s' a"
  using g heap_page_quiet [OF q] quiet_vmap [OF q] quiet_bytes [OF q] quiet_pool [OF q] q
  unfolding page_gone_def by (simp add: m quiet_def)

lemma unmapped_heap:
  fixes s m ph
  defines "s' \<equiv> s\<lparr>mem := m, phys := ph\<rparr>" and "b \<equiv> vaddr_bitmap (kernel_vaddr s)"
  assumes inv: "kernel_inv s F" and a: "heap_page s a j" "page_frame a = a"
    and start: "Kernel_State.vaddr_start (kernel_vaddr s) = K_HEAP_START"
    and off: "\<And>x. x \<in> fam_nodes F \<union> pool_bytes s \<Longrightarrow> page_frame x \<noteq> a"
    and wf: "pt_wf ph (cr3 s)" and dirs: "\<And>w. ph (pde_addr (cr3 s) w) = phys s (pde_addr (cr3 s) w)"
    and un: "\<And>w. own_pde w \<Longrightarrow> mmu_walk ph (cr3 s) w = (if page_frame w = a then None else vmap s w)"
    and freed: "\<And>q i. pool_idx s q i \<Longrightarrow> pool_bit s' q i = (\<not> (q = PF_KERNEL \<and> i = j) \<and> pool_bit s q i)"
    and bits: "\<And>i. unat i < unat (btmp_bytes_len b) \<Longrightarrow>
      bitmap_scan_test m b i = (run_page K_HEAP_START (unat i) \<noteq> a \<and> bitmap_scan_test (mem s) b i)"
    and frame: "\<And>x. x \<notin> pool_bytes s \<Longrightarrow> m x = mem s x"
  shows "kernel_inv s' F" "page_gone s s' a"
proof -
  define p where "p = pool_page (pool_of PF_KERNEL s) j"
  have sel: "pool_of q s' = pool_of q s" "cr3 s' = cr3 s" "phys s' = ph" "mem s' = m" "kernel_vaddr s' = kernel_vaddr s"
    "pool_bytes s' = pool_bytes s" "pool_idx s' q i = pool_idx s q i" for q i
    by (simp_all add: s'_def pool_of_def pool_bytes_def pool_idx_def)
  have hp: "pool_idx s PF_KERNEL j" "not_table s p" and alone: "\<And>w. own_pde w \<Longrightarrow> vmap s w = Some (p + page_offset w) \<Longrightarrow> page_frame w = a"
    using a(1) by (simp_all add: heap_page_def p_def)
  have pinv: "phys_inv s" and vinv: "vpool_inv s PF_KERNEL" and held: "held s (pool_bytes s)" "held s (fam_nodes F)"
    using inv by (simp_all add: kernel_inv_def)
  have nt: "fresh_table ph (cr3 s) f = fresh_table (phys s) (cr3 s) f" for f by (simp add: fresh_table_def dirs)
  have new: "unused_page s' f" if "unused_page s f \<or> f = p" for f
  proof -
    have "vmap s' w \<noteq> Some (f + page_offset w)" if "own_pde w" for w
      using un [OF that] that \<open>unused_page s f \<or> f = p\<close> alone [OF that] unfolding unused_page_def sel by (metis option.distinct(1))
    moreover have "fresh_table ph (cr3 s) f" using that hp(2) by (auto simp: nt unused_page_def not_table_def)
    ultimately show ?thesis by (simp add: unused_page_def sel)
  qed
  have okL: "run_ok K_HEAP_START (unat (btmp_bytes_len b))"
    using vinv start by (simp add: vpool_inv_def Let_def run_ok_def vaddr_pool_def b_def)
  have "pools_wf s'" using pinv by (simp add: phys_inv_def s'_def pools_wf_def)
  moreover have "unused_page s' (pool_page (pool_of q s) i)" if "pool_idx s q i" "\<not> pool_bit s' q i" for q i
    using new freed [OF that(1)] that pinv unfolding phys_inv_def p_def by blast
  ultimately have "phys_inv s'" using pinv wf by (simp add: phys_inv_def sel)
  moreover have "vpool_inv s' PF_KERNEL"
  proof -
    have "vmap s' (run_page K_HEAP_START i) = None" if i: "i < unat (btmp_bytes_len b)" "\<not> bitmap_scan_test m b (of_nat i)" for i
    proof -
      have ui: "unat (of_nat i :: u32) = i" using i(1) unat_u32_bound [of "btmp_bytes_len b"] by (simp add: unat_of_nat)
      note f = run_page_frame [OF okL i(1)]
      have "run_page K_HEAP_START i = a \<or> \<not> bitmap_scan_test (mem s) b (of_nat i)" using bits [of "of_nat i"] ui i by auto
      then show ?thesis using un [OF f(2)] f(1) vinv i(1) start by (auto simp: vpool_inv_def Let_def vaddr_pool_def b_def sel)
    qed
    then show ?thesis using vinv start by (simp add: vpool_inv_def Let_def vaddr_pool_def b_def [symmetric] sel) (simp add: s'_def)
  qed
  moreover have h: "held s' A" if "held s A" "\<And>x. x \<in> A \<Longrightarrow> page_frame x \<noteq> a" for A
    using that un by (simp add: held_def sel)
  then have "held s' (pool_bytes s)" "held s' (fam_nodes F)" using held off by simp_all
  moreover have "lock_ready s' l F" if "lock_ready s l F" for l using that by (simp add: lock_ready_def s'_def k_family_def)
  ultimately show "kernel_inv s' F" using inv by (simp add: kernel_inv_def sel)
  have "heap_page s' c k" if c: "heap_page s c k" "c \<noteq> a" for c k
  proof -
    obtain i :: u32 where "c = run_page K_HEAP_START (unat i)" "unat i + 1 < unat (btmp_bytes_len b)"
      using c(1) unfolding heap_page_def b_def by blast
    then have pf: "page_frame c = c" using run_page_frame(1) [OF okL, of "unat i"] by simp
    have hc: "own_pde c" "pool_idx s PF_KERNEL k" "pool_bit s PF_KERNEL k" "vmap s c = Some (pool_page (pool_of PF_KERNEL s) k)"
      using c(1) by (simp_all add: heap_page_def)
    have "k \<noteq> j" using alone [OF hc(1)] hc(4) pf c(2) page_offset_frame [OF pf] by (auto simp: p_def)
    then have "pool_bit s' PF_KERNEL k" using freed [OF hc(2)] hc(3) by simp
    moreover have "vmap s' c = vmap s c" using un [OF hc(1)] pf c(2) by (simp add: sel)
    moreover have "page_frame w = c" if "own_pde w" "vmap s' w = Some (pool_page (pool_of PF_KERNEL s) k + page_offset w)" for w
      using c(1) that un [OF that(1)] unfolding heap_page_def sel by (metis option.distinct(1))
    ultimately show ?thesis using c(1) by (simp add: heap_page_def sel not_table_def nt)
  qed
  moreover have "pool_bit s' q i = (vmap s a \<noteq> Some (pool_page (pool_of q s) i) \<and> pool_bit s q i)" if "pool_idx s q i" for q i
  proof -
    have "pool_page (pool_of q s) i = p \<longleftrightarrow> q = PF_KERNEL \<and> i = j"
      using pool_page_inject [OF _ that hp(1)] pinv by (auto simp: p_def phys_inv_def)
    moreover have "vmap s a = Some p" using a(1) by (simp add: heap_page_def p_def)
    ultimately show ?thesis using freed [OF that] by auto
  qed
  ultimately show "page_gone s s' a" using un frame bits unfolding page_gone_def Let_def b_def by (simp add: sel)
qed

lemma unmap_heap_page:
  assumes inv: "kernel_inv s F" and a: "heap_page s a j" "page_frame a = a"
    and start: "Kernel_State.vaddr_start (kernel_vaddr s) = K_HEAP_START" and low: "0x102000 \<le> unat (phy_addr_start (kernel_pool s))"
    and off: "\<And>x. x \<in> fam_nodes F \<union> pool_bytes s \<Longrightarrow> page_frame x \<noteq> a"
  obtains m ph where "mfree_page (locked KERNEL_POOL_LOCK s) PF_KERNEL a 1 = Inr (locked KERNEL_POOL_LOCK (s\<lparr>mem := m, phys := ph\<rparr>))"
    "kernel_inv (s\<lparr>mem := m, phys := ph\<rparr>) F" "page_gone s (s\<lparr>mem := m, phys := ph\<rparr>) a"
proof -
  let ?l = KERNEL_POOL_LOCK and ?b = "vaddr_bitmap (kernel_vaddr s)"
  define p where "p = pool_page (pool_of PF_KERNEL s) j"
  obtain k :: u32 where k: "a = run_page K_HEAP_START (unat k)" "unat k + 1 < unat (btmp_bytes_len ?b)"
    using a(1) unfolding heap_page_def by blast
  have hp: "own_pde a" "pool_idx s PF_KERNEL j" "not_table s p" "vmap s a = Some p"
    and alone: "\<And>w. own_pde w \<Longrightarrow> vmap s w = Some (p + page_offset w) \<Longrightarrow> page_frame w = a"
    using a(1) by (simp_all add: heap_page_def p_def)
  have pinv: "phys_inv s" and vinv: "vpool_inv s PF_KERNEL" and held: "held s (pool_bytes s)" "held s (fam_nodes F)"
    using inv by (simp_all add: kernel_inv_def)
  have wf: "pt_wf (phys s) (cr3 s)" "pools_wf s" using pinv by (simp_all add: phys_inv_def)
  have okL: "run_ok K_HEAP_START (unat (btmp_bytes_len ?b))"
    using vinv start by (simp add: vpool_inv_def Let_def run_ok_def vaddr_pool_def)
  have "run_ok a 1"
    using okL run_page_unat [OF okL, of "unat k"] k a(2) by (auto simp: run_ok_def)
  then have run: "run_on (locked ?l s) PF_KERNEL a [j]"
    using hp(2,4) by (simp add: run_on_def run_page_def pool_idx_def pool_of_def p_def)
  have vl: "vpool_inv (locked ?l s) PF_KERNEL" by (rule quiet_vpool_inv [OF quiet_locked(1) vinv])
  have "pools_wf (locked ?l s)" using wf(2) by (simp add: pools_wf_def)
  from mfree_page_run [of "locked ?l s" PF_KERNEL a "[j]" 1 k, OF _ this vl run]
  obtain m ph where m: "mfree_page (locked ?l s) PF_KERNEL a 1 = Inr ((locked ?l s)\<lparr>mem := m, phys := ph\<rparr>)" "pt_wf ph (cr3 s)"
    "\<And>w. ph (pde_addr (cr3 s) w) = phys s (pde_addr (cr3 s) w)"
    "unmapped (locked ?l s) ((locked ?l s)\<lparr>mem := m, phys := ph\<rparr>) a 1"
    "pages_freed (locked ?l s) ((locked ?l s)\<lparr>mem := m, phys := ph\<rparr>) PF_KERNEL {j}"
    "\<And>i. unat i < 8 * unat (btmp_bytes_len ?b) \<Longrightarrow> bitmap_scan_test m ?b i = (i \<notin> span k 1 \<and> bitmap_scan_test (mem s) ?b i)"
    "\<And>x. x \<notin> map_bytes (pool_bitmap (kernel_pool s)) \<Longrightarrow> x \<notin> map_bytes ?b \<Longrightarrow> m x = mem s x"
    using wf(1) k start low by (auto simp: vaddr_pool_def pool_of_def)
  let ?s' = "s\<lparr>mem := m, phys := ph\<rparr>"
  have ok: "(locked ?l s)\<lparr>mem := m, phys := ph\<rparr> = locked ?l ?s'"
    by (simp add: locked_def set_sema_value_def set_repeat_def set_holder_def)
  have un: "mmu_walk ph (cr3 s) w = (if page_frame w = a then None else vmap s w)" if "own_pde w" for w
    using m(4) that unfolding unmapped_def by (simp add: run_page_def)
  have freed: "pool_bit ?s' q i = (\<not> (q = PF_KERNEL \<and> i = j) \<and> pool_bit s q i)" if "pool_idx s q i" for q i
  proof -
    have po: "pool_of q (locked ?l t) = pool_of q t" for t q by (simp add: pool_of_def)
    have "pool_bit (locked ?l t) q i = pool_bit t q i" "pool_idx (locked ?l t) q i = pool_idx t q i" for t q i
      by (simp_all add: pool_bit_def pool_idx_def po)
    then show ?thesis using m(5) that unfolding pages_freed_def ok by simp
  qed
  have bits: "bitmap_scan_test m ?b i = (run_page K_HEAP_START (unat i) \<noteq> a \<and> bitmap_scan_test (mem s) ?b i)"
    if i: "unat i < unat (btmp_bytes_len ?b)" for i
  proof -
    have "unat k < unat (btmp_bytes_len ?b)" using k(2) by simp
    then have "run_page K_HEAP_START (unat i) = a \<longleftrightarrow> i = k"
      unfolding k(1) using run_page_inject [OF okL i] by (simp add: word_unat_eq_iff)
    then show ?thesis using m(6) [of i] i by (simp add: span_def)
  qed
  have frame: "m x = mem s x" if "x \<notin> pool_bytes s" for x using m(7) that by (simp add: pool_bytes_def)
  note res = unmapped_heap [OF inv a start off m(2,3) un freed bits frame]
  show thesis by (rule that [OF m(1) [unfolded ok]]; rule res)
qed

section \<open>sys_free\<close>

lemma fold_remove_lheap: "\<exists>h. fold (\<lambda>e s. list_remove s e) es s = s\<lparr>lheap := h\<rparr>"
proof (induction es arbitrary: s)
  case Nil
  show ?case by (intro exI [of _ "lheap s"]) simp
next
  case (Cons e es)
  obtain h where "fold (\<lambda>e s. list_remove s e) es (list_remove s e) = (list_remove s e)\<lparr>lheap := h\<rparr>" using Cons by blast
  then show ?case by (intro exI [of _ h]) (simp add: list_remove_eq)
qed

lemma uncarve_run:
  assumes fam: "k_family s F" "F (free_list d) = Some xs" and d: "arena_desc (arenas s a) = d"
    "descs s d = \<lparr>block_size = of_nat (bsz i), blocks_per_arena = of_nat (bcnt i)\<rparr>"
    and i: "i < 7" and a: "page_frame a = a" and j: "j \<le> bcnt i" "set (drop j (blks i a)) \<subseteq> set xs"
  shows "uncarve_loop a (of_nat j) s = Inr (fold (\<lambda>e s. list_remove s e) (drop j (blks i a)) s)"
  using fam d j
proof (induction "bcnt i - j" arbitrary: j s F xs)
  case 0
  then have "j = bcnt i" by simp
  moreover have "drop (bcnt i) (blks i a) = []" by (simp add: blks_def)
  ultimately show ?case by (subst uncarve_loop.simps) (simp add: 0(4,5))
next
  case (Suc k)
  let ?b = "blk i a j" and ?fl = "free_list d"
  have jl: "j < bcnt i" using Suc(2) by simp
  have dr: "drop j (blks i a) = ?b # drop (Suc j) (blks i a)" using jl by (simp add: blks_def Cons_nth_drop_Suc [symmetric])
  have dist: "distinct (?b # drop (Suc j) (blks i a))" using blks_distinct [OF a i] distinct_drop unfolding dr [symmetric] by blast
  have lt: "(of_nat j :: u32) < of_nat (bcnt i)" "(of_nat j :: u32) + 1 = of_nat (Suc j)"
    using jl unat_bsz(2) [OF i] block_bounds(2) [OF i] by (simp_all add: word_less_nat_alt unat_of_nat)
  have b: "arena2block s a (of_nat j) = ?b" using Suc(5,6) by (simp add: arena2block_def blk_def SIZEOF_ARENA_def)
  have "?b \<in> set xs" using Suc(8) dr by auto
  then obtain as bs where xs: "xs = as @ ?b # bs" by (auto dest: split_list)
  have ef: "elem_find s ?fl ?b = Inr True" using elem_find_family [OF Suc(3,4), of ?b] xs by simp
  have "uncarve_loop a (of_nat j + 1) (list_remove s ?b) = Inr (fold (\<lambda>e s. list_remove s e) (drop (Suc j) (blks i a)) (list_remove s ?b))"
    unfolding lt(2)
  proof (rule Suc(1))
    show "k = bcnt i - Suc j" using Suc(2) by simp
    show "k_family (list_remove s ?b) (F(?fl \<mapsto> as @ bs))" by (rule kl.remove_law [OF Suc(3)]) (use Suc(4) xs in simp)
    show "(F(?fl \<mapsto> as @ bs)) ?fl = Some (as @ bs)" by simp
    show "set (drop (Suc j) (blks i a)) \<subseteq> set (as @ bs)" using Suc(8) dr dist xs by auto
  qed (use Suc(5,6) jl in simp_all)
  then show ?case using lt(1) Suc(5,6) by (subst uncarve_loop.simps) (simp add: b ef dr Let_def)
qed

text \<open>The block goes to the end of its list; what is in use loses it.\<close>

lemma give_block:
  assumes inv: "kernel_inv s F" and h: "heap_ok s F A" and b: "b \<in> in_use s F A"
  obtains i bs t where "heap_arena s F i (page_frame b)" "b \<in> set (blks i (page_frame b))" "F (k_free i) = Some bs"
    "add_cnt (page_frame b) 1 (list_append s (k_free i) b) = t" "quiet s t" "mem_only s t" "mem t = mem s"
    "kernel_inv t (F(k_free i \<mapsto> bs @ [b]))" "heap_ok t (F(k_free i \<mapsto> bs @ [b])) A"
    "in_use t (F(k_free i \<mapsto> bs @ [b])) A = in_use s F A - {b}"
proof -
  let ?a = "page_frame b"
  have bA: "?a \<in> A" "b \<notin> fam_nodes F" using b by (simp_all add: in_use_def)
  obtain i where i: "i < 7" "arena_desc (arenas s ?a) = k_desc i" "b \<in> set (blks i ?a)" using b unfolding in_use_def by blast
  obtain k where k: "heap_arena s F k ?a" using heap_ok_arena [OF h bA(1)] by blast
  have "k = i" using k_desc_inject [OF _ i(1)] heap_arenaD(2,5) [OF k] i(2) by simp
  then have ha: "heap_arena s F i ?a" using k by simp
  note ad = heap_arenaD [OF ha]
  obtain bs where bs: "F (k_free i) = Some bs" "\<And>e. e \<in> set bs \<Longrightarrow> page_frame e \<in> A \<and> arena_desc (arenas s (page_frame e)) = k_desc i"
    using heap_ok_free [OF h i(1)] by blast
  let ?F = "F(k_free i \<mapsto> bs @ [b])"
  define t where "t = add_cnt ?a 1 (list_append s (k_free i) b)"
  have mo: "mem_only s t"
    by (rule mem_onlyI [where m = "mem s" and p = "phys s" and l = "lheap t" and a = "arenas t"]) (simp add: t_def add_cnt_def list_append_eq)
  have q: "quiet s t" by (rule quiet_same) (simp_all add: t_def add_cnt_def list_append_eq)
  have nodes: "fam_nodes ?F = insert b (fam_nodes F)" using kl.fam_nodes_append [of F "k_free i" bs "[b]"] bs(1) by simp
  have fam: "k_family s F" using inv by (simp add: kernel_inv_def lock_ready_def)
  have inv': "kernel_inv t ?F"
  proof (rule kernel_inv_lists [OF inv q])
    show "same_locks s t" by (simp add: same_locks_def mem_only_sel [OF mo])
    have "k_family (list_append s (k_free i) b) ?F" by (rule kl.append_law [OF fam bs(1) bA(2)])
    then show "k_family t ?F" by (simp add: k_family_def t_def add_cnt_def)
    have "own_pde b \<and> vmap s b \<noteq> None"
      using vmap_in_page [of "phys s" "cr3 s" ?a _ b] ad(1,3,4) own_pde_frame [of b ?a] by auto
    then show "held s (fam_nodes ?F)" using inv unfolding nodes by (simp add: kernel_inv_def held_def)
    fix l assume l: "l \<in> {KERNEL_POOL_LOCK, USER_POOL_LOCK, PID_LOCK}" "F (sema_waiters (lock_semaphore l)) = Some []"
    show "?F (sema_waiters (lock_semaphore l)) = Some []" using l(2) k_free_waiters [OF i(1) l(1)] by auto
  qed
  have ar: "arenas t c = (if c = ?a then (arenas s ?a)\<lparr>arena_cnt := arena_cnt (arenas s ?a) + 1\<rparr> else arenas s c)" for c
    by (simp add: t_def add_cnt_def list_append_eq)
  have "heap_ok t ?F A"
    unfolding heap_ok_def
  proof (intro conjI ballI allI impI)
    fix c assume c: "c \<in> A"
    then obtain i' where i': "heap_arena s F i' c" using heap_ok_arena [OF h] by blast
    have "heap_arena t ?F i' c"
    proof (rule heap_arena_step [OF i' heap_page_quiet [OF q] quiet_bytes [OF q]])
      have same: "c = ?a \<Longrightarrow> i' = i"
        using k_desc_inject [OF _ i(1)] heap_arenaD(2,5) [OF i'] i(2) by simp
      show "arena_desc (arenas t c) = arena_desc (arenas s c)" "arena_large (arenas t c) = arena_large (arenas s c)" by (simp_all add: ar)
      show "x \<in> set (blks i' c)" if "x \<in> fam_nodes ?F" "page_frame x = c" for x
        using i' that same i(3) unfolding nodes heap_arena_def by blast
      show "arena_cnt (arenas t c) = of_nat (length (filter (\<lambda>e. page_frame e = c) (the (?F (k_free i')))))"
        using heap_arenaD(6) [OF i'] same bs(1) by (cases "c = ?a"; cases "k_free i' = k_free i") (simp_all add: ar)
    qed
    then show "\<exists>i. heap_arena t ?F i c" by blast
  next
    fix k :: nat assume k: "k < 7"
    show "\<exists>xs. ?F (k_free k) = Some xs \<and> (\<forall>e \<in> set xs. page_frame e \<in> A \<and> arena_desc (arenas t (page_frame e)) = k_desc k)"
    proof (cases "k = i")
      case True
      then show ?thesis using bs(2) bA(1) i(2) by (simp add: ar)
    next
      case False
      then have "k_free k \<noteq> k_free i" using k_free_inject [OF k i(1)] by blast
      moreover have "arena_desc (arenas t c) = arena_desc (arenas s c)" for c by (simp add: ar)
      ultimately show ?thesis using heap_ok_free [OF h k] by simp
    qed
  qed (use h in \<open>simp_all add: heap_ok_def desc_table_def mem_only_sel [OF mo]\<close>)
  moreover have "in_use t ?F A = in_use s F A - {b}" unfolding in_use_def nodes ar by auto
  moreover have "mem t = mem s" by (simp add: t_def add_cnt_def list_append_eq)
  ultimately show thesis using that [OF ha i(3) bs(1) t_def [symmetric] q mo _ inv'] by simp
qed

context intrusive_lists
begin

lemma filtered_fresh:
  assumes fam: "fam h F" and l: "F l = Some xs" and e: "e \<in> set xs" "\<not> P e"
  shows "e \<notin> fam_nodes (F(l \<mapsto> filter P xs))"
proof
  assume "e \<in> fam_nodes (F(l \<mapsto> filter P xs))"
  then obtain l' zs where l': "(F(l \<mapsto> filter P xs)) l' = Some zs" and z: "e \<in> set (dl_nodes l' zs)"
    by (auto simp: fam_nodes_def)
  show False
  proof (cases "l' = l")
    case True
    with l' z e distinct_law [OF fam l] show False by (auto simp: dl_nodes_def)
  next
    case False
    with l' disjoint_law [OF fam l, of l' zs] z e(1) show False by (auto simp: dl_nodes_def)
  qed
qed

end

text \<open>Without the page \<open>a\<close>, whose blocks have all left the list of descriptor \<open>i\<close>.\<close>

lemma heap_ok_dropped:
  assumes h: "heap_ok s F A" and a: "heap_arena s F i a" and xs: "F (k_free i) = Some xs" "set (blks i a) \<subseteq> set xs"
    and mo: "mem_only s s'" and ar: "arenas s' = arenas s" and hp: "\<And>c k. heap_page s c k \<Longrightarrow> c \<noteq> a \<Longrightarrow> heap_page s' c k"
  defines "F' \<equiv> F(k_free i \<mapsto> filter (\<lambda>x. x \<notin> set (blks i a)) xs)"
  shows "heap_ok s' F' (A - {a})" "in_use s' F' (A - {a}) = in_use s F A"
proof -
  note ad = heap_arenaD [OF a]
  have pb: "pool_bytes s' = pool_bytes s" by (simp add: pool_bytes_def mem_only_sel [OF mo])
  have mine: "e \<in> set (blks i a) \<longleftrightarrow> page_frame e = a" if "e \<in> set xs" for e
    using free_block_at(2) [OF h ad(2) xs(1) that] blks_page [OF ad(1,2)] by auto
  have nsub: "fam_nodes F' \<subseteq> fam_nodes F" unfolding F'_def by (rule fam_nodes_subset [of F "k_free i" xs]) (use xs(1) in auto)
  have nsup: "x \<in> fam_nodes F'" if x: "x \<in> fam_nodes F" "x \<notin> set (blks i a)" for x
  proof -
    obtain l zs where l: "F l = Some zs" "x \<in> set (dl_nodes l zs)" using x(1) by (auto simp: fam_nodes_def)
    then have "\<exists>zs'. F' l = Some zs' \<and> x \<in> set (dl_nodes l zs')" using x(2) xs(1) by (auto simp: F'_def dl_nodes_def)
    then show ?thesis by (auto simp: fam_nodes_def)
  qed
  show "heap_ok s' F' (A - {a})"
    unfolding heap_ok_def
  proof (intro conjI ballI allI impI)
    fix c assume c: "c \<in> A - {a}"
    then obtain k where k: "heap_arena s F k c" using heap_ok_arena [OF h] by blast
    have "heap_arena s' F' k c"
    proof (rule heap_arena_step [OF k _ pb])
      show "heap_page s c j \<Longrightarrow> heap_page s' c j" for j using hp c by blast
      show "x \<in> set (blks k c)" if "x \<in> fam_nodes F'" "page_frame x = c" for x
        using k that nsub unfolding heap_arena_def by blast
      have "filter (\<lambda>e. page_frame e = c) (filter (\<lambda>x. x \<notin> set (blks i a)) xs) = filter (\<lambda>e. page_frame e = c) xs"
        unfolding filter_filter by (rule filter_cong [OF refl]) (use mine c in auto)
      then show "arena_cnt (arenas s' c) = of_nat (length (filter (\<lambda>e. page_frame e = c) (the (F' (k_free k)))))"
        using heap_arenaD(6) [OF k] xs(1) by (cases "k_free k = k_free i") (simp_all add: ar F'_def)
    qed (simp_all add: ar)
    then show "\<exists>k. heap_arena s' F' k c" by blast
  next
    fix k :: nat assume k: "k < 7"
    obtain ys where ys: "F (k_free k) = Some ys" "\<And>e. e \<in> set ys \<Longrightarrow> page_frame e \<in> A \<and> arena_desc (arenas s (page_frame e)) = k_desc k"
      using heap_ok_free [OF h k] by blast
    show "\<exists>xs. F' (k_free k) = Some xs \<and> (\<forall>e \<in> set xs. page_frame e \<in> A - {a} \<and> arena_desc (arenas s' (page_frame e)) = k_desc k)"
    proof (cases "k = i")
      case True
      then show ?thesis using ys xs(1) mine by (auto simp: F'_def ar)
    next
      case False
      then have "k_free k \<noteq> k_free i" using k_free_inject [OF k ad(2)] by blast
      moreover have "page_frame e \<noteq> a" if "e \<in> set ys" for e
        using ys(2) [OF that] ad(5) k_desc_inject [OF k ad(2)] False by auto
      ultimately show ?thesis using ys by (auto simp: F'_def ar)
    qed
  qed (use h in \<open>simp_all add: heap_ok_def desc_table_def mem_only_sel [OF mo]\<close>)
  have "u \<in> in_use s' F' (A - {a}) \<longleftrightarrow> u \<in> in_use s F A" for u
  proof (cases "page_frame u = a")
    case True
    have "u \<in> fam_nodes F" if "k < 7" "arena_desc (arenas s a) = k_desc k" "u \<in> set (blks k a)" for k
    proof -
      have "k = i" using k_desc_inject [OF that(1) ad(2)] that(2) ad(5) by simp
      then have "u \<in> set xs" using that(3) xs(2) by blast
      then show ?thesis using xs(1) by (auto simp: fam_nodes_def dl_nodes_def)
    qed
    then show ?thesis using True by (auto simp: in_use_def)
  next
    case False
    then have "u \<in> fam_nodes F' \<longleftrightarrow> u \<in> fam_nodes F" using nsub nsup [of u] blks_page [OF ad(1,2), of u] by blast
    then show ?thesis using False by (simp add: in_use_def ar)
  qed
  then show "in_use s' F' (A - {a}) = in_use s F A" by blast
qed

text \<open>The count of an arena says whether all its blocks are in its list.\<close>

lemma all_free_iff:
  assumes fam: "k_family t F" and h: "heap_ok s F A" and a: "heap_arena s F i a" and xs: "F (k_free i) = Some xs"
  shows "arena_cnt (arenas s a) = of_nat (bcnt i) \<longleftrightarrow> set (blks i a) \<subseteq> set xs"
proof -
  let ?ys = "filter (\<lambda>e. page_frame e = a) xs"
  note ad = heap_arenaD [OF a]
  have in_a: "set ?ys \<subseteq> set (blks i a)" using free_block_at(2) [OF h ad(2) xs] by auto
  have cb: "card (set (blks i a)) = bcnt i" using distinct_card [OF blks_distinct [OF ad(1,2)]] by (simp add: blks_def)
  have cy: "card (set ?ys) = length ?ys" by (rule distinct_card) (use kl.distinct_elems [OF fam xs] in simp)
  have le: "length ?ys \<le> bcnt i" using card_mono [OF _ in_a] cb cy by simp
  have "arena_cnt (arenas s a) = of_nat (bcnt i) \<longleftrightarrow> length ?ys = bcnt i"
    using ad(6) xs unat_bsz(2) [OF ad(2)] block_bounds(2) [OF ad(2)] le by (simp add: unat_of_nat word_unat_eq_iff)
  also have "\<dots> \<longleftrightarrow> set ?ys = set (blks i a)" using card_subset_eq [OF _ in_a] cb cy by auto
  also have "\<dots> \<longleftrightarrow> set (blks i a) \<subseteq> set xs" using in_a blks_page [OF ad(1,2)] by auto
  finally show ?thesis .
qed

text \<open>The last block of an arena: all its blocks leave the list, and the page goes back to the pool.\<close>

lemma drop_arena:
  assumes inv: "kernel_inv s F" and h: "heap_ok s F A" and a: "heap_arena s F i a" "a \<in> A"
    and all: "arena_cnt (arenas s a) = of_nat (bcnt i)"
  obtains s' F' where "bindR (uncarve_loop a 0 (locked KERNEL_POOL_LOCK s)) (\<lambda>s3. mfree_page s3 PF_KERNEL a 1) = Inr (locked KERNEL_POOL_LOCK s')"
    "kernel_inv s' F'" "heap_ok s' F' (A - {a})" "in_use s' F' (A - {a}) = in_use s F A" "mem_only s s'" "page_gone s s' a"
    "\<And>l. l \<noteq> k_free i \<Longrightarrow> F' l = F l"
proof -
  let ?l = KERNEL_POOL_LOCK
  note ad = heap_arenaD [OF a(1)]
  obtain xs where xs: "F (k_free i) = Some xs" "\<And>e. e \<in> set xs \<Longrightarrow> page_frame e \<in> A \<and> arena_desc (arenas s (page_frame e)) = k_desc i"
    using heap_ok_free [OF h ad(2)] by blast
  let ?F = "F(k_free i \<mapsto> filter (\<lambda>x. x \<notin> set (blks i a)) xs)"
  have fam: "k_family (locked ?l s) F" using inv by (simp add: kernel_inv_def lock_ready_def)
  have sub: "set (blks i a) \<subseteq> set xs" using all_free_iff [OF fam h a(1) xs(1)] all by simp
  have dsc: "descs s (k_desc i) = \<lparr>block_size = of_nat (bsz i), blocks_per_arena = of_nat (bcnt i)\<rparr>"
    using h by (simp add: heap_ok_def heap_desc_at [OF _ ad(2)])
  obtain hp where hp: "fold (\<lambda>e s. list_remove s e) (blks i a) (locked ?l s) = (locked ?l s)\<lparr>lheap := hp\<rparr>"
    using fold_remove_lheap by blast
  define t where "t = s\<lparr>lheap := hp\<rparr>"
  have un: "uncarve_loop a 0 (locked ?l s) = Inr (locked ?l t)"
    using uncarve_run [OF fam xs(1) _ _ ad(2,1), of 0] ad(5) dsc sub hp by (simp add: t_def locked_upd)
  have mo: "mem_only s t" by (rule mem_onlyI [where m = "mem s" and p = "phys s" and l = hp and a = "arenas s"]) (simp add: t_def)
  have q: "quiet s t" by (rule quiet_same) (simp_all add: t_def)
  have famt: "k_family t ?F"
    using kl.remove_all [OF fam xs(1) blks_distinct [OF ad(1,2)] sub] hp by (simp add: k_family_def t_def)
  have nsub: "fam_nodes ?F \<subseteq> fam_nodes F" by (rule fam_nodes_subset [of F "k_free i" xs]) (use xs(1) in auto)
  have out: "page_frame x \<noteq> a" if "x \<in> fam_nodes ?F \<union> pool_bytes t" for x
  proof
    assume p: "page_frame x = a"
    have pb: "pool_bytes t = pool_bytes s" by (rule quiet_bytes [OF q])
    have "x \<notin> pool_bytes s" using a(1) p unfolding heap_arena_def by blast
    then have x: "x \<in> fam_nodes ?F" using that pb by blast
    then have "x \<in> set (blks i a)" using a(1) p nsub unfolding heap_arena_def by blast
    then show False using kl.filtered_fresh [OF fam xs(1), of x "\<lambda>x. x \<notin> set (blks i a)"] sub x by blast
  qed
  have kt: "kernel_inv t ?F"
  proof (rule kernel_inv_lists [OF inv q _ famt])
    show "same_locks s t" by (simp add: same_locks_def t_def)
    show "held s (fam_nodes ?F)" by (rule held_mono [OF _ nsub]) (use inv in \<open>simp add: kernel_inv_def\<close>)
    fix l assume l: "l \<in> {?l, USER_POOL_LOCK, PID_LOCK}" "F (sema_waiters (lock_semaphore l)) = Some []"
    show "?F (sema_waiters (lock_semaphore l)) = Some []" using l(2) k_free_waiters [OF ad(2) l(1)] by auto
  qed
  obtain j where j: "heap_page s a j" using a(1) unfolding heap_arena_def by blast
  have st: "Kernel_State.vaddr_start (kernel_vaddr t) = K_HEAP_START" "0x102000 \<le> unat (phy_addr_start (kernel_pool t))"
    using h by (simp_all add: heap_ok_def t_def)
  obtain m ph where u: "mfree_page (locked ?l t) PF_KERNEL a 1 = Inr (locked ?l (t\<lparr>mem := m, phys := ph\<rparr>))"
    "kernel_inv (t\<lparr>mem := m, phys := ph\<rparr>) ?F" "page_gone t (t\<lparr>mem := m, phys := ph\<rparr>) a"
    by (rule unmap_heap_page [OF kt heap_page_quiet [OF q j] ad(1) st out])
  define s' where "s' = t\<lparr>mem := m, phys := ph\<rparr>"
  have mo': "mem_only s s'" by (rule mem_onlyI [where m = m and p = ph and l = hp and a = "arenas s"]) (simp add: s'_def t_def)
  have ar: "arenas s' = arenas s" by (simp add: s'_def t_def)
  have gone: "page_gone s s' a" unfolding s'_def by (rule page_gone_quiet [OF q _ u(3)]) (simp add: t_def)
  have hp': "heap_page s c k \<Longrightarrow> c \<noteq> a \<Longrightarrow> heap_page s' c k" for c k using gone unfolding page_gone_def by blast
  note dropped = heap_ok_dropped [OF h a(1) xs(1) sub mo' ar hp']
  show thesis
  proof (rule that [OF _ u(2) [folded s'_def] dropped mo' gone])
    show "bindR (uncarve_loop a 0 (locked ?l s)) (\<lambda>s3. mfree_page s3 PF_KERNEL a 1) = Inr (locked ?l s')"
      using un u(1) by (simp add: s'_def)
  qed simp_all
qed

lemma heap_start_below:
  assumes "vpool_inv s PF_KERNEL" "Kernel_State.vaddr_start (kernel_vaddr s) = K_HEAP_START" "heap_page s a j"
  shows "unat K_HEAP_START \<le> unat a"
proof -
  obtain k :: u32 where k: "a = run_page K_HEAP_START (unat k)" "unat k + 1 < unat (btmp_bytes_len (vaddr_bitmap (kernel_vaddr s)))"
    using assms(3) unfolding heap_page_def by blast
  have "run_ok K_HEAP_START (unat (btmp_bytes_len (vaddr_bitmap (kernel_vaddr s))))"
    using assms(1,2) by (simp add: vpool_inv_def Let_def run_ok_def vaddr_pool_def)
  then show ?thesis using run_page_unat [of K_HEAP_START _ "unat k"] k by simp
qed

lemma sys_free_kernel:
  assumes inv: "kernel_inv s F" and h: "heap_ok s F A" and kt: "pgdir (tasks s (cur s)) = NULL" and b: "b \<in> in_use s F A"
  shows "\<exists>s' F' A' i. sys_free s b = Inr s' \<and> kernel_inv s' F' \<and> heap_ok s' F' A' \<and> in_use s' F' A' = in_use s F A - {b} \<and>
    mem_only s s' \<and> b \<in> set (blks i (page_frame b)) \<and> arena_desc (arenas s (page_frame b)) = k_desc i \<and>
    (if set (blks i (page_frame b)) \<subseteq> insert b (set (the (F (k_free i))))
     then A' = A - {page_frame b} \<and> page_gone s s' (page_frame b) else A' = A \<and> quiet s s' \<and> mem s' = mem s) \<and>
    (\<forall>l. (\<forall>k < 7. l \<noteq> k_free k) \<longrightarrow> F' l = F l)"
proof -
  let ?l = KERNEL_POOL_LOCK and ?a = "page_frame b"
  obtain i bs t where g: "heap_arena s F i ?a" "b \<in> set (blks i ?a)" "F (k_free i) = Some bs"
    "add_cnt ?a 1 (list_append s (k_free i) b) = t" "quiet s t" "mem_only s t" "mem t = mem s"
    "kernel_inv t (F(k_free i \<mapsto> bs @ [b]))" "heap_ok t (F(k_free i \<mapsto> bs @ [b])) A"
    "in_use t (F(k_free i \<mapsto> bs @ [b])) A = in_use s F A - {b}"
    by (rule give_block [OF inv h b]) (rule that)
  let ?F = "F(k_free i \<mapsto> bs @ [b])"
  note ad = heap_arenaD [OF g(1)]
  have aA: "?a \<in> A" using b by (simp add: in_use_def)
  have lock: "lock_ready s ?l F" and lt: "lock_ready t ?l ?F" using inv g(8) by (simp_all add: kernel_inv_def)
  have step: "add_cnt ?a 1 (list_append (locked ?l s) (k_free i) b) = locked ?l t"
    unfolding g(4) [symmetric] by (simp add: add_cnt_def list_append_eq locked_def set_sema_value_def set_repeat_def set_holder_def)
  have ta: "arena_desc (arenas t ?a) = k_desc i" using ad(5) by (simp add: g(4) [symmetric] add_cnt_def list_append_eq)
  have hat: "heap_arena t ?F i ?a"
  proof -
    obtain k where k: "heap_arena t ?F k ?a" using heap_ok_arena [OF g(9) aA] by blast
    then have "k = i" using k_desc_inject [OF _ ad(2)] heap_arenaD(2,5) [OF k] ta by simp
    then show ?thesis using k by simp
  qed
  have famt: "k_family t ?F" using lt by (simp add: lock_ready_def)
  have dsc: "blocks_per_arena (descs t (k_desc i)) = of_nat (bcnt i)"
    using g(9) by (simp add: heap_ok_def heap_desc_at [OF _ ad(2)])
  have free: "free_block (locked ?l s) PF_KERNEL ?a b = (if arena_cnt (arenas t ?a) = of_nat (bcnt i)
      then bindR (uncarve_loop ?a 0 (locked ?l t)) (\<lambda>s3. mfree_page s3 PF_KERNEL ?a 1) else Inr (locked ?l t))"
    using ad(5) by (simp add: free_block_def Let_def step ta dsc)
  have b0: "b \<noteq> 0" "K_HEAP_START < b"
  proof -
    obtain j where "heap_page s ?a j" using g(1) unfolding heap_arena_def by blast
    then have "unat K_HEAP_START \<le> unat ?a" using heap_start_below [of s ?a j] inv h by (simp add: kernel_inv_def heap_ok_def)
    moreover obtain k where "k < bcnt i" "b = blk i ?a k" using g(2) by (auto simp: blks_def)
    then have "unat b = unat ?a + 12 + k * bsz i" using blk_at(1) [OF ad(1,2), of k] by simp
    ultimately show "K_HEAP_START < b" by (simp add: word_less_nat_alt)
    then show "b \<noteq> 0" by auto
  qed
  have nl: "k_desc i \<noteq> NULL" using ad(2) by (auto simp: lt7 desc_at_def K_BLOCK_DESC_def SIZEOF_MEM_BLOCK_DESC_def)
  have run: "sys_free s b = bindR (free_block (locked ?l s) PF_KERNEL ?a b) (\<lambda>s2. lock_release s2 ?l)"
    using b0 kt lock_ready_acquire [OF lock] nl ad(5)
    by (simp add: sys_free_def running_thread_def Let_def block2arena_frame pool_lock_def)
  have release: "lock_release (locked ?l u) ?l = Inr u" if u: "lock_ready u ?l G" for u G
  proof -
    have "lock_release (locked ?l u) ?l = Inr (unlocked ?l (locked ?l u))"
      by (rule lock_ready_release(1) [OF u, of _ G]) (use u in \<open>simp_all add: lock_kept_def lock_ready_def\<close>)
    then show ?thesis by (simp add: unlocked_locked [OF lock_ready_free [OF u]])
  qed
  have others: "\<forall>l. (\<forall>k < 7. l \<noteq> k_free k) \<longrightarrow> ?F l = F l" using ad(2) by auto
  have iff: "arena_cnt (arenas t ?a) = of_nat (bcnt i) \<longleftrightarrow> set (blks i ?a) \<subseteq> insert b (set (the (F (k_free i))))"
    using all_free_iff [OF famt g(9) hat, of "bs @ [b]"] g(3) by simp
  show ?thesis
  proof (cases "arena_cnt (arenas t ?a) = of_nat (bcnt i)")
    case False
    then have "sys_free s b = Inr t" using run free release [OF lt] by simp
    then show ?thesis using g(2,5-10) ad(5) False others unfolding iff
      by (intro exI [of _ t] exI [of _ ?F] exI [of _ A] exI [of _ i]) simp
  next
    case True
    obtain s' F' where d: "bindR (uncarve_loop ?a 0 (locked ?l t)) (\<lambda>s3. mfree_page s3 PF_KERNEL ?a 1) = Inr (locked ?l s')"
      "kernel_inv s' F'" "heap_ok s' F' (A - {?a})" "in_use s' F' (A - {?a}) = in_use t ?F A" "mem_only t s'" "page_gone t s' ?a"
      "\<And>l. l \<noteq> k_free i \<Longrightarrow> F' l = ?F l"
      by (rule drop_arena [OF g(8,9) hat aA True]) (rule that)
    have ls: "lock_ready s' ?l F'" using d(2) by (simp add: kernel_inv_def)
    have "sys_free s b = Inr s'" using run free True d(1) release [OF ls] by simp
    moreover have "page_gone s s' ?a" by (rule page_gone_quiet [OF g(5,7) d(6)])
    moreover have "\<forall>l. (\<forall>k < 7. l \<noteq> k_free k) \<longrightarrow> F' l = F l" using d(7) ad(2) by auto
    ultimately show ?thesis using d(2-5) g(2,6,10) ad(5) True mem_only_trans [OF g(6) d(5)] unfolding iff
      by (intro exI [of _ s'] exI [of _ F'] exI [of _ "A - {?a}"] exI [of _ i]) simp
  qed
qed

section \<open>The heap after the start\<close>

text \<open>No arena yet: seven descriptors, all with empty free lists, and no block in use.\<close>

lemma heap_started:
  assumes m: "machine_started M s" and run: "mem_init s = Inr s1" "thread_init s1 = Inr s2"
  shows "heap_ok s2 main_lists {}" "in_use s2 main_lists {} = {}" "pgdir (tasks s2 (cur s2)) = NULL"
    "pool_size (kernel_pool s2) = ucast (kernel_free_pages M) * PG_SIZE"
proof -
  have s: "phys s = boot_phys M" "cr3 s = 0x100000" "cur s = MAIN_PCB" using m by (simp_all add: machine_started_def)
  have r: "memory_ready M s s1" using mem_init_ready [OF s(1,2)] run(1) by (metis sum.inject(2))
  then have c: "cur s1 = MAIN_PCB" by (simp add: memory_ready_def s)
  have t: "main_ready s1 s2" "quiet s1 s2" "desc_table s2 K_BLOCK_DESC = desc_sizes"
    using thread_init_ready [OF r c] run(2) by (metis sum.inject(2))+
  have v: "kernel_vaddr s2 = kernel_vaddr s1" "kernel_pool s2 = kernel_pool s1" using t(2) by (simp_all add: quiet_def)
  have free: "main_lists (k_free i) = Some []" if "i < 7" for i
  proof -
    have "k_free i \<in> set boot_heads" "k_free i \<noteq> THREAD_ALL_LIST"
      using that unfolding lt7 by (auto simp: boot_heads_eq boot_addrs)
    then show ?thesis by (simp add: main_lists_def empty_lists_def)
  qed
  show "heap_ok s2 main_lists {}" using r t(3) free by (simp add: heap_ok_def v memory_ready_def)
  show "in_use s2 main_lists {} = {}" by (simp add: in_use_def)
  show "pool_size (kernel_pool s2) = ucast (kernel_free_pages M) * PG_SIZE" using r by (simp add: v memory_ready_def)
  show "pgdir (tasks s2 (cur s2)) = NULL" using t(1) by (simp add: main_ready_def zero_task_def)
qed

section \<open>Properties\<close>

text \<open>
  C33. sys_malloc serves every request of a kernel thread of at most 1024 bytes while a page can still be
  had. The block it returns is of the smallest of the seven sizes that holds the request, lies at
  its place in an arena, was not in use, and all its bytes are zero. It joins the blocks in use, of
  which none is lost; every mapped page stays mapped as it was, and no byte changes outside
  the block and the bitmaps of the pools; the invariants of heap, memory, locks and lists are kept,
  and no list but the free lists changes. This covers both cases, a free list with a block and
  an empty one, for which a new page is mapped and cut into blocks.
\<close>

theorem sys_malloc_serves:
  assumes "kernel_inv s F" "heap_ok s F A" "pgdir (tasks s (cur s)) = NULL" "roomy s (Suc m)"
    and "sz \<le> 1024" "sz \<le> pool_size (kernel_pool s)"
  shows "\<exists>b s' F' A' i. sys_malloc s sz = Inr (b, s') \<and> kernel_inv s' F' \<and> heap_ok s' F' A' \<and> roomy s' m \<and>
    i < 7 \<and> unat sz \<le> bsz i \<and> (\<forall>k < i. bsz k < unat sz) \<and> b \<in> set (blks i (page_frame b)) \<and>
    b \<notin> in_use s F A \<and> in_use s' F' A' = insert b (in_use s F A) \<and> (\<forall>x. in_range x b (bsz i) \<longrightarrow> mem s' x = 0) \<and>
    left_alone s s' (\<lambda>x. in_range x b (bsz i)) \<and> mem_only s s' \<and> (\<forall>l. (\<forall>k < 7. l \<noteq> k_free k) \<longrightarrow> F' l = F l)"
  by (rule sys_malloc_kernel [OF assms])

lemma sys_malloc_serves_witness:
  "\<exists>s1 s2 b s' F' A'. mem_init machine = Inr s1 \<and> thread_init s1 = Inr s2 \<and> sys_malloc s2 100 = Inr (b, s') \<and>
    b \<in> set (blks 3 (page_frame b)) \<and> in_use s' F' A' = {b} \<and> (\<forall>x. in_range x b 128 \<longrightarrow> mem s' x = 0)"
proof -
  obtain s1 s2 where s: "mem_init machine = Inr s1" "thread_init s1 = Inr s2" "kernel_inv s2 main_lists"
    and room: "\<And>n. 2 * n < 480 \<Longrightarrow> roomy s2 n"
    by (rule kernel_start [OF machine_starts, unfolded machine_pages]) (auto simp: system_inv_def)
  note h = heap_started [OF machine_starts s(1,2)]
  have room1: "roomy s2 (Suc 0)" by (rule room) simp
  have size: "100 \<le> (1024 :: u32)" "100 \<le> pool_size (kernel_pool s2)"
    by simp (simp add: h(4) kernel_free_pages_def all_free_pages_def PG_SIZE_def)
  obtain b s' F' A' i where r: "sys_malloc s2 100 = Inr (b, s')" "i < 7" "unat (100 :: u32) \<le> bsz i"
    "\<forall>k < i. bsz k < unat (100 :: u32)" "b \<in> set (blks i (page_frame b))" "in_use s' F' A' = insert b (in_use s2 main_lists {})"
    "\<forall>x. in_range x b (bsz i) \<longrightarrow> mem s' x = 0"
    using sys_malloc_serves [OF s(3) h(1,3) room1 size] by blast
  have "i = 3"
  proof (rule ccontr)
    assume "i \<noteq> 3"
    moreover have "\<not> 3 < i" using r(4) by (auto simp: bsz_def)
    ultimately have "i \<in> {0, 1, 2}" by auto
    then show False using r(3) by (auto simp: bsz_def)
  qed
  then have "b \<in> set (blks 3 (page_frame b))" "\<forall>x. in_range x b 128 \<longrightarrow> mem s' x = 0" using r(5,7) by (simp_all add: bsz_def)
  then show ?thesis using s(1,2) r(1,6) h(2) by (metis insert_absorb2)
qed

text \<open>
  C34. sys_free takes back any block in use of the kernel's heap: it returns, exactly that block leaves the
  blocks in use, and the invariants of heap, memory, locks and lists are kept. When all other blocks
  of its arena are free already, the page goes back: it is unmapped, its frame and its address
  are free again, every other page stays mapped as it was and the rest of the heap where it
  is. Otherwise no mapping and no byte of memory changes.
\<close>

theorem sys_free_returns:
  assumes "kernel_inv s F" "heap_ok s F A" "pgdir (tasks s (cur s)) = NULL" "b \<in> in_use s F A"
  shows "\<exists>s' F' A' i. sys_free s b = Inr s' \<and> kernel_inv s' F' \<and> heap_ok s' F' A' \<and> in_use s' F' A' = in_use s F A - {b} \<and>
    mem_only s s' \<and> b \<in> set (blks i (page_frame b)) \<and> arena_desc (arenas s (page_frame b)) = k_desc i \<and>
    (if set (blks i (page_frame b)) \<subseteq> insert b (set (the (F (k_free i))))
     then A' = A - {page_frame b} \<and> page_gone s s' (page_frame b) else A' = A \<and> quiet s s' \<and> mem s' = mem s) \<and>
    (\<forall>l. (\<forall>k < 7. l \<noteq> k_free k) \<longrightarrow> F' l = F l)"
  by (rule sys_free_kernel [OF assms])

lemma sys_free_returns_witness:
  "\<exists>s1 s2 b s3 s4 F A. mem_init machine = Inr s1 \<and> thread_init s1 = Inr s2 \<and> sys_malloc s2 100 = Inr (b, s3) \<and>
    sys_free s3 b = Inr s4 \<and> kernel_inv s4 F \<and> heap_ok s4 F A \<and> in_use s4 F A = {}"
proof -
  obtain s1 s2 where s: "mem_init machine = Inr s1" "thread_init s1 = Inr s2" "kernel_inv s2 main_lists"
    and room: "\<And>n. 2 * n < 480 \<Longrightarrow> roomy s2 n"
    by (rule kernel_start [OF machine_starts, unfolded machine_pages]) (auto simp: system_inv_def)
  note h = heap_started [OF machine_starts s(1,2)]
  have room1: "roomy s2 (Suc 0)" by (rule room) simp
  have size: "100 \<le> (1024 :: u32)" "100 \<le> pool_size (kernel_pool s2)"
    by simp (simp add: h(4) kernel_free_pages_def all_free_pages_def PG_SIZE_def)
  obtain b s3 F A where r: "sys_malloc s2 100 = Inr (b, s3)" "kernel_inv s3 F" "heap_ok s3 F A"
    "in_use s3 F A = insert b (in_use s2 main_lists {})" "mem_only s2 s3"
    using sys_malloc_kernel [OF s(3) h(1,3) room1 size] by blast
  have "pgdir (tasks s3 (cur s3)) = NULL" using h(3) r(5) by (auto simp: mem_only_def)
  moreover have "b \<in> in_use s3 F A" using r(4) by simp
  ultimately obtain s4 F' A' where f: "sys_free s3 b = Inr s4" "kernel_inv s4 F'" "heap_ok s4 F' A'"
    "in_use s4 F' A' = in_use s3 F A - {b}"
    using sys_free_returns [OF r(2,3)] by blast
  have "in_use s4 F' A' = {}" using f(4) r(4) h(2) by simp
  then show ?thesis using s(1,2) r(1) f(1-3) by metis
qed

end
