(* ===== verification/Ide.thy ===== *)
theory Ide
  imports Timer Heap_Blocks
begin

text \<open>
  The driver of the hard disks (device/ide.c). The file is not part of the build and does not
  compile: printk and sprintf do not exist, busy_wait calls inb with a second argument, and
  read_from_sector calls insw without the buffer. The two missing functions, read_from_sector and
  the call of inb with two arguments are arguments here, and so are the status register that inb
  reads and what happens while the driver is about to wait for the disk; the rest is translated,
  busy_wait too. A channel is the record at its address; its lock and its semaphore are at the
  offsets of the C structure. Bytes and words sent to the ports go to one log, in their order; the
  properties judge it by a disk, \<open>disk_run\<close>, which reads that log.
\<close>

section \<open>Constants and addresses\<close>

definition reg_data :: "kstate \<Rightarrow> u32 \<Rightarrow> u16" where "reg_data s ch = port_base (ide_channels s ch) + 0"
definition reg_sect_cnt :: "kstate \<Rightarrow> u32 \<Rightarrow> u16" where "reg_sect_cnt s ch = port_base (ide_channels s ch) + 2"
definition reg_lba_l :: "kstate \<Rightarrow> u32 \<Rightarrow> u16" where "reg_lba_l s ch = port_base (ide_channels s ch) + 3"
definition reg_lba_m :: "kstate \<Rightarrow> u32 \<Rightarrow> u16" where "reg_lba_m s ch = port_base (ide_channels s ch) + 4"
definition reg_lba_h :: "kstate \<Rightarrow> u32 \<Rightarrow> u16" where "reg_lba_h s ch = port_base (ide_channels s ch) + 5"
definition reg_dev :: "kstate \<Rightarrow> u32 \<Rightarrow> u16" where "reg_dev s ch = port_base (ide_channels s ch) + 6"
definition reg_status :: "kstate \<Rightarrow> u32 \<Rightarrow> u16" where "reg_status s ch = port_base (ide_channels s ch) + 7"
definition reg_cmd :: "kstate \<Rightarrow> u32 \<Rightarrow> u16" where "reg_cmd s ch = reg_status s ch"

definition BIT_STAT_BSY :: u8 where "BIT_STAT_BSY = 0x80"
definition BIT_STAT_DRQ :: u8 where "BIT_STAT_DRQ = 0x8"

definition BIT_DEV_MBS :: u32 where "BIT_DEV_MBS = 0xa0"
definition BIT_DEV_LBA :: u32 where "BIT_DEV_LBA = 0x40"
definition BIT_DEV_DEV :: u32 where "BIT_DEV_DEV = 0x10"

definition CMD_READ_SECTOR :: u8 where "CMD_READ_SECTOR = 0x20"
definition CMD_WRITE_SECTOR :: u8 where "CMD_WRITE_SECTOR = 0x30"

definition max_lba :: u32 where "max_lba = 80 * 1024 * 1024 div 512 - 1"

text \<open>Members of struct ide_channel, and element \<open>i\<close> of the array channels.\<close>

definition SIZEOF_IDE_CHANNEL :: u32 where "SIZEOF_IDE_CHANNEL = 1632"
definition chan_lock :: "u32 \<Rightarrow> u32" where "chan_lock ch = ch + 12"
definition disk_done :: "u32 \<Rightarrow> u32" where "disk_done ch = ch + 44"
definition chan_at :: "u32 \<Rightarrow> u8 \<Rightarrow> u32" where "chan_at channels i = channels + ucast i * SIZEOF_IDE_CHANNEL"

definition set_channel :: "u32 \<Rightarrow> (ide_channel \<Rightarrow> ide_channel) \<Rightarrow> kstate \<Rightarrow> kstate" where
  "set_channel ch f s = s\<lparr>ide_channels := (ide_channels s)(ch := f (ide_channels s ch))\<rparr>"

section \<open>Registers\<close>

definition select_disk :: "kstate \<Rightarrow> u32 \<Rightarrow> kstate" where
  "select_disk s hdd =
     (let reg_device = (ucast (BIT_DEV_MBS OR BIT_DEV_LBA) :: u8);
          reg_device1 = (if dev_no (disks s hdd) = 1 then reg_device OR ucast BIT_DEV_DEV else reg_device)
      in outb (reg_dev s (my_channel (disks s hdd))) reg_device1 s)"

definition select_sector :: "kstate \<Rightarrow> u32 \<Rightarrow> u32 \<Rightarrow> u8 \<Rightarrow> kstate kres" where
  "select_sector s hdd lba dec_cnt =
     assertR (lba \<le> max_lba) ''lba <= max_lba''
       (let ch = my_channel (disks s hdd);
            s1 = outb (reg_sect_cnt s ch) dec_cnt s;
            s2 = outb (reg_lba_l s ch) (ucast lba) s1;
            s3 = outb (reg_lba_m s ch) (ucast (drop_bit 8 lba)) s2;
            s4 = outb (reg_lba_h s ch) (ucast (drop_bit 16 lba)) s3
        in Inr (outb (reg_dev s ch) (ucast (BIT_DEV_MBS OR BIT_DEV_LBA OR
             (if dev_no (disks s hdd) = 1 then BIT_DEV_DEV else 0) OR drop_bit 24 lba)) s4))"

definition cmd_out :: "kstate \<Rightarrow> u32 \<Rightarrow> u8 \<Rightarrow> kstate" where
  "cmd_out s ch cmd = outb (reg_cmd s ch) cmd (set_channel ch (\<lambda>c. c\<lparr>expecting_intr := True\<rparr>) s)"

text \<open>outsw of lib/kernel/io.h: the words from \<open>addr\<close> on, low byte first.\<close>

definition mem_word :: "bytes \<Rightarrow> u32 \<Rightarrow> u16" where
  "mem_word m a = ucast (m a) OR push_bit 8 (ucast (m (a + 1)))"

definition outsw :: "u16 \<Rightarrow> u32 \<Rightarrow> u32 \<Rightarrow> kstate \<Rightarrow> kstate" where
  "outsw port addr word_cnt s =
     s\<lparr>outports := outports s @ map (\<lambda>k. (port, Word (mem_word (mem s) (addr + 2 * of_nat k)))) [0..<unat word_cnt]\<rparr>"

definition sector_bytes :: "u8 \<Rightarrow> u32" where
  "sector_bytes sec_cnt = (if sec_cnt = 0 then 256 * 512 else ucast sec_cnt * 512)"

definition write2sector :: "kstate \<Rightarrow> u32 \<Rightarrow> u32 \<Rightarrow> u8 \<Rightarrow> kstate" where
  "write2sector s hdd dbuf sec_cnt =
     (let size_in_bytes = sector_bytes sec_cnt
      in outsw (reg_data s (my_channel (disks s hdd))) dbuf (size_in_bytes div 2) s)"

section \<open>Waiting for the disk\<close>

text \<open>
  The condition of the loop, \<open>time_limit -= 10 >= 0\<close>, subtracts the value of \<open>10 >= 0\<close>, which is 1, and
  ends the loop at 0, where busy_wait returns no value. \<open>inb2\<close> stands for the call of inb with two
  arguments, \<open>thread_yield\<close> for what mtime_sleep needs.
\<close>

function busy_wait_loop ::
  "(u16 \<Rightarrow> kstate \<Rightarrow> u8) \<Rightarrow> (u16 \<Rightarrow> u8 \<Rightarrow> kstate \<Rightarrow> u8) \<Rightarrow> (kstate \<Rightarrow> kstate kres) \<Rightarrow>
    u32 \<Rightarrow> u16 \<Rightarrow> kstate \<Rightarrow> (bool \<times> kstate) kres" where
  "busy_wait_loop inb inb2 thread_yield hd0 time_limit s =
     (let time_limit1 = time_limit - 1; ch = my_channel (disks s hd0) in
      if time_limit1 \<noteq> 0
      then if inb2 (reg_status s ch) BIT_STAT_BSY s = 0
           then Inr (inb (reg_status s ch) s AND BIT_STAT_DRQ \<noteq> 0, s)
           else bindR (mtime_sleep thread_yield s 10) (\<lambda>s1. busy_wait_loop inb inb2 thread_yield hd0 time_limit1 s1)
      else Inl (Overrun ''busy_wait''))"
  by pat_completeness auto

termination
proof (relation "measure (\<lambda>(_, _, _, _, t, _). unat (t - 1))", goal_cases)
  case (2 inb inb2 y h t s t1 c s1)
  then have "unat (t1 - 1) < unat t1" using unat_minus_one [of t1] by (simp add: unat_gt_0)
  then show ?case using 2(1) by simp
qed simp

declare busy_wait_loop.simps [simp del]

definition busy_wait ::
  "(u16 \<Rightarrow> kstate \<Rightarrow> u8) \<Rightarrow> (u16 \<Rightarrow> u8 \<Rightarrow> kstate \<Rightarrow> u8) \<Rightarrow> (kstate \<Rightarrow> kstate kres) \<Rightarrow>
    u32 \<Rightarrow> kstate \<Rightarrow> (bool \<times> kstate) kres" where
  "busy_wait inb inb2 thread_yield hd0 s = busy_wait_loop inb inb2 thread_yield hd0 (30 * 1000) s"

text \<open>A call finds the disk ready or not at once; a busy disk fails the assertion of mtime_sleep, for 10 ms are 0 ticks.\<close>

lemma busy_wait_eq:
  "busy_wait inb inb2 y h s = (let p = reg_status s (my_channel (disks s h)) in
     if inb2 p BIT_STAT_BSY s = 0 then Inr (inb p s AND BIT_STAT_DRQ \<noteq> 0, s)
     else Inl (Assert_failed ''sleep_ticks > 0''))"
  unfolding busy_wait_def by (subst busy_wait_loop.simps) (simp add: mtime_sleep_fails Let_def)

section \<open>Reading and writing\<close>

text \<open>
  \<open>disk_works\<close> is what happens while the driver is about to wait for the disk: the interrupt, when it
  comes before sema_down looks at the semaphore, or nothing, when it comes later.
\<close>

definition secs_at_once :: "u32 \<Rightarrow> u32 \<Rightarrow> u32" where
  "secs_at_once secs_done sec_cnt = (if secs_done + 256 \<le> sec_cnt then 256 else sec_cnt - secs_done)"

partial_function (option) ide_read_loop ::
  "(kstate \<Rightarrow> kstate kres) \<Rightarrow> (u16 \<Rightarrow> kstate \<Rightarrow> u8) \<Rightarrow> (u16 \<Rightarrow> u8 \<Rightarrow> kstate \<Rightarrow> u8) \<Rightarrow> (kstate \<Rightarrow> kstate kres) \<Rightarrow>
    (kstate \<Rightarrow> u32 \<Rightarrow> u32 \<Rightarrow> u8 \<Rightarrow> kstate kres) \<Rightarrow>
    u32 \<Rightarrow> u32 \<Rightarrow> u32 \<Rightarrow> u32 \<Rightarrow> u32 \<Rightarrow> kstate \<Rightarrow> kstate kres option" where
  "ide_read_loop disk_works inb inb2 thread_yield read_from_sector hdd lba dbuf sec_cnt secs_done s =
     (if secs_done < sec_cnt
      then let secs_op = secs_at_once secs_done sec_cnt; ch = my_channel (disks s hdd) in
        (case bindR (select_sector s hdd (lba + secs_done) (ucast secs_op)) (\<lambda>s1.
               bindR (disk_works (cmd_out s1 ch CMD_READ_SECTOR)) (\<lambda>s2.
               bindR (sema_down s2 (disk_done ch)) (\<lambda>s3.
               bindR (busy_wait inb inb2 thread_yield hdd s3) (\<lambda>(ready, s4).
               if \<not> ready then Inl (Panicked ''%s read sector %d failed!!!!'')
               else read_from_sector s4 hdd (dbuf + secs_done * 512) (ucast secs_op))))) of
           Inl e \<Rightarrow> Some (Inl e)
         | Inr s5 \<Rightarrow> ide_read_loop disk_works inb inb2 thread_yield read_from_sector hdd lba dbuf sec_cnt (secs_done + secs_op) s5)
      else Some (Inr s))"

definition ide_read ::
  "(kstate \<Rightarrow> kstate kres) \<Rightarrow> (u16 \<Rightarrow> kstate \<Rightarrow> u8) \<Rightarrow> (u16 \<Rightarrow> u8 \<Rightarrow> kstate \<Rightarrow> u8) \<Rightarrow> (kstate \<Rightarrow> kstate kres) \<Rightarrow>
    (kstate \<Rightarrow> u32 \<Rightarrow> u32 \<Rightarrow> u8 \<Rightarrow> kstate kres) \<Rightarrow>
    kstate \<Rightarrow> u32 \<Rightarrow> u32 \<Rightarrow> u32 \<Rightarrow> u32 \<Rightarrow> kstate kres" where
  "ide_read disk_works inb inb2 thread_yield read_from_sector s hdd lba dbuf sec_cnt =
     assertR (lba \<le> max_lba) ''lba <= max_lba'' (assertR (0 < sec_cnt) ''sec_cnt > 0''
       (bindR (lock_acquire s (chan_lock (my_channel (disks s hdd)))) (\<lambda>s1.
        bindR (joinR (ide_read_loop disk_works inb inb2 thread_yield read_from_sector hdd lba dbuf sec_cnt 0 (select_disk s1 hdd)))
          (\<lambda>s2. lock_release s2 (chan_lock (my_channel (disks s2 hdd)))))))"

partial_function (option) ide_write_loop ::
  "(kstate \<Rightarrow> kstate kres) \<Rightarrow> (u16 \<Rightarrow> kstate \<Rightarrow> u8) \<Rightarrow> (u16 \<Rightarrow> u8 \<Rightarrow> kstate \<Rightarrow> u8) \<Rightarrow> (kstate \<Rightarrow> kstate kres) \<Rightarrow>
    u32 \<Rightarrow> u32 \<Rightarrow> u32 \<Rightarrow> u32 \<Rightarrow> u32 \<Rightarrow> kstate \<Rightarrow> kstate kres option" where
  "ide_write_loop disk_works inb inb2 thread_yield hdd lba dbuf sec_cnt secs_done s =
     (if secs_done < sec_cnt
      then let secs_op = secs_at_once secs_done sec_cnt; ch = my_channel (disks s hdd) in
        (case bindR (select_sector s hdd (lba + secs_done) (ucast secs_op)) (\<lambda>s1.
               bindR (busy_wait inb inb2 thread_yield hdd (cmd_out s1 ch CMD_WRITE_SECTOR)) (\<lambda>(ready, s2).
               if \<not> ready then Inl (Panicked ''%s write sector %d failed!!!!!!'')
               else bindR (disk_works (write2sector s2 hdd (dbuf + secs_done * 512) (ucast secs_op))) (\<lambda>s3.
                    sema_down s3 (disk_done ch)))) of
           Inl e \<Rightarrow> Some (Inl e)
         | Inr s4 \<Rightarrow> ide_write_loop disk_works inb inb2 thread_yield hdd lba dbuf sec_cnt (secs_done + secs_op) s4)
      else Some (Inr s))"

definition ide_write ::
  "(kstate \<Rightarrow> kstate kres) \<Rightarrow> (u16 \<Rightarrow> kstate \<Rightarrow> u8) \<Rightarrow> (u16 \<Rightarrow> u8 \<Rightarrow> kstate \<Rightarrow> u8) \<Rightarrow> (kstate \<Rightarrow> kstate kres) \<Rightarrow>
    kstate \<Rightarrow> u32 \<Rightarrow> u32 \<Rightarrow> u32 \<Rightarrow> u32 \<Rightarrow> kstate kres" where
  "ide_write disk_works inb inb2 thread_yield s hdd lba dbuf sec_cnt =
     assertR (lba \<le> max_lba) ''lba <= max_lba'' (assertR (0 < sec_cnt) ''sec_cnt > 0''
       (bindR (lock_acquire s (chan_lock (my_channel (disks s hdd)))) (\<lambda>s1.
        bindR (joinR (ide_write_loop disk_works inb inb2 thread_yield hdd lba dbuf sec_cnt 0 (select_disk s1 hdd)))
          (\<lambda>s2. lock_release s2 (chan_lock (my_channel (disks s2 hdd)))))))"

text \<open>
  ide_write from the wait of a request on, for a thread that was blocked there and has got the
  processor back: the rest of sema_down, the requests that are left and the release of the lock.
  \<open>secs_done\<close> is the local variable, \<open>old_status\<close> that of sema_down.
\<close>

definition ide_write_resume ::
  "(kstate \<Rightarrow> kstate kres) \<Rightarrow> (u16 \<Rightarrow> kstate \<Rightarrow> u8) \<Rightarrow> (u16 \<Rightarrow> u8 \<Rightarrow> kstate \<Rightarrow> u8) \<Rightarrow> (kstate \<Rightarrow> kstate kres) \<Rightarrow>
    kstate \<Rightarrow> u32 \<Rightarrow> u32 \<Rightarrow> u32 \<Rightarrow> u32 \<Rightarrow> u32 \<Rightarrow> intr_status \<Rightarrow> kstate kres" where
  "ide_write_resume disk_works inb inb2 thread_yield s hdd lba dbuf sec_cnt secs_done old_status =
     bindR (sema_down_resume s (disk_done (my_channel (disks s hdd))) old_status) (\<lambda>s1.
     bindR (joinR (ide_write_loop disk_works inb inb2 thread_yield hdd lba dbuf sec_cnt
         (secs_done + secs_at_once secs_done sec_cnt) s1))
       (\<lambda>s2. lock_release s2 (chan_lock (my_channel (disks s2 hdd)))))"

text \<open>The interrupt of the disk; the status register it reads to acknowledge has no effect here.\<close>

definition intr_hd_handler :: "u32 \<Rightarrow> kstate \<Rightarrow> u8 \<Rightarrow> kstate kres" where
  "intr_hd_handler channels s irq =
     assertR (irq = 0x2e \<or> irq = 0x2f) ''irq_no == 0x2e || irq_no == 0x2f''
       (let ch_no = irq - 0x20 - 0xe; ch = chan_at channels ch_no in
        assertR (irq_no (ide_channels s ch) = irq) ''channel->irq_no == irq_no''
          (if expecting_intr (ide_channels s ch)
           then sema_up (set_channel ch (\<lambda>c. c\<lparr>expecting_intr := False\<rparr>) s) (disk_done ch)
           else Inr s))"

section \<open>ide_init\<close>

lemma u8_Suc: "i < n \<Longrightarrow> unat (i + 1 :: u8) = Suc (unat i)"
  using unat_u8_bound [of n] by (simp add: unat_plus_if' word_less_nat_alt)

function ide_init_loop :: "(string \<Rightarrow> nat \<Rightarrow> string) \<Rightarrow> u32 \<Rightarrow> u8 \<Rightarrow> u8 \<Rightarrow> kstate \<Rightarrow> kstate" where
  "ide_init_loop sprintf channels cnt channel_no s =
     (if channel_no < cnt
      then let ch = chan_at channels channel_no;
               s1 = set_channel ch (\<lambda>c. c\<lparr>chan_name := sprintf ''ide%d'' (unat channel_no)\<rparr>) s;
               s2 = (if channel_no = 0 then set_channel ch (\<lambda>c. c\<lparr>port_base := 0x1f0, irq_no := 0x20 + 14\<rparr>) s1
                     else if channel_no = 1 then set_channel ch (\<lambda>c. c\<lparr>port_base := 0x170, irq_no := 0x20 + 15\<rparr>) s1
                     else s1);
               s3 = lock_init (set_channel ch (\<lambda>c. c\<lparr>expecting_intr := False\<rparr>) s2) (chan_lock ch)
           in ide_init_loop sprintf channels cnt (channel_no + 1) (sema_init s3 (disk_done ch) 0)
      else s)"
  by pat_completeness auto

termination
  by (relation "measure (\<lambda>(_, _, n, i, _). unat n - unat i)") (auto simp: u8_Suc word_less_nat_alt)

declare ide_init_loop.simps [simp del]

definition ide_init :: "(string \<Rightarrow> kstate \<Rightarrow> kstate) \<Rightarrow> (string \<Rightarrow> nat \<Rightarrow> string) \<Rightarrow> u32 \<Rightarrow> kstate \<Rightarrow> kstate kres" where
  "ide_init printk sprintf channels s0 =
     (let s = printk ''ide_init start\<newline>'' s0; hd_cnt = mem s 0x475 in
      assertR (0 < hd_cnt) ''hd_cnt > 0''
        (let s1 = s\<lparr>channel_cnt := ucast ((ucast hd_cnt + 2 - 1 :: u32) div 2)\<rparr>
         in Inr (printk ''ide_init done\<newline>'' (ide_init_loop sprintf channels (channel_cnt s1) 0 s1))))"

text \<open>The two channels of the controller, with the vectors whose interrupts intr_hd_handler looks up.\<close>

definition ide_channel_ok :: "u32 \<Rightarrow> kstate \<Rightarrow> u8 \<Rightarrow> u16 \<Rightarrow> u8 \<Rightarrow> bool" where
  "ide_channel_ok channels s i p irq \<longleftrightarrow> (let ch = chan_at channels i in
     port_base (ide_channels s ch) = p \<and> irq_no (ide_channels s ch) = irq \<and> \<not> expecting_intr (ide_channels s ch) \<and>
     lock_holder s (chan_lock ch) = 0 \<and> sema_value s (disk_done ch) = 0)"

lemma sync_sel:
  "ide_channels (lock_init s l) = ide_channels s" "ide_channels (sema_init s p v) = ide_channels s"
  "channel_cnt (lock_init s l) = channel_cnt s" "channel_cnt (sema_init s p v) = channel_cnt s"
  "lock_holder (lock_init s l) = (lock_holder s)(l := 0)" "lock_holder (sema_init s p v) = lock_holder s"
  "sema_value (lock_init s l) = (sema_value s)(lock_semaphore l := 1)" "sema_value (sema_init s p v) = (sema_value s)(p := v)"
  by (simp_all add: lock_init_def sema_init_def list_init_def set_sema_value_def set_holder_def set_repeat_def)

lemma set_channel_sel:
  "ide_channels (set_channel ch f s) = (ide_channels s)(ch := f (ide_channels s ch))"
  "channel_cnt (set_channel ch f s) = channel_cnt s" "lock_holder (set_channel ch f s) = lock_holder s"
  "sema_value (set_channel ch f s) = sema_value s"
  by (simp_all add: set_channel_def)

lemma ide_init_channels:
  assumes "mem s 0x475 = 3 \<or> mem s 0x475 = 4"
  shows "\<exists>s'. ide_init (\<lambda>_ s. s) sprintf channels s = Inr s' \<and> channel_cnt s' = 2 \<and>
    ide_channel_ok channels s' 0 0x1f0 0x2e \<and> ide_channel_ok channels s' 1 0x170 0x2f"
proof -
  have cnt: "(ucast ((ucast (mem s 0x475) + 2 - 1 :: u32) div 2) :: u8) = 2" "0 < mem s 0x475" using assms by auto
  let ?s = "s\<lparr>channel_cnt := 2\<rparr>"
  have at: "chan_at channels 0 = channels" "chan_at channels 1 = channels + 1632"
    by (simp_all add: chan_at_def SIZEOF_IDE_CHANNEL_def)
  define s' where "s' = ide_init_loop sprintf channels 2 0 ?s"
  have s': "s' = sema_init (lock_init (set_channel (chan_at channels 1) (\<lambda>c. c\<lparr>expecting_intr := False\<rparr>) (set_channel (chan_at channels 1)
      (\<lambda>c. c\<lparr>port_base := 0x170, irq_no := 0x20 + 15\<rparr>) (set_channel (chan_at channels 1) (\<lambda>c. c\<lparr>chan_name := sprintf ''ide%d'' 1\<rparr>)
      (sema_init (lock_init (set_channel (chan_at channels 0) (\<lambda>c. c\<lparr>expecting_intr := False\<rparr>) (set_channel (chan_at channels 0)
      (\<lambda>c. c\<lparr>port_base := 0x1f0, irq_no := 0x20 + 14\<rparr>) (set_channel (chan_at channels 0) (\<lambda>c. c\<lparr>chan_name := sprintf ''ide%d'' 0\<rparr>) ?s)))
      (chan_lock (chan_at channels 0))) (disk_done (chan_at channels 0)) 0))))
      (chan_lock (chan_at channels 1))) (disk_done (chan_at channels 1)) 0"
    unfolding s'_def by (subst ide_init_loop.simps, subst ide_init_loop.simps, subst ide_init_loop.simps) (simp add: Let_def)
  have "ide_init (\<lambda>_ s. s) sprintf channels s = Inr s'"
    unfolding ide_init_def Let_def s'_def using cnt by simp
  moreover have "channel_cnt s' = 2" unfolding s' by (simp add: sync_sel set_channel_sel)
  moreover have "ide_channel_ok channels s' 0 0x1f0 0x2e" "ide_channel_ok channels s' 1 0x170 0x2f"
    unfolding ide_channel_ok_def Let_def s' at
    by (simp_all add: sync_sel set_channel_sel chan_lock_def disk_done_def lock_semaphore_def)
  ultimately show ?thesis by blast
qed

section \<open>The disk\<close>

text \<open>
  What the two disks of a channel on the ports from \<open>p\<close> on make of the log of the ports. They keep the
  bytes written to their registers; the byte 0x30 in the command register, with the LBA bit of
  the device register set, starts a transfer to the disk and the sector the registers name, where a
  count of 0 means 256; each word then written to the data port is the next word of the platter,
  256 for a sector. A command or a register written during a transfer, another command, a byte or
  a word sent when no transfer is on: the disk does not understand and the result is \<open>None\<close>. Words of the
  platter are counted from its start, sector \<open>l\<close> is words \<open>256 * l\<close> to \<open>256 * l + 255\<close>.
\<close>

record drive =
  d_regs :: "u16 \<Rightarrow> u8"
  d_todo :: "(bool \<times> nat \<times> nat) option"
  d_platter :: "bool \<Rightarrow> nat \<Rightarrow> u16"

definition transfer_of :: "u16 \<Rightarrow> (u16 \<Rightarrow> u8) \<Rightarrow> bool \<times> nat \<times> nat" where
  "transfer_of p r = (bit (r (p + 6)) 4,
     256 * (unat (r (p + 3)) + 256 * unat (r (p + 4)) + 65536 * unat (r (p + 5)) + 16777216 * (unat (r (p + 6)) mod 16)),
     256 * (if r (p + 2) = 0 then 256 else unat (r (p + 2))))"

fun disk_step :: "u16 \<Rightarrow> drive \<Rightarrow> u16 \<times> port_data \<Rightarrow> drive option" where
  "disk_step p d (q, Byte b) =
     (if q = p + 7
      then if d_todo d = None \<and> b = 0x30 \<and> bit (d_regs d (p + 6)) 6
           then Some (d\<lparr>d_todo := Some (transfer_of p (d_regs d))\<rparr>) else None
      else if q - p < 7
      then if d_todo d = None \<and> q \<noteq> p then Some (d\<lparr>d_regs := (d_regs d)(q := b)\<rparr>) else None
      else Some d)"
| "disk_step p d (q, Word w) =
     (if q \<noteq> p then Some d
      else case d_todo d of
        None \<Rightarrow> None
      | Some (sl, pos, n) \<Rightarrow> Some (d\<lparr>d_todo := (if n \<le> 1 then None else Some (sl, pos + 1, n - 1)),
          d_platter := (d_platter d)(sl := (d_platter d sl)(pos := w))\<rparr>))"

fun disk_run :: "u16 \<Rightarrow> drive \<Rightarrow> (u16 \<times> port_data) list \<Rightarrow> drive option" where
  "disk_run p d [] = Some d"
| "disk_run p d (e # log) = (case disk_step p d e of None \<Rightarrow> None | Some d1 \<Rightarrow> disk_run p d1 log)"

text \<open>
  The status register: ready, and DRQ while words are awaited; this disk is never seen busy. The two
  ways of reading it answer for a disk that has understood all that was sent since \<open>d0\<close>.
\<close>

definition disk_status :: "drive \<Rightarrow> u8" where
  "disk_status d = (if d_todo d = None then 0x40 else 0x48)"

definition drive_answers :: "u16 \<Rightarrow> drive \<Rightarrow> (u16 \<Rightarrow> kstate \<Rightarrow> u8) \<Rightarrow> (u16 \<Rightarrow> u8 \<Rightarrow> kstate \<Rightarrow> u8) \<Rightarrow> bool" where
  "drive_answers p d0 inb inb2 \<longleftrightarrow> (\<forall>s d. disk_run p d0 (outports s) = Some d \<longrightarrow>
     inb (p + 7) s = disk_status d \<and> (\<forall>b. inb2 (p + 7) b s = disk_status d AND b))"

lemma disk_run_append:
  "disk_run p d (xs @ ys) = (case disk_run p d xs of None \<Rightarrow> None | Some d1 \<Rightarrow> disk_run p d1 ys)"
  by (induction xs arbitrary: d) (auto split: option.split)

text \<open>The platter with \<open>n\<close> words written from \<open>pos\<close> on.\<close>

definition filled_with :: "(bool \<Rightarrow> nat \<Rightarrow> u16) \<Rightarrow> bool \<Rightarrow> nat \<Rightarrow> nat \<Rightarrow> (nat \<Rightarrow> u16) \<Rightarrow> bool \<Rightarrow> nat \<Rightarrow> u16" where
  "filled_with pl sl pos n f = (\<lambda>x k. if x = sl \<and> pos \<le> k \<and> k < pos + n then f (k - pos) else pl x k)"

lemma filled_with_more:
  "filled_with (filled_with pl sl pos m f) sl (pos + m) n (\<lambda>k. f (m + k)) = filled_with pl sl pos (m + n) f"
  by (auto simp: filled_with_def fun_eq_iff)

lemma words_run:
  assumes "0 < n" "d_todo d = Some (sl, pos, n)"
  shows "disk_run p d (map (\<lambda>k. (p, Word (f k))) [0..<n]) =
    Some (d\<lparr>d_todo := None, d_platter := filled_with (d_platter d) sl pos n f\<rparr>)"
  using assms
proof (induction n arbitrary: d pos f)
  case (Suc n)
  let ?d = "d\<lparr>d_todo := (if Suc n \<le> 1 then None else Some (sl, pos + 1, n)), d_platter := (d_platter d)(sl := (d_platter d sl)(pos := f 0))\<rparr>"
  have first: "filled_with (d_platter d) sl pos (Suc 0) f = (d_platter d)(sl := (d_platter d sl)(pos := f 0))"
    by (auto simp: filled_with_def fun_eq_iff)
  have step: "disk_step p d (p, Word (f 0)) = Some ?d" using Suc.prems(2) by simp
  have range: "[0..<Suc n] = 0 # map Suc [0..<n]" by (simp add: upt_conv_Cons map_Suc_upt del: upt_Suc)
  have run: "disk_run p d (map (\<lambda>k. (p, Word (f k))) [0..<Suc n]) = disk_run p ?d (map (\<lambda>k. (p, Word (f (Suc k)))) [0..<n])"
    unfolding range by (simp add: step comp_def del: disk_step.simps)
  show ?case
  proof (cases "n = 0")
    case True
    then have "?d = d\<lparr>d_todo := None, d_platter := filled_with (d_platter d) sl pos (Suc n) f\<rparr>"
      by (simp add: first del: fun_upd_apply)
    then show ?thesis unfolding run using True by simp
  next
    case False
    then have "disk_run p ?d (map (\<lambda>k. (p, Word (f (Suc k)))) [0..<n]) =
        Some (?d\<lparr>d_todo := None, d_platter := filled_with (d_platter ?d) sl (pos + 1) n (\<lambda>k. f (Suc k))\<rparr>)"
      by (intro Suc.IH) simp_all
    moreover have "filled_with (d_platter ?d) sl (pos + 1) n (\<lambda>k. f (Suc k)) = filled_with (d_platter d) sl pos (Suc n) f"
      using filled_with_more [of "d_platter d" sl pos "Suc 0" f n] first by simp
    ultimately show ?thesis unfolding run by simp
  qed
qed simp

text \<open>The bytes of select_sector and cmd_out.\<close>

definition dev_byte :: "bool \<Rightarrow> u8" where
  "dev_byte slave = (if slave then 0xf0 else 0xe0)"

definition command_log :: "u16 \<Rightarrow> bool \<Rightarrow> u32 \<Rightarrow> u8 \<Rightarrow> u8 \<Rightarrow> (u16 \<times> port_data) list" where
  "command_log p slave lba cnt cmd = [(p + 2, Byte cnt), (p + 3, Byte (ucast lba)), (p + 4, Byte (ucast (drop_bit 8 lba))),
     (p + 5, Byte (ucast (drop_bit 16 lba))), (p + 6, Byte (dev_byte slave)), (p + 7, Byte cmd)]"

lemma lba_bytes:
  assumes "unat (lba :: u32) < 16777216"
  shows "unat (ucast lba :: u8) + 256 * unat (ucast (drop_bit 8 lba) :: u8) + 65536 * unat (ucast (drop_bit 16 lba) :: u8) = unat lba"
proof -
  have d: "unat (drop_bit 8 lba) = unat lba div 256" "unat (drop_bit 16 lba) = unat lba div 65536"
    by (simp_all add: drop_bit_eq_div unat_div)
  have u: "unat (ucast x :: u8) = unat x mod 256" for x :: u32 by (simp add: unsigned_ucast_eq take_bit_eq_mod)
  have "unat lba div 65536 mod 256 = unat lba div 65536" using assms by (simp add: less_mult_imp_div_less)
  moreover have "unat lba div 65536 * 256 + unat lba div 256 mod 256 = unat lba div 256"
    using div_mult_mod_eq [of "unat lba div 256" 256] by (simp add: div_mult2_eq [symmetric])
  moreover have "unat lba div 256 * 256 + unat lba mod 256 = unat lba" by (rule div_mult_mod_eq)
  ultimately show ?thesis unfolding u d by linarith
qed

lemma command_run:
  assumes "d_todo d = None" "unat lba < 16777216"
  shows "\<exists>r. disk_run p d (command_log p slave lba cnt CMD_WRITE_SECTOR) =
    Some (d\<lparr>d_regs := r, d_todo := Some (slave, 256 * unat lba, 256 * (if cnt = 0 then 256 else unat cnt))\<rparr>)"
  using assms(1)
  by (intro exI [of _ "(d_regs d)(p + 2 := cnt, p + 3 := ucast lba, p + 4 := ucast (drop_bit 8 lba),
      p + 5 := ucast (drop_bit 16 lba), p + 6 := dev_byte slave)"])
    (simp add: command_log_def transfer_of_def lba_bytes [OF assms(2), simplified] dev_byte_def CMD_WRITE_SECTOR_def)

section \<open>One request\<close>

text \<open>The disk \<open>hdd\<close> on a channel whose semaphore is taken and has no waiter, and which is element \<open>irq - 0x2e\<close> of the array.\<close>

definition drive_ready :: "u32 \<Rightarrow> u8 \<Rightarrow> u32 \<Rightarrow> (u32 \<Rightarrow> u32 list option) \<Rightarrow> kstate \<Rightarrow> bool" where
  "drive_ready channels irq hdd F s \<longleftrightarrow> (let ch = my_channel (disks s hdd) in
     (irq = 0x2e \<or> irq = 0x2f) \<and> ch = chan_at channels (irq - 0x2e) \<and> irq_no (ide_channels s ch) = irq \<and>
     sema_value s (disk_done ch) = 0 \<and> k_family s F \<and> F (sema_waiters (disk_done ch)) = Some [])"

definition is_slave :: "u32 \<Rightarrow> kstate \<Rightarrow> bool" where
  "is_slave hdd s \<longleftrightarrow> dev_no (disks s hdd) = 1"

abbreviation drive_port :: "u32 \<Rightarrow> kstate \<Rightarrow> u16" where
  "drive_port hdd s \<equiv> port_base (ide_channels s (my_channel (disks s hdd)))"

abbreviation buffer_word :: "kstate \<Rightarrow> u32 \<Rightarrow> nat \<Rightarrow> u16" where
  "buffer_word s a k \<equiv> mem_word (mem s) (a + 2 * of_nat k)"

text \<open>The state with \<open>log\<close> sent and an interrupt expected or not.\<close>

definition sent :: "u32 \<Rightarrow> bool \<Rightarrow> (u16 \<times> port_data) list \<Rightarrow> kstate \<Rightarrow> kstate" where
  "sent ch e log s = s\<lparr>outports := outports s @ log,
     ide_channels := (ide_channels s)(ch := (ide_channels s ch)\<lparr>expecting_intr := e\<rparr>)\<rparr>"

lemma drive_ready_cong:
  "disks s' = disks s \<Longrightarrow> irq_no (ide_channels s' (my_channel (disks s hdd))) = irq_no (ide_channels s (my_channel (disks s hdd))) \<Longrightarrow>
    sema_value s' (disk_done (my_channel (disks s hdd))) = sema_value s (disk_done (my_channel (disks s hdd))) \<Longrightarrow>
    lheap s' = lheap s \<Longrightarrow> drive_ready channels irq hdd F s' = drive_ready channels irq hdd F s"
  unfolding drive_ready_def Let_def k_family_def by simp

lemma sent_sent: "sent ch e' log' (sent ch e log s) = sent ch e' (log @ log') s"
  by (simp add: sent_def)

lemma sent_sel [simp]:
  "disks (sent ch e log s) = disks s" "mem (sent ch e log s) = mem s" "outports (sent ch e log s) = outports s @ log"
  "port_base (ide_channels (sent ch e log s) x) = port_base (ide_channels s x)" "cur (sent ch e log s) = cur s"
  "lheap (sent ch e log s) = lheap s" "phys (sent ch e log s) = phys s" "cr3 (sent ch e log s) = cr3 s" "tasks (sent ch e log s) = tasks s"
  "eflags (sent ch e log s) = eflags s" "sema_value (sent ch e log s) = sema_value s" "lock_holder (sent ch e log s) = lock_holder s"
  "holder_repeat_nr (sent ch e log s) = holder_repeat_nr s" "expecting_intr (ide_channels (sent ch e log s) ch) = e"
  "irq_no (ide_channels (sent ch e log s) x) = irq_no (ide_channels s x)"
  "is_slave hdd (sent ch e log s) = is_slave hdd s" "drive_ready channels irq hdd F (sent ch e log s) = drive_ready channels irq hdd F s"
  by (simp_all add: sent_def is_slave_def drive_ready_def k_family_def Let_def)

lemma dev_byte_or:
  "ucast (BIT_DEV_MBS OR BIT_DEV_LBA OR (if b then BIT_DEV_DEV else 0)) = dev_byte b"
  by (simp add: BIT_DEV_MBS_def BIT_DEV_LBA_def BIT_DEV_DEV_def dev_byte_def)

lemma select_cmd:
  assumes "unat lba \<le> 163839"
  defines "s' s hdd cnt \<equiv> s\<lparr>outports := outports s @ butlast (command_log (drive_port hdd s) (is_slave hdd s) lba cnt 0)\<rparr>"
  shows "select_sector s hdd lba cnt = Inr (s' s hdd cnt)"
proof -
  have "drop_bit 24 lba = 0" using assms by (intro u32_eqI) (simp add: drop_bit_eq_div unat_div)
  moreover have "lba \<le> max_lba" using assms by (simp add: max_lba_def word_le_nat_alt)
  ultimately show ?thesis
    using dev_byte_or [of "dev_no (disks s hdd) = 1"]
    by (simp add: select_sector_def s'_def command_log_def outb_def reg_sect_cnt_def reg_lba_l_def reg_lba_m_def reg_lba_h_def
        reg_dev_def is_slave_def Let_def)
qed

lemma sector_words: "cnt = of_nat c \<Longrightarrow> 0 < c \<Longrightarrow> c \<le> 256 \<Longrightarrow> unat (sector_bytes cnt div 2) = 256 * c \<and> (if cnt = 0 then 256 else unat cnt) = c"
proof (cases "c = 256")
  case False
  assume c: "cnt = of_nat c" "0 < c" "c \<le> 256"
  then have u: "unat cnt = c" using False by (simp add: unat_of_nat)
  then have "unat (ucast cnt * 512 :: u32) = c * 512"
    using c False by (simp add: unat_mult_u32 unsigned_ucast_eq take_bit_eq_mod)
  moreover have "cnt \<noteq> 0" using u c(2) by auto
  ultimately show ?thesis using u by (simp add: sector_bytes_def unat_div)
qed (simp add: sector_bytes_def)

text \<open>A disk that stands by, \<open>d\<close>, and what it is after the first \<open>m\<close> words of a buffer.\<close>

definition disk_at :: "u16 \<Rightarrow> drive \<Rightarrow> (bool \<Rightarrow> nat \<Rightarrow> u16) \<Rightarrow> kstate \<Rightarrow> bool" where
  "disk_at p d0 pl s \<longleftrightarrow> (\<exists>d. disk_run p d0 (outports s) = Some d \<and> d_todo d = None \<and> d_platter d = pl)"

text \<open>
  Up to the wait for the interrupt: the command is understood, the status then read says that words
  are awaited, and the words sent are all the disk wants.
\<close>

lemma request_sent:
  fixes F
  assumes disk: "disk_at p d0 pl s" "drive_answers p d0 inb inb2" and p: "p = drive_port hdd s"
    and l: "unat l \<le> 163839" and c: "cnt = of_nat c" "0 < c" "c \<le> 256"
  defines "ch \<equiv> my_channel (disks s hdd)"
  obtains log where "\<And>(X :: kstate \<Rightarrow> kstate kres) msg. bindR (select_sector s hdd l cnt) (\<lambda>s1.
      bindR (busy_wait inb inb2 y hdd (cmd_out s1 ch CMD_WRITE_SECTOR)) (\<lambda>(ready, s2).
        if \<not> ready then Inl (Panicked msg) else X (write2sector s2 hdd a cnt))) = X (sent ch True log s)"
    "\<And>e. disk_at p d0 (filled_with pl (is_slave hdd s) (256 * unat l) (256 * c) (buffer_word s a)) (sent ch e log s)"
proof -
  define cmds where "cmds = command_log p (is_slave hdd s) l cnt CMD_WRITE_SECTOR"
  define words where "words = map (\<lambda>k. (p, Word (buffer_word s a k))) [0..<256 * c]"
  let ?s1 = "s\<lparr>outports := outports s @ butlast (command_log p (is_slave hdd s) l cnt 0)\<rparr>"
  define u where "u = cmd_out ?s1 ch CMD_WRITE_SECTOR"
  have u: "u = sent ch True cmds s"
    by (simp add: u_def cmd_out_def set_channel_def outb_def reg_cmd_def reg_status_def cmds_def command_log_def sent_def ch_def p)
  obtain d where d: "disk_run p d0 (outports s) = Some d" "d_todo d = None" "d_platter d = pl"
    using disk(1) by (auto simp: disk_at_def)
  note sw = sector_words [OF c]
  have "unat l < 16777216" using l by simp
  from command_run [OF d(2) this, of p "is_slave hdd s" cnt] obtain r where r: "disk_run p d cmds =
      Some (d\<lparr>d_regs := r, d_todo := Some (is_slave hdd s, 256 * unat l, 256 * c)\<rparr>)"
    unfolding conjunct2 [OF sw] cmds_def by blast
  let ?d1 = "d\<lparr>d_regs := r, d_todo := Some (is_slave hdd s, 256 * unat l, 256 * c)\<rparr>"
  have run1: "disk_run p d0 (outports u) = Some ?d1" by (simp add: u disk_run_append d(1) r)
  have st: "reg_status u (my_channel (disks u hdd)) = p + 7" by (simp add: u reg_status_def p)
  have wait: "busy_wait inb inb2 y hdd u = Inr (True, u)"
    using disk(2) run1 unfolding drive_answers_def busy_wait_eq Let_def st
    by (auto simp: disk_status_def BIT_STAT_BSY_def BIT_STAT_DRQ_def)
  have wr: "write2sector u hdd a cnt = sent ch True (cmds @ words) s"
    using sw by (simp add: write2sector_def outsw_def reg_data_def u p [symmetric] words_def) (simp add: sent_def)
  have run2: "disk_run p ?d1 words = Some (?d1\<lparr>d_todo := None,
      d_platter := filled_with pl (is_slave hdd s) (256 * unat l) (256 * c) (buffer_word s a)\<rparr>)"
    unfolding words_def using words_run [of "256 * c" ?d1 "is_slave hdd s" "256 * unat l" p "buffer_word s a"] c(2) d(3) by simp
  show thesis
  proof (rule that)
    show "bindR (select_sector s hdd l cnt) (\<lambda>s1. bindR (busy_wait inb inb2 y hdd (cmd_out s1 ch CMD_WRITE_SECTOR)) (\<lambda>(ready, s2).
        if \<not> ready then Inl (Panicked msg) else X (write2sector s2 hdd a cnt))) = X (sent ch True (cmds @ words) s)" for X :: "kstate \<Rightarrow> kstate kres" and msg
      using select_cmd [OF l, of s hdd cnt] wait by (simp add: p [symmetric] u_def [symmetric] wr)
    show "disk_at p d0 (filled_with pl (is_slave hdd s) (256 * unat l) (256 * c) (buffer_word s a)) (sent ch e (cmds @ words) s)" for e
      by (simp add: disk_at_def disk_run_append d(1) r run2)
  qed
qed

lemma drive_readyD:
  fixes s hdd
  defines "ch \<equiv> my_channel (disks s hdd)"
  assumes "drive_ready channels irq hdd F s"
  shows "irq = 0x2e \<or> irq = 0x2f" "chan_at channels (irq - 0x20 - 0xe) = ch" "irq_no (ide_channels s ch) = irq"
    "sema_value s (disk_done ch) = 0" "k_family s F" "F (sema_waiters (disk_done ch)) = Some []"
  using assms(2) by (auto simp: drive_ready_def Let_def ch_def)

text \<open>The interrupt of the disk lets the driver through the semaphore.\<close>

lemma interrupt_then_down:
  assumes r: "drive_ready channels irq hdd F s" and e: "expecting_intr (ide_channels s (my_channel (disks s hdd)))"
  defines "ch \<equiv> my_channel (disks s hdd)"
  shows "bindR (intr_hd_handler channels s irq) (\<lambda>s1. sema_down s1 (disk_done ch)) = Inr (sent ch False [] s)"
proof -
  let ?s1 = "set_channel ch (\<lambda>c. c\<lparr>expecting_intr := False\<rparr>) s"
  note c = drive_readyD [OF r, folded ch_def]
  have "sema_up ?s1 (disk_done ch) = Inr (set_sema_value (disk_done ch) 1 ?s1)"
    by (rule sema_up_no_waiter [of _ F]) (use c in \<open>simp_all add: set_channel_def k_family_def\<close>)
  then have "intr_hd_handler channels s irq = Inr (set_sema_value (disk_done ch) 1 ?s1)"
    unfolding intr_hd_handler_def Let_def c(2) using c(1,3) e by (simp add: ch_def)
  moreover have "sema_down (set_sema_value (disk_done ch) 1 ?s1) (disk_done ch) =
      Inr (set_sema_value (disk_done ch) 0 (set_sema_value (disk_done ch) 1 ?s1))"
    by (rule sema_down_free) simp
  moreover have "set_sema_value (disk_done ch) 0 (set_sema_value (disk_done ch) 1 ?s1) = sent ch False [] s"
    using c(4) by (simp add: sent_def set_channel_def set_sema_value_def fun_upd_idem)
  ultimately show ?thesis by simp
qed

section \<open>ide_write\<close>

text \<open>The requests for the sectors from \<open>d\<close> to \<open>n\<close>, each followed by its interrupt.\<close>

lemma write_loop:
  fixes irq channels lba
  assumes r: "drive_ready channels irq hdd F s" and d: "unat d < unat n" "unat lba + unat n \<le> 163840"
    and disk: "disk_at p d0 pl s" "drive_answers p d0 inb inb2" and p: "p = drive_port hdd s"
  shows "\<exists>log. ide_write_loop (\<lambda>s. intr_hd_handler channels s irq) inb inb2 y hdd lba a n d s =
      Some (Inr (sent (my_channel (disks s hdd)) False log s)) \<and>
    disk_at p d0 (filled_with pl (is_slave hdd s) (256 * (unat lba + unat d)) (256 * (unat n - unat d))
      (buffer_word s (a + d * 512))) (sent (my_channel (disks s hdd)) False log s)"
  using r d(1) disk(1) p
proof (induction "unat n - unat d" arbitrary: d s pl rule: less_induct)
  case less
  let ?c = "min 256 (unat n - unat d)" and ?op = "secs_at_once d n" and ?ch = "my_channel (disks s hdd)" and ?sl = "is_slave hdd s"
  have n: "unat n \<le> 163840" "unat d < 163840" using less.prems(2) d(2) by simp_all
  have op: "unat ?op = ?c"
  proof -
    have "unat (d + 256) = unat d + 256" using n by (simp add: unat_add_u32)
    moreover have "unat (n - d) = unat n - unat d" using less.prems(2) by (simp add: unat_diff_u32 word_le_nat_alt)
    ultimately show ?thesis by (auto simp: secs_at_once_def word_le_nat_alt)
  qed
  have cnt: "ucast ?op = (of_nat ?c :: u8)" unfolding op [symmetric] by simp
  have c: "0 < ?c" "?c \<le> 256" using less.prems(2) by simp_all
  have ld: "unat (lba + d) = unat lba + unat d" using n d(2) less.prems(2) by (simp add: unat_add_u32)
  have d': "unat (d + ?op) = unat d + ?c" using n op c by (simp add: unat_add_u32)
  have "unat (lba + d) \<le> 163839" using ld d(2) less.prems(2) by simp
  from request_sent [OF less.prems(3) disk(2) less.prems(4) this cnt c]
  obtain log where log: "\<And>(X :: kstate \<Rightarrow> kstate kres) msg. bindR (select_sector s hdd (lba + d) (ucast ?op)) (\<lambda>s1.
      bindR (busy_wait inb inb2 y hdd (cmd_out s1 ?ch CMD_WRITE_SECTOR)) (\<lambda>(ready, s2).
        if \<not> ready then Inl (Panicked msg) else X (write2sector s2 hdd (a + d * 512) (ucast ?op)))) = X (sent ?ch True log s)"
    "\<And>e. disk_at p d0 (filled_with pl ?sl (256 * unat (lba + d)) (256 * ?c) (buffer_word s (a + d * 512))) (sent ?ch e log s)"
    by blast
  let ?s' = "sent ?ch False log s"
  have rt: "drive_ready channels irq hdd F (sent ?ch True log s)" using less.prems(1) by simp
  have intr: "bindR (intr_hd_handler channels (sent ?ch True log s) irq) (\<lambda>s3. sema_down s3 (disk_done ?ch)) = Inr ?s'"
    using interrupt_then_down [OF rt] by (simp add: sent_sent)
  have step: "ide_write_loop (\<lambda>s. intr_hd_handler channels s irq) inb inb2 y hdd lba a n d s =
      ide_write_loop (\<lambda>s. intr_hd_handler channels s irq) inb inb2 y hdd lba a n (d + ?op) ?s'"
    by (subst ide_write_loop.simps) (use less.prems(2) in \<open>simp only: Let_def
      log(1) [of _ "\<lambda>t. bindR (intr_hd_handler channels t irq) (\<lambda>s3. sema_down s3 (disk_done ?ch))"]
      intr word_less_nat_alt if_True sum.case\<close>)
  have disk': "disk_at p d0 (filled_with pl ?sl (256 * (unat lba + unat d)) (256 * ?c) (buffer_word s (a + d * 512))) ?s'"
    using log(2) ld by simp
  show ?case
  proof (cases "unat (d + ?op) < unat n")
    case True
    let ?rest = "unat n - unat (d + ?op)" and ?f = "buffer_word s (a + d * 512)"
    have lt: "?rest < unat n - unat d" using d' c(1) less.prems(2) by linarith
    have r': "drive_ready channels irq hdd F ?s'" "p = drive_port hdd ?s'" using less.prems(1,4) by simp_all
    obtain log' where log': "ide_write_loop (\<lambda>s. intr_hd_handler channels s irq) inb inb2 y hdd lba a n (d + ?op) ?s' =
        Some (Inr (sent ?ch False log' ?s'))"
      "disk_at p d0 (filled_with (filled_with pl ?sl (256 * (unat lba + unat d)) (256 * ?c) ?f) ?sl
        (256 * (unat lba + unat (d + ?op))) (256 * ?rest) (buffer_word s (a + (d + ?op) * 512))) (sent ?ch False log' ?s')"
      using less.hyps [OF lt r'(1) True disk' r'(2)] by auto
    have c256: "?c = 256" using True d' by simp
    have "?op = 256" using op c256 by (intro u32_eqI) simp
    then have f: "buffer_word s (a + (d + ?op) * 512) = (\<lambda>k. ?f (256 * ?c + k))"
      by (simp add: c256 fun_eq_iff algebra_simps)
    have pos: "256 * (unat lba + unat (d + ?op)) = 256 * (unat lba + unat d) + 256 * ?c" unfolding d' by simp
    have sum: "256 * ?c + 256 * ?rest = 256 * (unat n - unat d)" using d' True by simp
    have "disk_at p d0 (filled_with pl ?sl (256 * (unat lba + unat d)) (256 * (unat n - unat d)) ?f) (sent ?ch False log' ?s')"
      using log'(2) unfolding f pos filled_with_more [where f = ?f and m = "256 * ?c"] sum .
    then show ?thesis using log'(1) unfolding step sent_sent by blast
  next
    case False
    then have "unat (d + ?op) = unat n" "?c = unat n - unat d" using d' less.prems(2) by auto
    moreover from this have "ide_write_loop (\<lambda>s. intr_hd_handler channels s irq) inb inb2 y hdd lba a n (d + ?op) ?s' = Some (Inr ?s')"
      by (subst ide_write_loop.simps) (simp add: word_less_nat_alt)
    ultimately show ?thesis using disk' unfolding step by (intro exI [of _ log]) simp
  qed
qed

text \<open>The lock and the selection of the disk, before the loop.\<close>

lemma select_disk_eq:
  "select_disk (locked l s) hdd = (locked l s)\<lparr>outports := outports s @ [(drive_port hdd s + 6, Byte (dev_byte (is_slave hdd s)))]\<rparr>"
  by (simp add: select_disk_def outb_def reg_dev_def locked_def set_repeat_def set_holder_def set_sema_value_def
      is_slave_def dev_byte_def BIT_DEV_MBS_def BIT_DEV_LBA_def BIT_DEV_DEV_def Let_def)

lemma selected:
  fixes s hdd
  defines "l \<equiv> chan_lock (my_channel (disks s hdd))"
  defines "s1 \<equiv> select_disk (locked l s) hdd"
  assumes r: "drive_ready channels irq hdd F s" and disk: "disk_at (drive_port hdd s) d0 pl s"
  shows "disks s1 = disks s" "ide_channels s1 = ide_channels s" "mem s1 = mem s" "is_slave hdd s1 = is_slave hdd s"
    "drive_ready channels irq hdd F s1" "disk_at (drive_port hdd s1) d0 pl s1" "lock_kept (locked l s) s1" "lheap s1 = lheap s"
    "phys s1 = phys s" "cr3 s1 = cr3 s" "tasks s1 = tasks s" "eflags s1 = eflags s" "cur s1 = cur s"
proof -
  show sel: "disks s1 = disks s" "ide_channels s1 = ide_channels s" "mem s1 = mem s" "is_slave hdd s1 = is_slave hdd s"
    "lheap s1 = lheap s" "phys s1 = phys s" "cr3 s1 = cr3 s" "tasks s1 = tasks s" "eflags s1 = eflags s" "cur s1 = cur s"
    by (simp_all add: s1_def select_disk_eq) (simp_all add: locked_def set_repeat_def set_holder_def set_sema_value_def is_slave_def)
  show "lock_kept (locked l s) s1" by (simp add: lock_kept_def s1_def select_disk_eq)
  have "lock_semaphore l \<noteq> disk_done (my_channel (disks s hdd))" by (simp add: lock_semaphore_def l_def chan_lock_def disk_done_def)
  then have "sema_value s1 (disk_done (my_channel (disks s hdd))) = sema_value s (disk_done (my_channel (disks s hdd)))"
    by (simp add: s1_def select_disk_eq) (simp add: locked_def set_repeat_def set_holder_def set_sema_value_def)
  then show "drive_ready channels irq hdd F s1" using r drive_ready_cong [of s1 s hdd channels irq F] by (simp add: sel)
  obtain d where d: "disk_run (drive_port hdd s) d0 (outports s) = Some d" "d_todo d = None" "d_platter d = pl"
    using disk by (auto simp: disk_at_def)
  have "outports s1 = outports s @ [(drive_port hdd s + 6, Byte (dev_byte (is_slave hdd s)))]"
    by (simp add: s1_def select_disk_eq)
  then show "disk_at (drive_port hdd s1) d0 pl s1" using d by (simp add: disk_at_def sel disk_run_append)
qed

text \<open>
  C25. What ide_write leaves on the disk, when the disk stands by, its status register says whether it
  awaits words, and its interrupt comes before sema_down looks at the semaphore. For every buffer and
  every range of sectors that ends within the 163840 sectors (80 MB) the driver allows for (the code
  checks only where the range starts), ide_write returns; the disk has understood every command and
  every word in the order in which they were sent and awaits nothing more; on the disk that dev_no
  chooses the \<open>n\<close> sectors from \<open>lba\<close> on hold the 512 bytes each of the buffer, and every other sector
  of both disks is as before; the channel's lock is free again and its semaphore taken. More than
  256 sectors are more than one request, and 256 are sent as 0. The disk takes the sectors of a
  request one after the other without being busy and interrupts once, at the end.
\<close>

theorem ide_write_sectors:
  assumes "drive_ready channels irq hdd F s" "lock_ready s (chan_lock (my_channel (disks s hdd))) F"
    and "disk_at (drive_port hdd s) d0 pl s" "drive_answers (drive_port hdd s) d0 inb inb2"
    and "0 < n" "unat lba + unat n \<le> 163840"
  shows "\<exists>s'. ide_write (\<lambda>s. intr_hd_handler channels s irq) inb inb2 y s hdd lba a n = Inr s' \<and>
    disk_at (drive_port hdd s) d0 (\<lambda>slave k. if slave = is_slave hdd s \<and> 256 * unat lba \<le> k \<and> k < 256 * (unat lba + unat n)
      then mem_word (mem s) (a + 2 * of_nat (k - 256 * unat lba)) else pl slave k) s' \<and>
    mem s' = mem s \<and> drive_ready channels irq hdd F s' \<and> lock_ready s' (chan_lock (my_channel (disks s hdd))) F"
proof -
  let ?ch = "my_channel (disks s hdd)" and ?p = "drive_port hdd s"
  let ?l = "chan_lock ?ch"
  define s1 where "s1 = select_disk (locked ?l s) hdd"
  note sel = selected [OF assms(1,3), folded s1_def]
  have n: "unat (0 :: u32) < unat n" using assms(5) by (simp add: word_less_nat_alt)
  have p: "?p = drive_port hdd s1" by (simp add: sel)
  obtain log where loop: "ide_write_loop (\<lambda>s. intr_hd_handler channels s irq) inb inb2 y hdd lba a n 0 s1 = Some (Inr (sent ?ch False log s1))"
    and disk: "disk_at ?p d0 (filled_with pl (is_slave hdd s) (256 * unat lba) (256 * unat n) (buffer_word s a)) (sent ?ch False log s1)"
    using write_loop [OF sel(5) n assms(6) sel(6) [folded p] assms(4) p, of y a] by (auto simp: sel)
  let ?s2 = "sent ?ch False log s1"
  have kept: "lock_kept (locked ?l s) ?s2" and fam: "k_family ?s2 F"
    using sel(7,8) assms(2) by (simp_all add: lock_kept_def lock_ready_def k_family_def)
  have W: "F (sema_waiters (lock_semaphore ?l)) = Some []" using assms(2) by (simp add: lock_ready_def)
  note rel = lock_ready_release [OF assms(2) kept fam W]
  have "lba \<le> max_lba" using assms(6) n by (simp add: max_lba_def word_le_nat_alt)
  then have run: "ide_write (\<lambda>s. intr_hd_handler channels s irq) inb inb2 y s hdd lba a n = Inr (unlocked ?l ?s2)"
    using assms(5) lock_ready_acquire [OF assms(2)] loop rel(1) by (simp add: ide_write_def s1_def [symmetric] sel)
  have u: "outports (unlocked ?l t) = outports t" "disks (unlocked ?l t) = disks t" "ide_channels (unlocked ?l t) = ide_channels t"
    "mem (unlocked ?l t) = mem t" "lheap (unlocked ?l t) = lheap t" "sema_value (unlocked ?l t) (disk_done ?ch) = sema_value t (disk_done ?ch)" for t
    by (simp_all add: unlocked_def) (simp_all add: set_repeat_def set_holder_def set_sema_value_def lock_semaphore_def chan_lock_def disk_done_def)
  have "drive_ready channels irq hdd F (unlocked ?l ?s2)"
    using sel(5) drive_ready_cong [of "unlocked ?l ?s2" ?s2 hdd channels irq F] by (simp add: u sel)
  moreover have "filled_with pl (is_slave hdd s) (256 * unat lba) (256 * unat n) (buffer_word s a) =
      (\<lambda>slave k. if slave = is_slave hdd s \<and> 256 * unat lba \<le> k \<and> k < 256 * (unat lba + unat n)
        then mem_word (mem s) (a + 2 * of_nat (k - 256 * unat lba)) else pl slave k)"
    by (simp add: filled_with_def fun_eq_iff)
  ultimately show ?thesis using run rel(2) disk by (intro exI [of _ "unlocked ?l ?s2"]) (simp add: u sel disk_at_def)
qed

section \<open>Waiting for the interrupt\<close>

lemma secs_at_once_small:
  assumes "0 < n" "n \<le> 256"
  shows "secs_at_once 0 n = n" "ucast n = (of_nat (unat n) :: u8)" "0 < unat n" "unat n \<le> 256"
proof -
  show "0 < unat n" "unat n \<le> 256" using assms by (simp_all add: word_less_nat_alt word_le_nat_alt)
  show "secs_at_once 0 n = n" using assms by (simp add: secs_at_once_def)
  show "ucast n = (of_nat (unat n) :: u8)" by simp
qed

text \<open>Without an interrupt the driver blocks, with the whole request sent.\<close>

lemma ide_write_blocks:
  fixes s hdd F
  defines "ch \<equiv> my_channel (disks s hdd)" and "q \<equiv> drive_port hdd s"
  assumes inv: "sched_inv s F (p # rs) Ts D" and r: "drive_ready channels irq hdd F s" and l: "lock_ready s (chan_lock ch) F"
    and disk: "disk_at q d0 pl s" "drive_answers q d0 inb inb2" and n: "0 < n" "n \<le> 256" "unat lba + unat n \<le> 163840"
  obtains t s1 where "ide_write Inr inb inb2 y s hdd lba a n = Inl (Switched s1)" "cur s1 = p"
    "sched_inv s1 (F(sema_waiters (disk_done ch) \<mapsto> [general_tag (cur s)], THREAD_READY_LIST \<mapsto> map general_tag rs)) rs Ts D"
    "sched_frame (cli t) s1 {cur s, p}" "status (tasks s1 (cur s)) = TASK_BLOCKED" "lock_kept (locked (chan_lock ch) s) t"
    "disks t = disks s" "ide_channels t = (ide_channels s)(ch := (ide_channels s ch)\<lparr>expecting_intr := True\<rparr>)" "eflags t = eflags s"
    "disk_at q d0 (filled_with pl (is_slave hdd s) (256 * unat lba) (256 * unat n) (buffer_word s a)) t"
proof -
  let ?l = "chan_lock ch"
  define s0 where "s0 = select_disk (locked ?l s) hdd"
  note sel = selected [OF r disk(1) [unfolded q_def], folded ch_def, folded s0_def]
  note sm = secs_at_once_small [OF n(1,2)]
  have q: "q = drive_port hdd s0" by (simp add: sel q_def)
  have lt: "unat lba \<le> 163839" using n(3) sm(3) by simp
  obtain log where log: "\<And>(X :: kstate \<Rightarrow> kstate kres) msg. bindR (select_sector s0 hdd lba (ucast n)) (\<lambda>s1.
      bindR (busy_wait inb inb2 y hdd (cmd_out s1 ch CMD_WRITE_SECTOR)) (\<lambda>(ready, s2).
        if \<not> ready then Inl (Panicked msg) else X (write2sector s2 hdd a (ucast n)))) = X (sent ch True log s0)"
    "\<And>e. disk_at q d0 (filled_with pl (is_slave hdd s) (256 * unat lba) (256 * unat n) (buffer_word s a)) (sent ch e log s0)"
    using request_sent [OF sel(6) [folded q] disk(2) q lt sm(2-4), of y a] by (auto simp: sel ch_def)
  define t where "t = sent ch True log s0"
  have "sched_inv t F (p # rs) Ts D = sched_inv s F (p # rs) Ts D" by (rule sched_inv_cong) (simp_all add: t_def sel)
  then have invt: "sched_inv t F (p # rs) Ts D" using inv by simp
  have rt: "drive_ready channels irq hdd F t" using sel(5) by (simp add: t_def)
  have W: "F (sema_waiters (disk_done ch)) = Some (map general_tag [])" "sema_value t (disk_done ch) = 0"
    using drive_readyD(4,6) [OF rt] by (simp_all add: ch_def t_def sel)
  have "F THREAD_READY_LIST = Some (map general_tag (p # rs))" using inv by (simp add: sched_inv_def sched_core_def)
  then have neq: "sema_waiters (disk_done ch) \<noteq> THREAD_READY_LIST" using W(1) by auto
  obtain s1 where s1: "sema_down t (disk_done ch) = Inl (Switched s1)" "cur s1 = p"
    "sched_inv s1 (F(sema_waiters (disk_done ch) \<mapsto> map general_tag ([] @ [cur t]), THREAD_READY_LIST \<mapsto> map general_tag rs)) rs Ts D"
    "sched_frame (cli t) s1 {cur t, p}" "status (tasks s1 (cur t)) = TASK_BLOCKED"
    using sema_down_taken [OF invt W(1) neq W(2)] by blast
  have ct: "cur t = cur s" by (simp add: t_def sel)
  have ch0: "my_channel (disks s0 hdd) = ch" by (simp add: sel ch_def)
  have chunk: "bindR (select_sector s0 hdd (lba + 0) (ucast n)) (\<lambda>s1.
      bindR (busy_wait inb inb2 y hdd (cmd_out s1 ch CMD_WRITE_SECTOR)) (\<lambda>(ready, s2).
        if \<not> ready then Inl (Panicked msg) else bindR (Inr (write2sector s2 hdd (a + 0 * 512) (ucast n)))
          (\<lambda>s3. sema_down s3 (disk_done ch)))) = Inl (Switched s1)" for msg
    using log(1) [of msg "\<lambda>t. bindR (Inr t) (\<lambda>s3. sema_down s3 (disk_done ch))"] s1(1)
    unfolding add_0_right mult_zero_left t_def [symmetric] by simp
  have "ide_write_loop Inr inb inb2 y hdd lba a n 0 s0 = Some (Inl (Switched s1))"
    by (subst ide_write_loop.simps) (use n(1) in \<open>simp only: Let_def ch0 sm(1) chunk sum.case if_True\<close>)
  moreover have "lba \<le> max_lba" using lt by (simp add: max_lba_def word_le_nat_alt)
  ultimately have "ide_write Inr inb inb2 y s hdd lba a n = Inl (Switched s1)"
    using n(1) lock_ready_acquire [OF l] by (simp add: ide_write_def ch_def [symmetric] s0_def [symmetric])
  moreover have "lock_kept (locked ?l s) t" using sel(7) by (simp add: lock_kept_def t_def)
  moreover have "ide_channels t = (ide_channels s)(ch := (ide_channels s ch)\<lparr>expecting_intr := True\<rparr>)"
    by (simp add: t_def sent_def sel)
  moreover have "disk_at q d0 (filled_with pl (is_slave hdd s) (256 * unat lba) (256 * unat n) (buffer_word s a)) t"
    unfolding t_def by (rule log(2))
  ultimately show thesis using that [of s1 t] s1 by (simp add: ct) (simp add: t_def sel)
qed

text \<open>The interrupt while another thread runs makes the driver's thread ready, in front.\<close>

lemma disk_interrupt_wakes:
  fixes s hdd
  defines "D0 \<equiv> disk_done (my_channel (disks s hdd))"
  assumes inv: "sched_inv s F rs Ts D" and W: "F (sema_waiters D0) = Some [general_tag c]"
    and irq: "irq = 0x2e \<or> irq = 0x2f" "chan_at channels (irq - 0x20 - 0xe) = my_channel (disks s hdd)"
    "irq_no (ide_channels s (my_channel (disks s hdd))) = irq"
    and e: "expecting_intr (ide_channels s (my_channel (disks s hdd)))" and v: "sema_value s D0 = 0"
    and c: "c \<in> Ts" "status (tasks s c) = TASK_BLOCKED"
  obtains s' where "intr_hd_handler channels s irq = Inr s'" "cur s' = cur s"
    "sched_inv s' (F(sema_waiters D0 \<mapsto> [], THREAD_READY_LIST \<mapsto> map general_tag (c # rs))) (c # rs) Ts D"
    "sched_frame (set_channel (my_channel (disks s hdd)) (\<lambda>c. c\<lparr>expecting_intr := False\<rparr>) s) (set_sema_value D0 0 s') {c}"
    "sema_value s' D0 = 1" "status (tasks s' c) = TASK_READY"
proof -
  let ?s1 = "set_channel (my_channel (disks s hdd)) (\<lambda>c. c\<lparr>expecting_intr := False\<rparr>) s"
  have R: "F THREAD_READY_LIST = Some (map general_tag rs)" and ready: "\<forall>t \<in> Ts. t \<in> set rs \<longleftrightarrow> status (tasks s t) = TASK_READY"
    using inv by (simp_all add: sched_inv_def sched_core_def)
  have neq: "sema_waiters D0 \<noteq> THREAD_READY_LIST"
  proof
    assume "sema_waiters D0 = THREAD_READY_LIST"
    then have "map general_tag rs = [general_tag c]" using R W by simp
    then have "c \<in> set rs" by auto
    then show False using ready c by simp
  qed
  have "sched_inv ?s1 F rs Ts D = sched_inv s F rs Ts D" by (rule sched_inv_cong) (simp_all add: set_channel_def)
  then have inv1: "sched_inv ?s1 F rs Ts D" using inv by simp
  have W1: "F (sema_waiters D0) = Some (map general_tag [c])" using W by simp
  have v1: "sema_value ?s1 D0 = 0" "status (tasks ?s1 c) = TASK_BLOCKED" using v c(2) by (simp_all add: set_channel_def)
  obtain s' where s': "sema_up ?s1 D0 = Inr s'" "cur s' = cur ?s1"
    "sched_inv s' (F(sema_waiters D0 \<mapsto> map general_tag [], THREAD_READY_LIST \<mapsto> map general_tag (c # rs))) (c # rs) Ts D"
    "sched_frame ?s1 (set_sema_value D0 0 s') {c}" "sema_value s' D0 = 1" "status (tasks s' c) = TASK_READY"
    using sema_up_waiter [OF inv1 W1 neq v1(1) c(1) v1(2)] by blast
  have "intr_hd_handler channels s irq = Inr s'"
    unfolding intr_hd_handler_def Let_def irq(2) using irq(1,3) e s'(1) by (simp add: D0_def)
  then show thesis using that s'(2-6) by (simp add: set_channel_def)
qed

text \<open>
  C26. ide_write waits for the disk. When the interrupt comes only after sema_down has looked at the
  semaphore, ide_write of 1 to 256 sectors sends the whole request and then gives the processor to the
  first ready thread, its own thread BLOCKED. The interrupt, taken while that thread runs, makes
  the writing thread READY, in front of all others, so that the next call of schedule hands it the
  processor; going on after its wait it returns, with the flag it called with, the sectors written and
  all else on the disks as before, the channel's lock free and its semaphore taken, and the invariant
  of the scheduler kept.
\<close>

theorem ide_write_waits:
  assumes "sched_inv s F (p # rs) Ts D" "drive_ready channels irq hdd F s"
    and "lock_ready s (chan_lock (my_channel (disks s hdd))) F"
    and "disk_at (drive_port hdd s) d0 pl s" "drive_answers (drive_port hdd s) d0 inb inb2"
    and "0 < n" "n \<le> 256" "unat lba + unat n \<le> 163840"
  shows "\<exists>s1 s2 s3 s4. ide_write Inr inb inb2 y s hdd lba a n = Inl (Switched s1) \<and>
    cur s1 = p \<and> status (tasks s1 (cur s)) = TASK_BLOCKED \<and>
    intr_hd_handler channels s1 irq = Inr s2 \<and> cur s2 = p \<and> status (tasks s2 (cur s)) = TASK_READY \<and>
    schedule s2 = Inl (Switched s3) \<and> cur s3 = cur s \<and>
    ide_write_resume Inr inb inb2 y s3 hdd lba a n 0 (intr_get_status s) = Inr s4 \<and>
    disk_at (drive_port hdd s) d0 (\<lambda>slave k. if slave = is_slave hdd s \<and> 256 * unat lba \<le> k \<and> k < 256 * (unat lba + unat n)
      then mem_word (mem s) (a + 2 * of_nat (k - 256 * unat lba)) else pl slave k) s4 \<and>
    eflags s4 = eflags s \<and> cur s4 = cur s \<and>
    (\<exists>F'. sched_inv s4 F' (rs @ [p]) Ts D \<and> drive_ready channels irq hdd F' s4 \<and>
      lock_ready s4 (chan_lock (my_channel (disks s hdd))) F')"
proof -
  define ch where "ch = my_channel (disks s hdd)"
  let ?l = "chan_lock ch" and ?d = "disk_done ch" and ?q = "port_base (ide_channels s ch)" and ?R = THREAD_READY_LIST and ?c = "cur s"
  note rd = drive_readyD [OF assms(2), folded ch_def]
  have lr: "lock_ready s ?l F" using assms(3) by (simp add: ch_def)
  obtain t s1 where s1: "ide_write Inr inb inb2 y s hdd lba a n = Inl (Switched s1)" "cur s1 = p"
    "sched_inv s1 (F(sema_waiters ?d \<mapsto> [general_tag ?c], ?R \<mapsto> map general_tag rs)) rs Ts D"
    "sched_frame (cli t) s1 {?c, p}" "status (tasks s1 ?c) = TASK_BLOCKED" "lock_kept (locked ?l s) t"
    "disks t = disks s" "ide_channels t = (ide_channels s)(ch := (ide_channels s ch)\<lparr>expecting_intr := True\<rparr>)" "eflags t = eflags s"
    "disk_at ?q d0 (filled_with pl (is_slave hdd s) (256 * unat lba) (256 * unat n) (buffer_word s a)) t"
    by (rule ide_write_blocks [OF assms(1,2) lr [unfolded ch_def] assms(4-8), folded ch_def])
  have c: "?c \<in> Ts" "status (tasks s ?c) = TASK_RUNNING" "F ?R = Some (map general_tag (p # rs))"
    "p \<in> Ts" "status (tasks s p) = TASK_READY"
    using assms(1) by (auto simp: sched_inv_def sched_core_def)
  have neq: "sema_waiters ?d \<noteq> ?R" "sema_waiters (lock_semaphore ?l) \<noteq> ?R" "?d \<noteq> lock_semaphore ?l" "?c \<noteq> p"
    using c rd(6) lr by (auto simp: lock_ready_def lock_semaphore_def chan_lock_def disk_done_def)
  have dev: "disks s1 = disks s" "ide_channels s1 = ide_channels t" "sema_value s1 = sema_value t" "outports s1 = outports t"
    using s1(4,7) by (simp_all add: sched_frame_def)
  have v1: "sema_value s1 ?d = 0" using s1(6) rd(4) neq(3) by (simp add: dev lock_kept_def locked_def)
  have k1: "irq_no (ide_channels s1 ch) = irq" "expecting_intr (ide_channels s1 ch)" using rd(3) by (simp_all add: dev s1(8))
  have ch1: "my_channel (disks s1 hdd) = ch" by (simp add: dev ch_def)
  obtain s2 where s2: "intr_hd_handler channels s1 irq = Inr s2" "cur s2 = p"
    "sched_inv s2 (F(sema_waiters ?d \<mapsto> [general_tag ?c], ?R \<mapsto> map general_tag rs, sema_waiters ?d \<mapsto> [], ?R \<mapsto> map general_tag (?c # rs))) (?c # rs) Ts D"
    "sched_frame (set_channel ch (\<lambda>c. c\<lparr>expecting_intr := False\<rparr>) s1) (set_sema_value ?d 0 s2) {?c}"
    "sema_value s2 ?d = 1" "status (tasks s2 ?c) = TASK_READY"
    using disk_interrupt_wakes [OF s1(3), where hdd = hdd and c = ?c and irq = irq and channels = channels, unfolded ch1, OF _ rd(1,2) k1 v1 c(1) s1(5)]
      neq(1) s1(2) by auto
  have e2: "eflags s2 = eflags (cli s)"
    using s2(4) s1(4,9) by (simp add: sched_frame_def set_channel_def) (simp add: cli_def)
  then have off: "intr_get_status s2 = INTR_OFF" using intr_get_status_cli [of s] by (simp add: intr_get_status_def)
  obtain s3 where s3: "schedule s2 = (if ?c = cur s2 then Inr s3 else Inl (Switched s3))" "cur s3 = ?c"
    "sched_inv s3 (F(sema_waiters ?d \<mapsto> [general_tag ?c], ?R \<mapsto> map general_tag rs, sema_waiters ?d \<mapsto> [], ?R \<mapsto> map general_tag (?c # rs),
      ?R \<mapsto> map general_tag (rs @ [p]))) (rs @ [p]) Ts D" "sched_frame s2 s3 {cur s2, ?c}"
    using schedule_running [OF s2(3) off, of ?c "rs @ [p]"] s2(2) by auto
  let ?F = "F(?R \<mapsto> map general_tag (rs @ [p]))"
  have F: "F(sema_waiters ?d \<mapsto> [general_tag ?c], ?R \<mapsto> map general_tag rs, sema_waiters ?d \<mapsto> [], ?R \<mapsto> map general_tag (?c # rs),
      ?R \<mapsto> map general_tag (rs @ [p])) = ?F"
    using rd(6) neq(1) by (auto simp: fun_eq_iff)
  have f3: "eflags s3 = eflags (cli s)" "sema_value s3 ?d = 1" "disks s3 = disks s" "outports s3 = outports t"
    "ide_channels s3 = (ide_channels s)(ch := (ide_channels s ch)\<lparr>expecting_intr := False\<rparr>)"
    using s3(4) s2(4,5) e2 by (simp_all add: sched_frame_def set_channel_def dev s1(8))
  have k3: "lock_holder s3 = lock_holder (locked ?l s)" "holder_repeat_nr s3 = holder_repeat_nr (locked ?l s)"
    "(sema_value s3)(?d := 0) = sema_value (locked ?l s)"
    using s3(4) s2(4) s1(4,6) by (simp_all add: sched_frame_def set_channel_def dev lock_kept_def)
  have off3: "fst (intr_set_status s3 INTR_OFF) = s3"
    using cli_off [of s3] off s3(4) by (simp add: fst_intr_set_status if_off_def sched_frame_def intr_get_status_def)
  define s5 where "s5 = (set_sema_value ?d 0 s3)\<lparr>eflags := eflags s\<rparr>"
  have "sema_down_resume s3 ?d (intr_get_status s) = Inr s5"
    unfolding sema_down_resume_def off3 sema_down_from_free [OF f3(2)] s5_def
    by (simp add: intr_restore f3(1))
  moreover have "ide_write_loop Inr inb inb2 y hdd lba a n n s5 = Some (Inr s5)" by (subst ide_write_loop.simps) simp
  moreover have inv5: "sched_inv s5 ?F (rs @ [p]) Ts D" using s3(3) unfolding F s5_def by simp
  moreover have kept: "lock_kept (locked ?l s) s5" using k3 s3(2) by (simp add: lock_kept_def s5_def)
  moreover have fam: "k_family s5 ?F" using inv5 by (simp add: sched_inv_def sched_core_def)
  moreover have W: "?F (sema_waiters (lock_semaphore ?l)) = Some []" using lr neq(2) by (simp add: lock_ready_def)
  note rel = lock_ready_release [OF lr kept fam W]
  let ?s4 = "unlocked ?l s5"
  have f5: "disks s5 = disks s" "eflags s5 = eflags s" "cur s5 = ?c" "outports s5 = outports t" by (simp_all add: s5_def f3 s3(2))
  have ch5: "my_channel (disks s3 hdd) = ch" "my_channel (disks s5 hdd) = ch" by (simp_all add: f3 f5 ch_def)
  ultimately have run: "ide_write_resume Inr inb inb2 y s3 hdd lba a n 0 (intr_get_status s) = Inr ?s4"
    using rel(1) secs_at_once_small(1) [OF assms(6,7)] by (simp add: ide_write_resume_def ch5)
  have s4: "sched_inv ?s4 ?F (rs @ [p]) Ts D" "outports ?s4 = outports t" "eflags ?s4 = eflags s" "cur ?s4 = ?c" "disks ?s4 = disks s"
    using inv5 by (simp_all add: unlocked_def f5)
  have dr: "drive_ready channels irq hdd ?F ?s4"
  proof -
    have "irq_no (ide_channels ?s4 ch) = irq" "sema_value ?s4 ?d = 0"
      using rd(3) neq(3) by (simp_all add: unlocked_def s5_def f3)
    moreover have "k_family ?s4 ?F" using s4(1) by (simp add: sched_inv_def sched_core_def)
    ultimately show ?thesis using rd(1,2,6) neq(1) by (simp add: drive_ready_def Let_def s4(5) ch_def [symmetric])
  qed
  have "filled_with pl (is_slave hdd s) (256 * unat lba) (256 * unat n) (buffer_word s a) =
      (\<lambda>slave k. if slave = is_slave hdd s \<and> 256 * unat lba \<le> k \<and> k < 256 * (unat lba + unat n)
        then mem_word (mem s) (a + 2 * of_nat (k - 256 * unat lba)) else pl slave k)"
    by (simp add: filled_with_def fun_eq_iff)
  then have platter: "disk_at ?q d0 (\<lambda>slave k. if slave = is_slave hdd s \<and> 256 * unat lba \<le> k \<and> k < 256 * (unat lba + unat n)
        then mem_word (mem s) (a + 2 * of_nat (k - 256 * unat lba)) else pl slave k) ?s4"
    using s1(10) by (simp add: disk_at_def s4(2))
  have sch: "schedule s2 = Inl (Switched s3)" using s3(1) s2(2) neq(4) by simp
  show ?thesis
    unfolding ch_def [symmetric]
    using s1(1,2,5) s2(1,2,6) sch s3(2) run platter s4(3,4,1) dr rel(2)
    by (rule_tac exI [of _ s1], rule_tac exI [of _ s2], rule_tac exI [of _ s3], rule_tac exI [of _ ?s4], intro conjI exI [of _ ?F])
qed

text \<open>The second disk on a first channel that ide_init has just set up.\<close>

definition demo_disk :: kstate where
  "demo_disk = sema_init (lock_init (demo_state\<lparr>ide_channels := (\<lambda>_. \<lparr>chan_name = ''ide0'', port_base = 0x1f0, irq_no = 0x2e,
     expecting_intr = False\<rparr>), disks := (\<lambda>_. \<lparr>disk_name = ''sdb'', my_channel = 0xc0010000, dev_no = 1\<rparr>)\<rparr>)
     (chan_lock 0xc0010000)) (disk_done 0xc0010000) 0"

definition demo_disk_lists :: "u32 \<Rightarrow> u32 list option" where
  "demo_disk_lists = demo_lists(sema_waiters (lock_semaphore (chan_lock 0xc0010000)) \<mapsto> [],
     sema_waiters (disk_done 0xc0010000) \<mapsto> [])"

lemma demo_disk_sel [simp]:
  "disks demo_disk x = \<lparr>disk_name = ''sdb'', my_channel = 0xc0010000, dev_no = 1\<rparr>"
  "ide_channels demo_disk y = \<lparr>chan_name = ''ide0'', port_base = 0x1f0, irq_no = 0x2e, expecting_intr = False\<rparr>"
  "lheap demo_disk = dl_init (dl_init (lheap demo_state) 0xc0010014) 0xc0010030" "cur demo_disk = T1"
  "mem demo_disk = (\<lambda>_. 0)"
  by (simp_all add: demo_disk_def sema_init_def lock_init_def list_init_def set_sema_value_def set_holder_def
      set_repeat_def sema_waiters_def lock_semaphore_def chan_lock_def disk_done_def) (simp_all add: demo_state_def)

lemma demo_disk_family: "k_family demo_disk demo_disk_lists"
proof -
  let ?W = "0xc0010014 :: u32" and ?D = "0xc0010030 :: u32"
  have f: "fam_nodes demo_lists = set (nodes_of [(THREAD_READY_LIST, [general_tag T2])])"
    unfolding demo_lists_map_of by (rule fam_nodes_map_of [OF demo_nodes])
  note addr = nodes_of_def dl_nodes_def tail_of_def general_tag_def T2_def THREAD_READY_LIST_def
  have n: "demo_lists(?W := None) = demo_lists" "(demo_lists(?W \<mapsto> []))(?D := None) = demo_lists(?W \<mapsto> [])"
    by (auto simp: demo_lists_def THREAD_READY_LIST_def fun_eq_iff)
  have "dl_family (lheap demo_state) demo_lists" using demo_family by (simp add: k_family_def)
  then have 1: "dl_family (dl_init (lheap demo_state) ?W) (demo_lists(?W \<mapsto> []))"
    by (intro dl_family_init; simp only: n(1) f) (simp_all add: addr)
  have "fam_nodes (demo_lists(?W \<mapsto> [])) = {?W, tail_of ?W} \<union> fam_nodes demo_lists"
    unfolding fam_nodes_upd n(1) by (auto simp: dl_nodes_def)
  then have "dl_family (dl_init (dl_init (lheap demo_state) ?W) ?D) (demo_lists(?W \<mapsto> [], ?D \<mapsto> []))"
    using 1 by (intro dl_family_init; simp only: n(2) f) (simp_all add: addr)
  then show ?thesis
    by (simp add: k_family_def demo_disk_lists_def sema_waiters_def lock_semaphore_def chan_lock_def disk_done_def)
qed

lemma demo_disk_ready: "drive_ready 0xc0010000 0x2e 1 demo_disk_lists demo_disk"
  using demo_disk_family by (simp add: drive_ready_def Let_def chan_at_def) (simp add: demo_disk_def demo_disk_lists_def sema_init_def list_init_def)

lemma demo_disk_lock: "lock_ready demo_disk (chan_lock (my_channel (disks demo_disk 1))) demo_disk_lists"
  using demo_disk_family
  by (simp add: lock_ready_def demo_disk_lists_def sema_waiters_def lock_semaphore_def chan_lock_def disk_done_def T1_def)
    (simp add: demo_disk_def sema_init_def lock_init_def list_init_def set_sema_value_def set_holder_def set_repeat_def
      lock_semaphore_def chan_lock_def disk_done_def demo_state_def)

text \<open>An empty disk, and the status register of the disk that has read the log.\<close>

definition demo_drive :: drive where
  "demo_drive = \<lparr>d_regs = (\<lambda>_. 0), d_todo = None, d_platter = (\<lambda>_ _. 0)\<rparr>"

definition demo_inb :: "u16 \<Rightarrow> kstate \<Rightarrow> u8" where
  "demo_inb q s = (case disk_run 0x1f0 demo_drive (outports s) of None \<Rightarrow> 0 | Some d \<Rightarrow> disk_status d)"

lemma demo_answers: "drive_answers 0x1f0 demo_drive demo_inb (\<lambda>q b s. demo_inb q s AND b)"
  by (simp add: drive_answers_def demo_inb_def)

lemma demo_disk_at: "disk_at (drive_port 1 demo_disk) demo_drive (\<lambda>_ _. 0) demo_disk"
proof -
  have "outports demo_disk = []"
    by (simp add: demo_disk_def sema_init_def lock_init_def list_init_def) (simp add: demo_state_def)
  then show ?thesis by (simp add: disk_at_def demo_drive_def)
qed

lemma ide_write_sectors_witness:
  "\<exists>s'. ide_write (\<lambda>s. intr_hd_handler 0xc0010000 s 0x2e) demo_inb (\<lambda>q b s. demo_inb q s AND b) Inr demo_disk 1 1000 0xc0200000 300 = Inr s' \<and>
    lock_ready s' (chan_lock (my_channel (disks demo_disk 1))) demo_disk_lists"
proof -
  have "drive_answers (drive_port 1 demo_disk) demo_drive demo_inb (\<lambda>q b s. demo_inb q s AND b)" using demo_answers by simp
  from ide_write_sectors [OF demo_disk_ready demo_disk_lock demo_disk_at this, of 300 1000 Inr "0xc0200000"]
  show ?thesis by fastforce
qed

lemma demo_disk_sched: "sched_inv demo_disk demo_disk_lists [T2] {T1, T2} (\<lambda>_. 0x100000)"
proof -
  have sel: "tasks demo_disk = tasks demo_state" "phys demo_disk = phys demo_state" "cr3 demo_disk = cr3 demo_state" "cur demo_state = T1"
    by (simp_all add: demo_disk_def sema_init_def lock_init_def list_init_def) (simp add: demo_state_def)
  have F: "demo_disk_lists THREAD_READY_LIST = demo_lists THREAD_READY_LIST"
    by (simp add: demo_disk_lists_def THREAD_READY_LIST_def sema_waiters_def lock_semaphore_def chan_lock_def disk_done_def)
  have "dirs_ok demo_disk {T1, T2} (\<lambda>_. 0x100000)"
    by (rule dirs_ok_cong [of _ demo_state]) (use demo_sched_inv in \<open>simp_all add: sel sched_inv_def sched_core_def dirs_ok_def\<close>)
  moreover have "general_tag T1 \<notin> fam_nodes demo_disk_lists"
  proof -
    have e: "demo_disk_lists = demo_lists(0xc0010014 \<mapsto> [], 0xc0010030 \<mapsto> [])"
      by (simp add: demo_disk_lists_def sema_waiters_def lock_semaphore_def chan_lock_def disk_done_def)
    have "general_tag T1 \<notin> fam_nodes demo_lists" using demo_sched_inv sel by (simp add: sched_inv_def)
    then show ?thesis unfolding e
      by (auto simp: fam_nodes_def dl_nodes_def tail_of_def general_tag_def T1_def split: if_splits)
  qed
  ultimately show ?thesis
    using demo_sched_inv demo_disk_family by (simp add: sched_inv_def sched_core_def sel F)
qed

lemma ide_write_waits_witness:
  "\<exists>s1 s2. ide_write Inr demo_inb (\<lambda>q b s. demo_inb q s AND b) Inr demo_disk 1 1000 0xc0200000 4 = Inl (Switched s1) \<and>
    cur s1 = T2 \<and> intr_hd_handler 0xc0010000 s1 0x2e = Inr s2 \<and> status (tasks s2 T1) = TASK_READY"
proof -
  have "drive_answers (drive_port 1 demo_disk) demo_drive demo_inb (\<lambda>q b s. demo_inb q s AND b)" using demo_answers by simp
  from ide_write_waits [OF demo_disk_sched demo_disk_ready demo_disk_lock demo_disk_at this, of 4 1000 Inr "0xc0200000"]
  show ?thesis by fastforce
qed

end
