(* ===== verification/Stdio.thy ===== *)
theory Stdio
  imports CString
begin

text \<open>
  Formatted output (lib/stdio.c): itoa, vsprintf and printf on the byte memory of CString. The
  variable arguments are the 32 bit words on the stack after the format, \<open>ap 0\<close>, \<open>ap 1\<close> and so
  on; the write system call that printf makes is an argument. \<open>render\<close> is the reference: the
  characters that a format stands for.
\<close>

section \<open>Operations\<close>

definition digit_char :: "u32 \<Rightarrow> u8" where
  "digit_char r = (if r < 10 then ucast (r + 48) else ucast (r + 65 - 10))"

text \<open>The recursion of itoa for a base that is not 0; the result is the memory and the new pointer.\<close>

partial_function (option) itoa_rec :: "u8 \<Rightarrow> bytes \<Rightarrow> u32 \<Rightarrow> u32 \<Rightarrow> (bytes \<times> u32) option" where
  "itoa_rec base m val ptr =
     (let r = val mod ucast base; i = val div ucast base in
      Option.bind (if i \<noteq> 0 then itoa_rec base m i ptr else Some (m, ptr))
        (\<lambda>(m1, p1). Some (m1(p1 := digit_char r), p1 + 1)))"

definition itoa :: "u8 \<Rightarrow> bytes \<Rightarrow> u32 \<Rightarrow> u32 \<Rightarrow> ('s, bytes \<times> u32) res" where
  "itoa base m val ptr = (if base = 0 then Inl Divide_error else loopR (itoa_rec base m val ptr))"

text \<open>
  The switch of vsprintf on the letter after a percent sign, with the k-th argument: the memory
  and the new buf_ptr, or \<open>None\<close> when no case matches. 115, 120, 100 and 99 are s, x, d and c.
\<close>

definition conversion :: "(nat \<Rightarrow> u32) \<Rightarrow> bytes \<Rightarrow> u32 \<Rightarrow> u8 \<Rightarrow> nat \<Rightarrow> ('s, bytes \<times> u32) res option" where
  "conversion ap m bp index_char k =
     (if index_char = 115
      then Some (bindR (strcpy m bp (ap k)) (\<lambda>(_, m1). bindR (strlen m1 (ap k)) (\<lambda>n. Inr (m1, bp + n))))
      else if index_char = 120 then Some (itoa 16 m (ap k) bp)
      else if index_char = 100
      then let arg_int = ap k
           in if arg_int <s 0 then Some (itoa 10 (m(bp := 45)) (0 - arg_int) (bp + 1)) else Some (itoa 10 m arg_int bp)
      else if index_char = 99 then Some (Inr (m(bp := ucast (ap k)), bp + 1))
      else None)"

text \<open>
  The loop: \<open>bp\<close> is buf_ptr, \<open>ip\<close> index_ptr, \<open>ic\<close> index_char, and \<open>k\<close> counts the arguments taken; 37
  is the percent sign. After an unknown letter the loop goes on at that letter.
\<close>

partial_function (option) vs_loop ::
  "(nat \<Rightarrow> u32) \<Rightarrow> bytes \<Rightarrow> u32 \<Rightarrow> u32 \<Rightarrow> u8 \<Rightarrow> nat \<Rightarrow> ('s, bytes) res option" where
  "vs_loop ap m bp ip ic k =
     (if ic = 0 then Some (Inr m)
      else if ic \<noteq> 37
      then let m1 = m(bp := ic) in vs_loop ap m1 (bp + 1) (ip + 1) (m1 (ip + 1)) k
      else case conversion ap m bp (m (ip + 1)) k of
             None \<Rightarrow> vs_loop ap m bp (ip + 1) (m (ip + 1)) k
           | Some r \<Rightarrow>
               (case r of
                  Inl e \<Rightarrow> Some (Inl e)
                | Inr x \<Rightarrow> vs_loop ap (fst x) (snd x) (ip + 2) (fst x (ip + 2)) (k + 1)))"

definition vsprintf :: "bytes \<Rightarrow> u32 \<Rightarrow> u32 \<Rightarrow> (nat \<Rightarrow> u32) \<Rightarrow> ('s, u32 \<times> bytes) res" where
  "vsprintf m str format ap =
     bindR (joinR (vs_loop ap m str format (m format) 0)) (\<lambda>m1.
       bindR (strlen m1 str) (\<lambda>n. Inr (n, m1)))"

text \<open>
  printf clears its buffer of 1024 bytes on the stack, at \<open>buf\<close>; \<open>write\<close> is the system call, which
  gets the memory, and \<open>'r\<close> the state it leaves.
\<close>

definition printf ::
  "(bytes \<Rightarrow> u32 \<Rightarrow> ('s, 'r) res) \<Rightarrow> bytes \<Rightarrow> u32 \<Rightarrow> u32 \<Rightarrow> (nat \<Rightarrow> u32) \<Rightarrow> ('s, u32 \<times> 'r) res" where
  "printf write m buf format args =
     (let m0 = memset_loop m buf 0 1024
      in bindR (vsprintf m0 buf format args) (\<lambda>(retval, m1). bindR (write m1 buf) (\<lambda>r. Inr (retval, r))))"

section \<open>What is written\<close>

text \<open>\<open>out\<close> is written from \<open>p\<close> on; at most a terminating zero is written besides.\<close>

definition writes :: "bytes \<Rightarrow> bytes \<Rightarrow> u32 \<Rightarrow> u8 list \<Rightarrow> bool" where
  "writes m m' p out \<longleftrightarrow> chars m' p out \<and> (\<forall>a. a \<notin> span p (Suc (length out)) \<longrightarrow> m' a = m a) \<and>
     (m' (p + of_nat (length out)) = 0 \<or> m' (p + of_nat (length out)) = m (p + of_nat (length out)))"

lemma writes_nil: "writes m m p []"
  by (simp add: writes_def)

lemma chars_append: "chars m p (xs @ ys) \<longleftrightarrow> chars m p xs \<and> chars m (p + of_nat (length xs)) ys"
  by (induction xs arbitrary: p) (auto simp: algebra_simps)

lemma span_mono: "k \<le> n \<Longrightarrow> span p k \<subseteq> span p n"
  by (auto simp: span_def)

lemma span_last: "n < 2 ^ 32 \<Longrightarrow> k < n \<Longrightarrow> p + of_nat n \<notin> span p (Suc k)"
proof
  assume n: "n < 2 ^ 32" "k < n" and "p + of_nat n \<in> span p (Suc k)"
  then obtain i where i: "i < Suc k" "(of_nat n :: u32) = of_nat i" by (auto simp: span_def)
  then have "unat (of_nat n :: u32) = unat (of_nat i :: u32)" by simp
  then show False using n i(1) by (simp add: unat_of_nat)
qed

lemma mem_span: "n \<le> 2 ^ 32 \<Longrightarrow> a \<in> span p n \<longleftrightarrow> unat (a - p) < n"
proof
  assume n: "n \<le> 2 ^ 32" and "a \<in> span p n"
  then obtain i where i: "i < n" "a = p + of_nat i" by (auto simp: span_def)
  then show "unat (a - p) < n" using n by (simp add: unat_of_nat)
next
  assume "unat (a - p) < n"
  moreover have "a = p + of_nat (unat (a - p))" by simp
  ultimately show "a \<in> span p n" unfolding span_def by blast
qed

lemma writes_one:
  assumes "m' = m(p := c)" "c \<noteq> 0"
  shows "writes m m' p [c]"
proof -
  have "p + 1 \<noteq> (p :: u32)" by simp
  then show ?thesis by (simp add: writes_def assms span_Suc)
qed

lemma writes_append:
  assumes a: "writes m m1 p xs" and b: "writes m1 m2 (p + of_nat (length xs)) ys"
    and len: "length xs + length ys < 2 ^ 32 - 1"
  shows "writes m m2 p (xs @ ys)"
proof -
  let ?n = "length xs" and ?k = "length ys" and ?q = "p + of_nat (length xs)"
  have "chars m2 p xs = chars m1 p xs"
  proof (rule chars_frame, rule ballI)
    fix x assume "x \<in> span p ?n"
    then have "x \<notin> span ?q (Suc ?k)" using len by (intro span_shift_disjoint) simp_all
    then show "m2 x = m1 x" using b by (simp add: writes_def)
  qed
  then have "chars m2 p (xs @ ys)" using a b by (simp add: writes_def chars_append)
  moreover have "m2 x = m x" if x: "x \<notin> span p (Suc (length (xs @ ys)))" for x
  proof -
    have "x \<notin> span p (Suc ?n)" using x span_mono [of "Suc ?n" "Suc (length (xs @ ys))" p] by auto
    moreover have "x \<notin> span ?q (Suc ?k)" using x span_shift [of x p ?n "Suc ?k"] by auto
    ultimately show ?thesis using a b by (simp add: writes_def)
  qed
  moreover have "m2 (p + of_nat (length (xs @ ys))) = 0 \<or>
      m2 (p + of_nat (length (xs @ ys))) = m (p + of_nat (length (xs @ ys)))"
  proof (cases "ys = []")
    case True
    then show ?thesis using a b by (auto simp: writes_def)
  next
    case False
    then have "p + of_nat (?n + ?k) \<notin> span p (Suc ?n)" using len by (intro span_last) simp_all
    then show ?thesis using a b by (auto simp: writes_def add.assoc)
  qed
  ultimately show ?thesis by (simp add: writes_def)
qed

section \<open>Digits\<close>

text \<open>The digits of a number, the most significant first.\<close>

fun digits :: "nat \<Rightarrow> nat \<Rightarrow> nat list" where
  "digits base n = (if n < base \<or> base < 2 then [n] else digits base (n div base) @ [n mod base])"

declare digits.simps [simp del]

definition digits_value :: "nat \<Rightarrow> nat list \<Rightarrow> nat" where
  "digits_value base ds = foldl (\<lambda>a d. a * base + d) 0 ds"

lemma digits_value_digits: "digits_value base (digits base n) = n"
proof (induction base n rule: digits.induct)
  case (1 base n)
  then show ?case by (subst digits.simps) (simp add: digits_value_def)
qed

lemma digits_less: "2 \<le> base \<Longrightarrow> d \<in> set (digits base n) \<Longrightarrow> d < base"
proof (induction base n rule: digits.induct)
  case (1 base n)
  then show ?case by (subst (asm) digits.simps [of base n]) (auto split: if_splits)
qed

lemma digits_hd: "2 \<le> base \<Longrightarrow> 0 < n \<Longrightarrow> hd (digits base n) \<noteq> 0 \<and> digits base n \<noteq> []"
proof (induction base n rule: digits.induct)
  case (1 base n)
  then show ?case by (subst (1 2) digits.simps) (auto simp: hd_append div_greater_zero_iff not_less)
qed

lemma length_digits: "2 \<le> base \<Longrightarrow> n < 2 ^ k \<Longrightarrow> 0 < k \<Longrightarrow> length (digits base n) \<le> k"
proof (induction base n arbitrary: k rule: digits.induct)
  case (1 base n)
  show ?case
  proof (cases "n < base")
    case True
    then show ?thesis using 1 by (subst digits.simps) simp
  next
    case False
    have "k \<noteq> 1" using 1(2,3) False by auto
    then obtain j where k: "k = Suc j" "0 < j" using 1(4) by (cases k) auto
    have "n div base \<le> n div 2" using 1(2) by (intro div_le_mono2) simp_all
    also have "\<dots> < 2 ^ j" using 1(3) k by simp
    finally have "length (digits base (n div base)) \<le> j" using 1 False k by simp
    then show ?thesis using False 1(2) k by (subst digits.simps) simp
  qed
qed

text \<open>The characters itoa writes, and what a reader takes a digit for.\<close>

definition numeral_chars :: "nat \<Rightarrow> u32 \<Rightarrow> u8 list" where
  "numeral_chars base v = map (\<lambda>d. digit_char (of_nat d)) (digits base (unat v))"

definition char_digit :: "u8 \<Rightarrow> nat" where
  "char_digit c = (if c < 58 then unat c - 48 else unat c - 55)"

lemma char_digit_char: "d < 36 \<Longrightarrow> char_digit (digit_char (of_nat d)) = d \<and> digit_char (of_nat d) \<noteq> 0"
proof -
  assume d: "d < 36"
  have "list_all (\<lambda>d. char_digit (digit_char (of_nat d)) = d \<and> digit_char (of_nat d) \<noteq> 0) [0..<36]"
    by (simp add: char_digit_def digit_char_def upt_rec)
  then show ?thesis using d by (simp add: list_all_iff)
qed

lemma itoa_writes:
  assumes base: "2 \<le> unat base" "unat base \<le> 36"
  shows "\<exists>m'. itoa_rec base m v p = Some (m', p + of_nat (length (numeral_chars (unat base) v))) \<and>
    writes m m' p (numeral_chars (unat base) v)"
proof (induction "unat v" arbitrary: v rule: less_induct)
  case less
  let ?b = "ucast base :: u32" and ?n = "\<lambda>v. numeral_chars (unat base) v"
  have b: "unat ?b = unat base" using unat_u8_bound [of base] by (simp add: unsigned_ucast_eq take_bit_eq_mod)
  have "unat v mod unat base < 4294967296"
    using mod_less_eq_dividend unat_u32_bound by (rule le_less_trans)
  then have mod: "v mod ?b = of_nat (unat v mod unat base)"
    by (intro u32_eqI) (simp add: unat_mod b unat_of_nat)
  have div: "unat (v div ?b) = unat v div unat base" by (simp add: unat_div b)
  have "unat v mod unat base < unat base" using base by simp
  then have d36: "unat v mod unat base < 36" using base by linarith
  define c where "c = digit_char (v mod ?b)"
  have c0: "c \<noteq> 0" unfolding c_def mod using char_digit_char [OF d36] by simp
  show ?case
  proof (cases "v div ?b = 0")
    case True
    then have "unat v div unat base = 0" using div by simp
    then have lt: "unat v < unat base" using base by (simp add: div_eq_0_iff)
    then have "?n v = [c]"
      unfolding numeral_chars_def c_def mod by (subst digits.simps) simp
    moreover have "itoa_rec base m v p = Some (m(p := c), p + 1)"
      by (subst itoa_rec.simps) (simp add: True c_def Let_def)
    ultimately show ?thesis using writes_one [OF refl c0] by auto
  next
    case False
    then have ge: "\<not> unat v < unat base" using div unat_eq_0 [of "v div ?b"] by auto
    then have "unat (v div ?b) < unat v" unfolding div using base by (intro div_less_dividend) simp_all
    from less.hyps [OF this] obtain m1 where m1:
      "itoa_rec base m (v div ?b) p = Some (m1, p + of_nat (length (?n (v div ?b))))"
      "writes m m1 p (?n (v div ?b))" by blast
    have n: "?n v = ?n (v div ?b) @ [c]"
      using ge base unfolding numeral_chars_def c_def mod div by (subst digits.simps) simp
    have "length (?n (v div ?b)) \<le> 32"
      using length_digits [of "unat base" "unat (v div ?b)" 32] base unat_u32_bound [of "v div ?b"]
      by (simp add: numeral_chars_def)
    then have "writes m (m1(p + of_nat (length (?n (v div ?b))) := c)) p (?n v)"
      unfolding n by (intro writes_append [OF m1(2)] writes_one [OF refl c0]) simp
    moreover have "itoa_rec base m v p =
        Some (m1(p + of_nat (length (?n (v div ?b))) := c), p + of_nat (length (?n v)))"
      unfolding n by (subst itoa_rec.simps) (simp add: False m1(1) c_def Let_def add.assoc)
    ultimately show ?thesis by blast
  qed
qed

section \<open>The reference for vsprintf\<close>

definition signed_chars :: "u32 \<Rightarrow> u8 list" where
  "signed_chars w = (if w <s 0 then 45 # numeral_chars 10 (0 - w) else numeral_chars 10 w)"

text \<open>What a letter after the percent sign stands for; \<open>strs a\<close> is the string at address \<open>a\<close>.\<close>

definition field :: "(u32 \<Rightarrow> u8 list) \<Rightarrow> u32 \<Rightarrow> u8 \<Rightarrow> u8 list option" where
  "field strs w d =
     (if d = 115 then Some (strs w) else if d = 120 then Some (numeral_chars 16 w)
      else if d = 100 then Some (signed_chars w) else if d = 99 then Some [ucast w] else None)"

fun render :: "(u32 \<Rightarrow> u8 list) \<Rightarrow> (nat \<Rightarrow> u32) \<Rightarrow> nat \<Rightarrow> u8 list \<Rightarrow> u8 list" where
  "render strs ap k [] = []"
| "render strs ap k [c] = (if c = 37 then [] else [c])"
| "render strs ap k (c # d # cs) =
     (if c \<noteq> 37 then c # render strs ap k (d # cs)
      else case field strs (ap k) d of
             Some out \<Rightarrow> out @ render strs ap (k + 1) cs
           | None \<Rightarrow> render strs ap k (d # cs))"

text \<open>The addresses of the string arguments.\<close>

fun str_args :: "(nat \<Rightarrow> u32) \<Rightarrow> nat \<Rightarrow> u8 list \<Rightarrow> u32 list" where
  "str_args ap k (c # d # cs) =
     (if c \<noteq> 37 then str_args ap k (d # cs)
      else if d = 115 then ap k # str_args ap (k + 1) cs
      else if d = 120 \<or> d = 100 \<or> d = 99 then str_args ap (k + 1) cs
      else str_args ap k (d # cs))"
| "str_args ap k cs = []"

text \<open>A string outside the region \<open>R\<close> that is written to.\<close>

definition source :: "u32 set \<Rightarrow> bytes \<Rightarrow> u32 \<Rightarrow> u8 list \<Rightarrow> bool" where
  "source R m p cs \<longleftrightarrow> cstr m p cs \<and> span p (Suc (length cs)) \<inter> R = {}"

definition target :: "u32 set \<Rightarrow> u32 \<Rightarrow> u8 list \<Rightarrow> bool" where
  "target R p out \<longleftrightarrow> 0 \<notin> R \<and> 0 \<notin> set out \<and> span p (Suc (length out)) \<subseteq> R \<and> length out < 2 ^ 32 - 1"

lemma source_writes: "source R m q cs \<Longrightarrow> writes m m' p out \<Longrightarrow> span p (Suc (length out)) \<subseteq> R \<Longrightarrow> source R m' q cs"
  using cstr_frame [of q cs m' m] by (auto simp: source_def writes_def)

lemma target_append:
  assumes "target R p (xs @ ys)"
  shows "target R p xs" "target R (p + of_nat (length xs)) ys"
proof -
  have "span p (Suc (length xs)) \<subseteq> span p (Suc (length (xs @ ys)))" by (rule span_mono) simp
  then show "target R p xs" using assms by (auto simp: target_def)
  have "span (p + of_nat (length xs)) (Suc (length ys)) \<subseteq> span p (Suc (length (xs @ ys)))"
    using span_shift [of _ p "length xs" "Suc (length ys)"] by auto
  then show "target R (p + of_nat (length xs)) ys" using assms by (auto simp: target_def)
qed

lemma source_tail: "source R m p (c # cs) \<Longrightarrow> source R m (p + 1) cs"
  by (auto simp: source_def span_Suc [of p "Suc (length cs)"])

lemma target_span: "target R p out \<Longrightarrow> span p (Suc (length out)) \<subseteq> R"
  by (simp add: target_def)

lemma target_nonzero: "target R p out \<Longrightarrow> p \<noteq> 0"
  by (auto simp: target_def span_Suc)

lemma numeral_writes:
  assumes "base = 10 \<or> base = 16"
  shows "\<exists>m'. itoa base m v p = Inr (m', p + of_nat (length (numeral_chars (unat base) v))) \<and>
    writes m m' p (numeral_chars (unat base) v)"
  using itoa_writes [of base m v p] assms by (auto simp: itoa_def)

lemma length_numeral_chars: "2 \<le> base \<Longrightarrow> length (numeral_chars base v) \<le> 32"
  using length_digits [of base "unat v" 32] unat_u32_bound [of v] by (simp add: numeral_chars_def)

lemma conversion_writes:
  assumes f: "field strs (ap k) d = Some out" and tgt: "target R p out"
    and src: "d = 115 \<Longrightarrow> ap k \<noteq> 0 \<and> source R m (ap k) out"
  shows "\<exists>m'. conversion ap m p d k = Some (Inr (m', p + of_nat (length out)) :: ('s, bytes \<times> u32) res) \<and>
    writes m m' p out"
proof -
  consider (s) "d = 115" | (x) "d = 120" "out = numeral_chars 16 (ap k)"
    | (d) "d = 100" "out = signed_chars (ap k)" | (c) "d = 99" "out = [ucast (ap k)]"
    using f by (auto simp: field_def split: if_splits)
  then show ?thesis
  proof cases
    case s
    let ?a = "ap k" and ?n = "Suc (length out)"
    have a: "?a \<noteq> 0" "cstr m ?a out" "span p ?n \<inter> span ?a ?n = {}" "?n < 2 ^ 32"
      using src [OF s] tgt by (auto simp: source_def target_def)
    obtain m' where m': "strcpy_loop m p ?a = Some m'" "cstr m' p out" "\<forall>x. x \<notin> span p ?n \<longrightarrow> m' x = m x"
      using strcpy_loop_cstr [OF a(2,3,4)] by blast
    have "chars m' p out" "m' (p + of_nat (length out)) = 0" using m'(2) cstr_append [of m' p out "[]"] by simp_all
    then have w: "writes m m' p out" using m'(3) by (simp add: writes_def)
    then have c': "cstr m' ?a out" using source_writes [OF conjunct2 [OF src [OF s]] w] tgt by (simp add: source_def target_def)
    have "conversion ap m p d k = Some (Inr (m', p + of_nat (length out)))"
      using s a(1) m'(1) target_nonzero [OF tgt]
      by (simp add: conversion_def strcpy_def strlen_cstr [OF c' a(1)])
    then show ?thesis using w by blast
  next
    case x
    then show ?thesis using numeral_writes [of 16 m "ap k" p] by (simp add: conversion_def)
  next
    case d
    show ?thesis
    proof (cases "ap k <s 0")
      case True
      let ?ds = "numeral_chars 10 (0 - ap k)"
      obtain m' where m': "itoa 10 (m(p := 45)) (0 - ap k) (p + 1) = (Inr (m', p + 1 + of_nat (length ?ds)) :: ('s, bytes \<times> u32) res)"
        "writes (m(p := 45)) m' (p + 1) ?ds"
        using numeral_writes [of 10 "m(p := 45)" "0 - ap k" "p + 1"] by auto
      have "writes m m' p ([45] @ ?ds)"
        by (rule writes_append [OF writes_one [OF refl]])
          (use m'(2) length_numeral_chars [of 10 "0 - ap k"] in simp_all)
      then show ?thesis using d True m'(1) by (simp add: conversion_def signed_chars_def add.assoc)
    next
      case False
      then show ?thesis
        using d numeral_writes [of 10 m "ap k" p] by (simp add: conversion_def signed_chars_def)
    qed
  next
    case c
    moreover have "ucast (ap k) \<noteq> (0 :: u8)" using tgt c by (simp add: target_def)
    ultimately show ?thesis using writes_one [OF refl, of "ucast (ap k)" m p] by (auto simp: conversion_def)
  qed
qed

lemma conversion_none: "field strs (ap k) d = None \<Longrightarrow> conversion ap m p d k = None"
  by (simp add: field_def conversion_def split: if_splits)

text \<open>The loop writes the rendering of the rest of the format.\<close>

lemma vs_loop_renders:
  assumes "source R m ip fmt" "target R bp (render strs ap k fmt)"
    and "\<forall>a \<in> set (str_args ap k fmt). a \<noteq> 0 \<and> source R m a (strs a)"
  shows "\<exists>m'. vs_loop ap m bp ip (m ip) k = Some (Inr m' :: ('s, bytes) res) \<and>
    writes m m' bp (render strs ap k fmt)"
  using assms
proof (induction strs ap k fmt arbitrary: m bp ip rule: render.induct)
  case (1 strs ap k)
  then have "m ip = 0" by (simp add: source_def)
  then show ?case by (subst vs_loop.simps) (simp add: writes_nil)
next
  case (2 strs ap k c)
  then have c: "c \<noteq> 0" "m ip = c" "m (ip + 1) = 0" "ip \<notin> R" "ip + 1 \<notin> R"
    by (auto simp: source_def span_Suc)
  show ?case
  proof (cases "c = 37")
    case True
    have "field strs (ap k) 0 = None" by (simp add: field_def)
    then have "conversion ap m bp 0 k = (None :: ('s, bytes \<times> u32) res option)" for bp by (rule conversion_none)
    then show ?thesis
      using True c by (subst vs_loop.simps, subst vs_loop.simps) (simp add: writes_nil conversion_def)
  next
    case False
    have "bp \<noteq> ip + 1" using 2(2) False c by (auto simp: target_def span_Suc)
    then show ?thesis
      using False c by (subst vs_loop.simps, subst vs_loop.simps) (auto simp: writes_one)
  qed
next
  case (3 strs ap k c d cs)
  note src = "3.prems"(1) and tgt = "3.prems"(2) and args = "3.prems"(3)
  have c: "c \<noteq> 0" "m ip = c" "m (ip + 1) = d" by (use src in \<open>auto simp: source_def\<close>)
  have tl1: "source R m (ip + 1) (d # cs)" by (rule source_tail [OF src])
  have tl2: "source R m (ip + 2) cs" using source_tail [OF tl1] by (simp add: add.assoc)
  consider (char) "c \<noteq> 37" | (none) "c = 37" "field strs (ap k) d = None"
    | (conv) out where "c = 37" "field strs (ap k) d = Some out" by (cases "field strs (ap k) d") auto
  then show ?case
  proof cases
    case char
    define m1 where "m1 = m(bp := c)"
    have r: "render strs ap k (c # d # cs) = [c] @ render strs ap k (d # cs)" using char by simp
    have w: "writes m m1 bp [c]" by (rule writes_one [OF m1_def c(1)])
    note t1 = target_append(1) [OF tgt [unfolded r]] and t2 = target_append(2) [OF tgt [unfolded r]]
    note keep = source_writes [OF _ w target_span [OF t1]]
    have "\<forall>a \<in> set (str_args ap k (d # cs)). a \<noteq> 0 \<and> source R m1 a (strs a)" using args char keep by simp
    then obtain m' where m': "vs_loop ap m1 (bp + 1) (ip + 1) (m1 (ip + 1)) k = Some (Inr m' :: ('s, bytes) res)"
      "writes m1 m' (bp + 1) (render strs ap k (d # cs))"
      using "3.IH"(1) [OF char keep [OF tl1]] t2 by auto
    have "writes m m' bp (render strs ap k (c # d # cs))"
      unfolding r by (rule writes_append [OF w]) (use m'(2) tgt [unfolded r] in \<open>simp_all add: target_def\<close>)
    moreover have "vs_loop ap m bp ip (m ip) k = Some (Inr m' :: ('s, bytes) res)"
      using char c m'(1) by (subst vs_loop.simps) (simp add: Let_def m1_def [symmetric])
    ultimately show ?thesis by blast
  next
    case none
    have r: "render strs ap k (c # d # cs) = render strs ap k (d # cs)" using none by simp
    have cn: "conversion ap m bp d k = (None :: ('s, bytes \<times> u32) res option)"
      by (rule conversion_none, rule none(2))
    have "\<forall>a \<in> set (str_args ap k (d # cs)). a \<noteq> 0 \<and> source R m a (strs a)"
      using args none by (auto simp: field_def split: if_splits)
    then obtain m' where m': "vs_loop ap m bp (ip + 1) (m (ip + 1)) k = Some (Inr m' :: ('s, bytes) res)"
      "writes m m' bp (render strs ap k (d # cs))"
      using "3.IH"(2) [OF _ none(2) tl1] none(1) tgt [unfolded r] by auto
    moreover have "vs_loop ap m bp ip (m ip) k = Some (Inr m' :: ('s, bytes) res)"
      using none(1) c m'(1) cn by (subst vs_loop.simps) simp
    ultimately show ?thesis unfolding r by blast
  next
    case (conv out)
    have r: "render strs ap k (c # d # cs) = out @ render strs ap (k + 1) cs" using conv by simp
    note t1 = target_append(1) [OF tgt [unfolded r]] and t2 = target_append(2) [OF tgt [unfolded r]]
    have "d = 115 \<Longrightarrow> ap k \<noteq> 0 \<and> source R m (ap k) out" using args conv by (simp add: field_def)
    then obtain m1 where m1: "conversion ap m bp d k = Some (Inr (m1, bp + of_nat (length out)) :: ('s, bytes \<times> u32) res)"
      "writes m m1 bp out"
      using conversion_writes [of strs ap k d out R bp m] conv(2) t1 by blast
    note keep = source_writes [OF _ m1(2) target_span [OF t1]]
    have "\<forall>a \<in> set (str_args ap (k + 1) cs). a \<noteq> 0 \<and> source R m1 a (strs a)"
      using args conv keep by (auto simp: field_def split: if_splits)
    then obtain m' where m': "vs_loop ap m1 (bp + of_nat (length out)) (ip + 2) (m1 (ip + 2)) (k + 1) = Some (Inr m' :: ('s, bytes) res)"
      "writes m1 m' (bp + of_nat (length out)) (render strs ap (k + 1) cs)"
      using "3.IH"(3) [OF _ conv(2) keep [OF tl2] t2] conv(1) by auto
    have "writes m m' bp (render strs ap k (c # d # cs))"
      unfolding r by (rule writes_append [OF m1(2) m'(2)]) (use tgt [unfolded r] in \<open>simp add: target_def\<close>)
    moreover have "vs_loop ap m bp ip (m ip) k = Some (Inr m' :: ('s, bytes) res)"
      using conv(1) c m1(1) m'(1) by (subst vs_loop.simps) simp
    ultimately show ?thesis by blast
  qed
qed

lemma vsprintf_run:
  assumes "source R m fmt f" "target R str (render strs ap 0 f)"
    and "\<forall>a \<in> set (str_args ap 0 f). a \<noteq> 0 \<and> source R m a (strs a)"
    and "m (str + of_nat (length (render strs ap 0 f))) = 0"
  shows "\<exists>m'. vsprintf m str fmt ap = (Inr (of_nat (length (render strs ap 0 f)), m') :: ('s, u32 \<times> bytes) res) \<and>
    cstr m' str (render strs ap 0 f)"
proof -
  let ?out = "render strs ap 0 f"
  obtain m' where m': "vs_loop ap m str fmt (m fmt) 0 = Some (Inr m' :: ('s, bytes) res)" "writes m m' str ?out"
    using vs_loop_renders [OF assms(1-3)] by blast
  have "chars m' str ?out" "m' (str + of_nat (length ?out)) = 0" using m'(2) assms(4) by (auto simp: writes_def)
  then have c: "cstr m' str ?out" using cstr_append [of m' str ?out "[]"] by simp
  have "vsprintf m str fmt ap = (Inr (of_nat (length ?out), m') :: ('s, u32 \<times> bytes) res)"
    using m'(1) by (simp add: vsprintf_def strlen_cstr [OF c target_nonzero [OF assms(2)]])
  then show ?thesis using c by blast
qed

section \<open>Properties\<close>

text \<open>
  C31. itoa and reading back: the characters itoa writes for a number, read as digits of the same
  base, give the number again, for every base from 2 to 36; the first digit of a positive number
  is not 0, and nothing outside the written characters changes.
\<close>

theorem itoa_reads_back:
  assumes "2 \<le> unat base" "unat base \<le> 36"
  shows "\<exists>m' cs. itoa base m v p = Inr (m', p + of_nat (length cs)) \<and> writes m m' p cs \<and>
    digits_value (unat base) (map char_digit cs) = unat v \<and> (if v = 0 then cs = [48] else char_digit (hd cs) \<noteq> 0)"
proof -
  let ?cs = "numeral_chars (unat base) v" and ?ds = "digits (unat base) (unat v)"
  have lt: "d < 36" if "d \<in> set ?ds" for d using digits_less [OF assms(1) that] assms(2) by simp
  then have read: "map char_digit ?cs = ?ds"
    unfolding numeral_chars_def by (simp add: char_digit_char map_idI)
  have "if v = 0 then ?cs = [48] else char_digit (hd ?cs) \<noteq> 0"
  proof (cases "v = 0")
    case True
    have "digits (unat base) 0 = [0]" using assms(1) by (subst digits.simps) simp
    then show ?thesis using True by (simp add: numeral_chars_def digit_char_def)
  next
    case False
    then have "0 < unat v" by (simp add: unat_gt_0)
    note hd = digits_hd [OF assms(1) this]
    then have "char_digit (hd ?cs) = hd ?ds" unfolding numeral_chars_def using lt by (simp add: hd_map char_digit_char)
    then show ?thesis using hd False by simp
  qed
  moreover have "digits_value (unat base) (map char_digit ?cs) = unat v"
    unfolding read by (rule digits_value_digits)
  moreover obtain m' where m': "itoa_rec base m v p = Some (m', p + of_nat (length ?cs))" "writes m m' p ?cs"
    using itoa_writes [OF assms] by blast
  moreover have "itoa base m v p = Inr (m', p + of_nat (length ?cs))"
    using assms(1) m'(1) by (auto simp: itoa_def)
  ultimately show ?thesis by blast
qed

lemma itoa_reads_back_witness:
  "\<exists>m' cs. itoa 16 (\<lambda>_. 0) 0xC0DE 1000 = Inr (m', 1000 + of_nat (length cs)) \<and>
    digits_value 16 (map char_digit cs) = 0xC0DE"
  using itoa_reads_back [of 16 "\<lambda>_. 0" "0xC0DE" 1000] by auto

text \<open>
  C29. vsprintf writes what the format stands for: plain characters as they are, the string argument
  for %s, the number in hexadecimal for %x, the signed number for %d and the character for %c,
  and returns its length; provided format and strings lie outside the output, no %c argument is
  zero, and the byte after the output is zero beforehand.
\<close>

theorem vsprintf_renders:
  assumes "source R m fmt f" "target R str (render strs ap 0 f)"
    and "\<forall>a \<in> set (str_args ap 0 f). a \<noteq> 0 \<and> source R m a (strs a)"
    and "m (str + of_nat (length (render strs ap 0 f))) = 0"
  shows "\<exists>m'. vsprintf m str fmt ap = Inr (of_nat (length (render strs ap 0 f)), m') \<and>
    cstr m' str (render strs ap 0 f)"
  using assms by (rule vsprintf_run)

text \<open>The format ''a%d%s'' at 100, a string at 200, the output from 1000 on.\<close>

definition demo_format :: "u8 list" where "demo_format = [97, 37, 100, 37, 115]"

definition demo_bytes :: bytes where
  "demo_bytes = (\<lambda>_. 0)(100 := 97, 101 := 37, 102 := 100, 103 := 37, 104 := 115, 200 := 120)"

definition demo_args :: "nat \<Rightarrow> u32" where
  "demo_args = (\<lambda>_. 0)(0 := - 17, 1 := 200)"

lemma demo_render: "render (\<lambda>_. [120]) demo_args 0 demo_format = [97, 45, 49, 55, 120]"
proof -
  have "digits 10 17 = [1, 7]" by (simp add: digits.simps)
  then show ?thesis
    by (simp add: demo_format_def demo_args_def field_def signed_chars_def numeral_chars_def digit_char_def
        word_sless_alt)
qed

lemma span_numeral: "span p (numeral k) = insert p (span (p + 1) (pred_numeral k))"
  by (simp add: numeral_eq_Suc span_Suc)

lemma demo_source_target:
  "source (span 1000 6) demo_bytes 100 demo_format" "source (span 1000 6) demo_bytes 200 [120]"
  "target (span 1000 6) 1000 [97, 45, 49, 55, 120]"
  "set (str_args demo_args 0 demo_format) = {200}" "demo_bytes 1005 = 0"
  by (simp_all add: source_def target_def demo_bytes_def demo_format_def demo_args_def span_numeral span_Suc)

lemma vsprintf_renders_witness:
  "\<exists>m'. vsprintf demo_bytes 1000 100 demo_args = Inr (5, m') \<and> cstr m' 1000 [97, 45, 49, 55, 120]"
  using vsprintf_renders [of "span 1000 6" demo_bytes 100 demo_format 1000 "\<lambda>_. [120]" demo_args]
    demo_source_target by (simp add: demo_render)

text \<open>
  vsprintf never writes a terminating zero of its own: with the empty format it leaves the
  buffer as it was and returns the length of the string that was there.
\<close>

theorem vsprintf_no_terminator:
  assumes "cstr m fmt []" "cstr m str old" "str \<noteq> NULL"
  shows "vsprintf m str fmt ap = Inr (of_nat (length old), m)"
  using assms(1) by (simp add: vsprintf_def vs_loop.simps strlen_cstr [OF assms(2,3)])

lemma vsprintf_no_terminator_witness: "vsprintf demo_bytes 200 1000 demo_args = Inr (1, demo_bytes)"
  using vsprintf_no_terminator [of demo_bytes 1000 200 "[120]" demo_args] by (simp add: demo_bytes_def)

text \<open>
  printf hands write its buffer with the rendered string and returns its length, when the
  string fits the 1024 bytes of the buffer; nothing checks that it does.
\<close>

theorem printf_writes:
  fixes wr :: "bytes \<Rightarrow> u32 \<Rightarrow> ('s, 'r) res"
  assumes "source (span buf 1024) m fmt f" "target (span buf 1024) buf (render strs args 0 f)"
    and "\<forall>a \<in> set (str_args args 0 f). a \<noteq> 0 \<and> source (span buf 1024) m a (strs a)"
  shows "\<exists>m'. cstr m' buf (render strs args 0 f) \<and> printf wr m buf fmt args =
    bindR (wr m' buf) (\<lambda>r. Inr (of_nat (length (render strs args 0 f)), r))"
proof -
  let ?out = "render strs args 0 f" and ?m0 = "memset_loop m buf 0 1024"
  have m0: "?m0 a = m a" if "a \<notin> span buf 1024" for a
    using that by (simp add: mem_span memset_loop_eq word_less_nat_alt)
  then have keep: "source (span buf 1024) ?m0 p cs" if "source (span buf 1024) m p cs" for p cs
    using that cstr_frame [of p cs ?m0 m] by (auto simp: source_def)
  have len: "length ?out < 1024"
  proof (rule ccontr)
    assume "\<not> length ?out < 1024"
    moreover have "buf + of_nat (length ?out) \<in> span buf (Suc (length ?out))" unfolding span_def by blast
    ultimately show False using span_last [of "length ?out" 1023 buf] assms(2) by (auto simp: target_def)
  qed
  have "?m0 (buf + of_nat (length ?out)) = 0"
    using len by (simp add: memset_loop_eq word_less_nat_alt unat_of_nat)
  then obtain m' where m': "vsprintf ?m0 buf fmt args = (Inr (of_nat (length ?out), m') :: ('s, u32 \<times> bytes) res)"
    "cstr m' buf ?out"
    using vsprintf_run [OF keep [OF assms(1)] assms(2)] assms(3) keep by blast
  have "printf wr m buf fmt args = bindR (wr m' buf) (\<lambda>r. Inr (of_nat (length ?out), r))"
    using m'(1) by (simp add: printf_def Let_def)
  then show ?thesis using m'(2) by blast
qed

lemma demo_printf:
  "source (span 1000 1024) demo_bytes 100 demo_format" "source (span 1000 1024) demo_bytes 200 [120]"
  "target (span 1000 1024) 1000 [97, 45, 49, 55, 120]"
proof -
  have sp: "span 100 6 = {100, 101, 102, 103, 104, 105}" "span 200 2 = {200, 201}" "span 1000 6 = {1000, 1001, 1002, 1003, 1004, 1005}"
    by (simp_all add: span_numeral span_Suc)
  have l: "Suc (length demo_format) = 6" "Suc (length [120 :: u8]) = 2" "Suc (length [97, 45, 49, 55, 120 :: u8]) = 6"
    by (simp_all add: demo_format_def)
  show "source (span 1000 1024) demo_bytes 100 demo_format" "source (span 1000 1024) demo_bytes 200 [120]"
    "target (span 1000 1024) 1000 [97, 45, 49, 55, 120]"
    unfolding source_def target_def l sp by (simp_all add: demo_bytes_def demo_format_def mem_span)
qed

lemma printf_writes_witness:
  "\<exists>m'. cstr m' 1000 [97, 45, 49, 55, 120] \<and>
    printf (\<lambda>m buf. Inr m) demo_bytes 1000 100 demo_args = Inr (5, m')"
  using printf_writes [of 1000 demo_bytes 100 demo_format "\<lambda>_. [120]" demo_args "\<lambda>m buf. Inr m"]
    demo_source_target(4) demo_printf by (simp add: demo_render)

end
