(* ===== verification/Kernel_Main.thy ===== *)
theory Kernel_Main
  imports Start_Props Stdio
begin

text \<open>
  kernel/main.c: main, which starts the kernel, two kernel threads and two processes, and what these
  run. The linker's choices are parameters: \<open>code f\<close> is the address of the function \<open>f\<close>, \<open>lit str\<close>
  the address of the literal \<open>str\<close>. Each function is modelled up to its endless loop.
\<close>

section \<open>main\<close>

definition kernel_main ::
  "(fptr \<Rightarrow> u32) \<Rightarrow> (string \<Rightarrow> u32) \<Rightarrow> (nat \<Rightarrow> u32) \<Rightarrow> u32 \<Rightarrow> kstate \<Rightarrow> kstate kres" where
  "kernel_main code lit entry syscall_handler s =
     bindR (init_all (put_str s ''I AM KERNEL\<newline>'') entry syscall_handler) (\<lambda>s1.
     bindR (thread_start (fst (intr_enable s1)) ''kernel_thread_a'' 31 ''k_thread_a'' (lit '' threadA: 0x'')) (\<lambda>(_, s2).
     bindR (thread_start s2 ''kernel_thread_b'' 31 ''k_thread_b'' (lit '' threadB: 0x'')) (\<lambda>(_, s3).
     bindR (process_execute s3 (code ''u_prog_b'') ''user_prog_a'') (\<lambda>s4.
       process_execute s4 (code ''u_prog_a'') ''user_prog_b''))))"

text \<open>What the creation of a thread or a process changes in the table of threads.\<close>

definition made :: "kstate \<Rightarrow> kstate \<Rightarrow> u32 \<Rightarrow> string \<Rightarrow> bool" where
  "made s s' v name \<longleftrightarrow> next_pid s' = next_pid s + 1 \<and> cur s' = cur s \<and> eflags s' = eflags s \<and>
     (\<forall>t. t \<noteq> v \<longrightarrow> tasks s' t = tasks s t) \<and> task_name (tasks s' v) = name \<and> priority (tasks s' v) = 31 \<and>
     pid (tasks s' v) = next_pid s + 1 \<and> task_ticks (tasks s' v) = 31 \<and> stack_magic (tasks s' v) = 0x19980906"

lemma started_made: "started s s' v name 31 f arg \<Longrightarrow> made s s' v name"
  by (simp add: started_def made_def new_pcb_def)

lemma executed_made: "executed s s' F v dir f filename name \<Longrightarrow> made s s' v name"
  by (auto simp: executed_def new_process_def made_def new_pcb_def default_prio_def)

lemma start_step:
  assumes "system_inv s F rs Ts D" "roomy s (Suc n)" "length name < 16"
  obtains v s' F' where "thread_start s name 31 f arg = Inr (v, s')" "made s s' v name" "v \<notin> Ts" "roomy s' n"
    "system_inv s' F' (rs @ [v]) (insert v Ts) (D(v := 0x100000))"
  using thread_start_system [OF assms] started_made by blast

lemma execute_step:
  assumes "system_inv s F rs Ts D" "roomy s (25 + n)" "length name < 16"
  obtains v f s' F' where "process_execute s filename name = Inr s'" "made s s' v name" "v \<notin> Ts" "f \<notin> D ` Ts" "roomy s' n"
    "system_inv s' F' (rs @ [v]) (insert v Ts) (D(v := f))"
  using process_execute_system [OF assms] executed_made by blast

lemma system_sti:
  assumes "system_inv s F rs Ts D"
  shows "system_inv (fst (intr_enable s)) F rs Ts D" "roomy (fst (intr_enable s)) n = roomy s n"
    "cur (fst (intr_enable s)) = cur s" "tasks (fst (intr_enable s)) = tasks s" "next_pid (fst (intr_enable s)) = next_pid s"
    "intr_get_status (fst (intr_enable s)) = INTR_ON"
proof -
  let ?s = "sti s"
  have "same_locks s ?s" "lheap ?s = lheap s" "tasks ?s = tasks s" "main_thread ?s = main_thread s" "phys ?s = phys s"
    "cr3 ?s = cr3 s" "mem ?s = mem s" "kernel_pool ?s = kernel_pool s" "user_pool ?s = user_pool s" "kernel_vaddr ?s = kernel_vaddr s"
    by (simp_all add: sti_def same_locks_def)
  note r = system_inv_same [OF assms this]
  show "system_inv (fst (intr_enable s)) F rs Ts D" "roomy (fst (intr_enable s)) n = roomy s n"
    "cur (fst (intr_enable s)) = cur s" "tasks (fst (intr_enable s)) = tasks s" "next_pid (fst (intr_enable s)) = next_pid s"
    using r by (simp_all add: fst_intr_enable roomy_quiet sti_def)
  show "intr_get_status (fst (intr_enable s)) = INTR_ON" by (simp add: fst_intr_enable)
qed

lemma kernel_main_runs:
  assumes "machine_started M s" "104 < unat (kernel_free_pages M) div 8"
  shows "\<exists>s' F a b p q fp fq n. kernel_main code lit entry h s = Inr s' \<and>
    system_inv s' F [a, b, p, q] {MAIN_PCB, a, b, p, q} ((\<lambda>_. 0x100000)(p := fp, q := fq)) \<and>
    distinct [MAIN_PCB, a, b, p, q] \<and> distinct [0x100000, fp, fq] \<and>
    cur s' = MAIN_PCB \<and> status (tasks s' MAIN_PCB) = TASK_RUNNING \<and> intr_get_status s' = INTR_ON \<and>
    map (\<lambda>t. task_name (tasks s' t)) [MAIN_PCB, a, b, p, q] =
      [''main'', ''kernel_thread_a'', ''kernel_thread_b'', ''user_prog_a'', ''user_prog_b''] \<and>
    map (\<lambda>t. priority (tasks s' t)) [MAIN_PCB, a, b, p, q] = [1, 31, 31, 31, 31] \<and>
    map (\<lambda>t. pid (tasks s' t)) [MAIN_PCB, a, b, p, q] = [n, n + 1, n + 2, n + 3, n + 4] \<and>
    map (\<lambda>t. task_ticks (tasks s' t)) [MAIN_PCB, a, b, p, q] = [1, 31, 31, 31, 31] \<and>
    map (\<lambda>t. stack_magic (tasks s' t)) [MAIN_PCB, a, b, p, q] = replicate 5 0x19980906"
proof -
  let ?s0 = "put_str s ''I AM KERNEL\<newline>''" and ?D = "\<lambda>_. 0x100000 :: u32"
  have "machine_started M ?s0" using assms(1) by (simp add: machine_started_def put_str_def)
  from init_all_system [OF this, of entry h] obtain s1 where s1: "init_all ?s0 entry h = Inr s1"
    "system_inv s1 kernel_lists [] {MAIN_PCB} ?D" "main_running s1"
    and room1: "\<And>n. 2 * n < unat (kernel_free_pages M) div 8 \<Longrightarrow> roomy s1 n" by blast
  let ?e = "fst (intr_enable s1)"
  note e = system_sti [OF s1(2)]
  have "roomy s1 52" by (rule room1) (use assms(2) in simp)
  then have re: "roomy ?e (Suc 51)" using e(2) by simp
  have name: "length ''kernel_thread_a'' < 16" "length ''kernel_thread_b'' < 16" "length ''user_prog_a'' < 16" "length ''user_prog_b'' < 16"
    by simp_all
  obtain a s2 F2 where s2: "thread_start ?e ''kernel_thread_a'' 31 ''k_thread_a'' (lit '' threadA: 0x'') = Inr (a, s2)"
    "made ?e s2 a ''kernel_thread_a''" "a \<notin> {MAIN_PCB}" "roomy s2 51"
    "system_inv s2 F2 ([] @ [a]) {a, MAIN_PCB} (?D(a := 0x100000))"
    by (rule start_step [OF e(1) re name(1)]) (rule that)
  have r2: "roomy s2 (Suc 50)" using s2(4) by simp
  obtain b s3 F3 where s3: "thread_start s2 ''kernel_thread_b'' 31 ''k_thread_b'' (lit '' threadB: 0x'') = Inr (b, s3)"
    "made s2 s3 b ''kernel_thread_b''" "b \<notin> {a, MAIN_PCB}" "roomy s3 50"
    "system_inv s3 F3 (([] @ [a]) @ [b]) {b, a, MAIN_PCB} (?D(a := 0x100000, b := 0x100000))"
    by (rule start_step [OF s2(5) r2 name(2)]) (rule that)
  have r3: "roomy s3 (25 + 25)" using s3(4) by simp
  obtain p fp s4 F4 where s4: "process_execute s3 (code ''u_prog_b'') ''user_prog_a'' = Inr s4"
    "made s3 s4 p ''user_prog_a''" "p \<notin> {b, a, MAIN_PCB}" "fp \<notin> (?D(a := 0x100000, b := 0x100000)) ` {b, a, MAIN_PCB}"
    "roomy s4 25" "system_inv s4 F4 ((([] @ [a]) @ [b]) @ [p]) {p, b, a, MAIN_PCB} (?D(a := 0x100000, b := 0x100000, p := fp))"
    by (rule execute_step [OF s3(5) r3 name(3)]) (rule that)
  have r4: "roomy s4 (25 + 0)" using s4(5) by simp
  obtain q fq s5 F5 where s5: "process_execute s4 (code ''u_prog_a'') ''user_prog_b'' = Inr s5"
    "made s4 s5 q ''user_prog_b''" "q \<notin> {p, b, a, MAIN_PCB}"
    "fq \<notin> (?D(a := 0x100000, b := 0x100000, p := fp)) ` {p, b, a, MAIN_PCB}"
    "system_inv s5 F5 (((([] @ [a]) @ [b]) @ [p]) @ [q]) {q, p, b, a, MAIN_PCB} (?D(a := 0x100000, b := 0x100000, p := fp, q := fq))"
    by (rule execute_step [OF s4(6) r4 name(4)]) (rule that)
  have run: "kernel_main code lit entry h s = Inr s5"
    by (simp add: kernel_main_def s1(1) s2(1) s3(1) s4(1) s5(1))
  have ne: "distinct [MAIN_PCB, a, b, p, q]" "distinct [0x100000, fp, fq]" using s2(3) s3(3) s4(3,4) s5(3,4) by auto
  have D: "?D(a := 0x100000, b := 0x100000, p := fp, q := fq) = ?D(p := fp, q := fq)" by (auto simp: fun_eq_iff)
  have T: "{q, p, b, a, MAIN_PCB} = {MAIN_PCB, a, b, p, q}" by auto
  note made = s2(2) s3(2) s4(2) s5(2)
  have cur: "cur s5 = MAIN_PCB" "intr_get_status s5 = INTR_ON"
    using made e(3,6) s1(3) by (simp_all add: made_def main_running_def intr_get_status_def)
  have t: "tasks s5 MAIN_PCB = tasks s1 MAIN_PCB" "tasks s5 a = tasks s2 a" "tasks s5 b = tasks s3 b" "tasks s5 p = tasks s4 p"
    using made e(4) ne(1) by (simp_all add: made_def)
  have np: "next_pid ?e = next_pid s1" "next_pid s2 = next_pid s1 + 1" "next_pid s3 = next_pid s1 + 2" "next_pid s4 = next_pid s1 + 3"
    using made e(5) by (simp_all add: made_def)
  have sys: "system_inv s5 F5 [a, b, p, q] {MAIN_PCB, a, b, p, q} (?D(p := fp, q := fq))"
    using s5(5) unfolding D T by simp
  have main: "tasks s5 MAIN_PCB = zero_task\<lparr>self_kstack := 0xc009f000, pid := next_pid s1, status := TASK_RUNNING,
       task_name := ''main'', priority := 1, task_ticks := 1, stack_magic := 0x19980906\<rparr>"
    using s1(3) by (simp add: t main_running_def)
  have "map (\<lambda>t. task_name (tasks s5 t)) [MAIN_PCB, a, b, p, q] =
      [''main'', ''kernel_thread_a'', ''kernel_thread_b'', ''user_prog_a'', ''user_prog_b'']"
    "map (\<lambda>t. priority (tasks s5 t)) [MAIN_PCB, a, b, p, q] = [1, 31, 31, 31, 31]"
    "map (\<lambda>t. pid (tasks s5 t)) [MAIN_PCB, a, b, p, q] =
      [next_pid s1, next_pid s1 + 1, next_pid s1 + 2, next_pid s1 + 3, next_pid s1 + 4]"
    "map (\<lambda>t. task_ticks (tasks s5 t)) [MAIN_PCB, a, b, p, q] = [1, 31, 31, 31, 31]"
    "map (\<lambda>t. stack_magic (tasks s5 t)) [MAIN_PCB, a, b, p, q] = replicate 5 0x19980906"
    using made by (simp_all add: main t made_def np numeral_eq_Suc)
  moreover have "status (tasks s5 MAIN_PCB) = TASK_RUNNING" by (simp add: main)
  moreover note run sys ne cur
  ultimately show ?thesis
    by (intro exI [of _ s5] exI [of _ F5] exI [of _ a] exI [of _ b] exI [of _ p] exI [of _ q] exI [of _ fp] exI [of _ fq]
        exI [of _ "next_pid s1"] conjI)
qed

text \<open>
  C6. main works. On the page tables the loader leaves, with 105 bytes of the map of the kernel's pool
  or more (52 pages are used), main starts all parts of the kernel, turns interrupts on and reaches
  its endless loop; then the two kernel threads and the two processes are READY, in this order,
  with their names, priority 31 and the next four process ids, main is RUNNING, each process has
  a page directory of its own, and the invariants of the whole kernel hold, so that the timer can
  hand the processor from any of the five to the next.
\<close>

theorem kernel_main_ready:
  assumes "machine_started M s" "104 < unat (kernel_free_pages M) div 8"
  shows "\<exists>s' F a b p q fp fq n. kernel_main code lit entry h s = Inr s' \<and>
    system_inv s' F [a, b, p, q] {MAIN_PCB, a, b, p, q} ((\<lambda>_. 0x100000)(p := fp, q := fq)) \<and>
    distinct [MAIN_PCB, a, b, p, q] \<and> distinct [0x100000, fp, fq] \<and>
    cur s' = MAIN_PCB \<and> status (tasks s' MAIN_PCB) = TASK_RUNNING \<and> intr_get_status s' = INTR_ON \<and>
    map (\<lambda>t. task_name (tasks s' t)) [MAIN_PCB, a, b, p, q] =
      [''main'', ''kernel_thread_a'', ''kernel_thread_b'', ''user_prog_a'', ''user_prog_b''] \<and>
    map (\<lambda>t. priority (tasks s' t)) [MAIN_PCB, a, b, p, q] = [1, 31, 31, 31, 31] \<and>
    map (\<lambda>t. pid (tasks s' t)) [MAIN_PCB, a, b, p, q] = [n, n + 1, n + 2, n + 3, n + 4]"
  using kernel_main_runs [OF assms, of code lit entry h] by (elim exE conjE) (intro exI conjI; assumption)

lemma kernel_main_ready_witness:
  "\<exists>s' F a b p q D. kernel_main (\<lambda>_. 0xc0001500) (\<lambda>_. 0xc0002000) (\<lambda>_. 0) 0 machine = Inr s' \<and>
    system_inv s' F [a, b, p, q] {MAIN_PCB, a, b, p, q} D \<and> distinct [MAIN_PCB, a, b, p, q]"
proof -
  have "104 < unat (kernel_free_pages 0x2000000) div 8" by (simp only: machine_pages)
  from kernel_main_ready [OF machine_starts this, of "\<lambda>_. 0xc0001500" "\<lambda>_. 0xc0002000" "\<lambda>_. 0" 0] show ?thesis by blast
qed

text \<open>The turns of main and the four others: 2 ticks and four times 32, over and over.\<close>

lemma main_turns:
  assumes L: "L = [m, a, b, p, q]" "cur s = m" and pr: "map (\<lambda>t. priority (tasks s t)) L = [1, 31, 31, 31, 31]" "task_ticks (tasks s m) = 1"
  shows "map (\<lambda>i. turn_start s L (5 * j + i)) [0, 1, 2, 3, 4] = map (\<lambda>n. 130 * j + n) [0, 2, 34, 66, 98]"
proof -
  define len where "len i = Suc (unat (if i = 0 then task_ticks (tasks s (cur s)) else priority (tasks s (L ! (i mod length L)))))" for i
  have first: "task_ticks (tasks s (cur s)) = priority (tasks s (L ! 0))" using assms by simp
  have at: "len (5 * j + r) = Suc (unat (priority (tasks s (L ! r))))" if "r < 5" for j r
  proof -
    have "length L = 5" "(5 * j + r) mod 5 = r" using L(1) that by simp_all
    then show ?thesis using first by (simp add: len_def del: mult_eq_0_iff)
  qed
  have len: "len (5 * j + 0) = 2" "len (5 * j + 1) = 32" "len (5 * j + 2) = 32" "len (5 * j + 3) = 32" "len (5 * j + 4) = 32" for j
    using pr(1) L(1) at [of 0 j] at [of 1 j] at [of 2 j] at [of 3 j] at [of 4 j] by simp_all
  have T: "turn_start s L k = (\<Sum>i < k. len i)" for k by (simp add: turn_start_def len_def)
  have step: "turn_start s L (5 * j + 1) = turn_start s L (5 * j) + 2" "turn_start s L (5 * j + 2) = turn_start s L (5 * j + 1) + 32"
    "turn_start s L (5 * j + 3) = turn_start s L (5 * j + 2) + 32" "turn_start s L (5 * j + 4) = turn_start s L (5 * j + 3) + 32"
    "turn_start s L (5 * j + 5) = turn_start s L (5 * j + 4) + 32" for j
  proof -
    have "{..< 5 * j + 1} = insert (5 * j + 0) {..< 5 * j}" "{..< 5 * j + 2} = insert (5 * j + 1) {..< 5 * j + 1}"
      "{..< 5 * j + 3} = insert (5 * j + 2) {..< 5 * j + 2}" "{..< 5 * j + 4} = insert (5 * j + 3) {..< 5 * j + 3}"
      "{..< 5 * j + 5} = insert (5 * j + 4) {..< 5 * j + 4}" by auto
    note sets = this
    show "turn_start s L (5 * j + 1) = turn_start s L (5 * j) + 2" unfolding T sets(1) using len(1) [of j] by simp
    show "turn_start s L (5 * j + 2) = turn_start s L (5 * j + 1) + 32" unfolding T sets(2) using len(2) [of j] by simp
    show "turn_start s L (5 * j + 3) = turn_start s L (5 * j + 2) + 32" unfolding T sets(3) using len(3) [of j] by simp
    show "turn_start s L (5 * j + 4) = turn_start s L (5 * j + 3) + 32" unfolding T sets(4) using len(4) [of j] by simp
    show "turn_start s L (5 * j + 5) = turn_start s L (5 * j + 4) + 32" unfolding T sets(5) using len(5) [of j] by simp
  qed
  have "turn_start s L (5 * j) = 130 * j"
  proof (induction j)
    case (Suc j)
    have "5 * Suc j = 5 * j + 5" by simp
    show ?case unfolding \<open>5 * Suc j = 5 * j + 5\<close> using step [of j] Suc.IH by simp
  qed (simp add: T)
  then show ?thesis using step [of j] by simp
qed

text \<open>
  C7. After main has reached its loop the timer gives the processor to every thread and every process it
  started, for ever. When only timer interrupts come, and the threads do nothing in their turns that
  blocks or makes threads, main runs for two ticks,
  then the first thread, the second thread, the first process and the second for 32 ticks each, then
  main again, and so on without end. No switch fails an assertion or a page table walk.
\<close>

theorem kernel_main_shares_processor:
  assumes "machine_started M s" "104 < unat (kernel_free_pages M) div 8"
  shows "\<exists>s' a b p q. kernel_main code lit entry h s = Inr s' \<and> distinct [MAIN_PCB, a, b, p, q] \<and>
    map (\<lambda>t. task_name (tasks s' t)) [MAIN_PCB, a, b, p, q] =
      [''main'', ''kernel_thread_a'', ''kernel_thread_b'', ''user_prog_a'', ''user_prog_b''] \<and>
    (\<forall>j. map (\<lambda>n. cur ((timer_tick ^^ (130 * j + n)) (cli s'))) [0, 2, 34, 66, 98] = [MAIN_PCB, a, b, p, q])"
proof -
  obtain s' F a b p q fp fq where k: "kernel_main code lit entry h s = Inr s'"
    "system_inv s' F [a, b, p, q] {MAIN_PCB, a, b, p, q} ((\<lambda>_. 0x100000)(p := fp, q := fq))"
    "distinct [MAIN_PCB, a, b, p, q]" "cur s' = MAIN_PCB"
    "map (\<lambda>t. task_name (tasks s' t)) [MAIN_PCB, a, b, p, q] =
      [''main'', ''kernel_thread_a'', ''kernel_thread_b'', ''user_prog_a'', ''user_prog_b'']"
    "map (\<lambda>t. priority (tasks s' t)) [MAIN_PCB, a, b, p, q] = [1, 31, 31, 31, 31]"
    "map (\<lambda>t. task_ticks (tasks s' t)) [MAIN_PCB, a, b, p, q] = [1, 31, 31, 31, 31]"
    "map (\<lambda>t. stack_magic (tasks s' t)) [MAIN_PCB, a, b, p, q] = replicate 5 0x19980906"
    using kernel_main_runs [OF assms, of code lit entry h] by (elim exE conjE) (rule that; assumption)
  let ?s = "cli s'" and ?L = "[MAIN_PCB, a, b, p, q]"
  have inv: "sched_inv ?s F [a, b, p, q] {MAIN_PCB, a, b, p, q} ((\<lambda>_. 0x100000)(p := fp, q := fq))"
    using k(2) by (simp add: system_inv_def)
  have full: "slices_full ?s {MAIN_PCB, a, b, p, q}"
    using k(4,6-8) by (auto simp: slices_full_def numeral_eq_Suc)
  have run: "cur ((timer_tick ^^ turn_start ?s ?L i) ?s) = ?L ! (i mod 5)" for i
    using turn_thread [OF inv _ full, of i] k(4) by simp
  have "map (\<lambda>n. cur ((timer_tick ^^ n) ?s)) (map (\<lambda>n. 130 * j + n) [0, 2, 34, 66, 98]) = ?L" for j
  proof -
    have "map (\<lambda>i. turn_start ?s ?L (5 * j + i)) [0, 1, 2, 3, 4] = map (\<lambda>n. 130 * j + n) [0, 2, 34, 66, 98]"
      by (rule main_turns [OF refl]) (use k(4,6,7) in simp_all)
    then have "map (\<lambda>n. cur ((timer_tick ^^ n) ?s)) (map (\<lambda>n. 130 * j + n) [0, 2, 34, 66, 98]) =
        map (\<lambda>i. cur ((timer_tick ^^ turn_start ?s ?L (5 * j + i)) ?s)) [0, 1, 2, 3, 4]"
      by (metis (no_types, lifting) comp_apply map_map map_eq_conv)
    also have "\<dots> = ?L" unfolding run by simp
    finally show ?thesis .
  qed
  then show ?thesis using k(1,3,5) by (intro exI [of _ s'] exI [of _ a] exI [of _ b] exI [of _ p] exI [of _ q] conjI) (simp_all add: comp_def)
qed

lemma kernel_main_shares_processor_witness:
  "\<exists>s' q. kernel_main (\<lambda>_. 0xc0001500) (\<lambda>_. 0xc0002000) (\<lambda>_. 0) 0 machine = Inr s' \<and>
    cur ((timer_tick ^^ (130 * 7 + 98)) (cli s')) = q \<and> task_name (tasks s' q) = ''user_prog_b''"
proof -
  have "104 < unat (kernel_free_pages 0x2000000) div 8" by (simp only: machine_pages)
  from kernel_main_shares_processor [OF machine_starts this, of "\<lambda>_. 0xc0001500" "\<lambda>_. 0xc0002000" "\<lambda>_. 0" 0]
  obtain s' a b p q where k: "kernel_main (\<lambda>_. 0xc0001500) (\<lambda>_. 0xc0002000) (\<lambda>_. 0) 0 machine = Inr s'"
    "map (\<lambda>t. task_name (tasks s' t)) [MAIN_PCB, a, b, p, q] =
      [''main'', ''kernel_thread_a'', ''kernel_thread_b'', ''user_prog_a'', ''user_prog_b'']"
    "\<forall>j. map (\<lambda>n. cur ((timer_tick ^^ (130 * j + n)) (cli s'))) [0, 2, 34, 66, 98] = [MAIN_PCB, a, b, p, q]"
    by (elim exE conjE) (rule that; assumption)
  have "cur ((timer_tick ^^ (130 * 7 + 98)) (cli s')) = q" using k(3) [rule_format, of 7] by (simp only: list.map list.inject)
  then show ?thesis using k(1,2) by (intro exI [of _ s'] exI [of _ q]) (simp del: funpow.simps)
qed

section \<open>The kernel threads\<close>

text \<open>The loop over cpu_delay; the result is the value of cpu_delay behind it.\<close>

function delay_loop :: "u32 \<Rightarrow> u32" where
  "delay_loop cpu_delay = (if 0 <s cpu_delay then delay_loop (cpu_delay - 1) else cpu_delay - 1)"
  by pat_completeness auto

termination
proof (relation "measure unat", simp_all)
  fix n :: u32 assume "0 <s n"
  then have "n \<noteq> 0" by auto
  then show "unat (n - 1) < unat n" by (simp add: unat_gt_0 unat_minus_one)
qed

declare delay_loop.simps [simp del]

text \<open>The body of k_thread_a and k_thread_b, which differ in the text they print.\<close>

definition k_thread_body :: "string \<Rightarrow> kstate \<Rightarrow> kstate kres" where
  "k_thread_body msg s =
     bindR (sys_malloc s 256) (\<lambda>(addr1, s1).
     bindR (sys_malloc s1 255) (\<lambda>(addr2, s2).
     bindR (sys_malloc s2 254) (\<lambda>(addr3, s3).
     bindR (console_put_str s3 msg) (\<lambda>s4.
     bindR (console_put_int s4 addr1) (\<lambda>s5.
     bindR (console_put_char s5 (of_char (CHR '',''))) (\<lambda>s6.
     bindR (console_put_int s6 addr2) (\<lambda>s7.
     bindR (console_put_char s7 (of_char (CHR '',''))) (\<lambda>s8.
     bindR (console_put_int s8 addr3) (\<lambda>s9.
     bindR (console_put_char s9 10) (\<lambda>s10.
       let cpu_delay = delay_loop 100000 in
       bindR (sys_free s10 addr1) (\<lambda>s11.
       bindR (sys_free s11 addr2) (\<lambda>s12. sys_free s12 addr3))))))))))))"

definition k_thread_a :: "u32 \<Rightarrow> kstate \<Rightarrow> kstate kres" where
  "k_thread_a arg = k_thread_body '' thread_a malloc addr:0x''"

definition k_thread_b :: "u32 \<Rightarrow> kstate \<Rightarrow> kstate kres" where
  "k_thread_b arg = k_thread_body '' thread_b malloc addr:0x''"

section \<open>The processes\<close>

text \<open>printf of lib/stdio.c as a process runs it: its buffer is at \<open>pbuf\<close> on the stack, write is the system call.\<close>

definition user_printf :: "kstate \<Rightarrow> u32 \<Rightarrow> u32 \<Rightarrow> (nat \<Rightarrow> u32) \<Rightarrow> (u32 \<times> kstate) kres" where
  "user_printf s pbuf format args =
     bindR (printf (\<lambda>m str. write_call (s\<lparr>mem := m\<rparr>) str) (mem s) pbuf format args) (\<lambda>(retval, (_, s1)). Inr (retval, s1))"

text \<open>
  C30. printf of a process reaches the screen. When the console is free and the buffer of 1024 bytes
  holds the rendered text and overlaps neither the format nor the strings it names, the text appears
  at the end of the screen, its length is returned, the buffer holds the text with a zero after it, and
  of the kernel's state only the screen and the bytes of memory have changed.
\<close>

theorem user_printf_prints:
  assumes "syscalls_ready s" "lock_free s CONSOLE_LOCK" "pbuf \<noteq> NULL"
    and "source (span pbuf 1024) (mem s) fmt f" "target (span pbuf 1024) pbuf (render strs args 0 f)"
    and "\<forall>a \<in> set (str_args args 0 f). a \<noteq> 0 \<and> source (span pbuf 1024) (mem s) a (strs a)"
  shows "\<exists>m. user_printf s pbuf fmt args = Inr (of_nat (length (render strs args 0 f)),
      s\<lparr>mem := m, screen := screen s @ render strs args 0 f\<rparr>) \<and> cstr m pbuf (render strs args 0 f)"
proof -
  let ?out = "render strs args 0 f" and ?wr = "\<lambda>m str. write_call (s\<lparr>mem := m\<rparr>) str"
  obtain m where m: "cstr m pbuf ?out"
    "printf ?wr (mem s) pbuf fmt args = bindR (?wr m pbuf) (\<lambda>r. Inr (of_nat (length ?out), r))"
    using printf_writes [OF assms(4-6), of ?wr] by blast
  let ?s = "s\<lparr>mem := m\<rparr>"
  have "syscalls_ready ?s" using assms(1) by (simp add: syscalls_ready_def)
  moreover have "lock_free ?s CONSOLE_LOCK" using assms(2) by (simp add: lock_free_def k_family_def)
  then have "sys_write ?s pbuf = Inr (of_nat (length ?out), ?s\<lparr>screen := screen ?s @ ?out\<rparr>)"
    by (intro sys_write_prints) (use m(1) assms(3) in simp_all)
  ultimately have "?wr m pbuf = Inr (Some (of_nat (length ?out)), ?s\<lparr>screen := screen s @ ?out\<rparr>)"
    using syscalls_reach_kernel by simp
  then show ?thesis using m by (intro exI [of _ m]) (simp add: user_printf_def)
qed

text \<open>A machine whose memory is that of the example of vsprintf, with the console and the system calls ready.\<close>

definition demo_user :: kstate where
  "demo_user = (syscall_init (console_init demo_state))\<lparr>mem := demo_bytes\<rparr>"

lemma demo_user_ready: "syscalls_ready demo_user" "lock_free demo_user CONSOLE_LOCK" "mem demo_user = demo_bytes"
proof -
  show "syscalls_ready demo_user" using syscall_init_ready by (simp add: demo_user_def syscalls_ready_def)
  let ?W = "sema_waiters (lock_semaphore CONSOLE_LOCK)"
  have "dl_family (dl_init (lheap demo_state) ?W) (Map.empty(?W \<mapsto> []))"
    by (rule dl_family_init) (simp_all add: dl_family_def)
  then have "k_family demo_user (Map.empty(?W \<mapsto> []))"
    by (simp add: k_family_def demo_user_def syscall_init_def console_init_def lock_init_sel Let_def put_str_def)
  then show "lock_free demo_user CONSOLE_LOCK"
    unfolding lock_free_def
    by (intro conjI exI [of _ "Map.empty(?W \<mapsto> [])"])
      (simp_all add: demo_user_def syscall_init_def Let_def put_str_def console_init_def lock_init_sel, simp add: demo_state_def T1_def)
qed (simp add: demo_user_def)

lemma user_printf_prints_witness:
  "\<exists>m. user_printf demo_user 1000 100 demo_args = Inr (5, demo_user\<lparr>mem := m, screen := screen demo_user @ [97, 45, 49, 55, 120]\<rparr>)"
  using user_printf_prints [OF demo_user_ready(1,2), of 1000 100 demo_format "\<lambda>_. [120]" demo_args]
    demo_printf demo_source_target(4) by (auto simp: demo_user_ready(3) demo_render)

text \<open>The arguments of the calls: an address and a newline.\<close>

definition addr_nl :: "u32 \<Rightarrow> nat \<Rightarrow> u32" where
  "addr_nl a k = (if k = 0 then a else 10)"

text \<open>
  The bodies of u_prog_a and u_prog_b, which differ in the texts they print: one for malloc, three for free.
\<close>

definition u_prog_body :: "u32 \<Rightarrow> u32 \<Rightarrow> u32 \<Rightarrow> u32 \<Rightarrow> u32 \<Rightarrow> kstate \<Rightarrow> kstate kres" where
  "u_prog_body pbuf fmt_malloc fmt_free1 fmt_free2 fmt_free3 s =
     bindR (malloc s 256) (\<lambda>(addr1, s1).
     bindR (user_printf s1 pbuf fmt_malloc (addr_nl (the addr1))) (\<lambda>(_, s2).
     bindR (malloc s2 255) (\<lambda>(addr2, s3).
     bindR (user_printf s3 pbuf fmt_malloc (addr_nl (the addr2))) (\<lambda>(_, s4).
     bindR (malloc s4 254) (\<lambda>(addr3, s5).
     bindR (user_printf s5 pbuf fmt_malloc (addr_nl (the addr3))) (\<lambda>(_, s6).
       let cpu_delay = delay_loop 100000 in
       bindR (free_call s6 (the addr1)) (\<lambda>s7.
       bindR (user_printf s7 pbuf fmt_free1 (addr_nl (the addr1))) (\<lambda>(_, s8).
       bindR (free_call s8 (the addr2)) (\<lambda>s9.
       bindR (user_printf s9 pbuf fmt_free2 (addr_nl (the addr2))) (\<lambda>(_, s10).
       bindR (free_call s10 (the addr3)) (\<lambda>s11.
       bindR (user_printf s11 pbuf fmt_free3 (addr_nl (the addr3))) (\<lambda>(_, s12). Inr s12))))))))))))"

definition u_prog_a :: "(string \<Rightarrow> u32) \<Rightarrow> u32 \<Rightarrow> kstate \<Rightarrow> kstate kres" where
  "u_prog_a lit pbuf =
     (let f = lit '' prog_a free addr:0x%x%c'' in u_prog_body pbuf (lit '' prog_a malloc addr:0x%x%c'') f f f)"

definition u_prog_b :: "(string \<Rightarrow> u32) \<Rightarrow> u32 \<Rightarrow> kstate \<Rightarrow> kstate kres" where
  "u_prog_b lit pbuf =
     u_prog_body pbuf (lit '' prog_b malloc addr:0x%x%c'') (lit '' prog_b free addr 0x%x%c'')
       (lit '' prog_b free addr0x%x%c'') (lit '' prog_b free addr0x%x%c'')"

end
