(* ===== verification/Spec2Isabelle.thy ===== *)
theory Spec2Isabelle
  imports Lock_Protocol List_Props Heap_Inv Ide Kernel_Main
begin

text \<open>
  A model of a small x86-32 teaching kernel: interrupts and drivers, memory management, threads,
  processes and system calls, from the C sources under src/.

  State. A kernel without address space of its own is one machine, so the model has one record,
  \<open>kstate\<close> of Kernel_State: the interrupt flag, the byte memory \<open>mem\<close> (bitmaps, strings), the
  physical words \<open>phys\<close> with \<open>cr3\<close> (page directories and tables), the heap of list nodes, the heaps
  of PCBs, semaphores, locks, arenas and block descriptors by address, the ring of the keyboard, the
  tables of the processor, a log of what is printed and one of what is sent to ports. Global variables have
  the addresses of the link map. A function of the kernel is a function from a state to a result,
  \<open>kres\<close>: a normal return, or one of the ways in which a C function of a kernel does not return (a
  failed ASSERT, a PANIC, a page fault, a division by zero, an endless loop, a switch to another
  thread). \<open>cur\<close> stands for the stack pointer, from which running_thread takes the current PCB.

  Theories and sources.
    OS_Prelude, Kernel_State: stdint.h, debug.h, global.h, the structures of all headers;
    DList: lib/kernel/list.c on raw nodes; Interrupts: the flag operations of kernel/interrupt.c
      and list.c on the kernel state;
    CString: lib/string.c; Bitmap: lib/kernel/bitmap.c; Stdio: lib/stdio.c;
    Paging, Mem_Pool, Page_Map, Page_Alloc, Memory_Props: the page tables, pools and page
      allocation of kernel/memory.c; Kernel_Pages: get_kernel_pages as its callers see it;
      Heap, Heap_Props, Heap_Blocks: the arenas, sys_malloc, sys_free;
    Sched, Threads: thread/thread.c with the activation part of userprog/process.c and tss.c;
      Spaces: who shares which page directory; Thread_Props: thread_start in the state of the
      whole kernel;
    Sync, Lock_Protocol: thread/sync.c; Output: device/console.c and kernel/debug.c;
    IOQueue, Keyboard, Timer: device/ioqueue.c, keyboard.c, timer.c; Ide: device/ide.c;
    Idt: the descriptor table and the interrupt controller of kernel/interrupt.c;
    Tss, Process, Syscall: userprog/tss.c, process.c, syscall-init.c with lib/user/syscall.c;
      Process_Props: process_execute in the state of the whole kernel; User_Start: start_process,
      which the new thread runs to become the process, and get_a_page;
    Boot: the page tables that boot/loader.S leaves, and mem_init and thread_init on them;
    Kernel_Init: kernel/init.c and the dispatch of interrupts in kernel/kernel.S;
      Start_Props: init_all on the state that the boot leaves; Heap_Inv: the kernel's heap in the
      state of the whole kernel;
    Kernel_Main: kernel/main.c with the threads and processes it starts;
    List_Props: every function of list.c against the operations on lists it stands for.

  Interfaces. \<open>intrusive_lists\<close> (DList) is the contract of list.c: each operation acts on a map from
  list addresses to lists of nodes. It is interpreted on the raw heap and on the kernel state, and
  the scheduler, the semaphores and the heap reason with its facts. \<open>bit_allocator\<close> (Bitmap) is
  what memory.c relies on when it searches and sets bits. \<open>bounded_fifo\<close> (IOQueue) is a bounded queue,
  interpreted on the ring buffer.

  What the lemmas show.
    Lists: every operation keeps the family of lists well linked and acts on it as on lists.
    Scheduler: \<open>sched_inv\<close> ties the ready queue, the states of the PCBs and the page directories
      together; schedule, thread_block and thread_unblock keep it and fail no assertion under it;
      round robin, fairness over k switches, the length of the time slice, and that the ticks of the
      timer run all threads in turn for ever.
    Locks: a step relation interleaves the statements of lock_acquire and lock_release of
      any number of threads with timer interrupts; mutual exclusion, no lost wake-up, no failed
      assertion and progress hold in every reachable configuration; the statements compose to the
      functions of sync.c.
    Paging: \<open>mmu_walk\<close> is the processor's two level walk, through which every access to a page table
      goes, at the addresses that pte_ptr and pde_ptr compute over the recursive slot; under
      \<open>pt_wf\<close> mapping and unmapping a page change the walk at that page only.
    Pages: with free bits in the map of addresses and free frames in the pool (\<open>vpool_inv\<close>,
      \<open>phys_inv\<close>, \<open>roomy\<close>), malloc_page maps a run of fresh pages to fresh frames and mfree_page undoes
      it; get_a_page maps the one page asked for.
    Heap: the arithmetic of arenas and blocks; sys_malloc and sys_free on a free list. \<open>heap_ok\<close> (Heap_Inv)
      is the invariant of arenas, blocks and free lists; under it every sys_malloc of at most 1024
      bytes by a kernel thread returns a zeroed block of the right size that was not in use, and
      every sys_free of a block in use returns and gives an empty page back.
    Whole kernel: \<open>kernel_inv\<close> (Thread_Props) joins the invariants of pools, page tables, locks and
      lists; \<open>system_inv\<close> joins it with \<open>sched_inv\<close> and with \<open>spaces\<close>, by which every process has a page
      directory of its own that shares the kernel's half. The boot and init_all establish it;
      thread_start and process_execute return, keep it and leave one more READY thread at the end of
      the ready queue, whatever processes there are; start_process gives the new process its stack
      and the frame with which it enters ring 3; main reaches its loop with its two threads and two
      processes READY, and from there the timer runs all five in turn.
    Bitmaps and strings: the functional behaviour of every routine, with the places where it is
      not the intended one.
    Drivers: the ring is a queue of 63 places; what a key types. \<open>disk_run\<close> (Ide) is a disk that reads
      the log of the ports; ide_write leaves the buffer on it and nothing else changed, whether
      the disk interrupts before the driver waits or after it has blocked.
    Formatted output: itoa is inverted by reading digits, vsprintf agrees with the reference
      \<open>render\<close>.
    Tables: gates and segment descriptors are read back as the processor decodes them.

  Loops. A loop over memory without a bound (the string routines, the wait of a semaphore, itoa,
  ticks_to_sleep) is a partial function whose \<open>None\<close> is an endless loop, and the theorems prove that
  it returns. All other loops are total recursions; no fuel is used anywhere.

  Sequences and interrupts. A function is a sequence of its effects. Interrupts come between the
  statements of the lock protocol, at every tick of the time slice and where the disk driver waits;
  elsewhere no interrupt is taken, so that main, which enables them before it starts its threads,
  is modelled as running to its loop without a tick. The ticks that come then act on the scheduler
  alone: what the threads do in their turns is not interleaved with them.

  Not modelled. Of device/ide.c, which the makefile does not build, read_from_sector does not
  compile (insw is called without the buffer), nor does one call of inb in busy_wait (it has two
  arguments), and printk and sprintf do not exist: these are arguments of the definitions, as is the
  status register that inb reads. thread_yield, which no file defines, is an
  argument too, and so are the addresses that the linker gives to functions and literals. The
  assembly appears only through what it does to the modelled state: the page tables that loader.S
  builds, the characters print.S writes, the thread to which switch.S changes, the function
  that kernel.S calls. Registers saved by an interrupt, the TLB (with the invlpg of page_table_pte_remove), the cursor, the hardware's
  acknowledgement of interrupts and the rest of the boot sector are not part of the state.
  thread/sync_sample.cpp and kernel/main.S are left over from development. One physical word belongs to
  page tables only; typed structures and bytes do not alias, and bytes are one flat memory.
\<close>

end
